(* ===== verification/Prelude.thy ===== *)
theory Prelude
  imports Main "HOL-Library.AList" "HOL-Library.Multiset"
begin

text \<open>
  Shared vocabulary of the development: the Python exceptions the modelled code raises, a
  state-and-exception monad for the operations that mutate the engine and may raise (the
  state survives a raise, as it does in Python), Hoare-style rules for it, insertion-ordered
  dictionaries as association lists, and the list and multiset lemmas that the component
  theories share.
\<close>

named_theorems pym_simps \<open>evaluation rules of the state-and-exception monad\<close>
named_theorems wp \<open>weakest-precondition rules of the state-and-exception monad\<close>

section \<open>Exceptions and the state-and-exception monad\<close>

datatype py_error =
    KeyError | IndexError | ValueError | AssertionError | RuntimeError
  | OverflowError | TimeoutError | AttributeError | TypeError | OutOfFuel

text \<open>\<open>OutOfFuel\<close> is not a Python exception: it is what a loop whose model carries a bound gives when the bound is reached, so that
  not returning shows as a result. Every use of a bound comes with a lemma that the bound is enough.\<close>

type_synonym 'a result = "py_error + 'a"
type_synonym ('s, 'a) pym = "'s \<Rightarrow> 'a result \<times> 's"

definition retM :: "'a \<Rightarrow> ('s, 'a) pym" where
  "retM x = (\<lambda>s. (Inr x, s))"

definition raiseM :: "py_error \<Rightarrow> ('s, 'a) pym" where
  "raiseM e = (\<lambda>s. (Inl e, s))"

definition bindM :: "('s, 'a) pym \<Rightarrow> ('a \<Rightarrow> ('s, 'b) pym) \<Rightarrow> ('s, 'b) pym" where
  "bindM m f = (\<lambda>s. case m s of (Inl e, s') \<Rightarrow> (Inl e, s') | (Inr x, s') \<Rightarrow> f x s')"

definition getsM :: "('s \<Rightarrow> 'a) \<Rightarrow> ('s, 'a) pym" where
  "getsM f = (\<lambda>s. (Inr (f s), s))"

definition modifyM :: "('s \<Rightarrow> 's) \<Rightarrow> ('s, unit) pym" where
  "modifyM f = (\<lambda>s. (Inr (), f s))"

definition assertM :: "bool \<Rightarrow> ('s, unit) pym" where
  "assertM b = (if b then retM () else raiseM AssertionError)"

definition liftM :: "'a result \<Rightarrow> ('s, 'a) pym" where
  "liftM r = (\<lambda>s. (r, s))"

definition optM :: "py_error \<Rightarrow> 'a option \<Rightarrow> ('s, 'a) pym" where
  "optM e x = (case x of None \<Rightarrow> raiseM e | Some y \<Rightarrow> retM y)"

definition tryM :: "('s, 'a) pym \<Rightarrow> (py_error \<Rightarrow> ('s, 'a) pym) \<Rightarrow> ('s, 'a) pym" where
  "tryM m h = (\<lambda>s. case m s of (Inl e, s') \<Rightarrow> h e s' | (Inr x, s') \<Rightarrow> (Inr x, s'))"

fun foldM :: "('b \<Rightarrow> 'a \<Rightarrow> ('s, 'b) pym) \<Rightarrow> 'b \<Rightarrow> 'a list \<Rightarrow> ('s, 'b) pym" where
  "foldM f b [] = retM b"
| "foldM f b (x # xs) = bindM (f b x) (\<lambda>b'. foldM f b' xs)"

lemma retM_app [simp, pym_simps]: "retM x s = (Inr x, s)"
  by (simp add: retM_def)

lemma raiseM_app [simp, pym_simps]: "raiseM e s = (Inl e, s)"
  by (simp add: raiseM_def)

lemma getsM_app [simp, pym_simps]: "getsM f s = (Inr (f s), s)"
  by (simp add: getsM_def)

lemma modifyM_app [simp, pym_simps]: "modifyM f s = (Inr (), f s)"
  by (simp add: modifyM_def)

lemma liftM_app [simp, pym_simps]: "liftM r s = (r, s)"
  by (simp add: liftM_def)

lemma assertM_app [simp, pym_simps]:
  "assertM b s = (if b then (Inr (), s) else (Inl AssertionError, s))"
  by (simp add: assertM_def)

lemma optM_simps [simp, pym_simps]:
  "optM e None = raiseM e" "optM e (Some x) = retM x"
  by (simp_all add: optM_def)

lemma bindM_app [pym_simps]:
  "bindM m f s = (case m s of (Inl e, s') \<Rightarrow> (Inl e, s') | (Inr x, s') \<Rightarrow> f x s')"
  by (simp add: bindM_def)

lemma tryM_app [pym_simps]:
  "tryM m h s = (case m s of (Inl e, s') \<Rightarrow> h e s' | (Inr x, s') \<Rightarrow> (Inr x, s'))"
  by (simp add: tryM_def)

lemma bindM_laws [simp]:
  "bindM (retM x) f = f x"
  "bindM (raiseM e) f = raiseM e"
  "bindM m retM = m"
  by (auto simp: bindM_def fun_eq_iff split: prod.splits sum.splits)

lemma bindM_assoc: "bindM (bindM m f) g = bindM m (\<lambda>x. bindM (f x) g)"
  by (auto simp: bindM_def fun_eq_iff split: prod.splits sum.splits)

lemma bindM_state [simp]:
  "bindM (getsM f) g s = g (f s) s"
  "bindM (modifyM h) k s = k () (h s)"
  "bindM (liftM (Inr x)) g s = g x s"
  "bindM (liftM (Inl e)) g s = (Inl e, s)"
  by (simp_all add: bindM_def)

lemma bindM_Inr_iff:
  "bindM m f s = (Inr y, t) \<longleftrightarrow> (\<exists>x u. m s = (Inr x, u) \<and> f x u = (Inr y, t))"
  by (auto simp: bindM_def split: prod.splits sum.splits)

lemma bindM_InrE:
  assumes "bindM m f s = (Inr y, t)"
  obtains x u where "m s = (Inr x, u)" "f x u = (Inr y, t)"
  using assms by (auto simp: bindM_Inr_iff)

lemma bindM_InrI: "m s = (Inr x, u) \<Longrightarrow> bindM m f s = f x u"
  by (simp add: bindM_def)

lemma foldM_append: "foldM f b (xs @ ys) = bindM (foldM f b xs) (\<lambda>b'. foldM f b' ys)"
  by (induction xs arbitrary: b) (simp_all add: bindM_assoc)

subsection \<open>Hoare triples with an exceptional postcondition\<close>

text \<open>
  \<open>hoare P m Q E\<close>: from a state in \<open>P\<close>, a normal return of \<open>m\<close> with value \<open>x\<close> ends in a state
  where \<open>Q x\<close> holds, and a raise of \<open>e\<close> ends in a state where \<open>E e\<close> holds. Every computation of the
  monad is total, so nothing is said about divergence; \<open>E = (\<lambda>_ _. False)\<close> says no raise happens.
\<close>

definition hoare ::
  "('s \<Rightarrow> bool) \<Rightarrow> ('s, 'a) pym \<Rightarrow> ('a \<Rightarrow> 's \<Rightarrow> bool) \<Rightarrow> (py_error \<Rightarrow> 's \<Rightarrow> bool) \<Rightarrow> bool" where
  "hoare P m Q E \<longleftrightarrow>
     (\<forall>s. P s \<longrightarrow> (case m s of (Inl e, s') \<Rightarrow> E e s' | (Inr x, s') \<Rightarrow> Q x s'))"

lemma hoareD_Inr: "hoare P m Q E \<Longrightarrow> P s \<Longrightarrow> m s = (Inr x, s') \<Longrightarrow> Q x s'"
  by (force simp: hoare_def)

lemma hoareD_Inl: "hoare P m Q E \<Longrightarrow> P s \<Longrightarrow> m s = (Inl e, s') \<Longrightarrow> E e s'"
  by (force simp: hoare_def)

lemma hoare_total:
  assumes "hoare P m Q (\<lambda>_ _. False)" "P s"
  obtains x s' where "m s = (Inr x, s')" "Q x s'"
  using assms by (cases "m s"; cases "fst (m s)") (force simp: hoare_def)+

lemma hoareI:
  assumes "\<And>s x s'. P s \<Longrightarrow> m s = (Inr x, s') \<Longrightarrow> Q x s'"
    and "\<And>s e s'. P s \<Longrightarrow> m s = (Inl e, s') \<Longrightarrow> E e s'"
  shows "hoare P m Q E"
  using assms by (auto simp: hoare_def split: prod.splits sum.splits)

lemma hoare_weaken:
  assumes "hoare P' m Q' E'"
    and "\<And>s. P s \<Longrightarrow> P' s" and "\<And>x s. Q' x s \<Longrightarrow> Q x s" and "\<And>e s. E' e s \<Longrightarrow> E e s"
  shows "hoare P m Q E"
  using assms by (fastforce simp: hoare_def split: prod.splits sum.splits)

lemma hoare_ret [wp]: "hoare (Q x) (retM x) Q E"
  by (simp add: hoare_def)

lemma hoare_raise [wp]: "hoare (E e) (raiseM e) Q E"
  by (simp add: hoare_def)

lemma hoare_gets [wp]: "hoare (\<lambda>s. Q (f s) s) (getsM f) Q E"
  by (simp add: hoare_def)

lemma hoare_modify [wp]: "hoare (\<lambda>s. Q () (f s)) (modifyM f) Q E"
  by (simp add: hoare_def)

lemma hoare_bind:
  assumes "hoare P m R E" and "\<And>x. hoare (R x) (f x) Q E"
  shows "hoare P (bindM m f) Q E"
  unfolding hoare_def
proof (intro allI impI)
  fix s
  assume P: "P s"
  obtain r s1 where m: "m s = (r, s1)"
    by fastforce
  show "case bindM m f s of (Inl e, s') \<Rightarrow> E e s' | (Inr x, s') \<Rightarrow> Q x s'"
  proof (cases r)
    case (Inl e)
    then show ?thesis
      using assms(1) P m by (force simp: bindM_def hoare_def)
  next
    case (Inr x)
    then have "R x s1"
      using hoareD_Inr [OF assms(1) P] m by simp
    then show ?thesis
      using assms(2) [of x] Inr m by (simp add: bindM_def hoare_def)
  qed
qed

lemma hoare_foldM:
  assumes "\<And>b x. x \<in> set xs \<Longrightarrow> hoare (I b) (f b x) I E"
  shows "hoare (I b) (foldM f b xs) I E"
  using assms
proof (induction xs arbitrary: b)
  case Nil
  show ?case by (auto simp: hoare_def)
next
  case (Cons x xs)
  show ?case
    by (auto intro!: hoare_bind [where R = I] Cons)
qed

section \<open>Insertion-ordered dictionaries\<close>

text \<open>
  A Python dictionary is an association list with distinct keys in insertion order.
  \<open>AList.update\<close> overwrites a present key in place and appends a new one, which is what
  \<open>d[k] = v\<close> does; \<open>AList.delete\<close> is \<open>del d[k]\<close>; \<open>map_of\<close> is \<open>d.get(k)\<close>.
\<close>

type_synonym ('k, 'v) dict = "('k \<times> 'v) list"

abbreviation dict_ok :: "('k, 'v) dict \<Rightarrow> bool" where
  "dict_ok d \<equiv> distinct (map fst d)"

lemma dict_update_new: "map_of d k = None \<Longrightarrow> AList.update k v d = d @ [(k, v)]"
  by (induction d) (auto split: if_splits)

lemma dict_update_keys: "map fst (AList.update k v d) =
    (if k \<in> fst ` set d then map fst d else map fst d @ [k])"
  by (induction d) auto

lemma dict_ok_update [simp]: "dict_ok d \<Longrightarrow> dict_ok (AList.update k v d)"
  by (auto simp: dict_update_keys)

lemma dict_delete_split:
  assumes "dict_ok (xs @ (k, v) # ys)"
  shows "AList.delete k (xs @ (k, v) # ys) = xs @ ys"
  using assms by (induction xs) auto

lemma dict_ok_delete [simp]: "dict_ok d \<Longrightarrow> dict_ok (AList.delete k d)"
  by (simp add: AList.delete_keys distinct_removeAll)

lemma mset_dict_delete:
  assumes "dict_ok d" "map_of d k = Some v"
  shows "mset d = mset (AList.delete k d) + {#(k, v)#}"
  using assms
proof (induction d)
  case (Cons p d)
  then show ?case
    by (cases p) (auto split: if_splits)
qed simp

section \<open>Lists and multisets\<close>

lemma distinctD_count: "distinct xs \<Longrightarrow> count (mset xs) x \<le> 1"
  by (simp add: distinct_count_atmost_1)

lemma distinctI_count:
  assumes "\<And>x. count (mset xs) x \<le> 1"
  shows "distinct xs"
proof -
  have "count (mset xs) x = (if x \<in> set xs then 1 else 0)" for x
  proof (cases "x \<in> set xs")
    case True
    then have "count (mset xs) x \<noteq> 0"
      by (simp add: count_mset_0_iff)
    then have "count (mset xs) x = 1"
      using assms [of x] by linarith
    with True show ?thesis by simp
  qed (simp add: count_mset_0_iff)
  then show ?thesis
    by (simp add: distinct_count_atmost_1)
qed

lemma disjoint_from_count:
  assumes "\<And>x. count A x + count B x \<le> (1::nat)"
  shows "set_mset A \<inter> set_mset B = {}"
proof -
  have False if "x \<in># A" "x \<in># B" for x
    using assms [of x] that by (simp flip: count_greater_zero_iff)
  then show ?thesis by blast
qed

lemma mset_concat_map: "mset (concat (map f xs)) = (\<Sum>x\<in>#mset xs. mset (f x))"
  by (induction xs) auto

end
