(* ===== verification/Allocator.thy ===== *)
theory Allocator
  imports Prelude
begin

text \<open>
  The slot allocators of \<^verbatim>\<open>mem_cache/allocator\<close>: the free-list bookkeeping shared by every KV
  allocator (\<^verbatim>\<open>base.py\<close>), the token-granular \<^verbatim>\<open>TokenToKVPoolAllocator\<close> (\<^verbatim>\<open>token.py\<close>) and the
  \<^verbatim>\<open>MambaSlotAllocator\<close> (\<^verbatim>\<open>mamba.py\<close>). The contract their clients rely on is the locale
  \<open>slot_pool\<close>: what an allocation hands out leaves the pool, what is freed comes back, nothing
  is invented or lost. Both allocators are interpretations of it. KV slot numbers are naturals, mamba
  slot numbers integers (the request pool marks an absent one by -1); a tensor of slots is a list.
\<close>

section \<open>The free-list record of a KV allocator\<close>

record kv_alloc =
  al_size :: nat
  al_page_size :: nat
  need_sort :: bool
  free_pages :: "nat list"
  release_pages :: "nat list"
  is_not_in_free_group :: bool
  free_group :: "nat list list"

definition available_size :: "'a kv_alloc_scheme \<Rightarrow> nat" where
  "available_size a = (length (free_pages a) + length (release_pages a)) * al_page_size a"

definition backup_state :: "'a kv_alloc_scheme \<Rightarrow> nat list \<times> nat list" where
  "backup_state a = (free_pages a, release_pages a)"

definition restore_state ::
  "nat list \<times> nat list \<Rightarrow> 'a kv_alloc_scheme \<Rightarrow> 'a kv_alloc_scheme" where
  "restore_state st a = a\<lparr>free_pages := fst st, release_pages := snd st\<rparr>"

definition free_group_begin :: "'a kv_alloc_scheme \<Rightarrow> 'a kv_alloc_scheme" where
  "free_group_begin a = a\<lparr>is_not_in_free_group := False, free_group := []\<rparr>"

text \<open>\<open>free_group_end\<close> dispatches to the subclass's \<open>free\<close>, passed as the first argument. It leaves
  \<open>free_group\<close> as it is; only the next \<open>free_group_begin\<close> clears it.\<close>

definition free_group_end ::
  "(nat list \<Rightarrow> 'a kv_alloc_scheme \<Rightarrow> 'a kv_alloc_scheme) \<Rightarrow>
     'a kv_alloc_scheme \<Rightarrow> 'a kv_alloc_scheme" where
  "free_group_end free a =
     (let a1 = a\<lparr>is_not_in_free_group := True\<rparr>
      in if free_group a1 \<noteq> [] then free (concat (free_group a1)) a1 else a1)"

definition merge_and_sort_free :: "'a kv_alloc_scheme \<Rightarrow> 'a kv_alloc_scheme" where
  "merge_and_sort_free a =
     (if 0 < length (release_pages a)
      then a\<lparr>free_pages := sort (free_pages a @ release_pages a), release_pages := []\<rparr>
      else a)"

section \<open>TokenToKVPoolAllocator\<close>

definition token_clear :: "'a kv_alloc_scheme \<Rightarrow> 'a kv_alloc_scheme" where
  "token_clear a =
     a\<lparr>free_pages := [1..<al_size a + 1], is_not_in_free_group := True, free_group := [],
       release_pages := []\<rparr>"

definition token_init :: "nat \<Rightarrow> bool \<Rightarrow> kv_alloc" where
  "token_init sz srt =
     token_clear \<lparr>al_size = sz, al_page_size = 1, need_sort = srt, free_pages = [],
       release_pages = [], is_not_in_free_group = True, free_group = []\<rparr>"

definition token_available_size :: "'a kv_alloc_scheme \<Rightarrow> nat" where
  "token_available_size a = length (free_pages a) + length (release_pages a)"

definition token_alloc ::
  "nat \<Rightarrow> 'a kv_alloc_scheme \<Rightarrow> nat list option \<times> 'a kv_alloc_scheme" where
  "token_alloc need_size a =
     (let a1 = (if need_sort a \<and> need_size > length (free_pages a)
                then merge_and_sort_free a else a)
      in if need_size > length (free_pages a1) then (None, a1)
         else (Some (take need_size (free_pages a1)),
               a1\<lparr>free_pages := drop need_size (free_pages a1)\<rparr>))"

definition token_free :: "nat list \<Rightarrow> 'a kv_alloc_scheme \<Rightarrow> 'a kv_alloc_scheme" where
  "token_free free_index a =
     (if length free_index = 0 then a
      else if is_not_in_free_group a
      then (if need_sort a then a\<lparr>release_pages := release_pages a @ free_index\<rparr>
            else a\<lparr>free_pages := free_pages a @ free_index\<rparr>)
      else a\<lparr>free_group := free_group a @ [free_index]\<rparr>)"

section \<open>MambaSlotAllocator\<close>

record mamba_alloc =
  ma_size :: nat
  free_slots :: "int list"
  alloc_iter :: "int list option"

definition mamba_clear :: "mamba_alloc \<Rightarrow> mamba_alloc" where
  "mamba_clear m = m\<lparr>free_slots := map int [1..<ma_size m + 1]\<rparr>"

definition mamba_init :: "nat \<Rightarrow> mamba_alloc" where
  "mamba_init sz = mamba_clear \<lparr>ma_size = sz, free_slots = [], alloc_iter = None\<rparr>"

definition mamba_available_size :: "mamba_alloc \<Rightarrow> nat" where
  "mamba_available_size m = length (free_slots m)"

definition mamba_do_alloc :: "nat \<Rightarrow> mamba_alloc \<Rightarrow> int list option \<times> mamba_alloc" where
  "mamba_do_alloc need_size m =
     (if need_size > length (free_slots m) then (None, m)
      else (Some (take need_size (free_slots m)),
            m\<lparr>free_slots := drop need_size (free_slots m)\<rparr>))"

definition mamba_free :: "int list \<Rightarrow> mamba_alloc \<Rightarrow> mamba_alloc" where
  "mamba_free free_index m =
     (if length free_index = 0 then m else m\<lparr>free_slots := free_slots m @ free_index\<rparr>)"

definition mamba_alloc_slots :: "nat \<Rightarrow> mamba_alloc \<Rightarrow> int list option \<times> mamba_alloc" where
  "mamba_alloc_slots need_size m =
     (case alloc_iter m of
        Some (x # rest) \<Rightarrow>
          (if need_size = 1 then (Some [x], m\<lparr>alloc_iter := Some rest\<rparr>)
           else mamba_do_alloc need_size m)
      | _ \<Rightarrow> mamba_do_alloc need_size m)"

definition alloc_group_begin :: "nat \<Rightarrow> mamba_alloc \<Rightarrow> mamba_alloc" where
  "alloc_group_begin num_reqs m =
     (let m1 = m\<lparr>alloc_iter := None\<rparr>
      in if num_reqs > 0
         then (case mamba_do_alloc num_reqs m1 of
                 (None, m2) \<Rightarrow> m2
               | (Some xs, m2) \<Rightarrow> m2\<lparr>alloc_iter := Some xs\<rparr>)
         else m1)"

definition alloc_group_end :: "mamba_alloc \<Rightarrow> mamba_alloc" where
  "alloc_group_end m =
     (let m1 = (case alloc_iter m of
                  None \<Rightarrow> m
                | Some remaining \<Rightarrow>
                    (if remaining \<noteq> [] then mamba_free remaining (m\<lparr>alloc_iter := Some []\<rparr>)
                     else m))
      in m1\<lparr>alloc_iter := None\<rparr>)"

section \<open>The contract of a slot pool\<close>

text \<open>
  States a client can bring a pool into, with the multiset \<open>H\<close> of slots it holds: it allocates,
  frees only what it holds, and may run the pool's own maintenance steps \<open>aux\<close> (opening and closing a
  free group, pre-allocating a batch).
\<close>

inductive pool_reach ::
  "(nat \<Rightarrow> 's \<Rightarrow> 'x list option \<times> 's) \<Rightarrow> ('x list \<Rightarrow> 's \<Rightarrow> 's) \<Rightarrow> ('s \<Rightarrow> 's \<Rightarrow> bool) \<Rightarrow>
     's \<Rightarrow> 's \<Rightarrow> 'x multiset \<Rightarrow> bool"
  for alloc free aux s0 where
  reach_start: "pool_reach alloc free aux s0 s0 {#}"
| reach_alloc: "pool_reach alloc free aux s0 s H \<Longrightarrow> alloc n s = (Some xs, s') \<Longrightarrow>
     pool_reach alloc free aux s0 s' (H + mset xs)"
| reach_fail: "pool_reach alloc free aux s0 s H \<Longrightarrow> alloc n s = (None, s') \<Longrightarrow>
     pool_reach alloc free aux s0 s' H"
| reach_free: "pool_reach alloc free aux s0 s H \<Longrightarrow> mset xs \<subseteq># H \<Longrightarrow>
     pool_reach alloc free aux s0 (free xs s) (H - mset xs)"
| reach_aux: "pool_reach alloc free aux s0 s H \<Longrightarrow> aux s s' \<Longrightarrow>
     pool_reach alloc free aux s0 s' H"

locale slot_pool =
  fixes alloc :: "nat \<Rightarrow> 's \<Rightarrow> 'x list option \<times> 's"
    and free :: "'x list \<Rightarrow> 's \<Rightarrow> 's"
    and available :: "'s \<Rightarrow> nat"
    and owned :: "'s \<Rightarrow> 'x multiset"
    and invar :: "'s \<Rightarrow> bool"
    and aux :: "'s \<Rightarrow> 's \<Rightarrow> bool"
  assumes alloc_SomeD:
      "invar s \<Longrightarrow> alloc n s = (Some xs, s') \<Longrightarrow>
         invar s' \<and> length xs = n \<and> owned s = mset xs + owned s'"
    and alloc_NoneD:
      "invar s \<Longrightarrow> alloc n s = (None, s') \<Longrightarrow>
         invar s' \<and> owned s' = owned s \<and> available s < n"
    and free_owned: "invar s \<Longrightarrow> invar (free xs s) \<and> owned (free xs s) = owned s + mset xs"
    and aux_owned: "invar s \<Longrightarrow> aux s s' \<Longrightarrow> invar s' \<and> owned s' = owned s"
begin

lemma alloc_total:
  assumes "invar s" "n \<le> available s"
  obtains xs s' where "alloc n s = (Some xs, s')"
proof -
  obtain r s' where al: "alloc n s = (r, s')"
    by fastforce
  then have "r \<noteq> None"
    using alloc_NoneD [OF assms(1), of n s'] assms(2) by auto
  then show thesis
    using al that by blast
qed

lemma alloc_conserves:
  assumes "invar s" "alloc n s = (r, s')"
  shows "invar s' \<and> owned s = owned s' + (case r of None \<Rightarrow> {#} | Some xs \<Rightarrow> mset xs)"
proof (cases r)
  case None
  with assms alloc_NoneD [of s n s'] show ?thesis by simp
next
  case (Some xs)
  with assms alloc_SomeD [of s n xs s'] show ?thesis by (simp add: union_commute)
qed

lemma alloc_fresh:
  assumes inv: "invar s" and al: "alloc n s = (Some xs, s')"
    and once: "\<And>x. count (owned s + H) x \<le> 1"
  shows "distinct xs \<and> set xs \<inter> set_mset H = {} \<and> set xs \<inter> set_mset (owned s') = {}"
proof -
  have split: "owned s = mset xs + owned s'"
    using alloc_SomeD [OF inv al] by simp
  have once': "count (mset xs) x + count (owned s') x + count H x \<le> 1" for x
    using once [of x] by (simp add: split)
  have "count (mset xs) x \<le> 1" for x
    using once' [of x] by linarith
  then have "distinct xs"
    by (rule distinctI_count)
  moreover have "set_mset (mset xs) \<inter> set_mset H = {}"
  proof (rule disjoint_from_count)
    show "count (mset xs) x + count H x \<le> 1" for x
      using once' [of x] by linarith
  qed
  moreover have "set_mset (mset xs) \<inter> set_mset (owned s') = {}"
  proof (rule disjoint_from_count)
    show "count (mset xs) x + count (owned s') x \<le> 1" for x
      using once' [of x] by linarith
  qed
  ultimately show ?thesis
    by simp
qed

lemma reach_conserves:
  assumes "invar s0" and "pool_reach alloc free aux s0 s H"
  shows "invar s \<and> owned s + H = owned s0"
  using assms(2)
proof (induction rule: pool_reach.induct)
  case reach_start
  then show ?case using assms(1) by simp
next
  case (reach_alloc s H n xs s')
  then have "owned s = mset xs + owned s'" "invar s'"
    using alloc_SomeD [of s n xs s'] by blast+
  then show ?case
    using reach_alloc.IH by (simp add: union_assoc union_commute union_lcomm)
next
  case (reach_fail s H n s')
  then show ?case using alloc_NoneD [of s n s'] by simp
next
  case (reach_free s H xs)
  then show ?case using free_owned [of s xs] by (simp add: subset_mset.add_diff_inverse)
next
  case (reach_aux s H s')
  then show ?case using aux_owned [of s s'] by simp
qed

text \<open>With every slot owned once at the start, no slot is ever held twice or held while free.\<close>

lemma reach_exclusive:
  assumes "invar s0" and "pool_reach alloc free aux s0 s H"
    and "owned s0 = mset us" and "distinct us"
  shows "(\<forall>x. count H x \<le> 1) \<and> set_mset H \<subseteq> set us \<and> set_mset H \<inter> set_mset (owned s) = {}"
proof -
  have eq: "owned s + H = mset us"
    using reach_conserves [OF assms(1,2)] assms(3) by simp
  have once: "count H x + count (owned s) x \<le> 1" for x
    using distinctD_count [OF assms(4), of x] by (simp flip: eq)
  have "count H x \<le> 1" for x
    using once [of x] by linarith
  moreover have "set_mset H \<subseteq> set us"
    using arg_cong [OF eq, of set_mset] by auto
  moreover have "set_mset H \<inter> set_mset (owned s) = {}"
    by (rule disjoint_from_count) (rule once)
  ultimately show ?thesis by simp
qed

end

section \<open>Both allocators meet the contract\<close>

definition token_owned :: "'a kv_alloc_scheme \<Rightarrow> nat multiset" where
  "token_owned a = mset (free_pages a) + mset (release_pages a) +
     (if is_not_in_free_group a then {#} else mset (concat (free_group a)))"

definition token_invar :: "'a kv_alloc_scheme \<Rightarrow> bool" where
  "token_invar a \<longleftrightarrow> need_sort a \<or> release_pages a = []"

text \<open>The maintenance steps of the token allocator: a free group is opened outside one and closed
  inside one, and the free lists may be merged and sorted at any time.\<close>

definition token_aux :: "'a kv_alloc_scheme \<Rightarrow> 'a kv_alloc_scheme \<Rightarrow> bool" where
  "token_aux a b \<longleftrightarrow>
     is_not_in_free_group a \<and> b = free_group_begin a \<or>
     \<not> is_not_in_free_group a \<and> b = free_group_end token_free a \<or>
     b = merge_and_sort_free a"

lemma merge_and_sort_owned [simp]:
  "token_owned (merge_and_sort_free a) = token_owned a"
  "need_sort (merge_and_sort_free a) = need_sort a"
  "al_size (merge_and_sort_free a) = al_size a"
  "is_not_in_free_group (merge_and_sort_free a) = is_not_in_free_group a"
  "token_invar a \<Longrightarrow> token_invar (merge_and_sort_free a)"
  "length (free_pages (merge_and_sort_free a)) = token_available_size a"
  by (simp_all add: merge_and_sort_free_def token_owned_def token_invar_def
      token_available_size_def)

lemma token_free_owned:
  "token_invar a \<Longrightarrow> token_invar (token_free xs a) \<and> token_owned (token_free xs a) = token_owned a + mset xs"
  by (auto simp: token_free_def token_owned_def token_invar_def union_ac)

lemma token_group_end_owned:
  assumes "token_invar a" "\<not> is_not_in_free_group a"
  shows "token_invar (free_group_end token_free a) \<and>
    token_owned (free_group_end token_free a) = token_owned a"
  using assms
  by (auto simp: free_group_end_def token_free_def token_owned_def token_invar_def Let_def union_ac)

lemma token_alloc_Some:
  assumes "token_invar a" "token_alloc n a = (Some xs, b)"
  shows "token_invar b \<and> length xs = n \<and> token_owned a = mset xs + token_owned b"
proof -
  define a1 where "a1 = (if need_sort a \<and> n > length (free_pages a) then merge_and_sort_free a else a)"
  have a1: "token_owned a1 = token_owned a" "token_invar a1"
    using assms(1) by (simp_all add: a1_def)
  have b: "n \<le> length (free_pages a1)" "xs = take n (free_pages a1)"
    "b = a1\<lparr>free_pages := drop n (free_pages a1)\<rparr>"
    using assms(2) by (auto simp: token_alloc_def a1_def Let_def split: if_splits)
  have "mset (free_pages a1) = mset xs + mset (free_pages b)"
    by (simp add: b flip: mset_append)
  then have "token_owned a1 = mset xs + token_owned b"
    by (simp add: token_owned_def b(3))
  then show ?thesis
    using a1 b by (simp add: token_invar_def)
qed

interpretation tk: slot_pool token_alloc token_free token_available_size token_owned token_invar token_aux
proof
  fix s s' :: "'a kv_alloc_scheme" and n xs
  assume "token_invar s" "token_alloc n s = (Some xs, s')"
  then show "token_invar s' \<and> length xs = n \<and> token_owned s = mset xs + token_owned s'"
    by (rule token_alloc_Some)
next
  fix s s' :: "'a kv_alloc_scheme" and n
  assume "token_invar s" "token_alloc n s = (None, s')"
  then show "token_invar s' \<and> token_owned s' = token_owned s \<and> token_available_size s < n"
    using merge_and_sort_owned [of s]
    by (auto simp: token_alloc_def Let_def token_invar_def token_available_size_def split: if_splits)
next
  fix s :: "'a kv_alloc_scheme" and xs
  assume "token_invar s"
  then show "token_invar (token_free xs s) \<and> token_owned (token_free xs s) = token_owned s + mset xs"
    by (rule token_free_owned)
next
  fix s s' :: "'a kv_alloc_scheme"
  assume inv: "token_invar s" and aux: "token_aux s s'"
  have "token_invar (free_group_begin s) \<and> token_owned (free_group_begin s) = token_owned s"
    if "is_not_in_free_group s"
    using that inv by (simp add: free_group_begin_def token_owned_def token_invar_def)
  then show "token_invar s' \<and> token_owned s' = token_owned s"
    using aux inv token_group_end_owned [of s] by (auto simp: token_aux_def)
qed

definition mamba_owned :: "mamba_alloc \<Rightarrow> int multiset" where
  "mamba_owned m = mset (free_slots m) + mset (case alloc_iter m of None \<Rightarrow> [] | Some xs \<Rightarrow> xs)"

text \<open>An allocation group is opened only when no earlier one is active: \<open>alloc_group_begin\<close> forgets
  what an active group has not handed out.\<close>

definition mamba_aux :: "mamba_alloc \<Rightarrow> mamba_alloc \<Rightarrow> bool" where
  "mamba_aux m m' \<longleftrightarrow>
     (\<exists>n. alloc_iter m = None \<and> m' = alloc_group_begin n m) \<or> m' = alloc_group_end m"

lemma mamba_do_alloc_Some:
  assumes "mamba_do_alloc n m = (Some xs, m')"
  shows "length xs = n \<and> alloc_iter m' = alloc_iter m \<and> mset (free_slots m) = mset xs + mset (free_slots m')"
proof -
  have "mset (free_slots m) = mset (take n (free_slots m)) + mset (drop n (free_slots m))"
    by (simp flip: mset_append)
  then show ?thesis
    using assms by (auto simp: mamba_do_alloc_def split: if_splits)
qed

lemma mamba_do_alloc_None:
  "mamba_do_alloc n m = (None, m') \<Longrightarrow> m' = m \<and> length (free_slots m) < n"
  by (auto simp: mamba_do_alloc_def split: if_splits)

lemma mamba_free_owned [simp]: "mamba_owned (mamba_free xs m) = mamba_owned m + mset xs"
  by (simp add: mamba_free_def mamba_owned_def union_ac)

lemma alloc_group_begin_owned:
  assumes "alloc_iter m = None"
  shows "mamba_owned (alloc_group_begin n m) = mamba_owned m"
proof -
  obtain r m2 where "mamba_do_alloc n (m\<lparr>alloc_iter := None\<rparr>) = (r, m2)"
    by fastforce
  then show ?thesis
    using assms mamba_do_alloc_None [of n "m\<lparr>alloc_iter := None\<rparr>" m2]
      mamba_do_alloc_Some [of n "m\<lparr>alloc_iter := None\<rparr>" _ m2]
    by (cases r) (auto simp: alloc_group_begin_def mamba_owned_def Let_def union_ac)
qed

lemma alloc_group_end_owned: "mamba_owned (alloc_group_end m) = mamba_owned m"
  by (auto simp: alloc_group_end_def mamba_owned_def mamba_free_def Let_def split: option.splits)

interpretation mb: slot_pool mamba_alloc_slots mamba_free mamba_available_size mamba_owned
  "\<lambda>_. True" mamba_aux
proof
  fix s s' n xs
  assume "mamba_alloc_slots n s = (Some xs, s')"
  then show "True \<and> length xs = n \<and> mamba_owned s = mset xs + mamba_owned s'"
    using mamba_do_alloc_Some [of n s xs s']
    by (auto simp: mamba_alloc_slots_def mamba_owned_def union_ac
        split: option.splits list.splits if_splits)
next
  fix s s' n
  assume "mamba_alloc_slots n s = (None, s')"
  then show "True \<and> mamba_owned s' = mamba_owned s \<and> mamba_available_size s < n"
    using mamba_do_alloc_None [of n s s']
    by (auto simp: mamba_alloc_slots_def mamba_available_size_def
        split: option.splits list.splits if_splits)
next
  fix s s'
  assume "mamba_aux s s'"
  then show "True \<and> mamba_owned s' = mamba_owned s"
    by (auto simp: mamba_aux_def alloc_group_begin_owned alloc_group_end_owned)
qed simp_all

section \<open>Properties\<close>

lemma token_init_owned [simp]:
  "token_owned (token_init sz srt) = mset [1..<sz + 1]" "token_invar (token_init sz srt)"
  by (simp_all add: token_init_def token_clear_def token_owned_def token_invar_def)

lemma mamba_init_owned [simp]: "mamba_owned (mamba_init sz) = mset (map int [1..<sz + 1])"
  by (simp add: mamba_init_def mamba_clear_def mamba_owned_def)

text \<open>C11. However clients allocate from, free to, group and sort a token KV pool of \<open>sz\<close> slots, the slots
  it still owns and the slots handed out are together exactly the slots 1 to \<open>sz\<close>, each once: the padding
  slot 0 is never handed out, no slot is lost, none is handed out twice.\<close>

theorem token_pool_exclusive:
  assumes "pool_reach token_alloc token_free token_aux (token_init sz srt) s H"
  shows "token_owned s + H = mset [1..<sz + 1] \<and> (\<forall>x. count H x \<le> 1) \<and>
    set_mset H \<subseteq> {1..sz} \<and> set_mset H \<inter> set_mset (token_owned s) = {}"
proof -
  have "token_owned s + H = mset [1..<sz + 1]"
    using tk.reach_conserves [OF _ assms] by simp
  moreover have "(\<forall>x. count H x \<le> 1) \<and> set_mset H \<subseteq> set [1..<sz + 1] \<and>
      set_mset H \<inter> set_mset (token_owned s) = {}"
    by (rule tk.reach_exclusive [OF _ assms]) simp_all
  ultimately show ?thesis
    by auto
qed

theorem token_pool_exclusive_witness:
  "\<exists>s. pool_reach token_alloc token_free token_aux (token_init 3 True) s {#1, 2#} \<and>
     token_owned s + {#1, 2#} = mset [1..<3 + 1] \<and> set_mset {#1, 2#} \<subseteq> {1..3 :: nat}"
proof -
  define s where "s = snd (token_alloc 2 (token_init 3 True))"
  have "token_alloc 2 (token_init 3 True) = (Some [1, 2], s)"
    by (simp add: s_def token_alloc_def token_init_def token_clear_def upt_conv_Cons numeral_eq_Suc)
  then have "pool_reach token_alloc token_free token_aux (token_init 3 True) s ({#} + mset [1, 2])"
    by (rule pool_reach.reach_alloc [rotated]) (rule pool_reach.reach_start)
  then have "pool_reach token_alloc token_free token_aux (token_init 3 True) s {#1, 2#}"
    by simp
  from this token_pool_exclusive [OF this] show ?thesis
    by blast
qed

text \<open>C12. The mamba slot allocator keeps the same exclusivity across per-request and grouped
  allocation: slots held by requests, free slots and slots still pre-allocated to an open group partition
  1 to \<open>sz\<close>.\<close>

theorem mamba_pool_exclusive:
  assumes "pool_reach mamba_alloc_slots mamba_free mamba_aux (mamba_init sz) s H"
  shows "mamba_owned s + H = mset (map int [1..<sz + 1]) \<and> (\<forall>x. count H x \<le> 1) \<and>
    set_mset H \<subseteq> {1..int sz} \<and> set_mset H \<inter> set_mset (mamba_owned s) = {}"
proof -
  have "mamba_owned s + H = mset (map int [1..<sz + 1])"
    using mb.reach_conserves [OF _ assms] by simp
  moreover have "(\<forall>x. count H x \<le> 1) \<and> set_mset H \<subseteq> set (map int [1..<sz + 1]) \<and>
      set_mset H \<inter> set_mset (mamba_owned s) = {}"
    by (rule mb.reach_exclusive [OF _ assms]) (simp_all add: distinct_map del: upt_Suc)
  ultimately show ?thesis
    by auto
qed

theorem mamba_pool_exclusive_witness:
  "\<exists>s. pool_reach mamba_alloc_slots mamba_free mamba_aux (mamba_init 4) s {#1#} \<and>
     alloc_iter s = Some [2] \<and> mamba_owned s + {#1#} = mset (map int [1..<4 + 1])"
proof -
  define g where "g = alloc_group_begin 2 (mamba_init 4)"
  define s where "s = snd (mamba_alloc_slots 1 g)"
  have "mamba_aux (mamba_init 4) g"
    by (auto simp: mamba_aux_def g_def mamba_init_def mamba_clear_def)
  then have g: "pool_reach mamba_alloc_slots mamba_free mamba_aux (mamba_init 4) g {#}"
    by (rule pool_reach.reach_aux [rotated]) (rule pool_reach.reach_start)
  have al: "mamba_alloc_slots 1 g = (Some [1], s)" and it: "alloc_iter s = Some [2]"
    by (simp_all add: s_def g_def mamba_alloc_slots_def alloc_group_begin_def mamba_do_alloc_def
        mamba_init_def mamba_clear_def upt_conv_Cons numeral_eq_Suc)
  from g al have "pool_reach mamba_alloc_slots mamba_free mamba_aux (mamba_init 4) s ({#} + mset [1])"
    by (rule pool_reach.reach_alloc)
  then have "pool_reach mamba_alloc_slots mamba_free mamba_aux (mamba_init 4) s {#1#}"
    by simp
  from this mamba_pool_exclusive [OF this] it show ?thesis
    by blast
qed

text \<open>A token allocation fails exactly when more slots are asked for than are free, counting the
  slots released since the last sort.\<close>

lemma token_alloc_fails_iff:
  assumes "token_invar a"
  shows "fst (token_alloc n a) = None \<longleftrightarrow> token_available_size a < n"
proof
  assume "fst (token_alloc n a) = None"
  then show "token_available_size a < n"
    using tk.alloc_NoneD [OF assms, of n "snd (token_alloc n a)"] by (metis prod.collapse)
next
  assume "token_available_size a < n"
  then show "fst (token_alloc n a) = None"
    using merge_and_sort_owned(6) [of a]
    by (auto simp: token_alloc_def Let_def token_available_size_def)
qed

end
