(* ===== verification/Evict_Policy.thy ===== *)
theory Evict_Policy
  imports Prelude "HOL-Library.List_Lexorder"
begin

text \<open>
  \<^verbatim>\<open>mem_cache/evict_policy.py\<close>: the priority each eviction strategy gives a cache node; smaller is
  evicted earlier. Every cache's node duck-types on the four fields below, so they are the root of a record
  that the caches extend. A Python priority is a number or a tuple of numbers compared lexicographically; here it
  is a list of integers under the lexicographic order of \<open>HOL-Library.List_Lexorder\<close> (a bare number is a
  one-element list; one strategy always returns lists of one length). Clock readings are integers.
\<close>

record evict_node =
  last_access_time :: int
  creation_time :: int
  hit_count :: int
  priority :: int

datatype eviction_strategy =
    LRUStrategy | LFUStrategy | FIFOStrategy | MRUStrategy | FILOStrategy
  | PriorityStrategy | SLRUStrategy int

fun get_priority :: "eviction_strategy \<Rightarrow> 'a evict_node_scheme \<Rightarrow> int list" where
  "get_priority LRUStrategy node = [last_access_time node]"
| "get_priority LFUStrategy node = [hit_count node, last_access_time node]"
| "get_priority FIFOStrategy node = [creation_time node]"
| "get_priority MRUStrategy node = [- last_access_time node]"
| "get_priority FILOStrategy node = [- creation_time node]"
| "get_priority PriorityStrategy node = [priority node, last_access_time node]"
| "get_priority (SLRUStrategy protected_threshold) node =
     [if hit_count node \<ge> protected_threshold then 1 else 0, last_access_time node]"

text \<open>\<^verbatim>\<open>get_eviction_strategy\<close> (\<^verbatim>\<open>mem_cache/utils.py\<close>). Policy names are ASCII, so \<open>str.lower\<close> maps A-Z only.\<close>

definition ascii_lower :: "string \<Rightarrow> string" where
  "ascii_lower = map (\<lambda>c. let n = of_char c :: nat in if 65 \<le> n \<and> n \<le> 90 then char_of (n + 32) else c)"

definition eviction_policy_factories :: "(string, eviction_strategy) dict" where
  "eviction_policy_factories =
     [(''lru'', LRUStrategy), (''lfu'', LFUStrategy), (''fifo'', FIFOStrategy), (''mru'', MRUStrategy),
      (''filo'', FILOStrategy), (''priority'', PriorityStrategy), (''slru'', SLRUStrategy 2)]"

definition get_eviction_strategy :: "string \<Rightarrow> eviction_strategy result" where
  "get_eviction_strategy eviction_policy =
     (case map_of eviction_policy_factories (ascii_lower eviction_policy) of
        None \<Rightarrow> Inl ValueError
      | Some st \<Rightarrow> Inr st)"

text \<open>Under segmented LRU a node that has not reached the protection threshold is always evicted before one
  that has, whatever their access times; inside a segment the older access goes first.\<close>

lemma slru_order:
  "get_priority (SLRUStrategy t) x \<le> get_priority (SLRUStrategy t) y \<longleftrightarrow>
     (hit_count x < t \<and> t \<le> hit_count y) \<or>
     ((t \<le> hit_count x \<longleftrightarrow> t \<le> hit_count y) \<and> last_access_time x \<le> last_access_time y)"
  by auto

end
