(* ===== verification/Pic_Policy.thy ===== *)
theory Pic_Policy
  imports Prelude Complex_Main "HOL-Library.Word"
begin

text \<open>
  The stateless parts of position-independent caching: the policy table (\<^verbatim>\<open>pic/policy.py\<close>), the seam width and
  the RoPE position choice (\<^verbatim>\<open>pic/__init__.py\<close>), the segmenter and the segment hash (\<^verbatim>\<open>pic/segmenter.py\<close>), and the
  routing hash shared with the router (\<open>text_hash\<close> of \<^verbatim>\<open>pic/scatter_xfer.py\<close>). The tokenizer and SHA-256 are
  parameters: every theorem holds for any tokenizer and any digest function, collisions included.
\<close>

section \<open>Policies\<close>

datatype pic_compose = ADDITION | TRANSITION

record pic_policy =
  compose :: pic_compose
  rope :: bool
  recompute :: bool

definition POLICIES :: "(string, pic_policy) dict" where
  "POLICIES =
     [(''addition'', \<lparr>compose = ADDITION, rope = False, recompute = False\<rparr>),
      (''transition'', \<lparr>compose = TRANSITION, rope = False, recompute = False\<rparr>),
      (''transition_rope'', \<lparr>compose = TRANSITION, rope = True, recompute = False\<rparr>),
      (''transition_rope_recompute'', \<lparr>compose = TRANSITION, rope = True, recompute = True\<rparr>)]"

definition resolve_policy :: "string \<Rightarrow> pic_policy result" where
  "resolve_policy pic_mode =
     (case map_of POLICIES pic_mode of None \<Rightarrow> Inl KeyError | Some p \<Rightarrow> Inr p)"

section \<open>Seam width\<close>

text \<open>
  \<open>sink_spec\<close> is a float, given by its exact rational value. The product of an int and a float rounds, so
  float multiplication is the parameter \<open>fmul\<close>; \<open>math.ceil\<close> and the truncation \<open>int()\<close> of a number above 1 are exact.
\<close>

definition resolve_seam_sink_tokens :: "(rat \<Rightarrow> rat \<Rightarrow> rat) \<Rightarrow> rat \<Rightarrow> int \<Rightarrow> int" where
  "resolve_seam_sink_tokens fmul sink_spec max_tokens =
     (if sink_spec \<le> 0 \<or> max_tokens \<le> 0 then 0
      else if sink_spec \<le> 1 then min max_tokens \<lceil>fmul (of_int max_tokens) sink_spec\<rceil>
      else min max_tokens \<lfloor>sink_spec\<rfloor>)"

section \<open>RoPE positions under PIC\<close>

text \<open>\<open>forward_batch.positions\<close> and \<open>forward_batch.pic_mode\<close> may be absent; \<open>q_rows\<close> is \<open>q.shape[0]\<close>.\<close>

definition pic_rope_positions ::
  "nat list \<Rightarrow> nat \<Rightarrow> nat list option \<Rightarrow> string option \<Rightarrow> nat list" where
  "pic_rope_positions positions q_rows fb_positions fb_pic_mode =
     (case fb_positions of
        Some fbp \<Rightarrow> (if fb_pic_mode \<noteq> None \<and> length fbp = q_rows then fbp else positions)
      | None \<Rightarrow> positions)"

section \<open>Segmenter\<close>

type_synonym segment = "nat \<times> nat"

text \<open>\<open>str.split(separator)\<close> for a non-empty separator (an empty one raises): cut at every leftmost
  non-overlapping occurrence.\<close>

function split_str :: "string \<Rightarrow> string \<Rightarrow> string \<Rightarrow> string list" where
  "split_str sep acc text =
     (if sep = [] then [acc @ text]
      else if text = [] then [acc]
      else if take (length sep) text = sep then acc # split_str sep [] (drop (length sep) text)
      else split_str sep (acc @ [hd text]) (tl text))"
  by pat_completeness auto
termination
  by (relation "measure (\<lambda>(sep, acc, text). length text)") auto

declare split_str.simps [simp del]

fun tokenize_parts ::
  "(string \<Rightarrow> int list) \<Rightarrow> string list \<Rightarrow> int list \<Rightarrow> segment list \<Rightarrow> int list \<times> segment list" where
  "tokenize_parts encode [] ids offsets = (ids, offsets)"
| "tokenize_parts encode (part # parts) ids offsets =
     (let seg_ids = encode part
      in if seg_ids = [] then tokenize_parts encode parts ids offsets
         else tokenize_parts encode parts (ids @ seg_ids)
                (offsets @ [(length ids, length (ids @ seg_ids))]))"

definition split_and_tokenize ::
  "(string \<Rightarrow> int list) \<Rightarrow> string \<Rightarrow> string \<Rightarrow> (int list \<times> segment list) result" where
  "split_and_tokenize encode separator text =
     (if separator = [] then Inl ValueError
      else Inr (tokenize_parts encode (split_str separator [] text) [] []))"

section \<open>Segment hash\<close>

type_synonym bytes = "8 word list"

definition int32_le :: "int \<Rightarrow> bytes" where
  "int32_le t = (let w = word_of_int t :: 32 word
     in [ucast w, ucast (drop_bit 8 w), ucast (drop_bit 16 w), ucast (drop_bit 24 w)])"

text \<open>The two branches of \<open>segment_hash\<close>: a tensor is cast to int32 (the cast wraps), a list goes through
  \<open>array.array("i", ..)\<close>, which raises \<open>OverflowError\<close> outside the int32 range.\<close>

definition segment_hash_tensor :: "(bytes \<Rightarrow> bytes) \<Rightarrow> int list \<Rightarrow> bytes" where
  "segment_hash_tensor sha256 token_ids = take 16 (sha256 (concat (map int32_le token_ids)))"

definition is_int32 :: "int \<Rightarrow> bool" where
  "is_int32 t \<longleftrightarrow> - (2 ^ 31) \<le> t \<and> t < 2 ^ 31"

definition segment_hash_list :: "(bytes \<Rightarrow> bytes) \<Rightarrow> int list \<Rightarrow> bytes result" where
  "segment_hash_list sha256 token_ids =
     (if list_all is_int32 token_ids
      then Inr (take 16 (sha256 (concat (map int32_le token_ids))))
      else Inl OverflowError)"

section \<open>Routing hash\<close>

text \<open>FNV-1a over the UTF-8 bytes of \<open>s\<close> (a \<open>string\<close> is its UTF-8 bytes), on unbounded Python ints masked to 64 bits after each multiplication.\<close>

fun text_hash_loop :: "int \<Rightarrow> int list \<Rightarrow> int" where
  "text_hash_loop h [] = h"
| "text_hash_loop h (b # bs) =
     text_hash_loop (and (xor h b * 0x100000001B3) 0xFFFFFFFFFFFFFFFF) bs"

definition text_hash :: "string \<Rightarrow> int" where
  "text_hash s = text_hash_loop 0xCBF29CE484222325 (map of_char s)"

section \<open>Segments tile the prompt\<close>

fun segs_from :: "nat \<Rightarrow> segment list \<Rightarrow> nat \<Rightarrow> bool" where
  "segs_from a [] b \<longleftrightarrow> a = b"
| "segs_from a ((s, e) # segs) b \<longleftrightarrow> s = a \<and> s < e \<and> segs_from e segs b"

definition seg_slice :: "'a list \<Rightarrow> segment \<Rightarrow> 'a list" where
  "seg_slice xs seg = take (snd seg - fst seg) (drop (fst seg) xs)"

lemma segs_from_append:
  "segs_from a (xs @ ys) c \<longleftrightarrow> (\<exists>b. segs_from a xs b \<and> segs_from b ys c)"
  by (induction a xs c rule: segs_from.induct) auto

lemma segs_from_le: "segs_from a segs b \<Longrightarrow> a \<le> b"
  by (induction a segs b rule: segs_from.induct) auto

lemma segs_from_bounds:
  "segs_from a segs b \<Longrightarrow> (s, e) \<in> set segs \<Longrightarrow> a \<le> s \<and> s < e \<and> e \<le> b"
  by (induction a segs b rule: segs_from.induct) (auto dest: segs_from_le)

lemma segs_from_distinct: "segs_from a segs b \<Longrightarrow> distinct segs"
proof (induction a segs b rule: segs_from.induct)
  case (2 a s e segs b)
  then show ?case
    using segs_from_bounds [of e segs b s e] by auto
qed simp

lemma segs_from_last: "segs_from a segs b \<Longrightarrow> segs \<noteq> [] \<Longrightarrow> snd (last segs) = b"
  by (induction a segs b rule: segs_from.induct) auto

lemma sum_seg_lengths: "segs_from a segs b \<Longrightarrow> (\<Sum>(s, e) \<leftarrow> segs. e - s) = b - a"
  by (induction a segs b rule: segs_from.induct) (auto dest: segs_from_le)

lemma seg_slice_append [simp]: "e \<le> length xs \<Longrightarrow> seg_slice (xs @ ys) (s, e) = seg_slice xs (s, e)"
  by (cases "s \<le> e") (auto simp: seg_slice_def)

lemma tokenize_parts_inv:
  assumes "segs_from 0 offsets (length ids)" "tokenize_parts encode parts ids offsets = (ids', segs)"
  shows "segs_from 0 segs (length ids') \<and> ids' = ids @ concat (map encode parts) \<and>
    map (seg_slice ids') segs = map (seg_slice ids) offsets @ filter (\<lambda>x. x \<noteq> []) (map encode parts)"
  using assms
proof (induction encode parts ids offsets arbitrary: ids' segs rule: tokenize_parts.induct)
  case (2 encode part parts ids offsets)
  show ?case
  proof (cases "encode part = []")
    case True
    then show ?thesis using 2 by simp
  next
    case False
    let ?ids = "ids @ encode part" and ?off = "offsets @ [(length ids, length (ids @ encode part))]"
    have off: "segs_from 0 ?off (length ?ids)"
      using 2(3) False by (auto simp: segs_from_append)
    have old: "map (seg_slice ?ids) offsets = map (seg_slice ids) offsets"
      using segs_from_bounds [OF 2(3)] by (auto intro!: map_cong)
    have new: "seg_slice ?ids (length ids, length ?ids) = encode part"
      by (simp add: seg_slice_def)
    show ?thesis
      using 2(2) [OF refl False off] 2(4) False by (auto simp: Let_def old new [simplified])
  qed
qed simp

fun join_str :: "string \<Rightarrow> string list \<Rightarrow> string" where
  "join_str sep [] = []"
| "join_str sep [p] = p"
| "join_str sep (p # ps) = p @ sep @ join_str sep ps"

lemma split_str_nonempty: "split_str sep acc str \<noteq> []"
proof (induction sep acc str rule: split_str.induct)
  case (1 sep acc str)
  then show ?case
    by (simp add: split_str.simps [of sep acc str])
qed

lemma join_split_str: "sep \<noteq> [] \<Longrightarrow> join_str sep (split_str sep acc str) = acc @ str"
proof (induction sep acc str rule: split_str.induct)
  case (1 sep acc str)
  consider "str = []" | "str \<noteq> []" "take (length sep) str = sep" | "str \<noteq> []" "take (length sep) str \<noteq> sep"
    by blast
  then show ?case
  proof cases
    case 1
    then show ?thesis by (simp add: split_str.simps [of sep acc "[]"])
  next
    case 2
    obtain p ps where ps: "split_str sep [] (drop (length sep) str) = p # ps"
      using split_str_nonempty by (meson neq_Nil_conv)
    have "sep @ drop (length sep) str = str"
      using 2(2) by (metis append_take_drop_id)
    then show ?thesis
      using "1.IH"(1) "1.prems" 2 ps by (simp add: split_str.simps [of sep acc str])
  next
    case 3
    then show ?thesis
      using "1.IH"(2) "1.prems" by (simp add: split_str.simps [of sep acc str])
  qed
qed

text \<open>The cut of a text at the leftmost non-overlapping occurrences of the separator, without reference to the loop that finds
  them: the parts joined by the separator are the text, the separator does not occur in the last part, nor does it begin
  inside any other part before the occurrence that ends it.\<close>

definition occurs :: "'a list \<Rightarrow> 'a list \<Rightarrow> bool" where
  "occurs sep xs \<longleftrightarrow> (\<exists>u v. xs = u @ sep @ v)"

definition leftmost_cut :: "string \<Rightarrow> string list \<Rightarrow> string \<Rightarrow> bool" where
  "leftmost_cut sep parts str \<longleftrightarrow> parts \<noteq> [] \<and> join_str sep parts = str \<and>
     (\<forall>p\<in>set (butlast parts). \<not> occurs sep (p @ butlast sep)) \<and> \<not> occurs sep (last parts)"

lemma occurs_append: "occurs sep xs \<Longrightarrow> occurs sep (us @ xs @ vs)"
  unfolding occurs_def by (metis append.assoc)

lemma occurs_length: "occurs sep xs \<Longrightarrow> length sep \<le> length xs"
  by (auto simp: occurs_def)

lemma occurs_short: "sep \<noteq> [] \<Longrightarrow> \<not> occurs sep (take (length sep - 1) xs)"
  by (cases sep) (auto dest!: occurs_length)

lemma occurs_prefix: "take (length sep) xs = sep \<Longrightarrow> occurs sep xs"
  unfolding occurs_def by (metis append.left_neutral append_take_drop_id)

lemma split_str_cut: "sep \<noteq> [] \<Longrightarrow> \<not> occurs sep (p @ butlast sep) \<Longrightarrow>
    split_str sep acc (p @ sep @ ys) = (acc @ p) # split_str sep [] ys"
proof (induction p arbitrary: acc)
  case Nil
  then show ?case
    by (simp add: split_str.simps [of sep acc "sep @ ys"])
next
  case (Cons x p)
  let ?str = "(x # p) @ sep @ ys"
  have "take (length sep) ?str = take (length sep) ((x # p) @ butlast sep)"
  proof -
    have "?str = ((x # p) @ butlast sep) @ last sep # ys"
      using Cons.prems(1) by (metis append_butlast_last_id append.assoc append_Cons append_Nil)
    moreover have "take (length sep) (((x # p) @ butlast sep) @ last sep # ys) = take (length sep) ((x # p) @ butlast sep)"
      unfolding take_append [of _ "(x # p) @ butlast sep"] by simp
    ultimately show ?thesis
      by (simp only:)
  qed
  then have "take (length sep) ?str \<noteq> sep"
    using Cons.prems(2) occurs_prefix by metis
  moreover have "\<not> occurs sep (p @ butlast sep)"
    using Cons.prems(2) occurs_append [of sep "p @ butlast sep" "[x]" "[]"] by auto
  ultimately show ?case
    using Cons.IH [of "acc @ [x]"] Cons.prems(1) by (simp add: split_str.simps [of sep acc ?str, simplified])
qed

lemma split_str_last: "sep \<noteq> [] \<Longrightarrow> \<not> occurs sep p \<Longrightarrow> split_str sep acc p = [acc @ p]"
proof (induction p arbitrary: acc)
  case (Cons x p)
  have "take (length sep) (x # p) \<noteq> sep" "\<not> occurs sep p"
    using Cons.prems(2) occurs_prefix occurs_append [of sep p "[x]" "[]"] by auto
  then show ?case
    using Cons.IH [of "acc @ [x]"] Cons.prems(1) by (simp add: split_str.simps [of sep acc "x # p"])
qed (simp add: split_str.simps)

lemma leftmost_cut_unique: "sep \<noteq> [] \<Longrightarrow> leftmost_cut sep parts str \<Longrightarrow> parts = split_str sep [] str"
proof (induction sep parts arbitrary: str rule: join_str.induct)
  case (2 sep p)
  then show ?case
    using split_str_last [of sep p "[]"] by (auto simp: leftmost_cut_def)
next
  case (3 sep p q ps)
  have "leftmost_cut sep (q # ps) (join_str sep (q # ps))" "\<not> occurs sep (p @ butlast sep)"
    "str = p @ sep @ join_str sep (q # ps)"
    using "3.prems"(2) by (auto simp: leftmost_cut_def)
  then show ?case
    using "3.IH" [OF "3.prems"(1)] split_str_cut [OF "3.prems"(1), of p "[]" "join_str sep (q # ps)"] by simp
qed (simp add: leftmost_cut_def)

lemma occurs_grow:
  assumes "sep \<noteq> []" "take (length sep) str \<noteq> sep" "\<not> occurs sep (acc @ take (length sep - 1) str)"
  shows "\<not> occurs sep (acc @ take (length sep) str)"
proof (cases "length sep \<le> length str")
  case True
  show ?thesis
  proof
    assume "occurs sep (acc @ take (length sep) str)"
    then obtain u v where uv: "acc @ take (length sep) str = u @ sep @ v"
      unfolding occurs_def by blast
    show False
    proof (cases v rule: rev_cases)
      case Nil
      then show False
        using uv assms(2) True by (simp add: append_eq_append_conv)
    next
      case (snoc v' x)
      have "butlast (acc @ take (length sep) str) = acc @ take (length sep - 1) str"
        using True assms(1) by (auto simp: butlast_append butlast_take)
      then have "acc @ take (length sep - 1) str = u @ sep @ v'"
        unfolding uv snoc by (simp add: butlast_append)
      then show False
        using assms(3) unfolding occurs_def by blast
    qed
  qed
next
  case False
  then show ?thesis
    using assms(3) by simp
qed

lemma split_str_leftmost:
  "sep \<noteq> [] \<Longrightarrow> \<not> occurs sep (acc @ take (length sep - 1) str) \<Longrightarrow>
     (\<forall>p\<in>set (butlast (split_str sep acc str)). \<not> occurs sep (p @ butlast sep)) \<and> \<not> occurs sep (last (split_str sep acc str))"
proof (induction sep acc str rule: split_str.induct)
  case (1 sep acc str)
  consider "str = []" | "str \<noteq> []" "take (length sep) str = sep" | "str \<noteq> []" "take (length sep) str \<noteq> sep"
    by blast
  then show ?case
  proof cases
    case 1
    then show ?thesis
      using "1.prems" by (simp add: split_str.simps [of sep acc "[]"])
  next
    case 2
    have "take (length sep - 1) str = butlast sep"
      using 2(2) by (metis butlast_conv_take diff_le_self length_take min.absorb1 take_take min_def)
    then have a: "\<not> occurs sep (acc @ butlast sep)"
      using "1.prems"(2) by simp
    have "\<not> occurs sep ([] @ take (length sep - 1) (drop (length sep) str))"
      using occurs_short [OF "1.prems"(1)] by simp
    note ih = "1.IH"(1) [OF "1.prems"(1) 2 "1.prems"(1) this]
    show ?thesis
      using ih a 2 "1.prems"(1) split_str_nonempty [of sep "[]" "drop (length sep) str"]
      by (simp add: split_str.simps [of sep acc str])
  next
    case 3
    have "(acc @ [hd str]) @ take (length sep - 1) (tl str) = acc @ take (length sep) str"
      using 3(1) "1.prems"(1) by (cases str; cases "length sep") auto
    then have "\<not> occurs sep ((acc @ [hd str]) @ take (length sep - 1) (tl str))"
      using occurs_grow [OF "1.prems"(1) 3(2) "1.prems"(2)] by simp
    from "1.IH"(2) [OF "1.prems"(1) 3 "1.prems"(1) this] show ?thesis
      using 3 "1.prems"(1) by (simp add: split_str.simps [of sep acc str])
  qed
qed

lemma split_str_cuts: "sep \<noteq> [] \<Longrightarrow> leftmost_cut sep (split_str sep [] str) str"
  unfolding leftmost_cut_def
  using split_str_leftmost [of sep "[]" str] join_split_str [of sep "[]" str] split_str_nonempty [of sep "[]" str]
    occurs_short [of sep str] by simp

text \<open>C13. For any tokenizer, the segments of a prompt tile its token ids: they start at 0, each is non-empty
  and begins where the one before ends, the last ends at the prompt length, and slicing the ids at the
  segments gives back the tokens of the parts of the text that have any. The parts are the only cut of the text at the
  leftmost non-overlapping occurrences of the separator: joined by it they are the text, and none of them contains it.\<close>

theorem split_and_tokenize_tiles:
  assumes "split_and_tokenize encode separator str = Inr (ids, segs)"
  shows "\<exists>parts. leftmost_cut separator parts str \<and> (\<forall>parts'. leftmost_cut separator parts' str \<longrightarrow> parts' = parts) \<and>
    (\<forall>p\<in>set parts. \<not> occurs separator p) \<and> segs_from 0 segs (length ids) \<and> ids = concat (map encode parts) \<and>
    map (seg_slice ids) segs = filter (\<lambda>x. x \<noteq> []) (map encode parts)"
proof -
  let ?parts = "split_str separator [] str"
  have ne: "separator \<noteq> []" and tp: "tokenize_parts encode ?parts [] [] = (ids, segs)"
    using assms by (auto simp: split_and_tokenize_def split: if_splits)
  have cut: "leftmost_cut separator ?parts str" "\<forall>parts'. leftmost_cut separator parts' str \<longrightarrow> parts' = ?parts"
    using split_str_cuts [OF ne] leftmost_cut_unique [OF ne] by blast+
  have clean: "\<not> occurs separator p" if "p \<in> set ?parts" for p
  proof (cases "p \<in> set (butlast ?parts)")
    case True
    then show ?thesis
      using cut(1) occurs_append [of separator p "[]" "butlast separator"] by (auto simp: leftmost_cut_def)
  next
    case False
    then have "p = last ?parts"
      using that split_str_nonempty [of separator "[]" str]
      by (metis append_butlast_last_id in_set_conv_decomp Un_iff set_append empty_iff list.set(1) set_ConsD)
    then show ?thesis
      using cut(1) by (simp add: leftmost_cut_def)
  qed
  have tile: "segs_from 0 segs (length ids) \<and> ids = [] @ concat (map encode ?parts) \<and>
      map (seg_slice ids) segs = map (seg_slice []) [] @ filter (\<lambda>x. x \<noteq> []) (map encode ?parts)"
    by (rule tokenize_parts_inv [OF _ tp]) simp
  show ?thesis
    by (intro exI [of _ ?parts] conjI cut ballI clean) (use tile in auto)
qed

theorem split_and_tokenize_tiles_witness:
  "split_and_tokenize (map of_char) ''|'' ''ab||c'' = Inr ([97, 98, 99], [(0, 2), (2, 3)]) \<and>
   segs_from 0 [(0, 2), (2, 3)] (length [97, 98, 99 :: int])"
proof -
  have e: "split_and_tokenize (map of_char) ''|'' ''ab||c'' = Inr ([97, 98, 99], [(0, 2), (2, 3)])"
    by (simp add: split_and_tokenize_def split_str.simps)
  then show ?thesis
    using split_and_tokenize_tiles [OF e] by blast
qed

section \<open>Seam bounds\<close>

text \<open>Whatever the seam setting and however the float product rounds, the seam never exceeds the tokens it is
  cut from and is never negative; a non-positive setting means no seam, and a positive one recomputes at least
  one token as long as the product of a positive count and a positive ratio is positive.\<close>

lemma resolve_seam_sink_tokens_bounds:
  assumes pos: "\<And>a b. 0 < a \<Longrightarrow> 0 < b \<Longrightarrow> 0 < fmul a b"
  shows "0 \<le> resolve_seam_sink_tokens fmul x n \<and>
    resolve_seam_sink_tokens fmul x n \<le> max 0 n \<and>
    (resolve_seam_sink_tokens fmul x n = 0 \<longleftrightarrow> x \<le> 0 \<or> n \<le> 0)"
proof (cases "x \<le> 0 \<or> n \<le> 0")
  case True
  then show ?thesis by (simp add: resolve_seam_sink_tokens_def)
next
  case False
  define v where "v = (if x \<le> 1 then \<lceil>fmul (of_int n) x\<rceil> else \<lfloor>x\<rfloor>)"
  have "1 \<le> v" "1 \<le> n"
    using False pos [of "of_int n" x] by (auto simp: v_def le_floor_iff)
  moreover have "resolve_seam_sink_tokens fmul x n = min n v"
    using False by (simp add: resolve_seam_sink_tokens_def v_def)
  ultimately show ?thesis
    using False by linarith
qed

section \<open>The segment hash reads the tokens faithfully\<close>

lemma int32_le_length [simp]: "length (int32_le t) = 4"
  by (simp add: int32_le_def Let_def)

lemma concat_map_inj:
  assumes "concat (map f xs) = concat (map f ys)"
    and "\<And>x. length (f x) = n" and "0 < n"
  shows "map f xs = map f ys"
  using assms(1)
proof (induction xs arbitrary: ys)
  case Nil
  then show ?case
    using assms(2,3) by (cases ys) (auto dest: arg_cong [where f = length])
next
  case (Cons x xs)
  then obtain y ys' where ys: "ys = y # ys'"
    using assms(2,3) by (cases ys) (auto dest: arg_cong [where f = length])
  have "f x = f y" "concat (map f xs) = concat (map f ys')"
    using Cons.prems ys assms(2) by (simp_all add: append_eq_append_conv)
  then show ?case
    using Cons.IH ys by simp
qed

lemma word32_bytes_eqI:
  fixes v w :: "32 word"
  assumes "\<And>k. k < 4 \<Longrightarrow> ucast (drop_bit (8 * k) v) = (ucast (drop_bit (8 * k) w) :: 8 word)"
  shows "v = w"
proof (rule bit_word_eqI)
  fix n
  assume "n < LENGTH(32)"
  then have k: "n div 8 < 4" and n: "8 * (n div 8) + n mod 8 = n"
    by simp_all
  have bits: "bit u n = bit (ucast (drop_bit (8 * (n div 8)) u) :: 8 word) (n mod 8)" for u :: "32 word"
    by (simp add: bit_ucast_iff bit_drop_bit_eq n)
  show "bit v n = bit w n"
    unfolding bits [of v] bits [of w] assms [OF k] ..
qed

lemma int32_le_eq_iff: "int32_le a = int32_le b \<longleftrightarrow> (word_of_int a :: 32 word) = word_of_int b"
proof
  assume eq: "int32_le a = int32_le b"
  show "(word_of_int a :: 32 word) = word_of_int b"
  proof (rule word32_bytes_eqI)
    fix k :: nat
    assume "k < 4"
    then have "k = 0 \<or> k = 1 \<or> k = 2 \<or> k = 3"
      by linarith
    then show "ucast (drop_bit (8 * k) (word_of_int a :: 32 word)) =
        (ucast (drop_bit (8 * k) (word_of_int b :: 32 word)) :: 8 word)"
      using eq by (auto simp: int32_le_def Let_def)
  qed
qed (simp add: int32_le_def)

lemma is_int32_word_inj:
  assumes "is_int32 a" "is_int32 b" "(word_of_int a :: 32 word) = word_of_int b"
  shows "a = b"
proof -
  have "sint (word_of_int a :: 32 word) = a" "sint (word_of_int b :: 32 word) = b"
    using assms(1,2) by (simp_all add: is_int32_def int_word_sint)
  then show ?thesis
    unfolding assms(3) by (rule trans [OF sym])
qed

text \<open>The bytes fed to the digest determine the tokens: two prompt segments with int32 token ids have the same
  encoding only when their tokens are equal, the tensor and the list branch of \<open>segment_hash\<close> return the same key for them, and
  as long as the truncated digest does not collide on these two encodings, they have the same key exactly when their tokens
  are equal. A token id outside the int32 range makes the list branch raise, while the tensor branch wraps it.\<close>

lemma segment_hash_faithful:
  assumes xs: "list_all is_int32 xs" and ys: "list_all is_int32 ys"
  shows "segment_hash_list sha xs = Inr (segment_hash_tensor sha xs) \<and>
    (concat (map int32_le xs) = concat (map int32_le ys) \<longleftrightarrow> xs = ys) \<and>
    (inj_on (\<lambda>b. take 16 (sha b)) {concat (map int32_le xs), concat (map int32_le ys)} \<longrightarrow>
       (segment_hash_tensor sha xs = segment_hash_tensor sha ys \<longleftrightarrow> xs = ys)) \<and>
    (\<forall>t. \<not> is_int32 t \<longrightarrow> segment_hash_list sha (t # xs) = Inl OverflowError \<and>
       segment_hash_tensor sha (t # xs) = segment_hash_tensor sha (sint (word_of_int t :: 32 word) # xs))"
proof -
  have enc: "concat (map int32_le xs) = concat (map int32_le ys) \<longleftrightarrow> xs = ys"
  proof
    assume "concat (map int32_le xs) = concat (map int32_le ys)"
    then have m: "map int32_le xs = map int32_le ys"
      by (rule concat_map_inj [where n = 4]) simp_all
    have "inj_on int32_le {t. is_int32 t}"
      by (auto simp: inj_on_def int32_le_eq_iff intro: is_int32_word_inj)
    then show "xs = ys"
      using m xs ys by (auto simp: list_all_iff intro!: map_inj_on [OF m] elim: inj_on_subset)
  qed simp
  moreover have "int32_le (sint (word_of_int t :: 32 word)) = int32_le t" for t
    by (simp add: int32_le_def)
  ultimately show ?thesis
    using xs by (auto simp: segment_hash_list_def segment_hash_tensor_def inj_on_def)
qed

section \<open>The routing hash is 64-bit FNV-1a\<close>

text \<open>The router computes the same key on 64-bit words with wrapping multiplication.\<close>

definition fnv1a_64 :: "string \<Rightarrow> 64 word" where
  "fnv1a_64 s = foldl (\<lambda>h c. xor h (of_char c) * 0x100000001B3) 0xCBF29CE484222325 s"

lemma and_mask64: "and x 0xFFFFFFFFFFFFFFFF = take_bit 64 (x :: int)"
  by (simp add: take_bit_eq_mask mask_eq_exp_minus_1)

lemma text_hash_loop_fnv:
  "text_hash_loop (uint h) (map of_char s) =
     uint (foldl (\<lambda>h c. xor h (of_char c) * 0x100000001B3) (h :: 64 word) s)"
proof (induction s arbitrary: h)
  case (Cons c s)
  have b: "uint (of_char c :: 64 word) = of_char c"
  proof -
    have "(of_char c :: nat) mod 2 ^ 64 = of_char c"
      by (rule mod_less, rule less_le_trans [OF nat_of_char_less_256]) simp
    then have "uint (of_nat (of_char c) :: 64 word) = int (of_char c)"
      by (simp add: uint_nat unat_of_nat)
    then show ?thesis
      by (simp only: of_nat_of_char)
  qed
  have "take_bit 64 (xor (uint h) (of_char c) * 0x100000001B3) = uint (xor h (of_char c) * 0x100000001B3)"
    by (simp add: uint_word_ariths unsigned_xor_eq b take_bit_eq_mod)
  then show ?case
    using Cons.IH [of "xor h (of_char c) * 0x100000001B3"] by (simp add: and_mask64)
qed simp

text \<open>The unbounded-integer hash the engine computes is the wrapping 64-bit FNV-1a of the router, so both sides
  name a segment by the same key.\<close>

lemma text_hash_is_fnv1a: "text_hash s = uint (fnv1a_64 s)"
  using text_hash_loop_fnv [of "0xCBF29CE484222325" s] by (simp add: text_hash_def fnv1a_64_def)

end
