(* ===== verification/Req_Pool.thy ===== *)
theory Req_Pool
  imports Allocator
begin

text \<open>
  \<^verbatim>\<open>ReqToTokenPool\<close> and \<^verbatim>\<open>HybridReqToTokenPool\<close> (\<^verbatim>\<open>mem_cache/memory_pool.py\<close>): the table that maps a
  request's token positions to KV slots, the free list of its rows, and, for hybrid models, the per-request
  mamba state slot and its ping-pong track buffer. A request is the record of the fields the pool reads and writes; it
  is passed and returned by value, so after a raise the pool's state is visible and the request's is not (the scheduler
  does not handle the raise). Layers, dtypes and device placement of the buffers are not modelled.
\<close>

section \<open>State\<close>

record req =
  req_pool_idx :: "nat option"
  mamba_pool_idx :: "int option"
  mamba_needs_clear :: bool
  mamba_ping_pong_track_buffer :: "int list option"
  mamba_next_track_idx :: "nat option"
  inflight_middle_chunks :: nat
  kv_committed_len :: nat
  kv_allocated_len :: nat

record req_pool =
  rp_size :: nat
  max_context_len :: nat
  req_to_token :: "nat list list"
  rp_free_slots :: "nat list"

record hybrid_pool = req_pool +
  mamba_allocator :: mamba_alloc
  req_index_to_mamba_index_mapping :: "int list"
  enable_mamba_extra_buffer :: bool
  enable_mamba_extra_buffer_lazy :: bool
  mamba_ping_pong_track_buffer_size :: nat
  req_index_to_mamba_ping_pong_track_buffer_mapping :: "int list list"

section \<open>ReqToTokenPool\<close>

definition req_pool_init :: "nat \<Rightarrow> nat \<Rightarrow> req_pool" where
  "req_pool_init sz max_context =
     \<lparr>rp_size = sz, max_context_len = max_context,
      req_to_token = replicate (sz + 1) (replicate max_context 0), rp_free_slots = [1..<sz + 1]\<rparr>"

text \<open>Assignment of a tensor to a slice of a row: the slice is clipped to the row, the lengths must agree, and a
  one-element tensor is broadcast.\<close>

definition row_write :: "nat \<Rightarrow> nat \<Rightarrow> 'a list \<Rightarrow> 'a list \<Rightarrow> 'a list result" where
  "row_write start stop values row =
     (let s = min start (length row); e = max s (min stop (length row))
      in if length values = e - s then Inr (take s row @ values @ drop e row)
         else if length values = 1 then Inr (take s row @ replicate (e - s) (hd values) @ drop e row)
         else Inl RuntimeError)"

definition write_row ::
  "nat \<Rightarrow> nat \<Rightarrow> nat \<Rightarrow> nat list \<Rightarrow> ('p req_pool_scheme, unit) pym" where
  "write_row idx start stop values = (\<lambda>p.
     if length (req_to_token p) \<le> idx then (Inl IndexError, p)
     else case row_write start stop values (req_to_token p ! idx) of
            Inl e \<Rightarrow> (Inl e, p)
          | Inr row \<Rightarrow> (Inr (), p\<lparr>req_to_token := (req_to_token p)[idx := row]\<rparr>))"

definition req_available_size :: "'p req_pool_scheme \<Rightarrow> nat" where
  "req_available_size p = length (rp_free_slots p)"

fun assign_slots :: "nat list \<Rightarrow> 'r req_scheme list \<Rightarrow> 'r req_scheme list" where
  "assign_slots sel [] = []"
| "assign_slots sel (r # rs) =
     (if req_pool_idx r = None
      then (case sel of [] \<Rightarrow> r # assign_slots [] rs
            | i # sel' \<Rightarrow> r\<lparr>req_pool_idx := Some i\<rparr> # assign_slots sel' rs)
      else r # assign_slots sel rs)"

definition req_alloc ::
  "'r req_scheme list \<Rightarrow> ('p req_pool_scheme, (nat list \<times> 'r req_scheme list) option) pym" where
  "req_alloc reqs = (\<lambda>p.
     let reusing = filter (\<lambda>r. req_pool_idx r \<noteq> None) reqs;
         need_size = length reqs - length reusing
     in if \<not> list_all (\<lambda>r. inflight_middle_chunks r > 0 \<or> kv_committed_len r > 0) reusing
        then (Inl AssertionError, p)
        else if need_size > length (rp_free_slots p) then (Inr None, p)
        else let select_index = take need_size (rp_free_slots p);
                 reqs' = assign_slots select_index reqs
             in (Inr (Some (map (the \<circ> req_pool_idx) reqs', reqs')),
                 p\<lparr>rp_free_slots := drop need_size (rp_free_slots p)\<rparr>))"

definition req_free :: "'r req_scheme \<Rightarrow> ('p req_pool_scheme, 'r req_scheme) pym" where
  "req_free r = (\<lambda>p. case req_pool_idx r of
       None \<Rightarrow> (Inl AssertionError, p)
     | Some i \<Rightarrow> (Inr (r\<lparr>req_pool_idx := None\<rparr>), p\<lparr>rp_free_slots := rp_free_slots p @ [i]\<rparr>))"

definition req_clear :: "'p req_pool_scheme \<Rightarrow> 'p req_pool_scheme" where
  "req_clear p = p\<lparr>rp_free_slots := [1..<rp_size p + 1]\<rparr>"

section \<open>HybridReqToTokenPool\<close>

definition hybrid_init :: "nat \<Rightarrow> nat \<Rightarrow> nat \<Rightarrow> bool \<Rightarrow> bool \<Rightarrow> bool \<Rightarrow> hybrid_pool" where
  "hybrid_init sz mamba_size max_context extra_buffer lazy overlap =
     (let b = (if overlap then 2 else 1)
      in req_pool.extend (req_pool_init sz max_context)
           \<lparr>mamba_allocator = mamba_init mamba_size,
            req_index_to_mamba_index_mapping = replicate (sz + 1) 0,
            enable_mamba_extra_buffer = extra_buffer,
            enable_mamba_extra_buffer_lazy = lazy,
            mamba_ping_pong_track_buffer_size = b,
            req_index_to_mamba_ping_pong_track_buffer_mapping =
              (if extra_buffer then replicate (sz + 1) (replicate b 0) else [])\<rparr>)"

definition mamba_take :: "nat \<Rightarrow> ('p hybrid_pool_scheme, int list option) pym" where
  "mamba_take n = (\<lambda>p. case mamba_alloc_slots n (mamba_allocator p) of
     (res, m) \<Rightarrow> (Inr res, p\<lparr>mamba_allocator := m\<rparr>))"

definition mamba_put :: "int list \<Rightarrow> ('p hybrid_pool_scheme, unit) pym" where
  "mamba_put xs = modifyM (\<lambda>p. p\<lparr>mamba_allocator := mamba_free xs (mamba_allocator p)\<rparr>)"

definition alloc_ping_pong_buffer :: "'r req_scheme \<Rightarrow> ('p hybrid_pool_scheme, 'r req_scheme) pym" where
  "alloc_ping_pong_buffer r =
     bindM (getsM (\<lambda>p. (if enable_mamba_extra_buffer_lazy p then 1 else mamba_ping_pong_track_buffer_size p,
                        mamba_ping_pong_track_buffer_size p))) (\<lambda>(n, size).
     bindM (mamba_take n) (\<lambda>res. case res of
       None \<Rightarrow> raiseM AssertionError
     | Some slots \<Rightarrow>
         retM (r\<lparr>mamba_ping_pong_track_buffer := Some (slots @ replicate (size - n) (-1)),
                 mamba_next_track_idx := Some 0\<rparr>)))"

definition hybrid_alloc_one :: "'r req_scheme \<Rightarrow> ('p hybrid_pool_scheme, 'r req_scheme) pym" where
  "hybrid_alloc_one r =
     bindM (if mamba_pool_idx r \<noteq> None then retM r
            else bindM (mamba_take 1) (\<lambda>mid. case mid of
                   Some (i # _) \<Rightarrow> retM (r\<lparr>mamba_pool_idx := Some i, mamba_needs_clear := True\<rparr>)
                 | _ \<Rightarrow> raiseM AssertionError)) (\<lambda>r1.
     bindM (getsM enable_mamba_extra_buffer) (\<lambda>extra.
       if extra \<and> mamba_ping_pong_track_buffer r1 = None then alloc_ping_pong_buffer r1 else retM r1))"

fun hybrid_alloc_loop :: "'r req_scheme list \<Rightarrow> ('p hybrid_pool_scheme, 'r req_scheme list) pym" where
  "hybrid_alloc_loop [] = retM []"
| "hybrid_alloc_loop (r # rs) =
     bindM (hybrid_alloc_one r) (\<lambda>r'. bindM (hybrid_alloc_loop rs) (\<lambda>rs'. retM (r' # rs')))"

text \<open>Scatter a column of values over the rows \<open>idxs\<close> of a table, in order.\<close>

definition scatter :: "nat list \<Rightarrow> 'v list \<Rightarrow> 'v list \<Rightarrow> 'v list" where
  "scatter idxs vals tab = fold (\<lambda>(i, v) t. t[i := v]) (zip idxs vals) tab"

text \<open>\<open>torch.stack\<close> of no tensors raises, so an empty batch does.\<close>

definition hybrid_alloc ::
  "'r req_scheme list \<Rightarrow> ('p hybrid_pool_scheme, (nat list \<times> 'r req_scheme list) option) pym" where
  "hybrid_alloc reqs =
     bindM (req_alloc reqs) (\<lambda>sel. case sel of
       None \<Rightarrow> retM None
     | Some (select_index, reqs1) \<Rightarrow>
         bindM (hybrid_alloc_loop reqs1) (\<lambda>reqs2.
         if reqs2 = [] then raiseM RuntimeError
         else bindM (modifyM (\<lambda>p. p\<lparr>req_index_to_mamba_index_mapping :=
                scatter select_index (map (the \<circ> mamba_pool_idx) reqs2) (req_index_to_mamba_index_mapping p)\<rparr>)) (\<lambda>_.
         bindM (modifyM (\<lambda>p. if enable_mamba_extra_buffer p
                then p\<lparr>req_index_to_mamba_ping_pong_track_buffer_mapping :=
                       scatter select_index (map (the \<circ> mamba_ping_pong_track_buffer) reqs2)
                         (req_index_to_mamba_ping_pong_track_buffer_mapping p)\<rparr>
                else p)) (\<lambda>_.
         retM (Some (select_index, reqs2))))))"

definition get_mamba_ping_pong_other_idx :: "'p hybrid_pool_scheme \<Rightarrow> nat \<Rightarrow> nat" where
  "get_mamba_ping_pong_other_idx p next_track =
     (if mamba_ping_pong_track_buffer_size p = 2 then 1 - next_track else next_track)"

definition get_mamba_ping_pong_keep_idx :: "'p hybrid_pool_scheme \<Rightarrow> nat \<Rightarrow> nat" where
  "get_mamba_ping_pong_keep_idx p next_track =
     (if enable_mamba_extra_buffer_lazy p then next_track
      else get_mamba_ping_pong_other_idx p next_track)"

text \<open>The absent attributes (\<open>None\<close>) the next two would subscript raise.\<close>

definition set_mamba_ping_pong_slot ::
  "'r req_scheme \<Rightarrow> nat \<Rightarrow> int \<Rightarrow> ('p hybrid_pool_scheme, 'r req_scheme) pym" where
  "set_mamba_ping_pong_slot r idx v =
     (case (mamba_ping_pong_track_buffer r, req_pool_idx r) of
        (Some buf, Some i) \<Rightarrow>
          if length buf \<le> idx then raiseM IndexError
          else let buf' = buf[idx := v]
               in bindM (modifyM (\<lambda>p. p\<lparr>req_index_to_mamba_ping_pong_track_buffer_mapping :=
                     (req_index_to_mamba_ping_pong_track_buffer_mapping p)[i := buf']\<rparr>)) (\<lambda>_.
                  retM (r\<lparr>mamba_ping_pong_track_buffer := Some buf'\<rparr>))
      | _ \<Rightarrow> raiseM AttributeError)"

definition donate_mamba_ping_pong_slot ::
  "'r req_scheme \<Rightarrow> int \<Rightarrow> ('p hybrid_pool_scheme, int \<times> 'r req_scheme) pym" where
  "donate_mamba_ping_pong_slot r new_slot =
     (case (mamba_next_track_idx r, mamba_ping_pong_track_buffer r) of
        (Some nt, Some buf) \<Rightarrow>
          bindM (getsM (\<lambda>p. get_mamba_ping_pong_keep_idx p nt)) (\<lambda>donate_idx.
          if length buf \<le> donate_idx then raiseM IndexError
          else bindM (assertM (buf ! donate_idx \<noteq> -1)) (\<lambda>_.
               bindM (set_mamba_ping_pong_slot r donate_idx new_slot) (\<lambda>r'.
               retM (buf ! donate_idx, r'))))
      | _ \<Rightarrow> raiseM AttributeError)"

text \<open>The slots \<open>free_mamba_cache\<close> returns from the ping-pong row, given the index to keep.\<close>

definition ping_pong_to_free :: "'p hybrid_pool_scheme \<Rightarrow> nat option \<Rightarrow> int list \<Rightarrow> int list result" where
  "ping_pong_to_free p to_keep buf =
     (let lazy_filter = (\<lambda>xs. if enable_mamba_extra_buffer_lazy p then filter (\<lambda>x. x \<noteq> -1) xs else xs)
      in case to_keep of
           None \<Rightarrow> Inr (lazy_filter buf)
         | Some k \<Rightarrow>
             if k \<noteq> 0 \<and> k \<noteq> 1 then Inl AssertionError
             else if mamba_ping_pong_track_buffer_size p = 2
             then Inr (lazy_filter (take 1 (drop (1 - k) buf)))
             else if mamba_ping_pong_track_buffer_size p = 1 \<and> k = 0 then Inr (lazy_filter [])
             else Inl AssertionError)"

definition free_mamba_cache ::
  "'r req_scheme \<Rightarrow> nat option \<Rightarrow> ('p hybrid_pool_scheme, 'r req_scheme) pym" where
  "free_mamba_cache r to_keep =
     (case mamba_pool_idx r of
        None \<Rightarrow> raiseM AssertionError
      | Some mamba_index \<Rightarrow>
          bindM (mamba_put [mamba_index]) (\<lambda>_.
          bindM (getsM enable_mamba_extra_buffer) (\<lambda>extra.
          let r1 = r\<lparr>mamba_pool_idx := None\<rparr> in
          if extra
          then case req_pool_idx r of
                 None \<Rightarrow> raiseM IndexError
               | Some i \<Rightarrow>
                   bindM (getsM (\<lambda>p. ping_pong_to_free p to_keep
                            (req_index_to_mamba_ping_pong_track_buffer_mapping p ! i))) (\<lambda>to_free.
                   bindM (liftM to_free) (\<lambda>xs. bindM (mamba_put xs) (\<lambda>_.
                   retM (r1\<lparr>mamba_ping_pong_track_buffer := None, mamba_next_track_idx := None\<rparr>))))
          else retM r1)))"

definition hybrid_clear :: "'p hybrid_pool_scheme \<Rightarrow> 'p hybrid_pool_scheme" where
  "hybrid_clear p =
     (let p1 = (req_clear p)\<lparr>mamba_allocator := mamba_clear (mamba_allocator p),
            req_index_to_mamba_index_mapping := map (\<lambda>_. 0) (req_index_to_mamba_index_mapping p)\<rparr>
      in if enable_mamba_extra_buffer p
         then p1\<lparr>req_index_to_mamba_ping_pong_track_buffer_mapping :=
                map (map (\<lambda>_. 0)) (req_index_to_mamba_ping_pong_track_buffer_mapping p)\<rparr>
         else p1)"

section \<open>What the pool hands to a request\<close>

definition opt_mset :: "'x option \<Rightarrow> 'x multiset" where
  "opt_mset v = (case v of None \<Rightarrow> {#} | Some x \<Rightarrow> {#x#})"

lemma opt_mset_simps [simp]: "opt_mset None = {#}" "opt_mset (Some x) = {#x#}"
  by (simp_all add: opt_mset_def)

text \<open>The mamba slots a request holds: its state slot and the allocated entries of its track buffer.\<close>

definition req_mamba :: "'r req_scheme \<Rightarrow> int multiset" where
  "req_mamba r = opt_mset (mamba_pool_idx r) +
     (case mamba_ping_pong_track_buffer r of None \<Rightarrow> {#} | Some buf \<Rightarrow> mset (filter (\<lambda>x. x \<noteq> -1) buf))"

abbreviation pool_mamba :: "'p hybrid_pool_scheme \<Rightarrow> int multiset" where
  "pool_mamba p \<equiv> mamba_owned (mamba_allocator p)"

lemma sum_list_mset_singletons: "(\<Sum>r\<leftarrow>rs. {#f r#}) = mset (map f rs)"
  by (induction rs) auto

lemma assign_slots_props:
  assumes "length sel = length (filter (\<lambda>r. req_pool_idx r = None) reqs)"
  shows "length (assign_slots sel reqs) = length reqs \<and>
    list_all (\<lambda>r. req_pool_idx r \<noteq> None) (assign_slots sel reqs) \<and>
    (\<Sum>r\<leftarrow>assign_slots sel reqs. opt_mset (req_pool_idx r)) =
      mset sel + (\<Sum>r\<leftarrow>reqs. opt_mset (req_pool_idx r)) \<and>
    map mamba_pool_idx (assign_slots sel reqs) = map mamba_pool_idx reqs \<and>
    (\<Sum>r\<leftarrow>assign_slots sel reqs. req_mamba r) = (\<Sum>r\<leftarrow>reqs. req_mamba r)"
  using assms
proof (induction reqs arbitrary: sel)
  case (Cons r reqs)
  show ?case
  proof (cases "req_pool_idx r")
    case None
    then obtain i sel' where "sel = i # sel'" "length sel' = length (filter (\<lambda>r. req_pool_idx r = None) reqs)"
      using Cons.prems by (cases sel) auto
    then show ?thesis
      using Cons.IH [of sel'] None by (simp add: req_mamba_def)
  next
    case (Some i)
    then show ?thesis
      using Cons.IH [of sel] Cons.prems by (simp add: union_ac)
  qed
qed simp

lemma idx_mset: "list_all (\<lambda>r. req_pool_idx r \<noteq> None) rs \<Longrightarrow>
    (\<Sum>r\<leftarrow>rs. opt_mset (req_pool_idx r)) = mset (map (the \<circ> req_pool_idx) rs)"
  by (induction rs) auto

lemma length_filter_None:
  "length reqs - length (filter (\<lambda>r. req_pool_idx r \<noteq> None) reqs) =
     length (filter (\<lambda>r. req_pool_idx r = None) reqs)"
  using sum_length_filter_compl [of "\<lambda>r. req_pool_idx r = None" reqs] by simp

lemma req_alloc_props:
  assumes "req_alloc reqs p = (Inr (Some (sel, reqs')), p')"
  shows "sel = map (the \<circ> req_pool_idx) reqs' \<and> length reqs' = length reqs \<and>
    list_all (\<lambda>r. req_pool_idx r \<noteq> None) reqs' \<and>
    mset (rp_free_slots p) + (\<Sum>r\<leftarrow>reqs. opt_mset (req_pool_idx r)) = mset (rp_free_slots p') + mset sel \<and>
    (\<Sum>r\<leftarrow>reqs'. req_mamba r) = (\<Sum>r\<leftarrow>reqs. req_mamba r) \<and>
    (\<exists>xs. p' = p\<lparr>rp_free_slots := xs\<rparr>)"
proof -
  define n where "n = length (filter (\<lambda>r. req_pool_idx r = None) reqs)"
  have res: "n \<le> length (rp_free_slots p)" "reqs' = assign_slots (take n (rp_free_slots p)) reqs"
    "sel = map (the \<circ> req_pool_idx) reqs'" "p' = p\<lparr>rp_free_slots := drop n (rp_free_slots p)\<rparr>"
    using assms by (auto simp: req_alloc_def length_filter_None Let_def n_def simp del: not_None_eq split: if_splits)
  have "mset (rp_free_slots p) = mset (take n (rp_free_slots p)) + mset (drop n (rp_free_slots p))"
    by (simp flip: mset_append)
  moreover have "\<exists>xs. p' = p\<lparr>rp_free_slots := xs\<rparr>"
    using res(4) by blast
  ultimately show ?thesis
    using assign_slots_props [of "take n (rp_free_slots p)" reqs] res(1-3) idx_mset [of reqs'] n_def
    by (simp add: union_ac res(4))
qed

text \<open>Nothing but the mamba allocator changed.\<close>

definition mamba_only :: "'p hybrid_pool_scheme \<Rightarrow> 'p hybrid_pool_scheme \<Rightarrow> bool" where
  "mamba_only p p' \<longleftrightarrow> (\<exists>m. p' = p\<lparr>mamba_allocator := m\<rparr>)"

lemma mamba_only_refl [simp]: "mamba_only p p"
  by (auto simp: mamba_only_def intro: exI [of _ "mamba_allocator p"])

lemma mamba_only_upd [simp]: "mamba_only p (p\<lparr>mamba_allocator := m\<rparr>)"
  by (auto simp: mamba_only_def)

lemma mamba_only_trans [trans]: "mamba_only p q \<Longrightarrow> mamba_only q r \<Longrightarrow> mamba_only p r"
  by (auto simp: mamba_only_def)

lemma mamba_only_fields:
  assumes "mamba_only p p'"
  shows "rp_free_slots p' = rp_free_slots p" "req_to_token p' = req_to_token p"
    "req_index_to_mamba_index_mapping p' = req_index_to_mamba_index_mapping p"
    "enable_mamba_extra_buffer p' = enable_mamba_extra_buffer p"
    "req_index_to_mamba_ping_pong_track_buffer_mapping p' = req_index_to_mamba_ping_pong_track_buffer_mapping p"
  using assms by (auto simp: mamba_only_def)

lemma mamba_take_owned:
  assumes "mamba_take n p = (Inr res, p')"
  shows "pool_mamba p = pool_mamba p' + (case res of None \<Rightarrow> {#} | Some xs \<Rightarrow> mset xs) \<and>
    (\<forall>xs. res = Some xs \<longrightarrow> length xs = n) \<and> mamba_only p p'"
proof -
  obtain m where m: "mamba_alloc_slots n (mamba_allocator p) = (res, m)" "p' = p\<lparr>mamba_allocator := m\<rparr>"
    using assms by (auto simp: mamba_take_def split: prod.splits)
  show ?thesis
    using mb.alloc_conserves [OF _ m(1)] mb.alloc_SomeD [of n "mamba_allocator p" _ m] m
    by (auto simp: union_ac)
qed

lemma mamba_take_no_raise: "fst (mamba_take n p) \<noteq> Inl e"
  by (auto simp: mamba_take_def split: prod.splits)

lemma alloc_ping_pong_buffer_owned:
  assumes "alloc_ping_pong_buffer r p = (Inr r', p')" "mamba_ping_pong_track_buffer r = None"
    and "-1 \<notin># pool_mamba p"
  shows "pool_mamba p + req_mamba r = pool_mamba p' + req_mamba r' \<and>
    mamba_pool_idx r' = mamba_pool_idx r \<and> req_pool_idx r' = req_pool_idx r \<and>
    mamba_only p p' \<and> -1 \<notin># pool_mamba p'"
proof -
  obtain n k slots where
    take: "mamba_take n p = (Inr (Some slots), p')"
    and r': "r' = r\<lparr>mamba_ping_pong_track_buffer := Some (slots @ replicate k (-1)),
              mamba_next_track_idx := Some 0\<rparr>"
    using assms(1) unfolding alloc_ping_pong_buffer_def
    by (fastforce simp: bindM_Inr_iff split: option.splits)
  have owned: "pool_mamba p = pool_mamba p' + mset slots" "mamba_only p p'"
    using mamba_take_owned [OF take] by simp_all
  then have "-1 \<notin> set slots"
    using assms(3) by auto
  then have "filter (\<lambda>x. x \<noteq> -1) slots = slots"
    by (auto simp: filter_id_conv)
  then show ?thesis
    using owned assms(2,3) r' by (auto simp: req_mamba_def union_ac)
qed

lemma hybrid_alloc_one_owned:
  assumes "hybrid_alloc_one r p = (Inr r', p')" and "-1 \<notin># pool_mamba p"
  shows "pool_mamba p + req_mamba r = pool_mamba p' + req_mamba r' \<and>
    mamba_pool_idx r' \<noteq> None \<and> req_pool_idx r' = req_pool_idx r \<and>
    mamba_only p p' \<and> -1 \<notin># pool_mamba p'"
proof -
  obtain r1 p1 where first:
      "(if mamba_pool_idx r \<noteq> None then retM r
        else bindM (mamba_take 1) (\<lambda>mid. case mid of
               Some (i # _) \<Rightarrow> retM (r\<lparr>mamba_pool_idx := Some i, mamba_needs_clear := True\<rparr>)
             | _ \<Rightarrow> raiseM AssertionError)) p = (Inr r1, p1)"
    and second: "(if enable_mamba_extra_buffer p1 \<and> mamba_ping_pong_track_buffer r1 = None
        then alloc_ping_pong_buffer r1 else retM r1) p1 = (Inr r', p')"
    using assms(1) by (auto simp: hybrid_alloc_one_def bindM_Inr_iff)
  have one: "pool_mamba p + req_mamba r = pool_mamba p1 + req_mamba r1 \<and> mamba_pool_idx r1 \<noteq> None \<and>
      req_pool_idx r1 = req_pool_idx r \<and> mamba_only p p1 \<and>
      -1 \<notin># pool_mamba p1"
  proof (cases "mamba_pool_idx r")
    case None
    then obtain mid u where "mamba_take 1 p = (Inr mid, u)"
      "(case mid of Some (i # _) \<Rightarrow> retM (r\<lparr>mamba_pool_idx := Some i, mamba_needs_clear := True\<rparr>)
        | _ \<Rightarrow> raiseM AssertionError) u = (Inr r1, p1)"
      using first by (auto elim: bindM_InrE)
    then obtain i rest where t: "mamba_take 1 p = (Inr (Some (i # rest)), p1)"
      and r1: "r1 = r\<lparr>mamba_pool_idx := Some i, mamba_needs_clear := True\<rparr>"
      by (auto split: option.splits list.splits)
    then have "rest = []"
      using mamba_take_owned [OF t] by simp
    then show ?thesis
      using mamba_take_owned [OF t] r1 None assms(2) by (auto simp: req_mamba_def)
  qed (use first assms(2) in auto)
  show ?thesis
  proof (cases "enable_mamba_extra_buffer p1 \<and> mamba_ping_pong_track_buffer r1 = None")
    case True
    then show ?thesis
      using alloc_ping_pong_buffer_owned [of r1 p1 r' p'] one second by (auto intro: mamba_only_trans)
  qed (use one second in auto)
qed

lemma hybrid_alloc_loop_owned:
  assumes "hybrid_alloc_loop rs p = (Inr rs', p')" and "-1 \<notin># pool_mamba p"
  shows "pool_mamba p + (\<Sum>r\<leftarrow>rs. req_mamba r) = pool_mamba p' + (\<Sum>r\<leftarrow>rs'. req_mamba r) \<and>
    list_all (\<lambda>r. mamba_pool_idx r \<noteq> None) rs' \<and> map req_pool_idx rs' = map req_pool_idx rs \<and>
    mamba_only p p' \<and> -1 \<notin># pool_mamba p'"
  using assms
proof (induction rs arbitrary: p rs' p')
  case (Cons r rs)
  obtain r' p1 rs1 where one: "hybrid_alloc_one r p = (Inr r', p1)"
    and rest: "hybrid_alloc_loop rs p1 = (Inr rs1, p')" and rs': "rs' = r' # rs1"
    using Cons.prems(1) by (auto simp: bindM_Inr_iff)
  have o1: "pool_mamba p + req_mamba r = pool_mamba p1 + req_mamba r'" "mamba_pool_idx r' \<noteq> None"
    "req_pool_idx r' = req_pool_idx r" "mamba_only p p1" "-1 \<notin># pool_mamba p1"
    using hybrid_alloc_one_owned [OF one Cons.prems(2)] by auto
  have o2: "pool_mamba p1 + (\<Sum>r\<leftarrow>rs. req_mamba r) = pool_mamba p' + (\<Sum>r\<leftarrow>rs1. req_mamba r)"
    using Cons.IH [OF rest o1(5)] by simp
  have "pool_mamba p + (\<Sum>r\<leftarrow>r # rs. req_mamba r) = pool_mamba p1 + req_mamba r' + (\<Sum>r\<leftarrow>rs. req_mamba r)"
    using o1(1) by (simp add: union_assoc [symmetric])
  also have "\<dots> = pool_mamba p' + (\<Sum>r\<leftarrow>rs'. req_mamba r)"
    using o2 by (simp add: rs' union_ac)
  finally show ?case
    using Cons.IH [OF rest o1(5)] o1 rs' by (auto intro: mamba_only_trans)
qed simp

text \<open>The fields of a request that the pool does not know survive admission.\<close>

lemma assign_slots_more: "map req.more (assign_slots sel reqs) = map req.more reqs"
  by (induction sel reqs rule: assign_slots.induct) (auto split: list.split)

lemma hybrid_alloc_one_more:
  assumes "hybrid_alloc_one r p = (Inr r', p')"
  shows "req.more r' = req.more r"
proof -
  obtain r1 p1 where first:
      "(if mamba_pool_idx r \<noteq> None then retM r
        else bindM (mamba_take 1) (\<lambda>mid. case mid of
               Some (i # _) \<Rightarrow> retM (r\<lparr>mamba_pool_idx := Some i, mamba_needs_clear := True\<rparr>)
             | _ \<Rightarrow> raiseM AssertionError)) p = (Inr r1, p1)"
    and second: "(if enable_mamba_extra_buffer p1 \<and> mamba_ping_pong_track_buffer r1 = None
        then alloc_ping_pong_buffer r1 else retM r1) p1 = (Inr r', p')"
    using assms by (auto simp: hybrid_alloc_one_def bindM_Inr_iff)
  have "req.more r1 = req.more r"
    using first by (auto elim!: bindM_InrE split: if_splits option.splits list.splits)
  moreover have "req.more r' = req.more r1"
    using second by (auto simp: alloc_ping_pong_buffer_def elim!: bindM_InrE split: if_splits option.splits)
  ultimately show ?thesis by simp
qed

lemma hybrid_alloc_loop_more: "hybrid_alloc_loop rs p = (Inr rs', p') \<Longrightarrow> map req.more rs' = map req.more rs"
proof (induction rs arbitrary: p rs')
  case (Cons r rs)
  then obtain r' p1 rs1 where "hybrid_alloc_one r p = (Inr r', p1)" "hybrid_alloc_loop rs p1 = (Inr rs1, p')" "rs' = r' # rs1"
    by (auto simp: bindM_Inr_iff)
  then show ?case
    using Cons.IH hybrid_alloc_one_more by simp
qed simp

lemma hybrid_alloc_spec:
  assumes alloc: "hybrid_alloc reqs p = (Inr (Some (sel, reqs')), p')" and no_sentinel: "-1 \<notin># pool_mamba p"
  shows "map req_pool_idx reqs' = map Some sel \<and> length sel = length reqs \<and> length reqs' = length reqs \<and>
    map req.more reqs' = map req.more reqs \<and>
    pool_mamba p + (\<Sum>r\<leftarrow>reqs. req_mamba r) = pool_mamba p' + (\<Sum>r\<leftarrow>reqs'. req_mamba r) \<and>
    list_all (\<lambda>r. mamba_pool_idx r \<noteq> None) reqs' \<and> req_to_token p' = req_to_token p"
proof -
  obtain reqs1 p1 p2 where first: "req_alloc reqs p = (Inr (Some (sel, reqs1)), p1)"
    and loop: "hybrid_alloc_loop reqs1 p1 = (Inr reqs', p2)"
    and p': "mamba_allocator p' = mamba_allocator p2" "req_to_token p' = req_to_token p2"
    using alloc by (auto simp: hybrid_alloc_def bindM_Inr_iff split: option.splits if_splits)
  have p1: "pool_mamba p1 = pool_mamba p" "req_to_token p1 = req_to_token p"
    using req_alloc_props [OF first] by auto
  have more1: "map req.more reqs1 = map req.more reqs"
    using first by (auto simp: req_alloc_def Let_def assign_slots_more split: if_splits)
  have loop_props: "pool_mamba p1 + (\<Sum>r\<leftarrow>reqs1. req_mamba r) = pool_mamba p2 + (\<Sum>r\<leftarrow>reqs'. req_mamba r)"
    "list_all (\<lambda>r. mamba_pool_idx r \<noteq> None) reqs'" "map req_pool_idx reqs' = map req_pool_idx reqs1"
    "mamba_only p1 p2"
    using hybrid_alloc_loop_owned [OF loop] no_sentinel p1 by simp_all
  have "map req_pool_idx reqs' = map Some sel" "length sel = length reqs" "length reqs' = length reqs"
    using req_alloc_props [OF first] loop_props(3) map_eq_imp_length_eq [OF loop_props(3)]
    by (auto simp: list_all_iff)
  then show ?thesis
    using req_alloc_props [OF first] loop_props p1 p' mamba_only_fields(2) [OF loop_props(4)] more1
      hybrid_alloc_loop_more [OF loop] by simp
qed

text \<open>Admission keeps the committed length of a request, its track buffer when the pool has none, and draws every row from
  the free ones or from the request that already has it.\<close>

lemma assign_slots_frame:
  "map kv_committed_len (assign_slots sel reqs) = map kv_committed_len reqs"
  "map mamba_ping_pong_track_buffer (assign_slots sel reqs) = map mamba_ping_pong_track_buffer reqs"
  by (induction sel reqs rule: assign_slots.induct) (auto split: list.split)

lemma hybrid_alloc_one_frame:
  assumes "hybrid_alloc_one r p = (Inr r', p')"
  shows "kv_committed_len r' = kv_committed_len r \<and> enable_mamba_extra_buffer p' = enable_mamba_extra_buffer p \<and>
    (\<not> enable_mamba_extra_buffer p \<longrightarrow> mamba_ping_pong_track_buffer r' = mamba_ping_pong_track_buffer r)"
proof -
  obtain r1 p1 where first:
      "(if mamba_pool_idx r \<noteq> None then retM r
        else bindM (mamba_take 1) (\<lambda>mid. case mid of
               Some (i # _) \<Rightarrow> retM (r\<lparr>mamba_pool_idx := Some i, mamba_needs_clear := True\<rparr>)
             | _ \<Rightarrow> raiseM AssertionError)) p = (Inr r1, p1)"
    and second: "(if enable_mamba_extra_buffer p1 \<and> mamba_ping_pong_track_buffer r1 = None
        then alloc_ping_pong_buffer r1 else retM r1) p1 = (Inr r', p')"
    using assms by (auto simp: hybrid_alloc_one_def bindM_Inr_iff)
  have "kv_committed_len r1 = kv_committed_len r" "mamba_ping_pong_track_buffer r1 = mamba_ping_pong_track_buffer r"
    "enable_mamba_extra_buffer p1 = enable_mamba_extra_buffer p"
    using first by (auto simp: mamba_take_def elim!: bindM_InrE split: if_splits option.splits list.splits prod.splits)
  moreover have "kv_committed_len r' = kv_committed_len r1" "enable_mamba_extra_buffer p' = enable_mamba_extra_buffer p1"
    using second by (auto simp: alloc_ping_pong_buffer_def mamba_take_def elim!: bindM_InrE split: if_splits option.splits prod.splits)
  moreover have "\<not> enable_mamba_extra_buffer p1 \<Longrightarrow> r' = r1"
    using second by simp
  ultimately show ?thesis by auto
qed

lemma hybrid_alloc_loop_frame:
  "hybrid_alloc_loop rs p = (Inr rs', p') \<Longrightarrow> map kv_committed_len rs' = map kv_committed_len rs \<and>
     enable_mamba_extra_buffer p' = enable_mamba_extra_buffer p \<and>
     (\<not> enable_mamba_extra_buffer p \<longrightarrow> map mamba_ping_pong_track_buffer rs' = map mamba_ping_pong_track_buffer rs)"
proof (induction rs arbitrary: p rs')
  case (Cons r rs)
  then obtain r' p1 rs1 where "hybrid_alloc_one r p = (Inr r', p1)" "hybrid_alloc_loop rs p1 = (Inr rs1, p')" "rs' = r' # rs1"
    by (auto simp: bindM_Inr_iff)
  then show ?case
    using Cons.IH [of p1 rs1] hybrid_alloc_one_frame [of r p r' p1] by simp
qed simp

lemma hybrid_alloc_frame:
  assumes "hybrid_alloc reqs p = (Inr (Some (sel, reqs')), p')"
  shows "map kv_committed_len reqs' = map kv_committed_len reqs \<and>
    enable_mamba_extra_buffer p' = enable_mamba_extra_buffer p \<and>
    (\<not> enable_mamba_extra_buffer p \<longrightarrow> map mamba_ping_pong_track_buffer reqs' = map mamba_ping_pong_track_buffer reqs) \<and>
    (\<forall>i\<in>set sel. i \<in> set (rp_free_slots p) \<or> (\<exists>r\<in>set reqs. req_pool_idx r = Some i))"
proof -
  obtain reqs1 p1 p2 where first: "req_alloc reqs p = (Inr (Some (sel, reqs1)), p1)"
    and loop: "hybrid_alloc_loop reqs1 p1 = (Inr reqs', p2)"
    and p': "enable_mamba_extra_buffer p' = enable_mamba_extra_buffer p2"
    using assms by (auto simp: hybrid_alloc_def bindM_Inr_iff split: option.splits if_splits)
  have p1: "enable_mamba_extra_buffer p1 = enable_mamba_extra_buffer p"
    and rows: "mset (rp_free_slots p) + (\<Sum>r\<leftarrow>reqs. opt_mset (req_pool_idx r)) = mset (rp_free_slots p1) + mset sel"
    using req_alloc_props [OF first] by auto
  have reqs1: "map kv_committed_len reqs1 = map kv_committed_len reqs"
    "map mamba_ping_pong_track_buffer reqs1 = map mamba_ping_pong_track_buffer reqs"
    using first by (auto simp: req_alloc_def Let_def assign_slots_frame split: if_splits)
  have "i \<in> set (rp_free_slots p) \<or> (\<exists>r\<in>set reqs. req_pool_idx r = Some i)" if "i \<in> set sel" for i
  proof -
    have "i \<in># mset (rp_free_slots p) + (\<Sum>r\<leftarrow>reqs. opt_mset (req_pool_idx r))"
      unfolding rows using that by simp
    moreover have "i \<in># (\<Sum>r\<leftarrow>reqs. opt_mset (req_pool_idx r)) \<Longrightarrow> \<exists>r\<in>set reqs. req_pool_idx r = Some i"
      by (induction reqs) (auto simp: opt_mset_def split: option.splits)
    ultimately show ?thesis by auto
  qed
  then show ?thesis
    using hybrid_alloc_loop_frame [OF loop] p' p1 reqs1 by simp
qed

lemma scatter_Cons: "scatter (i # idxs) (v # vals) tab = scatter idxs vals (tab[i := v])"
  by (simp add: scatter_def)

lemma scatter_other: "j \<notin> set idxs \<Longrightarrow> scatter idxs vals tab ! j = tab ! j"
proof (induction idxs arbitrary: vals tab)
  case (Cons i idxs)
  then show ?case
    by (cases vals) (auto simp: scatter_Cons, simp add: scatter_def)
qed (simp add: scatter_def)

lemma scatter_nth:
  assumes "distinct idxs" "length vals = length idxs" "\<forall>i\<in>set idxs. i < length tab" "k < length idxs"
  shows "scatter idxs vals tab ! (idxs ! k) = vals ! k"
  using assms
proof (induction idxs arbitrary: vals tab k)
  case (Cons i idxs)
  obtain v vs where vals: "vals = v # vs"
    using Cons.prems(2) by (cases vals) auto
  show ?case
  proof (cases k)
    case 0
    then show ?thesis
      using Cons.prems by (simp add: vals scatter_Cons scatter_other)
  next
    case (Suc j)
    then show ?thesis
      using Cons.prems Cons.IH [of vs "tab[i := v]" j] by (simp add: vals scatter_Cons)
  qed
qed simp

text \<open>C10. When the hybrid pool admits a batch, every request leaves with a row and a mamba state slot, the rows
  and the mamba slots come out of the free lists one for one (reused ones stay with their request), and each
  row's entry of the row-to-mamba table is the state slot of the request that owns the row.\<close>

theorem hybrid_alloc_conserves:
  assumes alloc: "hybrid_alloc reqs p = (Inr (Some (sel, reqs')), p')"
    and no_sentinel: "-1 \<notin># pool_mamba p"
    and rows: "distinct sel" "\<forall>i\<in>set sel. i < length (req_index_to_mamba_index_mapping p)"
  shows "map req_pool_idx reqs' = map Some sel \<and> length sel = length reqs \<and>
    mset (rp_free_slots p) + (\<Sum>r\<leftarrow>reqs. opt_mset (req_pool_idx r)) = mset (rp_free_slots p') + mset sel \<and>
    pool_mamba p + (\<Sum>r\<leftarrow>reqs. req_mamba r) = pool_mamba p' + (\<Sum>r\<leftarrow>reqs'. req_mamba r) \<and>
    (\<forall>k < length sel. mamba_pool_idx (reqs' ! k) =
       Some (req_index_to_mamba_index_mapping p' ! (sel ! k)))"
proof -
  obtain reqs1 p1 p2 where first: "req_alloc reqs p = (Inr (Some (sel, reqs1)), p1)"
    and loop: "hybrid_alloc_loop reqs1 p1 = (Inr reqs', p2)"
    and p': "rp_free_slots p' = rp_free_slots p2" "mamba_allocator p' = mamba_allocator p2"
      "req_index_to_mamba_index_mapping p' = scatter sel (map (the \<circ> mamba_pool_idx) reqs') (req_index_to_mamba_index_mapping p2)"
    using alloc by (auto simp: hybrid_alloc_def bindM_Inr_iff split: option.splits if_splits)
  have p1: "pool_mamba p1 = pool_mamba p"
    "req_index_to_mamba_index_mapping p1 = req_index_to_mamba_index_mapping p"
    using req_alloc_props [OF first] by auto
  have loop_props: "pool_mamba p1 + (\<Sum>r\<leftarrow>reqs1. req_mamba r) = pool_mamba p2 + (\<Sum>r\<leftarrow>reqs'. req_mamba r)"
    "list_all (\<lambda>r. mamba_pool_idx r \<noteq> None) reqs'" "map req_pool_idx reqs' = map req_pool_idx reqs1"
    "mamba_only p1 p2"
    using hybrid_alloc_loop_owned [OF loop] no_sentinel p1 by simp_all
  have sel: "map req_pool_idx reqs' = map Some sel" "length sel = length reqs" "length reqs' = length sel"
    using req_alloc_props [OF first] loop_props(3) map_eq_imp_length_eq [OF loop_props(3)]
    by (auto simp: list_all_iff)
  have "mamba_pool_idx (reqs' ! k) = Some (req_index_to_mamba_index_mapping p' ! (sel ! k))"
    if k: "k < length sel" for k
  proof -
    have "req_index_to_mamba_index_mapping p' ! (sel ! k) = map (the \<circ> mamba_pool_idx) reqs' ! k"
      unfolding p'(3) mamba_only_fields(3) [OF loop_props(4)] p1(2)
      by (rule scatter_nth) (use rows sel k in auto)
    moreover have "mamba_pool_idx (reqs' ! k) \<noteq> None"
      using loop_props(2) sel(3) k by (auto simp: list_all_length)
    ultimately show ?thesis
      using k sel(3) by auto
  qed
  then show ?thesis
    using req_alloc_props [OF first] sel loop_props p1 p' mamba_only_fields(1) [OF loop_props(4)] by simp
qed

theorem hybrid_alloc_conserves_witness:
  "\<exists>p'. hybrid_alloc [\<lparr>req_pool_idx = None, mamba_pool_idx = None, mamba_needs_clear = False,
          mamba_ping_pong_track_buffer = None, mamba_next_track_idx = None, inflight_middle_chunks = 0,
          kv_committed_len = 0, kv_allocated_len = 0\<rparr>] (hybrid_init 2 4 8 True True True) =
      (Inr (Some ([1], [\<lparr>req_pool_idx = Some 1, mamba_pool_idx = Some 1, mamba_needs_clear = True,
          mamba_ping_pong_track_buffer = Some [2, -1], mamba_next_track_idx = Some 0, inflight_middle_chunks = 0,
          kv_committed_len = 0, kv_allocated_len = 0\<rparr>])), p') \<and>
    Some 1 = Some (req_index_to_mamba_index_mapping p' ! 1)"
proof -
  let ?r = "\<lparr>req_pool_idx = None, mamba_pool_idx = None, mamba_needs_clear = False,
      mamba_ping_pong_track_buffer = None, mamba_next_track_idx = None, inflight_middle_chunks = 0,
      kv_committed_len = 0, kv_allocated_len = 0\<rparr> :: req"
  let ?r' = "\<lparr>req_pool_idx = Some 1, mamba_pool_idx = Some 1, mamba_needs_clear = True,
      mamba_ping_pong_track_buffer = Some [2, -1], mamba_next_track_idx = Some 0, inflight_middle_chunks = 0,
      kv_committed_len = 0, kv_allocated_len = 0\<rparr> :: req"
  define p where "p = hybrid_init 2 4 8 True True True"
  define p' where "p' = snd (hybrid_alloc [?r] p)"
  have run: "hybrid_alloc [?r] p = (Inr (Some ([1], [?r'])), p')"
    unfolding p'_def p_def by code_simp
  have sent: "-1 \<notin># pool_mamba p" and len: "length (req_index_to_mamba_index_mapping p) = 3"
    unfolding p_def by code_simp+
  have "mamba_pool_idx ([?r'] ! 0) = Some (req_index_to_mamba_index_mapping p' ! ([1] ! 0))"
    using hybrid_alloc_conserves [OF run sent] len by simp
  then show ?thesis
    using run unfolding p_def by auto
qed

lemma filter_mset_absent: "a \<notin> set xs \<Longrightarrow> {#x \<in># mset xs. x \<noteq> a#} = mset xs"
  by (induction xs) auto

text \<open>The track buffer and its device mirror agree, and a full buffer has no absent entry.\<close>

definition mamba_synced :: "'r req_scheme \<Rightarrow> 'p hybrid_pool_scheme \<Rightarrow> bool" where
  "mamba_synced r p \<longleftrightarrow>
     (if enable_mamba_extra_buffer p
      then (\<exists>i buf. req_pool_idx r = Some i \<and> mamba_ping_pong_track_buffer r = Some buf \<and>
              req_index_to_mamba_ping_pong_track_buffer_mapping p ! i = buf \<and>
              (\<not> enable_mamba_extra_buffer_lazy p \<longrightarrow> -1 \<notin> set buf))
      else mamba_ping_pong_track_buffer r = None)"

lemma free_mamba_cache_spec:
  assumes "mamba_pool_idx r = Some m" "mamba_synced r p"
  shows "\<exists>r' p'. free_mamba_cache r None p = (Inr r', p') \<and> pool_mamba p' = pool_mamba p + req_mamba r \<and>
    mamba_only p p' \<and>
    r' = r\<lparr>mamba_pool_idx := None,
           mamba_ping_pong_track_buffer := None,
           mamba_next_track_idx := (if enable_mamba_extra_buffer p then None else mamba_next_track_idx r)\<rparr>"
proof (cases "enable_mamba_extra_buffer p")
  case True
  then obtain i buf where "req_pool_idx r = Some i" "mamba_ping_pong_track_buffer r = Some buf"
    "req_index_to_mamba_ping_pong_track_buffer_mapping p ! i = buf"
    "\<not> enable_mamba_extra_buffer_lazy p \<longrightarrow> {#x \<in># mset buf. x \<noteq> -1#} = mset buf"
    using assms(2) filter_mset_absent unfolding mamba_synced_def by metis
  then show ?thesis
    using True assms(1)
    by (auto simp: free_mamba_cache_def mamba_put_def ping_pong_to_free_def req_mamba_def union_ac bindM_app)
next
  case False
  then have "mamba_ping_pong_track_buffer r = None"
    using assms(2) by (simp add: mamba_synced_def)
  then show ?thesis
    using False assms(1) by (auto simp: free_mamba_cache_def mamba_put_def req_mamba_def)
qed

text \<open>Releasing a request's mamba state gives the pool back exactly the slots the request held, its state
  slot and every allocated entry of its track buffer, and leaves the request holding none: allocation and
  release are inverse.\<close>

lemma free_mamba_cache_returns_all:
  assumes "mamba_pool_idx r = Some m" and "mamba_synced r p"
  shows "\<exists>r' p'. free_mamba_cache r None p = (Inr r', p') \<and> pool_mamba p' = pool_mamba p + req_mamba r \<and>
    req_mamba r' = {#} \<and> req_pool_idx r' = req_pool_idx r"
  using free_mamba_cache_spec [OF assms] by (auto simp: req_mamba_def)

end
