(* ===== verification/Pic_Cache.thy ===== *)
theory Pic_Cache
  imports Req_Pool Evict_Policy Pic_Policy
begin

text \<open>
  \<^verbatim>\<open>pic/picache.py\<close>: the segment cache. A \<^verbatim>\<open>SegmentEntry\<close> is a mutable object shared between the cache's index
  \<open>_entries\<close> and the \<open>pic_segment_entries\<close> of the requests that use it, so entries live in a heap and both sides hold
  references. Eviction drops an entry from the index; requests may still refer to it.
  The KV allocator, the request pool with its mamba allocator, the heap, the index and the two in-flight
  counters are one record, the state of every operation. The clock, SHA-256 and float multiplication are
  parameters. Metrics, log lines and the debug dumps (\<^verbatim>\<open>cache_debug.py\<close>) do not change state and are left out.
\<close>

section \<open>State\<close>

record segment_entry = evict_node +
  seg_hash :: bytes
  full_kv_slots :: "nat list"
  mamba_state_slot :: int
  token_ids :: "int list"
  lock_ref :: int

record pic_world =
  w_kv :: kv_alloc
  w_pool :: hybrid_pool
  w_heap :: "nat \<Rightarrow> segment_entry"
  w_next :: nat
  w_entries :: "(bytes, nat) dict"
  w_inflight_full_tokens :: int
  w_inflight_mamba_slots :: int
  w_ticks :: nat

record pic_config =
  cf_disable :: bool
  cf_policy :: pic_policy
  cf_is_decode :: bool
  cf_min_tokens :: int
  cf_seam_sink :: rat
  cf_fmul :: "rat \<Rightarrow> rat \<Rightarrow> rat"
  cf_sha256 :: "bytes \<Rightarrow> bytes"
  cf_clock :: "nat \<Rightarrow> int"

text \<open>\<open>req.pic_miss_segment_slots\<close> holds pairs in the addition and transition modes, triples in the rope modes.\<close>

datatype miss_slots =
    StdSlots "nat list" "int option"
  | RopeSlots "nat list" "nat list option" "int option"

record pic_req = req +
  origin_input_ids :: "int list"
  pic_segments :: "segment list option"
  pic_scatter_single_seg :: bool
  prefix_indices :: "nat list"
  pic_hit_segments :: "(nat \<times> nat \<times> bytes) list"
  pic_miss_segments :: "segment list"
  pic_segment_entries :: "(bytes, nat) dict"
  pic_miss_token_positions :: "nat list option"
  pic_hit_seam_positions :: "(segment, nat list) dict"
  pic_miss_segment_slots :: "(segment, miss_slots) dict"
  pic_rope_hit_private_slots :: "(segment, nat list \<times> nat list) dict"
  pic_cache_owned_miss_segments :: "segment list"
  pic_freed_miss_segments :: "segment list"

definition stateM :: "('s \<Rightarrow> 'a \<times> 's) \<Rightarrow> ('s, 'a) pym" where
  "stateM f = (\<lambda>s. case f s of (x, s') \<Rightarrow> (Inr x, s'))"

definition on_pool :: "(hybrid_pool, 'a) pym \<Rightarrow> ('w pic_world_scheme, 'a) pym" where
  "on_pool m = (\<lambda>w. case m (w_pool w) of (r, p) \<Rightarrow> (r, w\<lparr>w_pool := p\<rparr>))"

definition kv_free :: "nat list \<Rightarrow> 'w pic_world_scheme \<Rightarrow> 'w pic_world_scheme" where
  "kv_free xs w = w\<lparr>w_kv := token_free xs (w_kv w)\<rparr>"

definition mb_free :: "int list \<Rightarrow> 'w pic_world_scheme \<Rightarrow> 'w pic_world_scheme" where
  "mb_free xs w = w\<lparr>w_pool := (w_pool w)\<lparr>mamba_allocator := mamba_free xs (mamba_allocator (w_pool w))\<rparr>\<rparr>"

definition upd_entry ::
  "nat \<Rightarrow> (segment_entry \<Rightarrow> segment_entry) \<Rightarrow> 'w pic_world_scheme \<Rightarrow> 'w pic_world_scheme" where
  "upd_entry i f w = w\<lparr>w_heap := (w_heap w)(i := f (w_heap w i))\<rparr>"

text \<open>\<open>time.monotonic()\<close>: the reading and the state in which the next reading is due.\<close>

definition monotonic :: "pic_config \<Rightarrow> 'w pic_world_scheme \<Rightarrow> int" where
  "monotonic cf w = cf_clock cf (w_ticks w)"

definition tick :: "'w pic_world_scheme \<Rightarrow> 'w pic_world_scheme" where
  "tick w = w\<lparr>w_ticks := w_ticks w + 1\<rparr>"

definition seg_len :: "segment \<Rightarrow> int" where
  "seg_len seg = int (snd seg) - int (fst seg)"

section \<open>Index\<close>

definition pic_init ::
  "pic_config \<Rightarrow> string \<Rightarrow> kv_alloc \<Rightarrow> hybrid_pool \<Rightarrow> (pic_config \<times> pic_world) result" where
  "pic_init cf pic_mode kv pool =
     (case map_of POLICIES pic_mode of
        None \<Rightarrow> Inl AssertionError
      | Some p \<Rightarrow> Inr (cf\<lparr>cf_policy := p\<rparr>,
          \<lparr>w_kv = kv, w_pool = pool,
           w_heap = (\<lambda>_. \<lparr>last_access_time = 0, creation_time = 0, hit_count = 0, priority = 0, seg_hash = [],
                          full_kv_slots = [], mamba_state_slot = 0, token_ids = [], lock_ref = 0\<rparr>),
           w_next = 0, w_entries = [], w_inflight_full_tokens = 0, w_inflight_mamba_slots = 0,
           w_ticks = 0\<rparr>))"

definition pic_reset :: "'w pic_world_scheme \<Rightarrow> 'w pic_world_scheme" where
  "pic_reset w = w\<lparr>w_entries := [], w_inflight_full_tokens := 0, w_inflight_mamba_slots := 0\<rparr>"

definition entry_values :: "'w pic_world_scheme \<Rightarrow> segment_entry list" where
  "entry_values w = map (w_heap w \<circ> snd) (w_entries w)"

definition evictable_size :: "'w pic_world_scheme \<Rightarrow> nat" where
  "evictable_size w = (\<Sum>e\<leftarrow>filter (\<lambda>e. lock_ref e = 0) (entry_values w). length (full_kv_slots e))"

definition protected_size :: "'w pic_world_scheme \<Rightarrow> nat" where
  "protected_size w = (\<Sum>e\<leftarrow>filter (\<lambda>e. lock_ref e > 0) (entry_values w). length (full_kv_slots e))"

definition total_size :: "'w pic_world_scheme \<Rightarrow> nat" where
  "total_size w = (\<Sum>e\<leftarrow>entry_values w. length (full_kv_slots e))"

definition full_evictable_size :: "'w pic_world_scheme \<Rightarrow> nat" where
  "full_evictable_size w = evictable_size w"

definition mamba_evictable_size :: "'w pic_world_scheme \<Rightarrow> nat" where
  "mamba_evictable_size w = length (filter (\<lambda>e. lock_ref e = 0) (entry_values w))"

definition mamba_protected_size :: "'w pic_world_scheme \<Rightarrow> int" where
  "mamba_protected_size w =
     int (length (filter (\<lambda>e. lock_ref e > 0) (entry_values w))) + w_inflight_mamba_slots w"

definition full_protected_size :: "'w pic_world_scheme \<Rightarrow> int" where
  "full_protected_size w = int (protected_size w) + w_inflight_full_tokens w"

definition add_inflight :: "int \<Rightarrow> int \<Rightarrow> 'w pic_world_scheme \<Rightarrow> 'w pic_world_scheme" where
  "add_inflight num_tokens num_mamba_slots w =
     w\<lparr>w_inflight_full_tokens := w_inflight_full_tokens w + num_tokens,
       w_inflight_mamba_slots := w_inflight_mamba_slots w + num_mamba_slots\<rparr>"

definition remove_inflight :: "int \<Rightarrow> int \<Rightarrow> 'w pic_world_scheme \<Rightarrow> 'w pic_world_scheme" where
  "remove_inflight num_tokens num_mamba_slots w =
     w\<lparr>w_inflight_full_tokens := max 0 (w_inflight_full_tokens w - num_tokens),
       w_inflight_mamba_slots := max 0 (w_inflight_mamba_slots w - num_mamba_slots)\<rparr>"

definition all_values_flatten :: "'w pic_world_scheme \<Rightarrow> nat list" where
  "all_values_flatten w = concat (map full_kv_slots (entry_values w))"

definition all_mamba_values_flatten :: "'w pic_world_scheme \<Rightarrow> int list" where
  "all_mamba_values_flatten w = map mamba_state_slot (entry_values w)"

definition match_segment ::
  "pic_config \<Rightarrow> bytes \<Rightarrow> int list \<Rightarrow> 'w pic_world_scheme \<Rightarrow> nat option \<times> 'w pic_world_scheme" where
  "match_segment cf h toks w =
     (case map_of (w_entries w) h of
        None \<Rightarrow> (None, w)
      | Some i \<Rightarrow>
          if token_ids (w_heap w i) \<noteq> toks then (None, w)
          else (Some i, tick (upd_entry i (\<lambda>e. e\<lparr>last_access_time := monotonic cf w,
                                                hit_count := hit_count e + 1\<rparr>) w)))"

definition insert_segment ::
  "pic_config \<Rightarrow> bytes \<Rightarrow> int list \<Rightarrow> nat list \<Rightarrow> int \<Rightarrow> 'w pic_world_scheme \<Rightarrow>
     nat \<times> 'w pic_world_scheme" where
  "insert_segment cf h toks kv_slots mamba_slot w =
     (case match_segment cf h toks w of
        (Some i, w1) \<Rightarrow> (i, w1)
      | (None, w1) \<Rightarrow>
          let now = monotonic cf w1; i = w_next w1
          in (i, (tick w1)\<lparr>
                w_heap := (w_heap w1)(i :=
                  \<lparr>last_access_time = now, creation_time = now, hit_count = 0, priority = 0,
                   seg_hash = h, full_kv_slots = kv_slots, mamba_state_slot = mamba_slot,
                   token_ids = toks, lock_ref = 0\<rparr>),
                w_next := i + 1,
                w_entries := AList.update h i (w_entries w1)\<rparr>))"

definition inject_received_segment ::
  "pic_config \<Rightarrow> bytes \<Rightarrow> int list \<Rightarrow> nat list \<Rightarrow> int \<Rightarrow> 'w pic_world_scheme \<Rightarrow>
     nat \<times> 'w pic_world_scheme" where
  "inject_received_segment cf h toks kv_slots mamba_slot w =
     (case map_of (w_entries w) h of
        Some i \<Rightarrow> (i, upd_entry i (\<lambda>e. e\<lparr>lock_ref := lock_ref e + 1\<rparr>) w)
      | None \<Rightarrow>
          (case insert_segment cf h toks kv_slots mamba_slot w of
             (i, w1) \<Rightarrow> (i, upd_entry i (\<lambda>e. e\<lparr>lock_ref := lock_ref e + 1\<rparr>) w1)))"

section \<open>Matching\<close>

text \<open>The lookup loop of \<open>match_prefix\<close>; the last segment is skipped.\<close>

fun match_loop ::
  "pic_config \<Rightarrow> int list \<Rightarrow> segment list \<Rightarrow> 'w pic_world_scheme \<Rightarrow>
     nat option list \<times> 'w pic_world_scheme" where
  "match_loop cf ids [] w = ([], w)"
| "match_loop cf ids (seg # segs) w =
     (if segs = [] then ([None], w)
      else if cf_min_tokens cf > 0 \<and> seg_len seg < cf_min_tokens cf
      then (case match_loop cf ids segs w of (rest, w') \<Rightarrow> (None # rest, w'))
      else let toks = seg_slice ids seg
           in case match_segment cf (segment_hash_tensor (cf_sha256 cf) toks) toks w of
                (entry, w1) \<Rightarrow> (case match_loop cf ids segs w1 of (rest, w') \<Rightarrow> (entry # rest, w')))"

text \<open>The slots of the hit segments; \<open>first\<close> says whether the head of the list is segment 0. The result is the list
  of slot tensors and the seams of the recomputed hits.\<close>

fun hit_slots_loop ::
  "pic_config \<Rightarrow> (nat \<Rightarrow> segment_entry) \<Rightarrow> bool \<Rightarrow> (segment \<times> nat option) list \<Rightarrow>
     nat list list \<times> (segment, nat list) dict \<Rightarrow> nat list list \<times> (segment, nat list) dict" where
  "hit_slots_loop cf heap first [] acc = acc"
| "hit_slots_loop cf heap first ((seg, None) # rest) acc = hit_slots_loop cf heap False rest acc"
| "hit_slots_loop cf heap first ((seg, Some i) # rest) (tensors, seams) =
     (let x_sink_eff = resolve_seam_sink_tokens (cf_fmul cf) (cf_seam_sink cf) (seg_len seg - 1);
          slots = full_kv_slots (heap i)
      in if recompute (cf_policy cf) \<and> \<not> first \<and> x_sink_eff > 0
         then hit_slots_loop cf heap False rest
                (tensors @ [drop (nat x_sink_eff) slots],
                 AList.update seg [fst seg..<fst seg + nat x_sink_eff] seams)
         else hit_slots_loop cf heap False rest (tensors @ [slots], seams))"

text \<open>\<open>match_prefix\<close> returns the device indices and, unless it returns the empty result, the entry per segment; the
  request comes back with its seam positions.\<close>

definition match_prefix ::
  "pic_config \<Rightarrow> 'r pic_req_scheme \<Rightarrow> 'w pic_world_scheme \<Rightarrow>
     (nat list \<times> nat option list option \<times> 'r pic_req_scheme) \<times> 'w pic_world_scheme" where
  "match_prefix cf r w =
     (case pic_segments r of
        None \<Rightarrow> (([], None, r), w)
      | Some segs \<Rightarrow>
          if cf_disable cf \<or> segs = [] then (([], None, r), w)
          else let r1 = (if recompute (cf_policy cf) then r\<lparr>pic_hit_seam_positions := []\<rparr> else r)
               in case match_loop cf (origin_input_ids r1) segs w of (per_seg, w1) \<Rightarrow>
                  case hit_slots_loop cf (w_heap w1) True (zip segs per_seg)
                         ([], pic_hit_seam_positions r1) of (tensors, seams) \<Rightarrow>
                  ((concat tensors, Some per_seg, r1\<lparr>pic_hit_seam_positions := seams\<rparr>), w1))"

text \<open>The part of \<open>Req.init_next_round_input\<close> that takes a match result of this cache over into the request.
  The comprehension over the entries keeps one reference per hash.\<close>

definition hit_triples :: "(nat \<Rightarrow> segment_entry) \<Rightarrow> (segment \<times> nat option) list \<Rightarrow> (nat \<times> nat \<times> bytes) list" where
  "hit_triples heap ps =
     concat (map (\<lambda>(seg, e). case e of None \<Rightarrow> [] | Some i \<Rightarrow> [(fst seg, snd seg, seg_hash (heap i))]) ps)"

definition miss_segs :: "(segment \<times> nat option) list \<Rightarrow> segment list" where
  "miss_segs ps = map fst (filter (\<lambda>(seg, e). e = None) ps)"

definition take_match ::
  "(nat \<Rightarrow> segment_entry) \<Rightarrow> segment list \<Rightarrow> nat option list \<Rightarrow> 'r pic_req_scheme \<Rightarrow> 'r pic_req_scheme" where
  "take_match heap segs per_seg r =
     (let ps = zip segs per_seg;
          hits = concat (map (\<lambda>e. case e of None \<Rightarrow> [] | Some i \<Rightarrow> [i]) per_seg);
          miss = miss_segs ps;
          positions = concat (map (\<lambda>(s, e). [s..<e]) miss);
          positions' = (if pic_hit_seam_positions r \<noteq> []
                        then sort (positions @ concat (map snd (pic_hit_seam_positions r)))
                        else positions)
      in r\<lparr>pic_segment_entries := fold (\<lambda>i d. AList.update (seg_hash (heap i)) i d) hits [],
           pic_hit_segments := hit_triples heap ps,
           pic_miss_segments := miss,
           pic_miss_token_positions :=
             (if positions' \<noteq> [] then Some positions' else pic_miss_token_positions r)\<rparr>)"

definition init_next_round_pic ::
  "pic_config \<Rightarrow> 'r pic_req_scheme \<Rightarrow> ('w pic_world_scheme, 'r pic_req_scheme) pym" where
  "init_next_round_pic cf r =
     bindM (stateM (match_prefix cf r)) (\<lambda>(device_indices, per_seg, r1).
     bindM (getsM w_heap) (\<lambda>heap.
       let r2 = r1\<lparr>prefix_indices := device_indices\<rparr>
       in case per_seg of
            None \<Rightarrow> retM r2
          | Some per_seg' \<Rightarrow>
              (case pic_segments r2 of
                 None \<Rightarrow> raiseM AssertionError
               | Some segs \<Rightarrow> retM (take_match heap segs per_seg' r2))))"

section \<open>Locks and eviction\<close>

definition inc_lock_ref :: "'r pic_req_scheme \<Rightarrow> 'w pic_world_scheme \<Rightarrow> int \<times> 'w pic_world_scheme" where
  "inc_lock_ref r w =
     fold (\<lambda>i (delta, w). (delta + 1, upd_entry i (\<lambda>e. e\<lparr>lock_ref := lock_ref e + 1\<rparr>) w))
       (map snd (pic_segment_entries r)) (0, w)"

definition dec_lock_ref :: "'r pic_req_scheme \<Rightarrow> 'w pic_world_scheme \<Rightarrow> int \<times> 'w pic_world_scheme" where
  "dec_lock_ref r w =
     fold (\<lambda>i (delta, w). if lock_ref (w_heap w i) > 0
              then (delta - 1, upd_entry i (\<lambda>e. e\<lparr>lock_ref := lock_ref e - 1\<rparr>) w)
              else (delta, w))
       (map snd (pic_segment_entries r)) (0, w)"

text \<open>The eviction loop over the sorted candidates; deleting a hash that is not in the index raises.\<close>

fun evict_loop ::
  "int \<Rightarrow> int \<Rightarrow> nat list \<Rightarrow> int \<times> int \<Rightarrow> ('w pic_world_scheme, int \<times> int) pym" where
  "evict_loop need_tokens need_mamba [] evicted = retM evicted"
| "evict_loop need_tokens need_mamba (i # cands) (evicted_tokens, evicted_mamba) =
     (if evicted_tokens \<ge> need_tokens \<and> evicted_mamba \<ge> need_mamba
      then retM (evicted_tokens, evicted_mamba)
      else bindM (getsM (\<lambda>w. w_heap w i)) (\<lambda>e.
           bindM (modifyM (kv_free (full_kv_slots e))) (\<lambda>_.
           bindM (modifyM (mb_free [mamba_state_slot e])) (\<lambda>_.
           bindM (getsM (\<lambda>w. map_of (w_entries w) (seg_hash e))) (\<lambda>present.
           if present = None then raiseM KeyError
           else bindM (modifyM (\<lambda>w. w\<lparr>w_entries := AList.delete (seg_hash e) (w_entries w)\<rparr>)) (\<lambda>_.
                evict_loop need_tokens need_mamba cands
                  (evicted_tokens + int (length (full_kv_slots e)), evicted_mamba + 1)))))))"

definition evict_candidates :: "'w pic_world_scheme \<Rightarrow> nat list" where
  "evict_candidates w =
     sort_key (\<lambda>i. get_priority LRUStrategy (w_heap w i))
       (filter (\<lambda>i. lock_ref (w_heap w i) = 0) (map snd (w_entries w)))"

text \<open>\<open>evict\<close> returns the evicted tokens and the evicted mamba slots.\<close>

definition evict :: "int \<Rightarrow> int \<Rightarrow> ('w pic_world_scheme, int \<times> int) pym" where
  "evict need_tokens need_mamba =
     (if need_tokens \<le> 0 \<and> need_mamba \<le> 0 then retM (0, 0)
      else bindM (getsM evict_candidates) (\<lambda>cands. evict_loop need_tokens need_mamba cands (0, 0)))"

section \<open>Registering a request's segments\<close>

definition is_transition :: "pic_config \<Rightarrow> bool" where
  "is_transition cf \<longleftrightarrow> compose (cf_policy cf) = TRANSITION"

text \<open>The global (last) segment of a multi-segment prompt.\<close>

definition global_seg :: "'r pic_req_scheme \<Rightarrow> segment option" where
  "global_seg r = (case pic_segments r of
     Some segs \<Rightarrow> if length segs > 1 then Some (last segs) else None
   | None \<Rightarrow> None)"

definition unpack_public :: "pic_config \<Rightarrow> miss_slots \<Rightarrow> (nat list \<times> int option) result" where
  "unpack_public cf slots =
     (if rope (cf_policy cf)
      then (case slots of
              RopeSlots priv (Some pub) m \<Rightarrow> Inr (pub, m)
            | RopeSlots priv None m \<Rightarrow> Inl AssertionError
            | StdSlots kv m \<Rightarrow> Inl ValueError)
      else (case slots of
              StdSlots kv m \<Rightarrow> Inr (kv, m)
            | RopeSlots priv pub m \<Rightarrow> Inl ValueError))"

text \<open>One iteration of \<open>cache_unfinished_req\<close>: register the segment's slots, or free them when the segment is
  already in the index.\<close>

definition register_segment ::
  "pic_config \<Rightarrow> segment \<Rightarrow> int list \<Rightarrow> nat list \<Rightarrow> int \<Rightarrow> 'r pic_req_scheme \<Rightarrow>
     ('w pic_world_scheme, 'r pic_req_scheme) pym" where
  "register_segment cf seg toks kv_slots m r =
     (let h = segment_hash_tensor (cf_sha256 cf) toks
      in bindM (stateM (match_segment cf h toks)) (\<lambda>existing. case existing of
           Some i \<Rightarrow>
             bindM (modifyM (kv_free kv_slots)) (\<lambda>_.
             bindM (modifyM (mb_free [m])) (\<lambda>_.
             retM (r\<lparr>pic_segment_entries := AList.update h i (pic_segment_entries r),
                     pic_freed_miss_segments := List.insert seg (pic_freed_miss_segments r)\<rparr>)))
         | None \<Rightarrow>
             bindM (stateM (insert_segment cf h toks kv_slots m)) (\<lambda>i.
             bindM (modifyM (\<lambda>w. if is_transition cf
                               then upd_entry i (\<lambda>e. e\<lparr>lock_ref := lock_ref e + 1\<rparr>) w else w)) (\<lambda>_.
             retM (r\<lparr>pic_segment_entries := AList.update h i (pic_segment_entries r),
                     pic_cache_owned_miss_segments := List.insert seg (pic_cache_owned_miss_segments r)\<rparr>)))))"

definition cache_unfinished_step ::
  "pic_config \<Rightarrow> 'r pic_req_scheme \<times> int \<times> int \<Rightarrow> segment \<Rightarrow>
     ('w pic_world_scheme, 'r pic_req_scheme \<times> int \<times> int) pym" where
  "cache_unfinished_step cf acc seg =
     (case acc of (r, inflight_tokens, inflight_mamba) \<Rightarrow>
      if global_seg r = Some seg \<and> \<not> pic_scatter_single_seg r then retM acc
      else if cf_min_tokens cf > 0 \<and> seg_len seg < cf_min_tokens cf then retM acc
      else case map_of (pic_miss_segment_slots r) seg of
             None \<Rightarrow> retM acc
           | Some slot_tuple \<Rightarrow>
               bindM (liftM (unpack_public cf slot_tuple)) (\<lambda>(kv_slots, mamba_slot).
               bindM (optM AssertionError mamba_slot) (\<lambda>m.
               bindM (register_segment cf seg (seg_slice (origin_input_ids r) seg) kv_slots m r) (\<lambda>r'.
               retM (r', inflight_tokens + int (length kv_slots), inflight_mamba + 1)))))"

definition cache_unfinished_req ::
  "pic_config \<Rightarrow> 'r pic_req_scheme \<Rightarrow> ('w pic_world_scheme, 'r pic_req_scheme) pym" where
  "cache_unfinished_req cf r =
     (let r0 = r\<lparr>pic_cache_owned_miss_segments := [], pic_freed_miss_segments := []\<rparr>
      in bindM (foldM (cache_unfinished_step cf) (r0, 0, 0) (pic_miss_segments r)) (\<lambda>(r', it, im).
         bindM (modifyM (\<lambda>w. if is_transition cf \<and> (it > 0 \<or> im > 0) then remove_inflight it im w else w)) (\<lambda>_.
         retM r')))"

section \<open>Finishing a request\<close>

definition std_slots :: "miss_slots \<Rightarrow> (nat list \<times> int option) result" where
  "std_slots s = (case s of StdSlots kv m \<Rightarrow> Inr (kv, m) | RopeSlots priv pub m \<Rightarrow> Inl ValueError)"

definition rope_slots :: "miss_slots \<Rightarrow> (nat list \<times> nat list option \<times> int option) result" where
  "rope_slots s = (case s of RopeSlots priv pub m \<Rightarrow> Inr (priv, pub, m) | StdSlots kv m \<Rightarrow> Inl ValueError)"

fun map_result :: "('a \<Rightarrow> 'b result) \<Rightarrow> 'a list \<Rightarrow> 'b list result" where
  "map_result f [] = Inr []"
| "map_result f (x # xs) =
     (case f x of Inl e \<Rightarrow> Inl e
      | Inr y \<Rightarrow> (case map_result f xs of Inl e \<Rightarrow> Inl e | Inr ys \<Rightarrow> Inr (y # ys)))"

definition count_some :: "'b option list \<Rightarrow> int" where
  "count_some ms = int (length (filter (\<lambda>m. m \<noteq> None) ms))"

text \<open>Addition mode: everything the request allocated leaves the in-flight counters.\<close>

definition finish_addition_inflight ::
  "pic_config \<Rightarrow> 'r pic_req_scheme \<Rightarrow> ('w pic_world_scheme, unit) pym" where
  "finish_addition_inflight cf r =
     (if is_transition cf then retM ()
      else if rope (cf_policy cf)
      then bindM (liftM (map_result rope_slots (map snd (pic_miss_segment_slots r)))) (\<lambda>ts.
           modifyM (remove_inflight
             (\<Sum>(priv, pub, m)\<leftarrow>ts. int (length priv) + (case pub of None \<Rightarrow> 0 | Some q \<Rightarrow> int (length q)))
             (count_some (map (\<lambda>(priv, pub, m). m) ts))))
      else bindM (liftM (map_result std_slots (map snd (pic_miss_segment_slots r)))) (\<lambda>ts.
           modifyM (remove_inflight (\<Sum>(kv, m)\<leftarrow>ts. int (length kv)) (count_some (map snd ts)))))"

text \<open>The last segment of a multi-segment prompt is never cached; its slots are freed here.\<close>

definition finish_last_segment ::
  "pic_config \<Rightarrow> 'r pic_req_scheme \<Rightarrow> ('w pic_world_scheme, unit) pym" where
  "finish_last_segment cf r =
     (case global_seg r of
        None \<Rightarrow> retM ()
      | Some last_seg \<Rightarrow>
          (case map_of (pic_miss_segment_slots r) last_seg of
             None \<Rightarrow> retM ()
           | Some slot_tuple \<Rightarrow>
               if rope (cf_policy cf)
               then bindM (liftM (rope_slots slot_tuple)) (\<lambda>(last_priv, last_pub, last_mamba).
                    bindM (assertM (last_pub = None)) (\<lambda>_.
                    bindM (modifyM (kv_free last_priv)) (\<lambda>_.
                    modifyM (case last_mamba of None \<Rightarrow> id | Some m \<Rightarrow> mb_free [m]))))
               else bindM (liftM (std_slots slot_tuple)) (\<lambda>(last_kv, last_mamba).
                    bindM (modifyM (kv_free last_kv)) (\<lambda>_.
                    bindM (modifyM (case last_mamba of None \<Rightarrow> id | Some m \<Rightarrow> mb_free [m])) (\<lambda>_.
                    modifyM (if is_transition cf
                             then remove_inflight (int (length last_kv)) (case last_mamba of None \<Rightarrow> 0 | Some _ \<Rightarrow> 1)
                             else id))))))"

text \<open>Segments too short to be cached, outside the rope modes.\<close>

definition skipped_segments ::
  "pic_config \<Rightarrow> 'r pic_req_scheme \<Rightarrow> (segment \<times> nat list \<times> int option) list \<Rightarrow>
     (segment \<times> nat list \<times> int option) list" where
  "skipped_segments cf r items =
     (let last_seg = (case pic_segments r of Some (x # xs) \<Rightarrow> Some (last (x # xs)) | _ \<Rightarrow> None)
      in filter (\<lambda>(seg, kv, m).
           \<not> (Some seg = last_seg \<or> seg \<in> set (pic_cache_owned_miss_segments r) \<or>
              seg \<in> set (pic_freed_miss_segments r)) \<and>
           \<not> (cf_min_tokens cf \<le> 0 \<or> seg_len seg \<ge> cf_min_tokens cf)) items)"

definition finish_skipped ::
  "pic_config \<Rightarrow> 'r pic_req_scheme \<Rightarrow> ('w pic_world_scheme, unit) pym" where
  "finish_skipped cf r =
     (if rope (cf_policy cf) then retM ()
      else bindM (liftM (map_result (\<lambda>(seg, s). case std_slots s of Inl e \<Rightarrow> Inl e | Inr (kv, m) \<Rightarrow> Inr (seg, kv, m))
                    (pic_miss_segment_slots r))) (\<lambda>items.
           let skipped = skipped_segments cf r items;
               kvs = concat (map (\<lambda>(seg, kv, m). kv) skipped);
               ms = concat (map (\<lambda>(seg, kv, m). case m of None \<Rightarrow> [] | Some x \<Rightarrow> [x]) skipped)
           in if skipped = [] then retM ()
              else bindM (modifyM (kv_free kvs)) (\<lambda>_.
                   bindM (modifyM (if ms \<noteq> [] then mb_free ms else id)) (\<lambda>_.
                   modifyM (if is_transition cf
                            then remove_inflight (\<Sum>(seg, kv, m)\<leftarrow>skipped. int (length kv)) (int (length ms))
                            else id)))))"

text \<open>Rope modes: the private copies of every missed segment.\<close>

definition finish_private ::
  "pic_config \<Rightarrow> 'r pic_req_scheme \<Rightarrow> ('w pic_world_scheme, unit) pym" where
  "finish_private cf r =
     (if \<not> rope (cf_policy cf) then retM ()
      else bindM (liftM (map_result (\<lambda>(seg, s). case rope_slots s of Inl e \<Rightarrow> Inl e | Inr (priv, pub, m) \<Rightarrow> Inr (seg, priv))
                    (pic_miss_segment_slots r))) (\<lambda>items.
           let locals = filter (\<lambda>(seg, priv). Some seg \<noteq> global_seg r) items;
               combined = concat (map snd locals)
           in bindM (if locals \<noteq> []
                     then bindM (modifyM (kv_free combined)) (\<lambda>_.
                          modifyM (remove_inflight (int (length combined)) 0))
                     else retM ()) (\<lambda>_.
              modifyM (case global_seg r of
                 None \<Rightarrow> id
               | Some g \<Rightarrow> (case map_of items g of
                             None \<Rightarrow> id
                           | Some gp \<Rightarrow> remove_inflight (int (length gp)) 1)))))"

definition finish_miss_slots ::
  "pic_config \<Rightarrow> bool \<Rightarrow> 'r pic_req_scheme \<Rightarrow> ('w pic_world_scheme, 'r pic_req_scheme) pym" where
  "finish_miss_slots cf is_insert r =
     (if pic_miss_segment_slots r = [] then retM r
      else bindM (if is_insert then cache_unfinished_req cf r else retM r) (\<lambda>r1.
           bindM (finish_addition_inflight cf r1) (\<lambda>_.
           bindM (finish_last_segment cf r1) (\<lambda>_.
           bindM (finish_skipped cf r1) (\<lambda>_.
           bindM (finish_private cf r1) (\<lambda>_.
           retM r1))))))"

text \<open>Rope modes: the private copies of the hit segments.\<close>

definition finish_hit_private ::
  "pic_config \<Rightarrow> 'r pic_req_scheme \<Rightarrow> ('w pic_world_scheme, unit) pym" where
  "finish_hit_private cf r =
     (if rope (cf_policy cf) \<and> pic_rope_hit_private_slots r \<noteq> []
      then let combined = concat (map (\<lambda>(seg, priv, pub). priv) (pic_rope_hit_private_slots r))
           in bindM (modifyM (kv_free combined)) (\<lambda>_.
              modifyM (remove_inflight (int (length combined)) 0))
      else retM ())"

text \<open>The slots decoding appended behind the prompt (on a decode node, the whole row).\<close>

definition finish_decode_slots ::
  "pic_config \<Rightarrow> 'r pic_req_scheme \<Rightarrow> ('w pic_world_scheme, unit) pym" where
  "finish_decode_slots cf r =
     (case (pic_segments r, req_pool_idx r) of
        (Some (x # xs), Some idx) \<Rightarrow>
          let prompt_end = snd (last (x # xs));
              free_start = (if cf_is_decode cf then 0 else prompt_end)
          in if kv_committed_len r > free_start
             then bindM (getsM (\<lambda>w. req_to_token (w_pool w))) (\<lambda>rows.
                  if length rows \<le> idx then raiseM IndexError
                  else modifyM (kv_free (drop free_start (take (kv_committed_len r) (rows ! idx)))))
             else retM ()
      | _ \<Rightarrow> retM ())"

definition cache_finished_req ::
  "pic_config \<Rightarrow> bool \<Rightarrow> 'r pic_req_scheme \<Rightarrow> ('w pic_world_scheme, 'r pic_req_scheme) pym" where
  "cache_finished_req cf is_insert r =
     bindM (finish_miss_slots cf is_insert r) (\<lambda>r1.
     bindM (finish_hit_private cf r1) (\<lambda>_.
     bindM (finish_decode_slots cf r1) (\<lambda>_.
     bindM (if mamba_pool_idx r1 \<noteq> None then on_pool (free_mamba_cache r1 None) else retM r1) (\<lambda>r2.
     bindM (stateM (dec_lock_ref r2)) (\<lambda>_.
     retM r2)))))"

section \<open>Well-formed caches and slot accounting\<close>

text \<open>
  \<open>entry_ok\<close>: an index entry refers to an allocated object that carries the hash it is filed under, that hash is the
  hash of its tokens, it has one KV slot per token, and its lock count is not negative.
\<close>

definition entry_ok :: "pic_config \<Rightarrow> 'w pic_world_scheme \<Rightarrow> bytes \<Rightarrow> nat \<Rightarrow> bool" where
  "entry_ok cf w h i \<longleftrightarrow>
     i < w_next w \<and> seg_hash (w_heap w i) = h \<and>
     h = segment_hash_tensor (cf_sha256 cf) (token_ids (w_heap w i)) \<and>
     length (full_kv_slots (w_heap w i)) = length (token_ids (w_heap w i)) \<and>
     lock_ref (w_heap w i) \<ge> 0"

definition pic_inv :: "pic_config \<Rightarrow> 'w pic_world_scheme \<Rightarrow> bool" where
  "pic_inv cf w \<longleftrightarrow>
     dict_ok (w_entries w) \<and> (\<forall>(h, i) \<in> set (w_entries w). entry_ok cf w h i) \<and>
     token_invar (w_kv w) \<and> w_inflight_full_tokens w \<ge> 0 \<and> w_inflight_mamba_slots w \<ge> 0"

text \<open>Slots that are free or owned by a cached segment.\<close>

definition kv_acct :: "'w pic_world_scheme \<Rightarrow> nat multiset" where
  "kv_acct w = token_owned (w_kv w) + mset (all_values_flatten w)"

definition mb_acct :: "'w pic_world_scheme \<Rightarrow> int multiset" where
  "mb_acct w = pool_mamba (w_pool w) + mset (all_mamba_values_flatten w)"

lemma pic_invD:
  assumes "pic_inv cf w"
  shows "dict_ok (w_entries w)" "\<And>h i. (h, i) \<in> set (w_entries w) \<Longrightarrow> entry_ok cf w h i" "token_invar (w_kv w)"
    "w_inflight_full_tokens w \<ge> 0" "w_inflight_mamba_slots w \<ge> 0"
  using assms by (auto simp: pic_inv_def)

lemma pic_inv_hash: "pic_inv cf w \<Longrightarrow> (h, i) \<in> set (w_entries w) \<Longrightarrow> h = seg_hash (w_heap w i)"
  by (auto dest: pic_invD(2) simp: entry_ok_def)

lemma pic_inv_id_lookup:
  assumes "pic_inv cf w" "i \<in> snd ` set (w_entries w)"
  shows "map_of (w_entries w) (seg_hash (w_heap w i)) = Some i"
  using assms pic_inv_hash [OF assms(1)] pic_invD(1) [OF assms(1)] by (auto intro!: map_of_is_SomeI)

lemma pic_inv_ids_distinct:
  assumes "pic_inv cf w"
  shows "distinct (map snd (w_entries w))"
proof -
  have "inj_on snd (set (w_entries w))"
    by (rule inj_onI) (metis pic_inv_hash [OF assms] prod.collapse)
  then show ?thesis
    using pic_invD(1) [OF assms] by (simp add: distinct_map)
qed

text \<open>What the allocators-and-index operations leave alone.\<close>

definition cache_frame :: "'w pic_world_scheme \<Rightarrow> 'w pic_world_scheme \<Rightarrow> bool" where
  "cache_frame w w' \<longleftrightarrow> (\<exists>a m es. w' = w\<lparr>w_kv := a, w_pool := (w_pool w)\<lparr>mamba_allocator := m\<rparr>, w_entries := es\<rparr>)"

lemma cache_frame_refl [simp]: "cache_frame w w"
  unfolding cache_frame_def
  by (rule exI [of _ "w_kv w"], rule exI [of _ "mamba_allocator (w_pool w)"], rule exI [of _ "w_entries w"]) simp

lemma cache_frame_trans: "cache_frame w w1 \<Longrightarrow> cache_frame w1 w2 \<Longrightarrow> cache_frame w w2"
  unfolding cache_frame_def by fastforce

lemma cache_frame_fields:
  assumes "cache_frame w w'"
  shows "w_heap w' = w_heap w" "w_next w' = w_next w" "w_ticks w' = w_ticks w"
    "w_inflight_full_tokens w' = w_inflight_full_tokens w" "w_inflight_mamba_slots w' = w_inflight_mamba_slots w"
    "req_to_token (w_pool w') = req_to_token (w_pool w)" "mamba_only (w_pool w) (w_pool w')"
  using assms by (auto simp: cache_frame_def)

section \<open>Eviction\<close>

text \<open>The state after dropping one entry from the index and giving its slots back.\<close>

definition drop_entry :: "nat \<Rightarrow> 'w pic_world_scheme \<Rightarrow> 'w pic_world_scheme" where
  "drop_entry i w = (mb_free [mamba_state_slot (w_heap w i)] (kv_free (full_kv_slots (w_heap w i)) w))
     \<lparr>w_entries := AList.delete (seg_hash (w_heap w i)) (w_entries w)\<rparr>"

lemma drop_entry_frame: "cache_frame w (drop_entry i w)"
  by (auto simp: cache_frame_def drop_entry_def mb_free_def kv_free_def)

lemma delete_by_id:
  assumes "pic_inv cf w" "i \<in> snd ` set (w_entries w)"
  shows "AList.delete (seg_hash (w_heap w i)) (w_entries w) = filter (\<lambda>(h, j). j \<noteq> i) (w_entries w)"
  unfolding AList.delete_eq
proof (rule filter_cong [OF refl])
  fix p
  assume p: "p \<in> set (w_entries w)"
  obtain h j where hj: "p = (h, j)" by fastforce
  have "h = seg_hash (w_heap w i) \<longleftrightarrow> j = i"
    using pic_inv_hash [OF assms(1)] p pic_inv_id_lookup [OF assms] pic_invD(1) [OF assms(1)]
    unfolding hj by (metis map_of_eq_Some_iff option.inject)
  then show "(case p of (k', _) \<Rightarrow> seg_hash (w_heap w i) \<noteq> k') = (case p of (h, j) \<Rightarrow> j \<noteq> i)"
    by (auto simp: hj)
qed

lemma drop_entry_acct:
  assumes "pic_inv cf w" "i \<in> snd ` set (w_entries w)"
  shows "kv_acct (drop_entry i w) = kv_acct w" "mb_acct (drop_entry i w) = mb_acct w" "pic_inv cf (drop_entry i w)"
proof -
  let ?h = "seg_hash (w_heap w i)"
  have split: "mset (w_entries w) = mset (AList.delete ?h (w_entries w)) + {#(?h, i)#}"
    using mset_dict_delete [OF pic_invD(1) [OF assms(1)] pic_inv_id_lookup [OF assms]] .
  have e: "mset (entry_values w) = mset (entry_values (drop_entry i w)) + {#w_heap w i#}"
    using arg_cong [OF split, of "image_mset (w_heap w \<circ> snd)"]
    by (simp add: entry_values_def drop_entry_def mb_free_def kv_free_def)
  have "mset (all_values_flatten w) = mset (all_values_flatten (drop_entry i w)) + mset (full_kv_slots (w_heap w i))"
    unfolding all_values_flatten_def mset_concat_map e by simp
  moreover have "token_owned (w_kv (drop_entry i w)) = token_owned (w_kv w) + mset (full_kv_slots (w_heap w i))"
    "token_invar (w_kv (drop_entry i w))"
    using token_free_owned [OF pic_invD(3) [OF assms(1)]] by (simp_all add: drop_entry_def mb_free_def kv_free_def)
  ultimately show "kv_acct (drop_entry i w) = kv_acct w"
    by (simp add: kv_acct_def union_ac)
  have "mset (all_mamba_values_flatten w) = mset (all_mamba_values_flatten (drop_entry i w)) + {#mamba_state_slot (w_heap w i)#}"
    unfolding all_mamba_values_flatten_def mset_map e by simp
  then show "mb_acct (drop_entry i w) = mb_acct w"
    by (simp add: mb_acct_def drop_entry_def mb_free_def kv_free_def all_mamba_values_flatten_def entry_values_def)
  have "entry_ok cf (drop_entry i w) h j" if "(h, j) \<in> set (w_entries (drop_entry i w))" for h j
    using that pic_invD(2) [OF assms(1), of h j] delete_by_id [OF assms]
    by (auto simp: entry_ok_def drop_entry_def mb_free_def kv_free_def)
  then show "pic_inv cf (drop_entry i w)"
    using pic_invD [OF assms(1)] token_free_owned [OF pic_invD(3) [OF assms(1)]]
    by (auto simp: pic_inv_def drop_entry_def mb_free_def kv_free_def)
qed

lemma evict_loop_Cons:
  assumes "pic_inv cf w" "i \<in> snd ` set (w_entries w)"
  shows "evict_loop nt nm (i # cands) (t, m) w =
    (if t \<ge> nt \<and> m \<ge> nm then (Inr (t, m), w)
     else evict_loop nt nm cands (t + int (length (full_kv_slots (w_heap w i))), m + 1) (drop_entry i w))"
  using pic_inv_id_lookup [OF assms]
  by (auto simp: drop_entry_def kv_free_def mb_free_def)

text \<open>Eviction in terms of the candidate list: an initial part \<open>evd\<close> of it is dropped, just long enough.\<close>

lemma evict_loop_spec:
  assumes "pic_inv cf w" "distinct cands" "set cands \<subseteq> snd ` set (w_entries w)"
  shows "\<exists>evd rest w'. cands = evd @ rest \<and>
    evict_loop nt nm cands (t, m) w =
      (Inr (t + (\<Sum>i\<leftarrow>evd. int (length (full_kv_slots (w_heap w i)))), m + int (length evd)), w') \<and>
    w_entries w' = filter (\<lambda>(h, j). j \<notin> set evd) (w_entries w) \<and> cache_frame w w' \<and>
    kv_acct w' = kv_acct w \<and> mb_acct w' = mb_acct w \<and> pic_inv cf w' \<and>
    (rest \<noteq> [] \<longrightarrow> t + (\<Sum>i\<leftarrow>evd. int (length (full_kv_slots (w_heap w i)))) \<ge> nt \<and> m + int (length evd) \<ge> nm) \<and>
    (\<forall>k < length evd. \<not> (t + (\<Sum>i\<leftarrow>take k evd. int (length (full_kv_slots (w_heap w i)))) \<ge> nt \<and> m + int k \<ge> nm))"
  using assms
proof (induction cands arbitrary: w t m)
  case Nil
  show ?case
    by (rule exI [of _ "[]"]) (use Nil in \<open>auto simp: case_prod_unfold\<close>)
next
  case (Cons i cands)
  have i: "i \<in> snd ` set (w_entries w)"
    using Cons.prems by simp
  show ?case
  proof (cases "t \<ge> nt \<and> m \<ge> nm")
    case True
    show ?thesis
      by (rule exI [of _ "[]"], rule exI [of _ "i # cands"], rule exI [of _ w])
        (use True Cons.prems evict_loop_Cons [OF Cons.prems(1) i] in \<open>auto simp: case_prod_unfold\<close>)
  next
    case False
    let ?w1 = "drop_entry i w" and ?l = "int (length (full_kv_slots (w_heap w i)))"
    have es: "w_entries ?w1 = filter (\<lambda>(h, j). j \<noteq> i) (w_entries w)"
      using delete_by_id [OF Cons.prems(1) i] by (simp add: drop_entry_def)
    have heap: "w_heap ?w1 = w_heap w"
      using cache_frame_fields(1) [OF drop_entry_frame] .
    have sub: "set cands \<subseteq> snd ` set (w_entries ?w1)"
      using Cons.prems(2,3) by (force simp: es)
    from Cons.IH [OF drop_entry_acct(3) [OF Cons.prems(1) i] _ sub, of "t + ?l" "m + 1"] Cons.prems(2)
    obtain evd rest w' where IH: "cands = evd @ rest"
      "evict_loop nt nm cands (t + ?l, m + 1) ?w1 =
         (Inr (t + ?l + (\<Sum>i\<leftarrow>evd. int (length (full_kv_slots (w_heap w i)))), m + 1 + int (length evd)), w')"
      "w_entries w' = filter (\<lambda>(h, j). j \<notin> set evd) (w_entries ?w1)" "cache_frame ?w1 w'"
      "kv_acct w' = kv_acct ?w1" "mb_acct w' = mb_acct ?w1" "pic_inv cf w'"
      "rest \<noteq> [] \<longrightarrow> t + ?l + (\<Sum>i\<leftarrow>evd. int (length (full_kv_slots (w_heap w i)))) \<ge> nt \<and> m + 1 + int (length evd) \<ge> nm"
      "\<forall>k < length evd. \<not> (t + ?l + (\<Sum>i\<leftarrow>take k evd. int (length (full_kv_slots (w_heap w i)))) \<ge> nt \<and> m + 1 + int k \<ge> nm)"
      unfolding heap by auto
    have min: "\<forall>k < length (i # evd). \<not> (t + (\<Sum>i\<leftarrow>take k (i # evd). int (length (full_kv_slots (w_heap w i)))) \<ge> nt \<and> m + int k \<ge> nm)"
      using IH(9) False by (auto simp: less_Suc_eq_0_disj algebra_simps)
    show ?thesis
      by (rule exI [of _ "i # evd"], rule exI [of _ rest], rule exI [of _ w'])
        (use min IH es False evict_loop_Cons [OF Cons.prems(1) i] cache_frame_trans [OF drop_entry_frame IH(4)]
           drop_entry_acct [OF Cons.prems(1) i] in \<open>auto simp: case_prod_unfold algebra_simps intro!: filter_cong\<close>)
  qed
qed

lemma evict_candidates_props:
  assumes "pic_inv cf w"
  shows "distinct (evict_candidates w)"
    "set (evict_candidates w) = {i \<in> snd ` set (w_entries w). lock_ref (w_heap w i) = 0}"
    "sorted (map (\<lambda>i. last_access_time (w_heap w i)) (evict_candidates w))"
proof -
  show "distinct (evict_candidates w)"
    using pic_inv_ids_distinct [OF assms] by (simp add: evict_candidates_def)
  show "set (evict_candidates w) = {i \<in> snd ` set (w_entries w). lock_ref (w_heap w i) = 0}"
    by (auto simp: evict_candidates_def)
  have "sorted (map (\<lambda>i. [last_access_time (w_heap w i)]) (evict_candidates w))"
    by (simp add: evict_candidates_def)
  then show "sorted (map (\<lambda>i. last_access_time (w_heap w i)) (evict_candidates w))"
    by (simp add: sorted_map order_le_less)
qed

lemma evict_spec:
  assumes "pic_inv cf w"
  shows "\<exists>evd rest w'. evict_candidates w = evd @ rest \<and>
    evict nt nm w = (Inr ((\<Sum>i\<leftarrow>evd. int (length (full_kv_slots (w_heap w i)))), int (length evd)), w') \<and>
    w_entries w' = filter (\<lambda>(h, j). j \<notin> set evd) (w_entries w) \<and> cache_frame w w' \<and>
    kv_acct w' = kv_acct w \<and> mb_acct w' = mb_acct w \<and> pic_inv cf w' \<and>
    (rest \<noteq> [] \<longrightarrow> (\<Sum>i\<leftarrow>evd. int (length (full_kv_slots (w_heap w i)))) \<ge> nt \<and> int (length evd) \<ge> nm) \<and>
    (\<forall>k < length evd. \<not> ((\<Sum>i\<leftarrow>take k evd. int (length (full_kv_slots (w_heap w i)))) \<ge> nt \<and> int k \<ge> nm))"
proof (cases "nt \<le> 0 \<and> nm \<le> 0")
  case True
  show ?thesis
    by (rule exI [of _ "[]"], rule exI [of _ "evict_candidates w"], rule exI [of _ w])
      (use True assms in \<open>auto simp: evict_def case_prod_unfold\<close>)
next
  case False
  have "distinct (evict_candidates w)" "set (evict_candidates w) \<subseteq> snd ` set (w_entries w)"
    using evict_candidates_props [OF assms] by auto
  moreover have "evict nt nm w = evict_loop nt nm (evict_candidates w) (0, 0) w"
    using False by (auto simp: evict_def)
  ultimately show ?thesis
    using evict_loop_spec [OF assms, of "evict_candidates w" nt nm 0 0] by simp
qed

text \<open>C5. Eviction always returns; it drops unlocked segments only, least recently used first, and stops as soon as
  both the token and the mamba demand are met (one segment fewer would not do) or no unlocked segment is left.
  The dropped segments' slots return to their pools and nothing else of the cache changes.\<close>

theorem evict_correct:
  assumes inv: "pic_inv cf w"
  shows "\<exists>evd t m w'. evict nt nm w = (Inr (t, m), w') \<and>
    set evd \<subseteq> {i \<in> snd ` set (w_entries w). lock_ref (w_heap w i) = 0} \<and>
    w_entries w' = filter (\<lambda>(h, j). j \<notin> set evd) (w_entries w) \<and>
    t = (\<Sum>i\<leftarrow>evd. int (length (full_kv_slots (w_heap w i)))) \<and> m = int (length evd) \<and>
    (t \<ge> nt \<and> m \<ge> nm \<or> (\<forall>i \<in> snd ` set (w_entries w'). lock_ref (w_heap w' i) \<noteq> 0)) \<and>
    (evd \<noteq> [] \<longrightarrow> \<not> (t - int (length (full_kv_slots (w_heap w (last evd)))) \<ge> nt \<and> m - 1 \<ge> nm)) \<and>
    (\<forall>i \<in> set evd. \<forall>j \<in> snd ` set (w_entries w'). lock_ref (w_heap w' j) = 0 \<longrightarrow>
       last_access_time (w_heap w i) \<le> last_access_time (w_heap w j)) \<and>
    kv_acct w' = kv_acct w \<and> mb_acct w' = mb_acct w \<and> w_heap w' = w_heap w \<and> pic_inv cf w'"
proof -
  obtain evd rest w' where ev: "evict_candidates w = evd @ rest"
    "evict nt nm w = (Inr ((\<Sum>i\<leftarrow>evd. int (length (full_kv_slots (w_heap w i)))), int (length evd)), w')"
    "w_entries w' = filter (\<lambda>(h, j). j \<notin> set evd) (w_entries w)" "cache_frame w w'"
    "kv_acct w' = kv_acct w" "mb_acct w' = mb_acct w" "pic_inv cf w'"
    "rest \<noteq> [] \<longrightarrow> (\<Sum>i\<leftarrow>evd. int (length (full_kv_slots (w_heap w i)))) \<ge> nt \<and> int (length evd) \<ge> nm"
    "\<forall>k < length evd. \<not> ((\<Sum>i\<leftarrow>take k evd. int (length (full_kv_slots (w_heap w i)))) \<ge> nt \<and> int k \<ge> nm)"
    using evict_spec [OF inv] by blast
  note cand = evict_candidates_props [OF inv]
  have heap: "w_heap w' = w_heap w"
    using cache_frame_fields(1) [OF ev(4)] .
  have left: "j \<in> set rest" if "j \<in> snd ` set (w_entries w')" "lock_ref (w_heap w' j) = 0" for j
  proof -
    have "j \<in> snd ` set (w_entries w)" "j \<notin> set evd"
      using that(1) by (auto simp: ev(3))
    then show ?thesis
      using that(2) cand(2) by (auto simp: ev(1) heap)
  qed
  have lru: "last_access_time (w_heap w i) \<le> last_access_time (w_heap w j)" if "i \<in> set evd" "j \<in> set rest" for i j
    using cand(3) that by (auto simp: ev(1) sorted_append)
  have "\<not> ((\<Sum>i\<leftarrow>butlast evd. int (length (full_kv_slots (w_heap w i)))) \<ge> nt \<and> int (length evd) - 1 \<ge> nm)"
    if "evd \<noteq> []"
    using ev(9) [rule_format, of "length evd - 1"] that by (cases evd rule: rev_cases) auto
  moreover have "(\<Sum>i\<leftarrow>evd. int (length (full_kv_slots (w_heap w i)))) -
      int (length (full_kv_slots (w_heap w (last evd)))) =
      (\<Sum>i\<leftarrow>butlast evd. int (length (full_kv_slots (w_heap w i))))" if "evd \<noteq> []"
    using that by (cases evd rule: rev_cases) auto
  ultimately have minimal: "evd \<noteq> [] \<longrightarrow> \<not> ((\<Sum>i\<leftarrow>evd. int (length (full_kv_slots (w_heap w i)))) -
      int (length (full_kv_slots (w_heap w (last evd)))) \<ge> nt \<and> int (length evd) - 1 \<ge> nm)"
    by simp
  have unlocked: "set evd \<subseteq> {i \<in> snd ` set (w_entries w). lock_ref (w_heap w i) = 0}"
    using cand(2) by (auto simp: ev(1))
  have enough: "(\<Sum>i\<leftarrow>evd. int (length (full_kv_slots (w_heap w i)))) \<ge> nt \<and> int (length evd) \<ge> nm \<or>
      (\<forall>i \<in> snd ` set (w_entries w'). lock_ref (w_heap w' i) \<noteq> 0)"
    using ev(8) left by (cases "rest = []") auto
  have order: "\<forall>i \<in> set evd. \<forall>j \<in> snd ` set (w_entries w'). lock_ref (w_heap w' j) = 0 \<longrightarrow>
       last_access_time (w_heap w i) \<le> last_access_time (w_heap w j)"
    using left lru by blast
  show ?thesis
    by (rule exI [of _ evd], rule exI [of _ "\<Sum>i\<leftarrow>evd. int (length (full_kv_slots (w_heap w i)))"],
        rule exI [of _ "int (length evd)"], rule exI [of _ w'], intro conjI)
      (fact ev unlocked enough minimal order heap refl)+
qed

section \<open>A small concrete cache\<close>

text \<open>One cached segment with tokens 11, 12 in KV slots 1, 2 and mamba slot 1, on pools of 8 KV and 6 mamba slots. The
  digest is the identity and the clock counts.\<close>

definition ex_cf :: "string \<Rightarrow> pic_config" where
  "ex_cf mode = \<lparr>cf_disable = False, cf_policy = the (map_of POLICIES mode), cf_is_decode = False, cf_min_tokens = -1,
     cf_seam_sink = 8, cf_fmul = (*), cf_sha256 = (\<lambda>b. b), cf_clock = int\<rparr>"

definition ex_world :: pic_world where
  "ex_world = snd (insert_segment (ex_cf ''addition'') (segment_hash_tensor (\<lambda>b. b) [11, 12]) [11, 12] [1, 2] 1
     \<lparr>w_kv = (token_init 8 False)\<lparr>free_pages := [3, 4, 5, 6, 7, 8]\<rparr>,
      w_pool = (hybrid_init 2 6 16 False False False)\<lparr>mamba_allocator := (mamba_init 6)\<lparr>free_slots := [2, 3, 4, 5, 6]\<rparr>\<rparr>,
      w_heap = (\<lambda>_. \<lparr>last_access_time = 0, creation_time = 0, hit_count = 0, priority = 0, seg_hash = [],
                     full_kv_slots = [], mamba_state_slot = 0, token_ids = [], lock_ref = 0\<rparr>),
      w_next = 0, w_entries = [], w_inflight_full_tokens = 0, w_inflight_mamba_slots = 0, w_ticks = 0\<rparr>)"

definition ex_req :: "int list \<Rightarrow> segment list \<Rightarrow> pic_req" where
  "ex_req ids segs = \<lparr>req_pool_idx = None, mamba_pool_idx = None, mamba_needs_clear = False,
     mamba_ping_pong_track_buffer = None, mamba_next_track_idx = None, inflight_middle_chunks = 0,
     kv_committed_len = 0, kv_allocated_len = 0, origin_input_ids = ids, pic_segments = Some segs,
     pic_scatter_single_seg = False, prefix_indices = [], pic_hit_segments = [], pic_miss_segments = [],
     pic_segment_entries = [], pic_miss_token_positions = None, pic_hit_seam_positions = [],
     pic_miss_segment_slots = [], pic_rope_hit_private_slots = [], pic_cache_owned_miss_segments = [],
     pic_freed_miss_segments = []\<rparr>"

lemma ex_world_inv: "pic_inv (ex_cf mode) ex_world"
  by (simp add: pic_inv_def ex_world_def insert_segment_def match_segment_def tick_def monotonic_def entry_ok_def
      ex_cf_def token_invar_def token_init_def token_clear_def Let_def)

text \<open>The cached segment is evicted on demand.\<close>

theorem evict_correct_witness:
  "pic_inv (ex_cf ''addition'') ex_world \<and>
   (\<exists>evd t m w'. evict 1 0 ex_world = (Inr (t, m), w') \<and>
     (t \<ge> 1 \<and> m \<ge> 0 \<or> (\<forall>i \<in> snd ` set (w_entries w'). lock_ref (w_heap w' i) \<noteq> 0)) \<and>
     kv_acct w' = kv_acct ex_world \<and> set evd \<subseteq> {i \<in> snd ` set (w_entries ex_world). lock_ref (w_heap ex_world i) = 0})"
  using ex_world_inv [of "''addition''"] evict_correct [OF ex_world_inv [of "''addition''"], of 1 0] by meson

end
