(* ===== verification/Pic_Match.thy ===== *)
theory Pic_Match
  imports Pic_Cache
begin

text \<open>
  What a prompt lookup in the segment cache returns, and that the request's extend positions and its cached prefix
  together cover the prompt (\<open>match_prefix\<close> of \<^verbatim>\<open>pic/picache.py\<close> and the PIC part of
  \<open>Req.init_next_round_input\<close>, \<^verbatim>\<open>managers/schedule_batch.py\<close>).
\<close>

section \<open>Touching entries\<close>

text \<open>A lookup may refresh access times and hit counts, and nothing else.\<close>

definition entry_core :: "segment_entry \<Rightarrow> segment_entry" where
  "entry_core e = e\<lparr>last_access_time := 0, hit_count := 0\<rparr>"

lemma entry_core_fields:
  assumes "entry_core a = entry_core b"
  shows "seg_hash a = seg_hash b" "full_kv_slots a = full_kv_slots b" "mamba_state_slot a = mamba_state_slot b"
    "token_ids a = token_ids b" "lock_ref a = lock_ref b"
  using assms by (cases a, cases b, simp add: entry_core_def)+

lemma entry_core_touch [simp]: "entry_core (e\<lparr>last_access_time := t, hit_count := c\<rparr>) = entry_core e"
  by (simp add: entry_core_def)

definition touch_frame :: "'w pic_world_scheme \<Rightarrow> 'w pic_world_scheme \<Rightarrow> bool" where
  "touch_frame w w' \<longleftrightarrow> (\<exists>g n. w' = w\<lparr>w_heap := g, w_ticks := n\<rparr> \<and> (\<forall>j. entry_core (g j) = entry_core (w_heap w j)))"

lemma touch_frame_refl [simp]: "touch_frame w w"
  unfolding touch_frame_def by (rule exI [of _ "w_heap w"], rule exI [of _ "w_ticks w"]) simp

lemma touch_frame_touch:
  "touch_frame w (tick (upd_entry i (\<lambda>e. e\<lparr>last_access_time := t, hit_count := c e\<rparr>) w))"
  unfolding touch_frame_def
  by (rule exI [of _ "(w_heap w)(i := (w_heap w i)\<lparr>last_access_time := t, hit_count := c (w_heap w i)\<rparr>)"],
      rule exI [of _ "w_ticks w + 1"]) (simp add: upd_entry_def tick_def)

lemma touch_frame_trans: "touch_frame w w1 \<Longrightarrow> touch_frame w1 w2 \<Longrightarrow> touch_frame w w2"
  unfolding touch_frame_def by fastforce

lemma touch_frame_fields:
  assumes "touch_frame w w'"
  shows "w_entries w' = w_entries w" "w_kv w' = w_kv w" "w_pool w' = w_pool w" "w_next w' = w_next w"
    "w_inflight_full_tokens w' = w_inflight_full_tokens w" "w_inflight_mamba_slots w' = w_inflight_mamba_slots w"
    "\<And>j. entry_core (w_heap w' j) = entry_core (w_heap w j)"
  using assms by (auto simp: touch_frame_def)

lemmas touch_core = touch_frame_fields(7) [THEN entry_core_fields(1)] touch_frame_fields(7) [THEN entry_core_fields(2)]
  touch_frame_fields(7) [THEN entry_core_fields(3)] touch_frame_fields(7) [THEN entry_core_fields(4)]
  touch_frame_fields(7) [THEN entry_core_fields(5)]

lemma touch_frame_inv: "touch_frame w w' \<Longrightarrow> pic_inv cf w \<Longrightarrow> pic_inv cf w'"
  using touch_frame_fields [of w w'] touch_core [of w w'] unfolding pic_inv_def entry_ok_def by simp

lemma touch_frame_acct:
  assumes "touch_frame w w'"
  shows "kv_acct w' = kv_acct w" "mb_acct w' = mb_acct w"
proof -
  have "map full_kv_slots (entry_values w') = map full_kv_slots (entry_values w)"
    "map mamba_state_slot (entry_values w') = map mamba_state_slot (entry_values w)"
    using touch_frame_fields(1) [OF assms] touch_core [OF assms] by (simp_all add: entry_values_def)
  then show "kv_acct w' = kv_acct w" "mb_acct w' = mb_acct w"
    using touch_frame_fields [OF assms]
    by (simp_all add: kv_acct_def mb_acct_def all_values_flatten_def all_mamba_values_flatten_def)
qed

section \<open>Lookup\<close>

text \<open>The entry filed under the hash of \<open>toks\<close>, provided it really holds \<open>toks\<close>.\<close>

definition seg_lookup :: "pic_config \<Rightarrow> 'w pic_world_scheme \<Rightarrow> int list \<Rightarrow> nat option" where
  "seg_lookup cf w toks =
     (case map_of (w_entries w) (segment_hash_tensor (cf_sha256 cf) toks) of
        None \<Rightarrow> None
      | Some i \<Rightarrow> if token_ids (w_heap w i) = toks then Some i else None)"

lemma seg_lookup_touch: "touch_frame w w' \<Longrightarrow> seg_lookup cf w' toks = seg_lookup cf w toks"
  using touch_frame_fields(1) [of w w'] touch_core(4) [of w w']
  by (simp add: seg_lookup_def split: option.split)

lemma match_segment_touch:
  "\<exists>w'. match_segment cf (segment_hash_tensor (cf_sha256 cf) toks) toks w = (seg_lookup cf w toks, w') \<and>
     touch_frame w w'"
  using touch_frame_touch by (auto simp: match_segment_def seg_lookup_def split: option.split)

definition cacheable_len :: "pic_config \<Rightarrow> segment \<Rightarrow> bool" where
  "cacheable_len cf seg \<longleftrightarrow> \<not> (cf_min_tokens cf > 0 \<and> seg_len seg < cf_min_tokens cf)"

definition match_spec :: "pic_config \<Rightarrow> 'w pic_world_scheme \<Rightarrow> int list \<Rightarrow> segment list \<Rightarrow> nat option list" where
  "match_spec cf w ids segs =
     map (\<lambda>seg. if cacheable_len cf seg then seg_lookup cf w (seg_slice ids seg) else None) (butlast segs) @
     (if segs = [] then [] else [None])"

lemma match_spec_touch: "touch_frame w w' \<Longrightarrow> match_spec cf w' ids segs = match_spec cf w ids segs"
  by (simp add: match_spec_def seg_lookup_touch)

lemma match_loop_spec:
  "\<exists>w'. match_loop cf ids segs w = (match_spec cf w ids segs, w') \<and> touch_frame w w'"
proof (induction segs arbitrary: w)
  case Nil
  show ?case by (simp add: match_spec_def)
next
  case (Cons seg segs)
  show ?case
  proof (cases "segs = []")
    case True
    then show ?thesis by (simp add: match_spec_def)
  next
    case ne: False
    show ?thesis
    proof (cases "cacheable_len cf seg")
      case False
      then show ?thesis
        using ne Cons.IH [of w] by (auto simp: match_spec_def cacheable_len_def)
    next
      case True
      obtain w1 where w1: "match_segment cf (segment_hash_tensor (cf_sha256 cf) (seg_slice ids seg)) (seg_slice ids seg) w =
          (seg_lookup cf w (seg_slice ids seg), w1)" "touch_frame w w1"
        using match_segment_touch by blast
      obtain w2 where "match_loop cf ids segs w1 = (match_spec cf w1 ids segs, w2)" "touch_frame w1 w2"
        using Cons.IH by blast
      then show ?thesis
        using ne True w1 match_spec_touch [OF w1(2)] touch_frame_trans [OF w1(2), of w2]
        by (auto simp: match_spec_def cacheable_len_def Let_def)
    qed
  qed
qed

lemma match_spec_length [simp]: "length (match_spec cf w ids segs) = length segs"
  by (auto simp: match_spec_def)

lemma match_spec_nth:
  assumes "k < length segs"
  shows "match_spec cf w ids segs ! k =
    (if k < length segs - 1 \<and> cacheable_len cf (segs ! k) then seg_lookup cf w (seg_slice ids (segs ! k)) else None)"
  using assms by (auto simp: match_spec_def nth_append nth_butlast)

lemma seg_lookup_Some_iff:
  "seg_lookup cf w toks = Some i \<longleftrightarrow>
     map_of (w_entries w) (segment_hash_tensor (cf_sha256 cf) toks) = Some i \<and> token_ids (w_heap w i) = toks"
  by (auto simp: seg_lookup_def split: option.splits if_splits)

text \<open>C6. Looking a prompt up reports, for each of its segments, a hit exactly when the segment is not the last one,
  is not shorter than the configured minimum, and the cache files an entry with exactly the segment's tokens under the
  hash of those tokens; collisions are misses. The lookup changes access times and hit counts only: no lock, no slot,
  no index entry.\<close>

theorem match_prefix_exact:
  assumes "pic_segments r = Some segs" "segs \<noteq> []" "\<not> cf_disable cf"
  shows "\<exists>ix per_seg r' w'. match_prefix cf r w = ((ix, Some per_seg, r'), w') \<and> length per_seg = length segs \<and>
    (\<forall>k < length segs. \<forall>i. per_seg ! k = Some i \<longleftrightarrow>
       k < length segs - 1 \<and> \<not> (cf_min_tokens cf > 0 \<and> seg_len (segs ! k) < cf_min_tokens cf) \<and>
       map_of (w_entries w) (segment_hash_tensor (cf_sha256 cf) (seg_slice (origin_input_ids r) (segs ! k))) = Some i \<and>
       token_ids (w_heap w i) = seg_slice (origin_input_ids r) (segs ! k)) \<and>
    touch_frame w w'"
proof -
  obtain w' where "match_loop cf (origin_input_ids r) segs w = (match_spec cf w (origin_input_ids r) segs, w')"
    "touch_frame w w'"
    using match_loop_spec by blast
  then show ?thesis
    using assms
    by (auto simp: match_prefix_def match_spec_nth cacheable_len_def seg_lookup_Some_iff split: prod.splits)
qed

theorem match_prefix_exact_witness:
  "\<exists>ix per_seg r' w'. match_prefix (ex_cf ''addition'') (ex_req [11, 12, 7] [(0, 2), (2, 3)]) ex_world =
     ((ix, Some per_seg, r'), w') \<and> per_seg ! 0 = Some 0 \<and> touch_frame ex_world w'"
proof -
  let ?cf = "ex_cf ''addition''" and ?r = "ex_req [11, 12, 7] [(0, 2), (2, 3)]"
  have segs: "pic_segments ?r = Some [(0, 2), (2, 3)]" "\<not> cf_disable ?cf"
    by (simp_all add: ex_req_def ex_cf_def)
  obtain ix per_seg r' w' where m: "match_prefix ?cf ?r ex_world = ((ix, Some per_seg, r'), w')" "touch_frame ex_world w'"
    "per_seg ! 0 = Some 0 \<longleftrightarrow>
       map_of (w_entries ex_world) (segment_hash_tensor (cf_sha256 ?cf) (seg_slice (origin_input_ids ?r) (0, 2))) = Some 0 \<and>
       token_ids (w_heap ex_world 0) = seg_slice (origin_input_ids ?r) (0, 2)"
    using match_prefix_exact [OF segs(1) _ segs(2), of ex_world] by (auto simp: ex_cf_def)
  have "per_seg ! 0 = Some 0"
    unfolding m(3) by (simp add: ex_world_def ex_req_def ex_cf_def seg_slice_def insert_segment_def match_segment_def
        tick_def Let_def)
  then show ?thesis
    using m by blast
qed

section \<open>Extend positions and cached prefix\<close>

text \<open>What each segment contributes: the seam of a recomputed hit, its cached slots, and the positions
  that go through the forward pass.\<close>

definition seam_width :: "pic_config \<Rightarrow> bool \<Rightarrow> segment \<Rightarrow> nat" where
  "seam_width cf first seg =
     (if recompute (cf_policy cf) \<and> \<not> first
      then nat (resolve_seam_sink_tokens (cf_fmul cf) (cf_seam_sink cf) (seg_len seg - 1)) else 0)"

fun hit_tensors :: "pic_config \<Rightarrow> (nat \<Rightarrow> segment_entry) \<Rightarrow> bool \<Rightarrow> (segment \<times> nat option) list \<Rightarrow> nat list list" where
  "hit_tensors cf heap first [] = []"
| "hit_tensors cf heap first ((seg, None) # ps) = hit_tensors cf heap False ps"
| "hit_tensors cf heap first ((seg, Some i) # ps) =
     drop (seam_width cf first seg) (full_kv_slots (heap i)) # hit_tensors cf heap False ps"

fun hit_seams :: "pic_config \<Rightarrow> bool \<Rightarrow> (segment \<times> nat option) list \<Rightarrow> (segment, nat list) dict" where
  "hit_seams cf first [] = []"
| "hit_seams cf first ((seg, None) # ps) = hit_seams cf False ps"
| "hit_seams cf first ((seg, Some i) # ps) =
     (if seam_width cf first seg > 0 then [(seg, [fst seg..<fst seg + seam_width cf first seg])] else []) @
     hit_seams cf False ps"

fun extend_positions :: "pic_config \<Rightarrow> bool \<Rightarrow> (segment \<times> nat option) list \<Rightarrow> nat list" where
  "extend_positions cf first [] = []"
| "extend_positions cf first ((seg, None) # ps) = [fst seg..<snd seg] @ extend_positions cf False ps"
| "extend_positions cf first ((seg, Some i) # ps) =
     [fst seg..<fst seg + seam_width cf first seg] @ extend_positions cf False ps"

lemma seam_width_less: "fst seg < snd seg \<Longrightarrow> seam_width cf first seg < snd seg - fst seg"
  by (auto simp: seam_width_def resolve_seam_sink_tokens_def seg_len_def)

lemma hit_seams_keys: "set (map fst (hit_seams cf first ps)) \<subseteq> set (map fst ps)"
  by (induction cf first ps rule: hit_seams.induct) auto

lemma hit_slots_loop_eq:
  assumes "distinct (map fst ps)" "set (map fst ps) \<inter> set (map fst sm) = {}"
  shows "hit_slots_loop cf heap first ps (ts, sm) =
    (ts @ hit_tensors cf heap first ps, sm @ hit_seams cf first ps)"
  using assms
proof (induction cf heap first ps "(ts, sm)" arbitrary: ts sm rule: hit_slots_loop.induct)
  case (3 cf heap first seg i rest ts sm)
  let ?x = "resolve_seam_sink_tokens (cf_fmul cf) (cf_seam_sink cf) (seg_len seg - 1)"
  show ?case
  proof (cases "recompute (cf_policy cf) \<and> \<not> first \<and> ?x > 0")
    case True
    have new: "AList.update seg v sm = sm @ [(seg, v)]" for v
      using 3(4) by (intro dict_update_new) (auto simp: map_of_eq_None_iff)
    show ?thesis
      using 3 True by (auto simp: seam_width_def new Let_def)
  next
    case False
    then have "seam_width cf first seg = 0"
      by (auto simp: seam_width_def)
    then show ?thesis
      using 3 False by (auto simp: Let_def)
  qed
qed auto

lemma extend_positions_bounds:
  assumes "segs_from a (map fst ps) b"
  shows "sorted_wrt (<) (extend_positions cf first ps) \<and> set (extend_positions cf first ps) \<subseteq> {a..<b}"
  using assms
proof (induction cf first ps arbitrary: a rule: extend_positions.induct)
  case (2 cf first seg ps)
  obtain s e where seg: "seg = (s, e)" by fastforce
  have "segs_from e (map fst ps) b" "s = a" "s < e"
    using 2(2) seg by auto
  then show ?case
    using 2(1) [of e] segs_from_le [of e "map fst ps" b] by (auto simp: seg sorted_wrt_append)
next
  case (3 cf first seg i ps)
  obtain s e where seg: "seg = (s, e)" by fastforce
  have "segs_from e (map fst ps) b" "s = a" "s < e"
    using 3(2) seg by auto
  then show ?case
    using 3(1) [of e] segs_from_le [of e "map fst ps" b] seam_width_less [of seg cf first]
    by (fastforce simp: seg sorted_wrt_append)
qed auto

definition hits_fit :: "(nat \<Rightarrow> segment_entry) \<Rightarrow> (segment \<times> nat option) list \<Rightarrow> bool" where
  "hits_fit heap ps \<longleftrightarrow> (\<forall>seg i. (seg, Some i) \<in> set ps \<longrightarrow> length (full_kv_slots (heap i)) = snd seg - fst seg)"

lemma extend_plus_prefix:
  assumes "segs_from a (map fst ps) b" "hits_fit heap ps"
  shows "length (extend_positions cf first ps) + length (concat (hit_tensors cf heap first ps)) = b - a"
  using assms
proof (induction cf first ps arbitrary: a rule: extend_positions.induct)
  case (2 cf first seg ps)
  obtain s e where seg: "seg = (s, e)" by fastforce
  have "segs_from e (map fst ps) b" "s = a" "s < e" "hits_fit heap ps"
    using 2(2,3) seg by (auto simp: hits_fit_def)
  then show ?case
    using 2(1) [of e] segs_from_le [of e "map fst ps" b] by (auto simp: seg)
next
  case (3 cf first seg i ps)
  obtain s e where seg: "seg = (s, e)" by fastforce
  have "segs_from e (map fst ps) b" "s = a" "s < e" "hits_fit heap ps" "length (full_kv_slots (heap i)) = e - s"
    using 3(2,3) seg by (auto simp: hits_fit_def)
  then show ?case
    using 3(1) [of e] segs_from_le [of e "map fst ps" b] seam_width_less [of seg cf first] by (auto simp: seg)
qed auto

lemma extend_positions_mset:
  "mset (concat (map (\<lambda>(s, e). [s..<e]) (miss_segs ps)) @ concat (map snd (hit_seams cf first ps))) =
     mset (extend_positions cf first ps)"
  by (induction cf first ps rule: extend_positions.induct) (auto simp: miss_segs_def case_prod_unfold union_ac)

lemma extend_positions_no_seam:
  "hit_seams cf first ps = [] \<Longrightarrow>
     concat (map (\<lambda>(s, e). [s..<e]) (miss_segs ps)) = extend_positions cf first ps"
  by (induction cf first ps rule: extend_positions.induct)
    (auto simp: miss_segs_def case_prod_unfold split: if_splits)

lemma seg_slice_length: "snd seg \<le> length xs \<Longrightarrow> length (seg_slice xs seg) = snd seg - fst seg"
  by (simp add: seg_slice_def)

lemma match_spec_hits_fit:
  assumes inv: "pic_inv cf w" and tile: "segs_from a segs (length ids)" and touch: "touch_frame w w'"
  shows "hits_fit (w_heap w') (zip segs (match_spec cf w ids segs))"
  unfolding hits_fit_def
proof (intro allI impI)
  fix seg i
  assume "(seg, Some i) \<in> set (zip segs (match_spec cf w ids segs))"
  then obtain k where k: "k < length segs" "segs ! k = seg" "match_spec cf w ids segs ! k = Some i"
    by (auto simp: set_zip)
  then have "seg_lookup cf w (seg_slice ids seg) = Some i"
    by (simp add: match_spec_nth split: if_splits)
  then have look: "map_of (w_entries w) (segment_hash_tensor (cf_sha256 cf) (seg_slice ids seg)) = Some i"
    "token_ids (w_heap w i) = seg_slice ids seg"
    by (simp_all add: seg_lookup_Some_iff)
  have "length (full_kv_slots (w_heap w i)) = length (token_ids (w_heap w i))"
    using pic_invD(2) [OF inv map_of_SomeD [OF look(1)]] by (simp add: entry_ok_def)
  moreover have "snd seg \<le> length ids"
    using segs_from_bounds [OF tile, of "fst seg" "snd seg"] k nth_mem [OF k(1)] by auto
  ultimately show "length (full_kv_slots (w_heap w' i)) = snd seg - fst seg"
    using look(2) touch_core(2) [OF touch, of i] by (simp add: seg_slice_length)
qed

lemma hit_miss_partition:
  "mset (map (\<lambda>(s, e, h). (s, e)) (hit_triples heap ps)) + mset (miss_segs ps) = mset (map fst ps)"
  by (induction ps) (auto simp: hit_triples_def miss_segs_def split: option.splits)

lemma positions_sorted:
  assumes tile: "segs_from a (map fst ps) b" and seams: "sm = hit_seams cf first ps"
  shows "(if sm \<noteq> [] then sort (concat (map (\<lambda>(s, e). [s..<e]) (miss_segs ps)) @ concat (map snd sm))
          else concat (map (\<lambda>(s, e). [s..<e]) (miss_segs ps))) = extend_positions cf first ps"
proof (cases "sm = []")
  case False
  have "sort (concat (map (\<lambda>(s, e). [s..<e]) (miss_segs ps)) @ concat (map snd sm)) = extend_positions cf first ps"
  proof (rule properties_for_sort)
    show "mset (extend_positions cf first ps) = mset (concat (map (\<lambda>(s, e). [s..<e]) (miss_segs ps)) @ concat (map snd sm))"
      unfolding seams extend_positions_mset ..
    show "sorted (extend_positions cf first ps)"
      using extend_positions_bounds [OF tile] by (simp add: strict_sorted_iff)
  qed
  with False show ?thesis by simp
qed (use seams extend_positions_no_seam in simp)

lemma extend_positions_miss:
  "(s, e) \<in> set (miss_segs ps) \<Longrightarrow> {s..<e} \<subseteq> set (extend_positions cf first ps)"
  by (induction cf first ps rule: extend_positions.induct) (auto simp: miss_segs_def)

lemma take_match_positions:
  assumes "segs_from a segs b" "length per_seg = length segs"
    and "pic_hit_seam_positions r = hit_seams cf True (zip segs per_seg)"
    and "extend_positions cf True (zip segs per_seg) \<noteq> []"
  shows "pic_miss_token_positions (take_match heap segs per_seg r) = Some (extend_positions cf True (zip segs per_seg))"
proof -
  have "segs_from a (map fst (zip segs per_seg)) b"
    using assms(1,2) by simp
  note positions = positions_sorted [OF this refl, of cf True]
  show ?thesis
    unfolding take_match_def Let_def assms(3) positions using assms(4) by simp
qed

text \<open>C7. When the segments tile the prompt, every request admitted through the cache satisfies: hit and missed
  segments partition the segments; the extend positions are strictly increasing positions of the prompt that include
  every missed segment; and the extend positions and the cached prefix together have exactly the prompt's length, in
  every mode, the recomputed seams of hit segments included.\<close>

theorem init_next_round_covers:
  assumes inv: "pic_inv cf w" and segs: "pic_segments r = Some segs" "segs \<noteq> []"
    and tile: "segs_from 0 segs (length (origin_input_ids r))"
    and enabled: "\<not> cf_disable cf" and seams: "recompute (cf_policy cf) \<or> pic_hit_seam_positions r = []"
  shows "\<exists>r' w' ps. init_next_round_pic cf r w = (Inr r', w') \<and> touch_frame w w' \<and>
    pic_miss_token_positions r' = Some ps \<and> sorted_wrt (<) ps \<and> set ps \<subseteq> {0..<length (origin_input_ids r)} \<and>
    (\<forall>(s, e) \<in> set (pic_miss_segments r'). {s..<e} \<subseteq> set ps) \<and>
    mset (map (\<lambda>(s, e, h). (s, e)) (pic_hit_segments r')) + mset (pic_miss_segments r') = mset segs \<and>
    length ps + length (prefix_indices r') = length (origin_input_ids r)"
proof -
  let ?ids = "origin_input_ids r"
  let ?spec = "match_spec cf w ?ids segs"
  let ?zs = "zip segs ?spec"
  obtain w' where w': "match_loop cf ?ids segs w = (?spec, w')" "touch_frame w w'"
    using match_loop_spec by blast
  define r1 where "r1 = r\<lparr>pic_hit_seam_positions := hit_seams cf True ?zs,
      prefix_indices := concat (hit_tensors cf (w_heap w') True ?zs)\<rparr>"
  have zs: "map fst ?zs = segs"
    by simp
  have tile': "segs_from 0 (map fst ?zs) (length ?ids)"
    using tile by simp
  have "distinct (map fst ?zs)"
    using segs_from_distinct [OF tile] by simp
  then have loop: "hit_slots_loop cf (w_heap w') True ?zs ([], []) =
      (hit_tensors cf (w_heap w') True ?zs, hit_seams cf True ?zs)"
    using hit_slots_loop_eq [of ?zs "[]" cf "w_heap w'" True "[]"] by simp
  have run: "init_next_round_pic cf r w = (Inr (take_match (w_heap w') segs ?spec r1), w')"
    using seams segs enabled loop w'
    by (auto simp: init_next_round_pic_def match_prefix_def stateM_def r1_def bindM_app Let_def)
  have last_miss: "last segs \<in> set (miss_segs ?zs)"
    using segs(2) by (cases segs rule: rev_cases) (auto simp: miss_segs_def match_spec_def zip_append)
  have pos: "pic_miss_token_positions (take_match (w_heap w') segs ?spec r1) = Some (extend_positions cf True ?zs)"
  proof -
    have "fst (last segs) < snd (last segs)"
      using segs_from_bounds [OF tile, of "fst (last segs)" "snd (last segs)"] segs(2) by simp
    then have "extend_positions cf True ?zs \<noteq> []"
      using extend_positions_miss [of "fst (last segs)" "snd (last segs)" ?zs cf True] last_miss by auto
    then show ?thesis
      by (intro take_match_positions [OF tile]) (simp_all add: r1_def)
  qed
  have "length (extend_positions cf True ?zs) + length (concat (hit_tensors cf (w_heap w') True ?zs)) = length ?ids"
    using extend_plus_prefix [OF tile' match_spec_hits_fit [OF inv tile w'(2)]] by simp
  then have sizes: "length (extend_positions cf True ?zs) + length (prefix_indices (take_match (w_heap w') segs ?spec r1)) =
      length ?ids"
    by (simp add: take_match_def Let_def r1_def)
  have parts: "mset (map (\<lambda>(s, e, h). (s, e)) (pic_hit_segments (take_match (w_heap w') segs ?spec r1))) +
      mset (pic_miss_segments (take_match (w_heap w') segs ?spec r1)) = mset segs"
    using hit_miss_partition [of "w_heap w'" ?zs] by (simp add: take_match_def Let_def)
  have miss: "\<forall>(s, e) \<in> set (pic_miss_segments (take_match (w_heap w') segs ?spec r1)).
      {s..<e} \<subseteq> set (extend_positions cf True ?zs)"
    using extend_positions_miss [of _ _ ?zs cf True] by (auto simp: take_match_def Let_def)
  show ?thesis
    using run w'(2) pos sizes parts miss extend_positions_bounds [OF tile', of cf True] by blast
qed

theorem init_next_round_covers_witness:
  "\<exists>r' w' ps. init_next_round_pic (ex_cf ''transition_rope_recompute'')
      (ex_req [11, 12, 11, 12, 7] [(0, 2), (2, 4), (4, 5)]) ex_world = (Inr r', w') \<and>
     pic_miss_token_positions r' = Some ps \<and> length ps + length (prefix_indices r') = 5"
proof -
  let ?cf = "ex_cf ''transition_rope_recompute''" and ?r = "ex_req [11, 12, 11, 12, 7] [(0, 2), (2, 4), (4, 5)]"
  have "pic_segments ?r = Some [(0, 2), (2, 4), (4, 5)]" "segs_from 0 [(0, 2), (2, 4), (4, 5)] (length (origin_input_ids ?r))"
    "\<not> cf_disable ?cf" "recompute (cf_policy ?cf) \<or> pic_hit_seam_positions ?r = []" "length (origin_input_ids ?r) = 5"
    by (simp_all add: ex_req_def ex_cf_def POLICIES_def)
  then show ?thesis
    using init_next_round_covers [OF ex_world_inv, of ?r "[(0, 2), (2, 4), (4, 5)]" "''transition_rope_recompute''"]
    by (metis list.distinct(1))
qed

end
