(* ===== verification/Pic_Lifecycle.thy ===== *)
theory Pic_Lifecycle
  imports Pic_Match
begin

text \<open>
  The life of a request in the segment cache: locking its hits, registering its missed segments and finishing. The
  theorems are slot accounts: what a request took from the pools is, after it finished, either free again or owned by
  exactly one cached segment. Registration twice, which the scheduler does for every request that decodes at least one
  token, breaks the account; the last section proves it on a concrete run.
\<close>

section \<open>Locks\<close>

lemma fold_inc_lock:
  assumes "distinct ids"
  shows "fold (\<lambda>i (delta, w). (delta + 1, upd_entry i (\<lambda>e. e\<lparr>lock_ref := lock_ref e + 1\<rparr>) w)) ids (d, w) =
    (d + int (length ids),
     w\<lparr>w_heap := (\<lambda>i. if i \<in> set ids then (w_heap w i)\<lparr>lock_ref := lock_ref (w_heap w i) + 1\<rparr> else w_heap w i)\<rparr>)"
  using assms
proof (induction ids arbitrary: d w)
  case (Cons i ids)
  then show ?case
    by (auto simp: upd_entry_def fun_eq_iff)
qed simp

lemma fold_dec_lock:
  assumes "distinct ids" "\<forall>i\<in>set ids. lock_ref (w_heap w i) > 0"
  shows "fold (\<lambda>i (delta, w). if lock_ref (w_heap w i) > 0
            then (delta - 1, upd_entry i (\<lambda>e. e\<lparr>lock_ref := lock_ref e - 1\<rparr>) w) else (delta, w)) ids (d, w) =
    (d - int (length ids),
     w\<lparr>w_heap := (\<lambda>i. if i \<in> set ids then (w_heap w i)\<lparr>lock_ref := lock_ref (w_heap w i) - 1\<rparr> else w_heap w i)\<rparr>)"
  using assms
proof (induction ids arbitrary: d w)
  case (Cons i ids)
  have "\<forall>j\<in>set ids. lock_ref (w_heap (upd_entry i (\<lambda>e. e\<lparr>lock_ref := lock_ref e - 1\<rparr>) w) j) > 0"
    using Cons.prems by (auto simp: upd_entry_def)
  then show ?case
    using Cons by (auto simp: upd_entry_def fun_eq_iff)
qed simp

lemma evict_keeps_locked:
  assumes "pic_inv cf w" "evict nt nm w = (res, w')" "(h, i) \<in> set (w_entries w)" "lock_ref (w_heap w i) > 0"
  shows "(h, i) \<in> set (w_entries w') \<and> w_heap w' i = w_heap w i"
proof -
  obtain evd rest w1 where ev: "evict_candidates w = evd @ rest" "snd (evict nt nm w) = w1"
    "w_entries w1 = filter (\<lambda>(h, j). j \<notin> set evd) (w_entries w)" "cache_frame w w1"
    using evict_spec [OF assms(1), of nt nm] by (metis snd_conv)
  have "set evd \<subseteq> {i. lock_ref (w_heap w i) = 0}"
    using evict_candidates_props(2) [OF assms(1)] unfolding ev(1) by auto
  then have "i \<notin> set evd"
    using assms(4) by auto
  then show ?thesis
    using ev assms(2,3) cache_frame_fields(1) [OF ev(4)] by auto
qed

text \<open>C8. Locking a request's matched segments and unlocking them again restores every lock count, and in between
  no eviction, however large its demand, removes or changes any of them.\<close>

theorem lock_protects:
  assumes inv: "pic_inv cf w" and ids: "distinct (map snd (pic_segment_entries r))"
    and live: "set (pic_segment_entries r) \<subseteq> set (w_entries w)"
  shows "\<exists>n w1. inc_lock_ref r w = (n, w1) \<and> n = int (length (pic_segment_entries r)) \<and>
    dec_lock_ref r w1 = (- n, w) \<and> pic_inv cf w1 \<and>
    (\<forall>nt nm res w2 h i. evict nt nm w1 = (res, w2) \<longrightarrow> (h, i) \<in> set (pic_segment_entries r) \<longrightarrow>
       (h, i) \<in> set (w_entries w2) \<and> w_heap w2 i = w_heap w1 i)"
proof -
  let ?ids = "map snd (pic_segment_entries r)"
  define w1 where "w1 = w\<lparr>w_heap := (\<lambda>i. if i \<in> set ?ids
      then (w_heap w i)\<lparr>lock_ref := lock_ref (w_heap w i) + 1\<rparr> else w_heap w i)\<rparr>"
  have nonneg: "lock_ref (w_heap w i) \<ge> 0" if "i \<in> set ?ids" for i
    using that live pic_invD(2) [OF inv] by (fastforce simp: entry_ok_def)
  have inc: "inc_lock_ref r w = (int (length ?ids), w1)"
    using fold_inc_lock [OF ids, of 0 w] by (simp add: inc_lock_ref_def w1_def)
  have pos: "\<forall>i\<in>set ?ids. lock_ref (w_heap w1 i) > 0"
    using nonneg by (fastforce simp: w1_def)
  have "w1\<lparr>w_heap := (\<lambda>i. if i \<in> set ?ids then (w_heap w1 i)\<lparr>lock_ref := lock_ref (w_heap w1 i) - 1\<rparr> else w_heap w1 i)\<rparr> =
      w\<lparr>w_heap := w_heap w\<rparr>"
    by (auto simp: w1_def fun_eq_iff)
  then have dec: "dec_lock_ref r w1 = (- int (length ?ids), w)"
    using fold_dec_lock [OF ids pos, of 0] by (simp add: dec_lock_ref_def)
  have inv1: "pic_inv cf w1"
    using inv nonneg by (auto simp: pic_inv_def entry_ok_def w1_def)
  have "(h, i) \<in> set (w_entries w2) \<and> w_heap w2 i = w_heap w1 i"
    if "evict nt nm w1 = (res, w2)" "(h, i) \<in> set (pic_segment_entries r)" for nt nm res w2 h i
  proof (rule evict_keeps_locked [OF inv1 that(1)])
    show "(h, i) \<in> set (w_entries w1)" "lock_ref (w_heap w1 i) > 0"
      using that(2) live pos by (force simp: w1_def)+
  qed
  then show ?thesis
    using inc dec inv1 by auto
qed

section \<open>Sizes\<close>

lemma size_split:
  assumes "pic_inv cf w"
  shows "evictable_size w + protected_size w = total_size w"
    "mamba_evictable_size w + length (filter (\<lambda>e. lock_ref e > 0) (entry_values w)) = length (entry_values w)"
proof -
  have nonneg: "\<forall>e \<in> set (entry_values w). lock_ref e \<ge> 0"
    using pic_invD(2) [OF assms] by (auto simp: entry_values_def entry_ok_def)
  have "(\<Sum>e\<leftarrow>filter (\<lambda>e. lock_ref e = 0) es. length (full_kv_slots e)) +
      (\<Sum>e\<leftarrow>filter (\<lambda>e. lock_ref e > 0) es. length (full_kv_slots e)) = (\<Sum>e\<leftarrow>es. length (full_kv_slots e)) \<and>
      length (filter (\<lambda>e. lock_ref e = 0) es) + length (filter (\<lambda>e. lock_ref e > 0) es) = length es"
    if "\<forall>e \<in> set es. lock_ref e \<ge> 0" for es
    using that by (induction es) auto
  from this [OF nonneg] show "evictable_size w + protected_size w = total_size w"
    "mamba_evictable_size w + length (filter (\<lambda>e. lock_ref e > 0) (entry_values w)) = length (entry_values w)"
    by (simp_all add: evictable_size_def protected_size_def total_size_def mamba_evictable_size_def)
qed

text \<open>The sizes the scheduler reads partition the cache: every cached token is evictable or protected, every
  cached mamba slot likewise, and the totals are the numbers of slots the cache lists.\<close>

lemma size_partition:
  assumes "pic_inv cf w"
  shows "evictable_size w + protected_size w = total_size w \<and> total_size w = length (all_values_flatten w) \<and>
    int (mamba_evictable_size w) + mamba_protected_size w =
      int (length (all_mamba_values_flatten w)) + w_inflight_mamba_slots w \<and>
    int (full_evictable_size w) + full_protected_size w = int (total_size w) + w_inflight_full_tokens w"
  using size_split [OF assms]
  by (simp add: full_evictable_size_def full_protected_size_def mamba_protected_size_def total_size_def
      all_values_flatten_def all_mamba_values_flatten_def length_concat comp_def)

section \<open>Registration\<close>

text \<open>All cached token sequences lie in \<open>S\<close>; the theorems assume that the hash is injective on \<open>S\<close>.\<close>

definition toks_in :: "int list set \<Rightarrow> 'w pic_world_scheme \<Rightarrow> bool" where
  "toks_in S w \<longleftrightarrow> (\<forall>(h, i) \<in> set (w_entries w). token_ids (w_heap w i) \<in> S)"

definition no_collision :: "pic_config \<Rightarrow> int list set \<Rightarrow> bool" where
  "no_collision cf S \<longleftrightarrow> inj_on (segment_hash_tensor (cf_sha256 cf)) S"

definition reg_frame :: "'w pic_world_scheme \<Rightarrow> 'w pic_world_scheme \<Rightarrow> bool" where
  "reg_frame w w' \<longleftrightarrow> w_inflight_full_tokens w' = w_inflight_full_tokens w \<and>
     w_inflight_mamba_slots w' = w_inflight_mamba_slots w \<and> mamba_only (w_pool w) (w_pool w')"

lemma reg_frame_refl [simp]: "reg_frame w w"
  by (simp add: reg_frame_def)

lemma reg_frame_trans: "reg_frame w w1 \<Longrightarrow> reg_frame w1 w2 \<Longrightarrow> reg_frame w w2"
  by (auto simp: reg_frame_def intro: mamba_only_trans)

lemma touch_reg_frame: "touch_frame w w' \<Longrightarrow> reg_frame w w'"
  by (simp add: reg_frame_def touch_frame_fields)

text \<open>The request changed in its entry references and registration marks only.\<close>

definition req_frame :: "'r pic_req_scheme \<Rightarrow> 'r pic_req_scheme \<Rightarrow> bool" where
  "req_frame r r' \<longleftrightarrow> (\<exists>es ow fr. r' = r\<lparr>pic_segment_entries := es, pic_cache_owned_miss_segments := ow,
     pic_freed_miss_segments := fr\<rparr>)"

lemma req_frame_refl [simp]: "req_frame r r"
  unfolding req_frame_def
  by (rule exI [of _ "pic_segment_entries r"], rule exI [of _ "pic_cache_owned_miss_segments r"],
      rule exI [of _ "pic_freed_miss_segments r"]) simp

lemma req_frame_trans: "req_frame r r1 \<Longrightarrow> req_frame r1 r2 \<Longrightarrow> req_frame r r2"
  unfolding req_frame_def by fastforce

lemma req_frame_fields:
  assumes "req_frame r r'"
  shows "origin_input_ids r' = origin_input_ids r" "pic_segments r' = pic_segments r"
    "pic_scatter_single_seg r' = pic_scatter_single_seg r" "pic_miss_segments r' = pic_miss_segments r"
    "pic_miss_segment_slots r' = pic_miss_segment_slots r" "global_seg r' = global_seg r"
    "pic_rope_hit_private_slots r' = pic_rope_hit_private_slots r" "req_pool_idx r' = req_pool_idx r"
    "mamba_pool_idx r' = mamba_pool_idx r" "kv_committed_len r' = kv_committed_len r"
    "mamba_ping_pong_track_buffer r' = mamba_ping_pong_track_buffer r"
  using assms by (auto simp: req_frame_def global_seg_def)

text \<open>Accounts under the primitive updates.\<close>

lemma acct_kv_free:
  assumes "token_invar (w_kv w)"
  shows "kv_acct (kv_free xs w) = kv_acct w + mset xs" "mb_acct (kv_free xs w) = mb_acct w"
    "token_invar (w_kv (kv_free xs w))"
  using token_free_owned [OF assms, of xs]
  by (simp_all add: kv_acct_def mb_acct_def kv_free_def all_values_flatten_def all_mamba_values_flatten_def
      entry_values_def union_ac)

lemma acct_mb_free:
  "mb_acct (mb_free xs w) = mb_acct w + mset xs" "kv_acct (mb_free xs w) = kv_acct w"
  by (simp_all add: kv_acct_def mb_acct_def mb_free_def all_values_flatten_def all_mamba_values_flatten_def
      entry_values_def union_ac)

lemma acct_remove_inflight [simp]:
  "kv_acct (remove_inflight a b w) = kv_acct w" "mb_acct (remove_inflight a b w) = mb_acct w"
  by (simp_all add: kv_acct_def mb_acct_def remove_inflight_def all_values_flatten_def all_mamba_values_flatten_def
      entry_values_def)

lemma acct_lock:
  "kv_acct (upd_entry i (\<lambda>e. e\<lparr>lock_ref := f e\<rparr>) w) = kv_acct w"
  "mb_acct (upd_entry i (\<lambda>e. e\<lparr>lock_ref := f e\<rparr>) w) = mb_acct w"
proof -
  have "map full_kv_slots (entry_values (upd_entry i (\<lambda>e. e\<lparr>lock_ref := f e\<rparr>) w)) = map full_kv_slots (entry_values w)"
    "map mamba_state_slot (entry_values (upd_entry i (\<lambda>e. e\<lparr>lock_ref := f e\<rparr>) w)) = map mamba_state_slot (entry_values w)"
    by (simp_all add: entry_values_def upd_entry_def)
  then show "kv_acct (upd_entry i (\<lambda>e. e\<lparr>lock_ref := f e\<rparr>) w) = kv_acct w"
    "mb_acct (upd_entry i (\<lambda>e. e\<lparr>lock_ref := f e\<rparr>) w) = mb_acct w"
    unfolding kv_acct_def mb_acct_def all_values_flatten_def all_mamba_values_flatten_def
    by (simp_all add: upd_entry_def)
qed

lemma inv_simple_updates:
  assumes "pic_inv cf w"
  shows "pic_inv cf (kv_free xs w)" "pic_inv cf (mb_free ms w)" "pic_inv cf (remove_inflight a b w)"
    "pic_inv cf (upd_entry i (\<lambda>e. e\<lparr>lock_ref := lock_ref e + 1\<rparr>) w)"
  using assms token_free_owned [OF pic_invD(3) [OF assms]]
  by (auto simp: pic_inv_def kv_free_def mb_free_def remove_inflight_def upd_entry_def entry_ok_def)

lemma toks_in_simple_updates:
  assumes "toks_in S w"
  shows "toks_in S (kv_free xs w)" "toks_in S (mb_free ms w)" "toks_in S (remove_inflight a b w)"
    "toks_in S (upd_entry i (\<lambda>e. e\<lparr>lock_ref := f e\<rparr>) w)"
  using assms by (auto simp: toks_in_def kv_free_def mb_free_def remove_inflight_def upd_entry_def)

lemma frame_simple_updates:
  "reg_frame w (kv_free xs w)" "reg_frame w (mb_free ms w)" "reg_frame w (upd_entry i f w)"
  by (simp_all add: reg_frame_def kv_free_def mb_free_def upd_entry_def)

lemma toks_in_touch: "touch_frame w w' \<Longrightarrow> toks_in S w \<Longrightarrow> toks_in S w'"
  using touch_frame_fields(1) [of w w'] touch_core(4) [of w w'] by (simp add: toks_in_def)

lemma lookup_none_unfiled:
  assumes "pic_inv cf w" "toks_in S w" "no_collision cf S" "toks \<in> S" "seg_lookup cf w toks = None"
  shows "map_of (w_entries w) (segment_hash_tensor (cf_sha256 cf) toks) = None"
proof (rule ccontr)
  assume "map_of (w_entries w) (segment_hash_tensor (cf_sha256 cf) toks) \<noteq> None"
  then obtain i where i: "map_of (w_entries w) (segment_hash_tensor (cf_sha256 cf) toks) = Some i"
    by auto
  then have "entry_ok cf w (segment_hash_tensor (cf_sha256 cf) toks) i" "token_ids (w_heap w i) \<in> S"
    using pic_invD(2) [OF assms(1) map_of_SomeD [OF i]] assms(2) map_of_SomeD [OF i] by (auto simp: toks_in_def)
  then have "token_ids (w_heap w i) = toks"
    using assms(3,4) by (auto simp: entry_ok_def no_collision_def inj_on_def)
  then show False
    using i assms(5) by (simp add: seg_lookup_def)
qed

lemma insert_segment_new:
  assumes inv: "pic_inv cf w" and "toks_in S w" "toks \<in> S"
    and new: "map_of (w_entries w) h = None" and h: "h = segment_hash_tensor (cf_sha256 cf) toks"
    and len: "length kv_slots = length toks"
  shows "\<exists>w'. insert_segment cf h toks kv_slots m w = (w_next w, w') \<and> kv_acct w' = kv_acct w + mset kv_slots \<and>
    mb_acct w' = mb_acct w + {#m#} \<and> pic_inv cf w' \<and> toks_in S w' \<and> reg_frame w w'"
proof -
  obtain w' where ins: "insert_segment cf h toks kv_slots m w = (w_next w, w')"
    and w': "w_kv w' = w_kv w" "w_pool w' = w_pool w" "w_entries w' = w_entries w @ [(h, w_next w)]"
      "w_next w' = w_next w + 1" "w_inflight_full_tokens w' = w_inflight_full_tokens w"
      "w_inflight_mamba_slots w' = w_inflight_mamba_slots w"
      "\<And>j. j \<noteq> w_next w \<Longrightarrow> w_heap w' j = w_heap w j"
      "full_kv_slots (w_heap w' (w_next w)) = kv_slots" "mamba_state_slot (w_heap w' (w_next w)) = m"
      "token_ids (w_heap w' (w_next w)) = toks" "seg_hash (w_heap w' (w_next w)) = h" "lock_ref (w_heap w' (w_next w)) = 0"
    using new by (simp add: insert_segment_def match_segment_def dict_update_new tick_def Let_def)
  have old: "w_heap w' j = w_heap w j" if "(k, j) \<in> set (w_entries w)" for k j
    using that pic_invD(2) [OF inv that] by (intro w'(7)) (auto simp: entry_ok_def)
  have "entry_values w' = entry_values w @ [w_heap w' (w_next w)]"
    using old by (auto simp: entry_values_def w'(3))
  then have acct: "kv_acct w' = kv_acct w + mset kv_slots" "mb_acct w' = mb_acct w + {#m#}"
    by (simp_all add: kv_acct_def mb_acct_def all_values_flatten_def all_mamba_values_flatten_def w' union_ac)
  have "h \<notin> fst ` set (w_entries w)"
    using new by (simp add: map_of_eq_None_iff)
  then have "pic_inv cf w'"
    using pic_invD [OF inv] old len h
    by (auto simp: pic_inv_def w' entry_ok_def less_Suc_eq split: prod.splits)
  moreover have "toks_in S w'"
    using assms(2,3) old by (auto simp: toks_in_def w')
  ultimately show ?thesis
    using ins acct w' by (auto simp: reg_frame_def)
qed

lemma register_segment_spec:
  assumes inv: "pic_inv cf w" and S: "toks_in S w" "no_collision cf S" "toks \<in> S"
    and len: "length kv_slots = length toks"
  shows "\<exists>r' w'. register_segment cf seg toks kv_slots m r w = (Inr r', w') \<and>
    kv_acct w' = kv_acct w + mset kv_slots \<and> mb_acct w' = mb_acct w + {#m#} \<and>
    pic_inv cf w' \<and> toks_in S w' \<and> reg_frame w w' \<and> req_frame r r' \<and>
    set (pic_cache_owned_miss_segments r') \<union> set (pic_freed_miss_segments r') =
      insert seg (set (pic_cache_owned_miss_segments r) \<union> set (pic_freed_miss_segments r))"
proof -
  let ?h = "segment_hash_tensor (cf_sha256 cf) toks"
  obtain w1 where m1: "match_segment cf ?h toks w = (seg_lookup cf w toks, w1)" "touch_frame w w1"
    using match_segment_touch by blast
  have w1: "pic_inv cf w1" "toks_in S w1" "kv_acct w1 = kv_acct w" "mb_acct w1 = mb_acct w" "reg_frame w w1"
    using touch_frame_inv [OF m1(2) inv] toks_in_touch [OF m1(2) S(1)] touch_frame_acct [OF m1(2)]
      touch_reg_frame [OF m1(2)] by simp_all
  show ?thesis
  proof (cases "seg_lookup cf w toks")
    case (Some i)
    let ?w' = "mb_free [m] (kv_free kv_slots w1)"
      and ?r' = "r\<lparr>pic_segment_entries := AList.update ?h i (pic_segment_entries r),
                  pic_freed_miss_segments := List.insert seg (pic_freed_miss_segments r)\<rparr>"
    have run: "register_segment cf seg toks kv_slots m r w = (Inr ?r', ?w')"
      using m1(1) Some by (simp add: register_segment_def stateM_def bindM_app Let_def)
    have acct: "kv_acct ?w' = kv_acct w + mset kv_slots" "mb_acct ?w' = mb_acct w + {#m#}"
      using acct_kv_free [OF pic_invD(3) [OF w1(1)]] by (simp_all add: acct_mb_free w1)
    have rest: "pic_inv cf ?w'" "toks_in S ?w'" "reg_frame w ?w'"
      using inv_simple_updates(2) [OF inv_simple_updates(1) [OF w1(1)]]
        toks_in_simple_updates(2) [OF toks_in_simple_updates(1) [OF w1(2)]]
        reg_frame_trans [OF w1(5) reg_frame_trans [OF frame_simple_updates(1) frame_simple_updates(2)]] by simp_all
    have "req_frame r ?r'"
      unfolding req_frame_def
      by (rule exI [of _ "AList.update ?h i (pic_segment_entries r)"], rule exI [of _ "pic_cache_owned_miss_segments r"],
          rule exI [of _ "List.insert seg (pic_freed_miss_segments r)"]) simp
    then show ?thesis
      using run acct rest by auto
  next
    case None
    have w1_eq: "w1 = w"
      using m1(1) None by (auto simp: match_segment_def split: option.splits if_splits)
    obtain w2 where ins: "insert_segment cf ?h toks kv_slots m w = (w_next w, w2)"
      "kv_acct w2 = kv_acct w + mset kv_slots" "mb_acct w2 = mb_acct w + {#m#}" "pic_inv cf w2" "toks_in S w2" "reg_frame w w2"
      using insert_segment_new [OF inv S(1,3) lookup_none_unfiled [OF inv S None] refl len] by blast
    let ?w' = "if is_transition cf then upd_entry (w_next w) (\<lambda>e. e\<lparr>lock_ref := lock_ref e + 1\<rparr>) w2 else w2"
      and ?r' = "r\<lparr>pic_segment_entries := AList.update ?h (w_next w) (pic_segment_entries r),
                  pic_cache_owned_miss_segments := List.insert seg (pic_cache_owned_miss_segments r)\<rparr>"
    have run: "register_segment cf seg toks kv_slots m r w = (Inr ?r', ?w')"
      using m1(1) None ins(1) by (simp add: register_segment_def stateM_def bindM_app Let_def w1_eq)
    have acct: "kv_acct ?w' = kv_acct w + mset kv_slots" "mb_acct ?w' = mb_acct w + {#m#}"
      using ins by (simp_all add: acct_lock)
    have rest: "pic_inv cf ?w'" "toks_in S ?w'" "reg_frame w ?w'"
      using ins inv_simple_updates(4) [OF ins(4)] toks_in_simple_updates(4) [OF ins(5)]
        reg_frame_trans [OF ins(6) frame_simple_updates(3)] by simp_all
    have "req_frame r ?r'"
      unfolding req_frame_def
      by (rule exI [of _ "AList.update ?h (w_next w) (pic_segment_entries r)"],
          rule exI [of _ "List.insert seg (pic_cache_owned_miss_segments r)"],
          rule exI [of _ "pic_freed_miss_segments r"]) simp
    then show ?thesis
      using run acct rest by auto
  qed
qed

text \<open>
  What the registration loop takes over from a request: for a segment that is neither the global one nor too short
  and for which slots were allocated, the public KV slots and the mamba slot.
\<close>

definition skip_register :: "pic_config \<Rightarrow> 'r pic_req_scheme \<Rightarrow> segment \<Rightarrow> bool" where
  "skip_register cf r seg \<longleftrightarrow> global_seg r = Some seg \<and> \<not> pic_scatter_single_seg r \<or> \<not> cacheable_len cf seg \<or>
     map_of (pic_miss_segment_slots r) seg = None"

definition reg_kv :: "pic_config \<Rightarrow> 'r pic_req_scheme \<Rightarrow> segment \<Rightarrow> nat list" where
  "reg_kv cf r seg = (if skip_register cf r seg then []
     else case unpack_public cf (the (map_of (pic_miss_segment_slots r) seg)) of Inl e \<Rightarrow> [] | Inr (kv, m) \<Rightarrow> kv)"

definition reg_mb :: "pic_config \<Rightarrow> 'r pic_req_scheme \<Rightarrow> segment \<Rightarrow> int multiset" where
  "reg_mb cf r seg = (if skip_register cf r seg then {#}
     else case unpack_public cf (the (map_of (pic_miss_segment_slots r) seg)) of Inl e \<Rightarrow> {#} | Inr (kv, m) \<Rightarrow> opt_mset m)"

text \<open>A segment is ready for registration when its tuple has the shape of the mode, one public slot per token and a
  mamba slot.\<close>

definition reg_ready :: "pic_config \<Rightarrow> int list set \<Rightarrow> 'r pic_req_scheme \<Rightarrow> segment \<Rightarrow> bool" where
  "reg_ready cf S r seg \<longleftrightarrow> skip_register cf r seg \<or>
     (\<exists>slots kv m. map_of (pic_miss_segment_slots r) seg = Some slots \<and> unpack_public cf slots = Inr (kv, Some m) \<and>
        length kv = length (seg_slice (origin_input_ids r) seg) \<and> seg_slice (origin_input_ids r) seg \<in> S)"

lemma reg_frame_cong:
  assumes "req_frame r r'"
  shows "skip_register cf r' = skip_register cf r" "reg_kv cf r' = reg_kv cf r" "reg_mb cf r' = reg_mb cf r"
    "reg_ready cf S r' = reg_ready cf S r"
  using req_frame_fields [OF assms]
  by (simp_all add: fun_eq_iff skip_register_def reg_kv_def reg_mb_def reg_ready_def)

lemma cache_unfinished_step_spec:
  assumes inv: "pic_inv cf w" and S: "toks_in S w" "no_collision cf S" and ready: "reg_ready cf S r seg"
  shows "\<exists>r' w'. cache_unfinished_step cf (r, it, im) seg w =
      (Inr (r', it + int (length (reg_kv cf r seg)), im + int (size (reg_mb cf r seg))), w') \<and>
    kv_acct w' = kv_acct w + mset (reg_kv cf r seg) \<and> mb_acct w' = mb_acct w + reg_mb cf r seg \<and>
    pic_inv cf w' \<and> toks_in S w' \<and> reg_frame w w' \<and> req_frame r r' \<and>
    set (pic_cache_owned_miss_segments r') \<union> set (pic_freed_miss_segments r') =
      set (pic_cache_owned_miss_segments r) \<union> set (pic_freed_miss_segments r) \<union>
      (if skip_register cf r seg then {} else {seg})"
proof (cases "skip_register cf r seg")
  case True
  then have "cache_unfinished_step cf (r, it, im) seg w = (Inr (r, it, im), w)"
    by (auto simp: cache_unfinished_step_def skip_register_def cacheable_len_def)
  then show ?thesis
    using True inv S by (auto simp: reg_kv_def reg_mb_def)
next
  case False
  then obtain slots kv m where slots: "map_of (pic_miss_segment_slots r) seg = Some slots"
    "unpack_public cf slots = Inr (kv, Some m)" "length kv = length (seg_slice (origin_input_ids r) seg)"
    "seg_slice (origin_input_ids r) seg \<in> S"
    using ready by (auto simp: reg_ready_def)
  obtain r' w' where reg: "register_segment cf seg (seg_slice (origin_input_ids r) seg) kv m r w = (Inr r', w')"
    and post: "kv_acct w' = kv_acct w + mset kv" "mb_acct w' = mb_acct w + {#m#}" "pic_inv cf w'" "toks_in S w'"
      "reg_frame w w'" "req_frame r r'"
      "set (pic_cache_owned_miss_segments r') \<union> set (pic_freed_miss_segments r') =
         insert seg (set (pic_cache_owned_miss_segments r) \<union> set (pic_freed_miss_segments r))"
    using register_segment_spec [OF inv S slots(4,3), of seg m r] by blast
  have "cache_unfinished_step cf (r, it, im) seg w = (Inr (r', it + int (length kv), im + 1), w')"
    using False slots reg by (auto simp: cache_unfinished_step_def skip_register_def cacheable_len_def bindM_app)
  then show ?thesis
    using False slots post by (auto simp: reg_kv_def reg_mb_def)
qed

lemma cache_unfinished_fold_spec:
  assumes "pic_inv cf w" "toks_in S w" "no_collision cf S" "\<forall>seg\<in>set segs. reg_ready cf S r seg"
  shows "\<exists>r' w'. foldM (cache_unfinished_step cf) (r, it, im) segs w =
      (Inr (r', it + (\<Sum>seg\<leftarrow>segs. int (length (reg_kv cf r seg))), im + (\<Sum>seg\<leftarrow>segs. int (size (reg_mb cf r seg)))), w') \<and>
    kv_acct w' = kv_acct w + (\<Sum>seg\<leftarrow>segs. mset (reg_kv cf r seg)) \<and>
    mb_acct w' = mb_acct w + (\<Sum>seg\<leftarrow>segs. reg_mb cf r seg) \<and>
    pic_inv cf w' \<and> toks_in S w' \<and> reg_frame w w' \<and> req_frame r r' \<and>
    set (pic_cache_owned_miss_segments r') \<union> set (pic_freed_miss_segments r') =
      set (pic_cache_owned_miss_segments r) \<union> set (pic_freed_miss_segments r) \<union>
      {seg \<in> set segs. \<not> skip_register cf r seg}"
  using assms
proof (induction segs arbitrary: r it im w)
  case Nil
  then show ?case by auto
next
  case (Cons seg segs)
  obtain r1 w1 where step: "cache_unfinished_step cf (r, it, im) seg w =
        (Inr (r1, it + int (length (reg_kv cf r seg)), im + int (size (reg_mb cf r seg))), w1)"
    and s1: "kv_acct w1 = kv_acct w + mset (reg_kv cf r seg)" "mb_acct w1 = mb_acct w + reg_mb cf r seg"
      "pic_inv cf w1" "toks_in S w1" "reg_frame w w1" "req_frame r r1"
      "set (pic_cache_owned_miss_segments r1) \<union> set (pic_freed_miss_segments r1) =
         set (pic_cache_owned_miss_segments r) \<union> set (pic_freed_miss_segments r) \<union>
         (if skip_register cf r seg then {} else {seg})"
    using cache_unfinished_step_spec [OF Cons.prems(1-3), of r seg it im] Cons.prems(4) by auto
  note cong = reg_frame_cong [OF s1(6), of cf]
  have ready: "\<forall>seg\<in>set segs. reg_ready cf S r1 seg"
    using Cons.prems(4) cong(4) by simp
  from Cons.IH [OF s1(3,4) Cons.prems(3) ready, where it = "it + int (length (reg_kv cf r seg))"
      and im = "im + int (size (reg_mb cf r seg))"]
  obtain r2 w2 where rest: "foldM (cache_unfinished_step cf)
        (r1, it + int (length (reg_kv cf r seg)), im + int (size (reg_mb cf r seg))) segs w1 =
      (Inr (r2, it + int (length (reg_kv cf r seg)) + (\<Sum>seg\<leftarrow>segs. int (length (reg_kv cf r seg))),
            im + int (size (reg_mb cf r seg)) + (\<Sum>seg\<leftarrow>segs. int (size (reg_mb cf r seg)))), w2)"
    "kv_acct w2 = kv_acct w1 + (\<Sum>seg\<leftarrow>segs. mset (reg_kv cf r seg))"
    "mb_acct w2 = mb_acct w1 + (\<Sum>seg\<leftarrow>segs. reg_mb cf r seg)"
    "pic_inv cf w2" "toks_in S w2" "reg_frame w1 w2" "req_frame r1 r2"
    "set (pic_cache_owned_miss_segments r2) \<union> set (pic_freed_miss_segments r2) =
      set (pic_cache_owned_miss_segments r1) \<union> set (pic_freed_miss_segments r1) \<union>
      {seg \<in> set segs. \<not> skip_register cf r seg}"
    unfolding cong by blast
  have "foldM (cache_unfinished_step cf) (r, it, im) (seg # segs) w =
      (Inr (r2, it + (\<Sum>seg\<leftarrow>seg # segs. int (length (reg_kv cf r seg))),
            im + (\<Sum>seg\<leftarrow>seg # segs. int (size (reg_mb cf r seg)))), w2)"
    using step rest(1) by (simp add: bindM_app algebra_simps)
  moreover have "kv_acct w2 = kv_acct w + (\<Sum>seg\<leftarrow>seg # segs. mset (reg_kv cf r seg))"
    "mb_acct w2 = mb_acct w + (\<Sum>seg\<leftarrow>seg # segs. reg_mb cf r seg)"
    using rest(2,3) s1(1,2) by (simp_all add: union_assoc)
  moreover have "set (pic_cache_owned_miss_segments r2) \<union> set (pic_freed_miss_segments r2) =
      set (pic_cache_owned_miss_segments r) \<union> set (pic_freed_miss_segments r) \<union>
      {s \<in> set (seg # segs). \<not> skip_register cf r s}"
    unfolding rest(8) s1(7) by auto
  ultimately show ?case
    using rest(4,5) reg_frame_trans [OF s1(5) rest(6)] req_frame_trans [OF s1(6) rest(7)] by blast
qed

text \<open>
  \<open>gives cf w K M w'\<close>: from \<open>w\<close> to \<open>w'\<close> the cache and the pools together gained the KV slots \<open>K\<close> and the mamba slots
  \<open>M\<close>, the cache stayed well formed and of the request pool only the mamba allocator changed.
\<close>

definition gives :: "pic_config \<Rightarrow> 'w pic_world_scheme \<Rightarrow> nat multiset \<Rightarrow> int multiset \<Rightarrow> 'w pic_world_scheme \<Rightarrow> bool" where
  "gives cf w K M w' \<longleftrightarrow> pic_inv cf w' \<and> kv_acct w' = kv_acct w + K \<and> mb_acct w' = mb_acct w + M \<and>
     mamba_only (w_pool w) (w_pool w')"

lemma gives_refl: "pic_inv cf w \<Longrightarrow> gives cf w {#} {#} w"
  by (simp add: gives_def)

lemma gives_trans: "gives cf w K M w1 \<Longrightarrow> gives cf w1 K' M' w2 \<Longrightarrow> gives cf w (K + K') (M + M') w2"
  by (auto simp: gives_def union_assoc intro: mamba_only_trans)

lemma gives_inv: "gives cf w K M w' \<Longrightarrow> pic_inv cf w'"
  by (simp add: gives_def)

lemma pool_simple_updates [simp]:
  "w_pool (kv_free xs w) = w_pool w" "mamba_only (w_pool w) (w_pool (mb_free ms w))"
  "w_pool (remove_inflight a b w) = w_pool w"
  by (simp_all add: kv_free_def mb_free_def remove_inflight_def)

lemma gives_prims:
  assumes "pic_inv cf w"
  shows "gives cf w (mset xs) {#} (kv_free xs w)" "gives cf w {#} (mset ms) (mb_free ms w)"
    "gives cf w {#} {#} (remove_inflight a b w)"
  using assms inv_simple_updates [OF assms] acct_kv_free [OF pic_invD(3) [OF assms], of xs] acct_mb_free [of ms w]
  by (simp_all add: gives_def)

lemma cache_unfinished_spec:
  assumes inv: "pic_inv cf w" and S: "toks_in S w" "no_collision cf S"
    and ready: "\<forall>seg\<in>set (pic_miss_segments r). reg_ready cf S r seg"
  shows "\<exists>r' w'. cache_unfinished_req cf r w = (Inr r', w') \<and>
    gives cf w (\<Sum>seg\<leftarrow>pic_miss_segments r. mset (reg_kv cf r seg)) (\<Sum>seg\<leftarrow>pic_miss_segments r. reg_mb cf r seg) w' \<and>
    toks_in S w' \<and> req_frame r r' \<and>
    set (pic_cache_owned_miss_segments r') \<union> set (pic_freed_miss_segments r') =
      {seg \<in> set (pic_miss_segments r). \<not> skip_register cf r seg} \<and>
    w_inflight_full_tokens w' = (if is_transition cf
      then max 0 (w_inflight_full_tokens w - (\<Sum>seg\<leftarrow>pic_miss_segments r. int (length (reg_kv cf r seg))))
      else w_inflight_full_tokens w)"
proof -
  let ?r0 = "r\<lparr>pic_cache_owned_miss_segments := [], pic_freed_miss_segments := []\<rparr>"
  let ?it = "\<Sum>seg\<leftarrow>pic_miss_segments r. int (length (reg_kv cf r seg))"
  let ?im = "\<Sum>seg\<leftarrow>pic_miss_segments r. int (size (reg_mb cf r seg))"
  have fr: "req_frame r ?r0"
    unfolding req_frame_def by (rule exI [of _ "pic_segment_entries r"]) auto
  note cong = reg_frame_cong [OF fr, of cf]
  have "\<forall>seg\<in>set (pic_miss_segments r). reg_ready cf S ?r0 seg"
    using ready cong(4) by simp
  from cache_unfinished_fold_spec [OF inv S this, of 0 0]
  obtain r' w1 where f: "foldM (cache_unfinished_step cf) (?r0, 0, 0) (pic_miss_segments r) w = (Inr (r', ?it, ?im), w1)"
    "kv_acct w1 = kv_acct w + (\<Sum>seg\<leftarrow>pic_miss_segments r. mset (reg_kv cf r seg))"
    "mb_acct w1 = mb_acct w + (\<Sum>seg\<leftarrow>pic_miss_segments r. reg_mb cf r seg)"
    "pic_inv cf w1" "toks_in S w1" "reg_frame w w1" "req_frame ?r0 r'"
    "set (pic_cache_owned_miss_segments r') \<union> set (pic_freed_miss_segments r') =
      {seg \<in> set (pic_miss_segments r). \<not> skip_register cf r seg}"
    unfolding cong by auto
  let ?w' = "if is_transition cf \<and> (?it > 0 \<or> ?im > 0) then remove_inflight ?it ?im w1 else w1"
  have run: "cache_unfinished_req cf r w = (Inr r', ?w')"
    using f(1) by (simp add: cache_unfinished_req_def bindM_app Let_def)
  have g1: "gives cf w (\<Sum>seg\<leftarrow>pic_miss_segments r. mset (reg_kv cf r seg)) (\<Sum>seg\<leftarrow>pic_miss_segments r. reg_mb cf r seg) w1"
    using f by (simp add: gives_def reg_frame_def)
  have "gives cf w1 {#} {#} ?w'"
    using gives_prims(3) [OF f(4)] gives_refl [OF f(4)] by simp
  from gives_trans [OF g1 this] have g: "gives cf w (\<Sum>seg\<leftarrow>pic_miss_segments r. mset (reg_kv cf r seg))
      (\<Sum>seg\<leftarrow>pic_miss_segments r. reg_mb cf r seg) ?w'"
    by simp
  have "?it \<ge> 0"
    by (rule sum_list_nonneg) auto
  then have infl: "w_inflight_full_tokens ?w' = (if is_transition cf
      then max 0 (w_inflight_full_tokens w - ?it) else w_inflight_full_tokens w)"
    using f(6) pic_invD(4) [OF inv] by (auto simp: remove_inflight_def reg_frame_def)
  have "toks_in S ?w'"
    using f(5) toks_in_simple_updates(3) [OF f(5)] by simp
  then show ?thesis
    using run g infl f(8) req_frame_trans [OF fr f(7)] by blast
qed

text \<open>C4. Registering a request's missed segments always returns and loses no slot: every public KV slot and every
  mamba slot of the segments it processes ends up either in the entry newly filed for the segment or, when the segment is
  already cached, back in its pool, and never both. In the transition modes the tokens leave the in-flight count at
  the same time.\<close>

theorem cache_unfinished_conserves:
  assumes "pic_inv cf w" "toks_in S w" "no_collision cf S" "\<forall>seg\<in>set (pic_miss_segments r). reg_ready cf S r seg"
  shows "\<exists>r' w'. cache_unfinished_req cf r w = (Inr r', w') \<and> pic_inv cf w' \<and>
    kv_acct w' = kv_acct w + (\<Sum>seg\<leftarrow>pic_miss_segments r. mset (reg_kv cf r seg)) \<and>
    mb_acct w' = mb_acct w + (\<Sum>seg\<leftarrow>pic_miss_segments r. reg_mb cf r seg) \<and>
    w_inflight_full_tokens w' = (if is_transition cf
      then max 0 (w_inflight_full_tokens w - (\<Sum>seg\<leftarrow>pic_miss_segments r. int (length (reg_kv cf r seg))))
      else w_inflight_full_tokens w)"
  using cache_unfinished_spec [OF assms] by (auto simp: gives_def)

section \<open>Finishing\<close>

lemma sum_list_filter_key:
  assumes "dict_ok d"
  shows "(\<Sum>(k, v)\<leftarrow>filter (\<lambda>(k, v). k = g) d. f v) = (case map_of d g of None \<Rightarrow> {#} | Some v \<Rightarrow> f v)"
  using assms
proof (induction d)
  case (Cons p d)
  have "filter (\<lambda>(k, v). k = g) d = []" if "g \<notin> fst ` set d"
    using that by (force simp: filter_empty_conv)
  then show ?case
    using Cons by (cases p) auto
qed simp

text \<open>Four-way split of a sum over a list.\<close>

lemma sum_list_split4:
  fixes f :: "'x \<Rightarrow> 'y multiset"
  assumes "\<forall>x\<in>set xs. f x = (if A x then f x else {#}) + (if B x then f x else {#}) + (if C x then f x else {#}) +
    (if D x then f x else {#})"
  shows "(\<Sum>x\<leftarrow>xs. f x) = (\<Sum>x\<leftarrow>filter A xs. f x) + (\<Sum>x\<leftarrow>filter B xs. f x) + (\<Sum>x\<leftarrow>filter C xs. f x) +
    (\<Sum>x\<leftarrow>filter D xs. f x)"
  using assms
proof (induction xs)
  case (Cons x xs)
  then have "(\<Sum>x\<leftarrow>x # xs. f x) = ((if A x then f x else {#}) + (if B x then f x else {#}) + (if C x then f x else {#}) +
        (if D x then f x else {#})) +
      ((\<Sum>x\<leftarrow>filter A xs. f x) + (\<Sum>x\<leftarrow>filter B xs. f x) + (\<Sum>x\<leftarrow>filter C xs. f x) + (\<Sum>x\<leftarrow>filter D xs. f x))"
    by simp
  also have "\<dots> = (\<Sum>x\<leftarrow>filter A (x # xs). f x) + (\<Sum>x\<leftarrow>filter B (x # xs). f x) + (\<Sum>x\<leftarrow>filter C (x # xs). f x) +
      (\<Sum>x\<leftarrow>filter D (x # xs). f x)"
    by (simp add: union_ac)
  finally show ?case .
qed simp

lemma sum_list_filter_part:
  fixes f :: "'x \<Rightarrow> 'y multiset"
  assumes "\<forall>x\<in>set xs. (N x \<longleftrightarrow> A x \<or> U x) \<and> \<not> (A x \<and> U x)"
  shows "(\<Sum>x\<leftarrow>filter N xs. f x) = (\<Sum>x\<leftarrow>filter A xs. f x) + (\<Sum>x\<leftarrow>filter U xs. f x)"
  using assms by (induction xs) (auto simp: union_ac)

text \<open>All slots of a tuple.\<close>

fun slots_kv :: "miss_slots \<Rightarrow> nat multiset" where
  "slots_kv (StdSlots kv m) = mset kv"
| "slots_kv (RopeSlots priv pub m) = mset priv + (case pub of None \<Rightarrow> {#} | Some q \<Rightarrow> mset q)"

fun slots_mb :: "miss_slots \<Rightarrow> int multiset" where
  "slots_mb (StdSlots kv m) = opt_mset m"
| "slots_mb (RopeSlots priv pub m) = opt_mset m"

definition req_kv :: "'r pic_req_scheme \<Rightarrow> nat multiset" where
  "req_kv r = (\<Sum>(seg, sl)\<leftarrow>pic_miss_segment_slots r. slots_kv sl)"

definition req_mb :: "'r pic_req_scheme \<Rightarrow> int multiset" where
  "req_mb r = (\<Sum>(seg, sl)\<leftarrow>pic_miss_segment_slots r. slots_mb sl)"

lemma map_result_all_Inr:
  "(\<And>x. x \<in> set xs \<Longrightarrow> f x = Inr (g x)) \<Longrightarrow> map_result f xs = Inr (map g xs)"
  by (induction xs) auto

text \<open>Shape of the tuples by mode.\<close>

definition std_shape :: "'r pic_req_scheme \<Rightarrow> bool" where
  "std_shape r \<longleftrightarrow> (\<forall>(seg, sl) \<in> set (pic_miss_segment_slots r). \<exists>kv m. sl = StdSlots kv m)"

definition rope_shape :: "'r pic_req_scheme \<Rightarrow> bool" where
  "rope_shape r \<longleftrightarrow> (\<forall>(seg, sl) \<in> set (pic_miss_segment_slots r). \<exists>priv pub m. sl = RopeSlots priv pub (Some m) \<and>
     (pub = None \<longleftrightarrow> global_seg r = Some seg))"

fun std_kv :: "miss_slots \<Rightarrow> nat list" where
  "std_kv (StdSlots kv m) = kv"
| "std_kv (RopeSlots priv pub m) = priv"

fun std_mb :: "miss_slots \<Rightarrow> int option" where
  "std_mb (StdSlots kv m) = m"
| "std_mb (RopeSlots priv pub m) = m"

lemma mb_free_opt:
  assumes "pic_inv cf w"
  shows "gives cf w {#} (opt_mset m) ((case m of None \<Rightarrow> id | Some x \<Rightarrow> mb_free [x]) w)"
  using gives_refl [OF assms] gives_prims(2) [OF assms, of "[the m]"] by (cases m) simp_all

lemma finish_addition_gives:
  assumes inv: "pic_inv cf w" and shape: "if rope (cf_policy cf) then rope_shape r else std_shape r"
  shows "\<exists>w'. finish_addition_inflight cf r w = (Inr (), w') \<and> gives cf w {#} {#} w'"
proof -
  have "map_result std_slots (map snd (pic_miss_segment_slots r)) =
      Inr (map (\<lambda>s. (std_kv s, std_mb s)) (map snd (pic_miss_segment_slots r)))" if "\<not> rope (cf_policy cf)"
    by (rule map_result_all_Inr) (use shape that in \<open>fastforce simp: std_shape_def std_slots_def\<close>)
  moreover have "map_result rope_slots (map snd (pic_miss_segment_slots r)) =
      Inr (map (\<lambda>x. case x of RopeSlots priv pub m \<Rightarrow> (priv, pub, m)) (map snd (pic_miss_segment_slots r)))"
    if "rope (cf_policy cf)"
    by (rule map_result_all_Inr) (use shape that in \<open>fastforce simp: rope_shape_def rope_slots_def\<close>)
  ultimately show ?thesis
    using gives_refl [OF inv] gives_prims(3) [OF inv]
    by (auto simp: finish_addition_inflight_def bindM_app)
qed

lemma finish_last_gives_std:
  assumes inv: "pic_inv cf w" and shape: "std_shape r" and mode: "\<not> rope (cf_policy cf)"
  shows "\<exists>w'. finish_last_segment cf r w = (Inr (), w') \<and>
    gives cf w (case global_seg r of None \<Rightarrow> {#} | Some g \<Rightarrow>
                  (case map_of (pic_miss_segment_slots r) g of None \<Rightarrow> {#} | Some sl \<Rightarrow> slots_kv sl))
               (case global_seg r of None \<Rightarrow> {#} | Some g \<Rightarrow>
                  (case map_of (pic_miss_segment_slots r) g of None \<Rightarrow> {#} | Some sl \<Rightarrow> slots_mb sl)) w'"
proof (cases "\<exists>g sl. global_seg r = Some g \<and> map_of (pic_miss_segment_slots r) g = Some sl")
  case True
  then obtain g sl where g: "global_seg r = Some g" "map_of (pic_miss_segment_slots r) g = Some sl"
    by blast
  then obtain kv m where sl: "sl = StdSlots kv m"
    using shape map_of_SomeD [OF g(2)] by (auto simp: std_shape_def)
  let ?w1 = "kv_free kv w"
  let ?w2 = "(case m of None \<Rightarrow> id | Some x \<Rightarrow> mb_free [x]) ?w1"
  let ?w3 = "if is_transition cf then remove_inflight (int (length kv)) (case m of None \<Rightarrow> 0 | Some _ \<Rightarrow> 1) ?w2 else ?w2"
  have run: "finish_last_segment cf r w = (Inr (), ?w3)"
    using g sl mode by (simp add: finish_last_segment_def std_slots_def)
  have g1: "gives cf w (mset kv) {#} ?w1"
    using gives_prims(1) [OF inv] .
  have g2: "gives cf ?w1 {#} (opt_mset m) ?w2"
    using mb_free_opt [OF gives_inv [OF g1]] .
  have g3: "gives cf ?w2 {#} {#} ?w3"
    using gives_prims(3) [OF gives_inv [OF g2]] gives_refl [OF gives_inv [OF g2]] by simp
  show ?thesis
    using run gives_trans [OF gives_trans [OF g1 g2] g3] g sl by auto
next
  case False
  then show ?thesis
    using gives_refl [OF inv] by (auto simp: finish_last_segment_def split: option.splits)
qed

lemma finish_last_gives_rope:
  assumes inv: "pic_inv cf w" and shape: "rope_shape r" and mode: "rope (cf_policy cf)"
  shows "\<exists>w'. finish_last_segment cf r w = (Inr (), w') \<and>
    gives cf w (case global_seg r of None \<Rightarrow> {#} | Some g \<Rightarrow>
                  (case map_of (pic_miss_segment_slots r) g of None \<Rightarrow> {#} | Some sl \<Rightarrow> slots_kv sl))
               (case global_seg r of None \<Rightarrow> {#} | Some g \<Rightarrow>
                  (case map_of (pic_miss_segment_slots r) g of None \<Rightarrow> {#} | Some sl \<Rightarrow> slots_mb sl)) w'"
proof (cases "\<exists>g sl. global_seg r = Some g \<and> map_of (pic_miss_segment_slots r) g = Some sl")
  case True
  then obtain g sl where g: "global_seg r = Some g" "map_of (pic_miss_segment_slots r) g = Some sl"
    by blast
  then obtain priv m where sl: "sl = RopeSlots priv None (Some m)"
    using shape map_of_SomeD [OF g(2)] by (auto simp: rope_shape_def)
  have run: "finish_last_segment cf r w = (Inr (), mb_free [m] (kv_free priv w))"
    using g sl mode by (simp add: finish_last_segment_def rope_slots_def bindM_app)
  have g1: "gives cf w (mset priv) {#} (kv_free priv w)"
    using gives_prims(1) [OF inv] .
  show ?thesis
    using run gives_trans [OF g1 gives_prims(2) [OF gives_inv [OF g1], of "[m]"]] g sl by auto
next
  case False
  then show ?thesis
    using gives_refl [OF inv] by (auto simp: finish_last_segment_def split: option.splits)
qed

definition any_last_seg :: "'r pic_req_scheme \<Rightarrow> segment option" where
  "any_last_seg r = (case pic_segments r of Some (x # xs) \<Rightarrow> Some (last (x # xs)) | _ \<Rightarrow> None)"

definition is_skipped :: "pic_config \<Rightarrow> 'r pic_req_scheme \<Rightarrow> segment \<times> miss_slots \<Rightarrow> bool" where
  "is_skipped cf r = (\<lambda>(seg, sl).
     \<not> (Some seg = any_last_seg r \<or> seg \<in> set (pic_cache_owned_miss_segments r) \<union> set (pic_freed_miss_segments r)) \<and>
     \<not> cacheable_len cf seg)"

lemma std_items:
  assumes "std_shape r"
  shows "map_result (\<lambda>(seg, s). case std_slots s of Inl e \<Rightarrow> Inl e | Inr (kv, m) \<Rightarrow> Inr (seg, kv, m))
      (pic_miss_segment_slots r) = Inr (map (\<lambda>(seg, s). (seg, std_kv s, std_mb s)) (pic_miss_segment_slots r))"
  by (rule map_result_all_Inr) (use assms in \<open>fastforce simp: std_shape_def std_slots_def\<close>)

lemma rope_items:
  assumes "rope_shape r"
  shows "map_result (\<lambda>(seg, s). case rope_slots s of Inl e \<Rightarrow> Inl e | Inr (priv, pub, m) \<Rightarrow> Inr (seg, priv))
      (pic_miss_segment_slots r) = Inr (map (\<lambda>(seg, s). (seg, std_kv s)) (pic_miss_segment_slots r))"
  by (rule map_result_all_Inr) (use assms in \<open>fastforce simp: rope_shape_def rope_slots_def\<close>)

lemma skipped_segments_eq:
  "skipped_segments cf r (map (\<lambda>(seg, s). (seg, std_kv s, std_mb s)) xs) =
     map (\<lambda>(seg, s). (seg, std_kv s, std_mb s)) (filter (is_skipped cf r) xs)"
  unfolding skipped_segments_def Let_def filter_map any_last_seg_def [symmetric]
  by (intro arg_cong [where f = "map _"] filter_cong) (auto simp: is_skipped_def cacheable_len_def)

lemma concat_opt_mset: "mset (concat (map (\<lambda>(seg, kv, m). case m of None \<Rightarrow> [] | Some x \<Rightarrow> [x]) xs)) =
    (\<Sum>(seg, kv, m)\<leftarrow>xs. opt_mset m)"
  by (induction xs) (auto split: option.splits)

lemma std_slots_sum:
  assumes "\<forall>(seg, sl) \<in> set xs. \<exists>kv m. sl = StdSlots kv m"
  shows "mset (concat (map (\<lambda>(seg, sl). std_kv sl) xs)) = (\<Sum>(seg, sl)\<leftarrow>xs. slots_kv sl)"
    "(\<Sum>(seg, sl)\<leftarrow>xs. opt_mset (std_mb sl)) = (\<Sum>(seg, sl)\<leftarrow>xs. slots_mb sl)"
  using assms by (induction xs) auto

lemma finish_skipped_gives:
  assumes inv: "pic_inv cf w" and shape: "std_shape r" and mode: "\<not> rope (cf_policy cf)"
  shows "\<exists>w'. finish_skipped cf r w = (Inr (), w') \<and>
    gives cf w (\<Sum>(seg, sl)\<leftarrow>filter (is_skipped cf r) (pic_miss_segment_slots r). slots_kv sl)
               (\<Sum>(seg, sl)\<leftarrow>filter (is_skipped cf r) (pic_miss_segment_slots r). slots_mb sl) w'"
proof -
  let ?xs = "filter (is_skipped cf r) (pic_miss_segment_slots r)"
  define skp where "skp = skipped_segments cf r (map (\<lambda>(seg, s). (seg, std_kv s, std_mb s)) (pic_miss_segment_slots r))"
  define kvs where "kvs = concat (map (\<lambda>(seg, kv, m). kv) skp)"
  define ms where "ms = concat (map (\<lambda>(seg, kv, m). case m of None \<Rightarrow> [] | Some x \<Rightarrow> [x]) skp)"
  have skp: "skp = map (\<lambda>(seg, s). (seg, std_kv s, std_mb s)) ?xs"
    by (simp add: skp_def skipped_segments_eq)
  have xs: "\<forall>(seg, sl) \<in> set ?xs. \<exists>kv m. sl = StdSlots kv m"
    using shape by (auto simp: std_shape_def)
  have K: "mset kvs = (\<Sum>(seg, sl)\<leftarrow>?xs. slots_kv sl)"
    using std_slots_sum(1) [OF xs] by (simp add: kvs_def skp comp_def case_prod_unfold)
  have M: "mset ms = (\<Sum>(seg, sl)\<leftarrow>?xs. slots_mb sl)"
    unfolding ms_def concat_opt_mset using std_slots_sum(2) [OF xs] by (simp add: skp comp_def case_prod_unfold)
  show ?thesis
  proof (cases "skp = []")
    case True
    then show ?thesis
      using std_items [OF shape] gives_refl [OF inv] mode K M
      by (auto simp: finish_skipped_def Let_def kvs_def ms_def simp flip: skp_def)
  next
    case False
    let ?w1 = "kv_free kvs w"
    let ?w2 = "if ms \<noteq> [] then mb_free ms ?w1 else ?w1"
    let ?w3 = "if is_transition cf then remove_inflight (\<Sum>(seg, kv, m)\<leftarrow>skp. int (length kv)) (int (length ms)) ?w2 else ?w2"
    have run: "finish_skipped cf r w = (Inr (), ?w3)"
      using std_items [OF shape] False mode
      by (simp add: finish_skipped_def Let_def flip: skp_def kvs_def ms_def)
    have g1: "gives cf w (mset kvs) {#} ?w1"
      using gives_prims(1) [OF inv] .
    have g2: "gives cf ?w1 {#} (mset ms) ?w2"
      using gives_prims(2) [OF gives_inv [OF g1], of ms] gives_refl [OF gives_inv [OF g1]] by (cases "ms = []") auto
    have g3: "gives cf ?w2 {#} {#} ?w3"
      using gives_prims(3) [OF gives_inv [OF g2]] gives_refl [OF gives_inv [OF g2]] by simp
    have "gives cf w (mset kvs) (mset ms) ?w3"
      using gives_trans [OF gives_trans [OF g1 g2] g3] by simp
    then show ?thesis
      using run unfolding K M by blast
  qed
qed

lemma finish_private_gives:
  assumes inv: "pic_inv cf w" and shape: "rope_shape r" and mode: "rope (cf_policy cf)"
  shows "\<exists>w'. finish_private cf r w = (Inr (), w') \<and>
    gives cf w (\<Sum>(seg, sl)\<leftarrow>filter (\<lambda>(seg, sl). Some seg \<noteq> global_seg r) (pic_miss_segment_slots r). mset (std_kv sl)) {#} w'"
proof -
  let ?xs = "filter (\<lambda>(seg, sl). Some seg \<noteq> global_seg r) (pic_miss_segment_slots r)"
  let ?items = "map (\<lambda>(seg, s). (seg, std_kv s)) (pic_miss_segment_slots r)"
  let ?kvs = "concat (map snd (filter (\<lambda>(seg, priv). Some seg \<noteq> global_seg r) ?items))"
  have items: "filter (\<lambda>(seg, priv). Some seg \<noteq> global_seg r) ?items = map (\<lambda>(seg, s). (seg, std_kv s)) ?xs"
    by (simp add: filter_map comp_def case_prod_unfold)
  have K: "mset ?kvs = (\<Sum>(seg, sl)\<leftarrow>?xs. mset (std_kv sl))"
    unfolding items mset_concat by (simp add: comp_def case_prod_unfold)
  define w1 where "w1 = (if filter (\<lambda>(seg, priv). Some seg \<noteq> global_seg r) ?items \<noteq> []
      then remove_inflight (int (length ?kvs)) 0 (kv_free ?kvs w) else w)"
  let ?w2 = "(case global_seg r of None \<Rightarrow> id | Some g \<Rightarrow> (case map_of ?items g of
      None \<Rightarrow> id | Some gp \<Rightarrow> remove_inflight (int (length gp)) 1)) w1"
  have run: "finish_private cf r w = (Inr (), ?w2)"
    using rope_items [OF shape] mode by (simp add: finish_private_def bindM_app Let_def w1_def)
  have g1: "gives cf w (mset ?kvs) {#} w1"
  proof (cases "filter (\<lambda>(seg, priv). Some seg \<noteq> global_seg r) ?items = []")
    case False
    have "gives cf w (mset ?kvs) {#} (kv_free ?kvs w)"
      using gives_prims(1) [OF inv] .
    from gives_trans [OF this gives_prims(3) [OF gives_inv [OF this]]] False show ?thesis
      by (simp add: w1_def)
  qed (use gives_refl [OF inv] in \<open>simp add: w1_def\<close>)
  have "gives cf w1 {#} {#} ?w2"
    using gives_prims(3) [OF gives_inv [OF g1]] gives_refl [OF gives_inv [OF g1]]
    by (simp split: option.split)
  from gives_trans [OF g1 this] show ?thesis
    using run unfolding K by auto
qed

definition hit_priv :: "pic_config \<Rightarrow> 'r pic_req_scheme \<Rightarrow> nat multiset" where
  "hit_priv cf r = (if rope (cf_policy cf)
     then mset (concat (map (\<lambda>(seg, priv, pub). priv) (pic_rope_hit_private_slots r))) else {#})"

lemma finish_hit_private_gives:
  assumes inv: "pic_inv cf w"
  shows "\<exists>w'. finish_hit_private cf r w = (Inr (), w') \<and> gives cf w (hit_priv cf r) {#} w'"
proof (cases "rope (cf_policy cf) \<and> pic_rope_hit_private_slots r \<noteq> []")
  case True
  let ?c = "concat (map (\<lambda>(seg, priv, pub). priv) (pic_rope_hit_private_slots r))"
  have g: "gives cf w (mset ?c) {#} (kv_free ?c w)"
    using gives_prims(1) [OF inv] .
  from gives_trans [OF g gives_prims(3) [OF gives_inv [OF g]]] True show ?thesis
    by (auto simp: finish_hit_private_def hit_priv_def bindM_app Let_def)
next
  case False
  then show ?thesis
    using gives_refl [OF inv] by (auto simp: finish_hit_private_def hit_priv_def)
qed

text \<open>The tokens decoded behind the prompt.\<close>

definition decode_slots :: "pic_config \<Rightarrow> 'r pic_req_scheme \<Rightarrow> 'w pic_world_scheme \<Rightarrow> nat list" where
  "decode_slots cf r w = (case (any_last_seg r, req_pool_idx r) of
     (Some seg, Some idx) \<Rightarrow> drop (if cf_is_decode cf then 0 else snd seg)
        (take (kv_committed_len r) (req_to_token (w_pool w) ! idx))
   | _ \<Rightarrow> [])"

definition row_ok :: "'r pic_req_scheme \<Rightarrow> 'w pic_world_scheme \<Rightarrow> bool" where
  "row_ok r w \<longleftrightarrow> (\<forall>idx. req_pool_idx r = Some idx \<longrightarrow> idx < length (req_to_token (w_pool w)))"

lemma finish_decode_gives:
  assumes inv: "pic_inv cf w" and row: "row_ok r w"
  shows "\<exists>w'. finish_decode_slots cf r w = (Inr (), w') \<and> gives cf w (mset (decode_slots cf r w)) {#} w'"
proof (cases "\<exists>x xs idx. pic_segments r = Some (x # xs) \<and> req_pool_idx r = Some idx")
  case True
  then obtain x xs idx where seg: "pic_segments r = Some (x # xs)" "req_pool_idx r = Some idx"
    by blast
  let ?st = "if cf_is_decode cf then 0 else snd (last (x # xs))"
  have idx: "idx < length (req_to_token (w_pool w))"
    using row seg by (simp add: row_ok_def)
  have ds: "decode_slots cf r w = drop ?st (take (kv_committed_len r) (req_to_token (w_pool w) ! idx))"
    using seg by (simp add: decode_slots_def any_last_seg_def)
  show ?thesis
  proof (cases "kv_committed_len r > ?st")
    case True
    then have "finish_decode_slots cf r w = (Inr (), kv_free (decode_slots cf r w) w)"
      using seg idx ds by (auto simp: finish_decode_slots_def Let_def bindM_app simp del: last.simps split: if_splits)
    then show ?thesis
      using gives_prims(1) [OF inv] by blast
  next
    case False
    then have "decode_slots cf r w = []" "finish_decode_slots cf r w = (Inr (), w)"
      using seg ds by (auto simp: finish_decode_slots_def Let_def simp del: last.simps split: if_splits)
    then show ?thesis
      using gives_refl [OF inv] by simp
  qed
next
  case False
  then have "finish_decode_slots cf r w = (Inr (), w)" "decode_slots cf r w = []"
    by (auto simp: finish_decode_slots_def decode_slots_def any_last_seg_def split: option.splits list.splits)
  then show ?thesis
    using gives_refl [OF inv] by simp
qed

lemma release_mamba_gives:
  assumes inv: "pic_inv cf w" and mb: "mamba_pool_idx r = None \<longrightarrow> req_mamba r = {#}"
    "mamba_pool_idx r \<noteq> None \<longrightarrow> mamba_synced r (w_pool w)"
  shows "\<exists>r' w'. (if mamba_pool_idx r \<noteq> None then on_pool (free_mamba_cache r None) else retM r) w = (Inr r', w') \<and>
    gives cf w {#} (req_mamba r) w' \<and> req_mamba r' = {#} \<and> pic_segment_entries r' = pic_segment_entries r"
proof (cases "mamba_pool_idx r")
  case None
  then show ?thesis
    using mb gives_refl [OF inv] by auto
next
  case (Some m)
  obtain r' p' where f: "free_mamba_cache r None (w_pool w) = (Inr r', p')" "pool_mamba p' = pool_mamba (w_pool w) + req_mamba r"
    "mamba_only (w_pool w) p'"
    "r' = r\<lparr>mamba_pool_idx := None, mamba_ping_pong_track_buffer := None,
       mamba_next_track_idx := (if enable_mamba_extra_buffer (w_pool w) then None else mamba_next_track_idx r)\<rparr>"
    using free_mamba_cache_spec [OF Some, of "w_pool w"] mb Some by auto
  have "gives cf w {#} (req_mamba r) (w\<lparr>w_pool := p'\<rparr>)"
    using inv f(2,3) by (auto simp: gives_def pic_inv_def entry_ok_def kv_acct_def mb_acct_def all_values_flatten_def
        all_mamba_values_flatten_def entry_values_def union_ac)
  then show ?thesis
    using f Some by (auto simp: on_pool_def req_mamba_def)
qed

lemma dec_fold_gives:
  "pic_inv cf w \<Longrightarrow> gives cf w {#} {#} (snd (fold (\<lambda>i (delta, w). if lock_ref (w_heap w i) > 0
     then (delta - 1, upd_entry i (\<lambda>e. e\<lparr>lock_ref := lock_ref e - 1\<rparr>) w) else (delta, w)) ids (d, w)))"
proof (induction ids arbitrary: d w)
  case (Cons i ids)
  show ?case
  proof (cases "lock_ref (w_heap w i) > 0")
    case True
    let ?w1 = "upd_entry i (\<lambda>e. e\<lparr>lock_ref := lock_ref e - 1\<rparr>) w"
    have "pic_inv cf ?w1"
      using True Cons.prems by (auto simp: pic_inv_def upd_entry_def entry_ok_def)
    moreover have "w_pool ?w1 = w_pool w"
      by (simp add: upd_entry_def)
    ultimately have g: "gives cf w {#} {#} ?w1"
      by (simp add: gives_def acct_lock)
    from gives_trans [OF g Cons.IH [OF gives_inv [OF g]]] True show ?thesis
      by simp
  qed (use Cons in simp)
qed (simp add: gives_refl)

lemma dec_lock_gives: "pic_inv cf w \<Longrightarrow> gives cf w {#} {#} (snd (dec_lock_ref r w))"
  using dec_fold_gives by (simp add: dec_lock_ref_def)

lemma mamba_synced_frame: "mamba_only p p' \<Longrightarrow> mamba_synced r p \<Longrightarrow> mamba_synced r p'"
  by (auto simp: mamba_synced_def mamba_only_def)

text \<open>The part of \<open>cache_finished_req\<close> behind the missed segments. \<open>fin_frame\<close>: what finishing leaves of the request.\<close>

definition fin_frame :: "'r pic_req_scheme \<Rightarrow> 'r pic_req_scheme \<Rightarrow> bool" where
  "fin_frame r r' \<longleftrightarrow> req_pool_idx r' = req_pool_idx r \<and> kv_committed_len r' = kv_committed_len r \<and>
     kv_allocated_len r' = kv_allocated_len r \<and> origin_input_ids r' = origin_input_ids r \<and> pic_req.more r' = pic_req.more r"

lemma free_mamba_fin_frame:
  assumes "mamba_pool_idx r \<noteq> None \<longrightarrow> mamba_synced r p" "mamba_only p (w_pool w)"
    "(if mamba_pool_idx r \<noteq> None then on_pool (free_mamba_cache r None) else retM r) w = (Inr r', w')"
  shows "fin_frame r r'"
proof (cases "mamba_pool_idx r")
  case (Some m)
  have "mamba_synced r (w_pool w)"
    using assms(1,2) Some by (auto simp: mamba_synced_def mamba_only_def)
  from free_mamba_cache_spec [OF Some this] assms(3) Some show ?thesis
    by (auto simp: on_pool_def fin_frame_def)
qed (use assms(3) in \<open>simp add: fin_frame_def\<close>)

lemma finish_tail_gives:
  assumes inv: "pic_inv cf w" and row: "row_ok r w" and mb: "mamba_pool_idx r = None \<longrightarrow> req_mamba r = {#}"
    "mamba_pool_idx r \<noteq> None \<longrightarrow> mamba_synced r (w_pool w)"
  shows "\<exists>r' w'. bindM (finish_hit_private cf r) (\<lambda>_.
     bindM (finish_decode_slots cf r) (\<lambda>_.
     bindM (if mamba_pool_idx r \<noteq> None then on_pool (free_mamba_cache r None) else retM r) (\<lambda>r2.
     bindM (stateM (dec_lock_ref r2)) (\<lambda>_. retM r2)))) w = (Inr r', w') \<and> req_mamba r' = {#} \<and> fin_frame r r' \<and>
     gives cf w (hit_priv cf r + mset (decode_slots cf r w)) (req_mamba r) w'"
proof -
  obtain w1 where s1: "finish_hit_private cf r w = (Inr (), w1)" "gives cf w (hit_priv cf r) {#} w1"
    using finish_hit_private_gives [OF inv] by blast
  have pool1: "mamba_only (w_pool w) (w_pool w1)"
    using s1(2) by (simp add: gives_def)
  have row1: "row_ok r w1" and ds1: "decode_slots cf r w1 = decode_slots cf r w"
    using row mamba_only_fields(2) [OF pool1] by (simp_all add: row_ok_def decode_slots_def split: option.split)
  obtain w2 where s2: "finish_decode_slots cf r w1 = (Inr (), w2)" "gives cf w1 (mset (decode_slots cf r w)) {#} w2"
    using finish_decode_gives [OF gives_inv [OF s1(2)] row1] unfolding ds1 by blast
  have pool2: "mamba_only (w_pool w) (w_pool w2)"
    using pool1 s2(2) by (auto simp: gives_def intro: mamba_only_trans)
  obtain r' w3 where s3: "(if mamba_pool_idx r \<noteq> None then on_pool (free_mamba_cache r None) else retM r) w2 = (Inr r', w3)"
    "gives cf w2 {#} (req_mamba r) w3" "req_mamba r' = {#}"
    using release_mamba_gives [OF gives_inv [OF s2(2)] mb(1)] mb(2) mamba_synced_frame [OF pool2] by blast
  have fin: "fin_frame r r'"
    using free_mamba_fin_frame [OF mb(2) pool2 s3(1)] .
  let ?w4 = "snd (dec_lock_ref r' w3)"
  have s4: "stateM (dec_lock_ref r') w3 = (Inr (fst (dec_lock_ref r' w3)), ?w4)"
    by (simp add: stateM_def case_prod_unfold)
  have "gives cf w (hit_priv cf r + mset (decode_slots cf r w)) (req_mamba r) ?w4"
    using gives_trans [OF gives_trans [OF gives_trans [OF s1(2) s2(2)] s3(2)] dec_lock_gives [OF gives_inv [OF s3(2)]]]
    by simp
  then show ?thesis
    using s1(1) s2(1) s3(1,3) s4 fin by (simp add: bindM_InrI)
qed

section \<open>What a finished request gives back\<close>

text \<open>The shape a request has between allocation and finishing: one tuple per missed segment, with one slot per token.\<close>

definition std_held :: "pic_config \<Rightarrow> int list set \<Rightarrow> 'r pic_req_scheme \<Rightarrow> bool" where
  "std_held cf S r \<longleftrightarrow> \<not> rope (cf_policy cf) \<and> dict_ok (pic_miss_segment_slots r) \<and>
     map fst (pic_miss_segment_slots r) = pic_miss_segments r \<and>
     (\<forall>(seg, sl) \<in> set (pic_miss_segment_slots r). \<exists>kv m. sl = StdSlots kv m \<and>
        length kv = length (seg_slice (origin_input_ids r) seg) \<and> seg_slice (origin_input_ids r) seg \<in> S \<and>
        (m = None \<longrightarrow> \<not> cacheable_len cf seg)) \<and>
     (pic_scatter_single_seg r \<longrightarrow> global_seg r = None)"

definition rope_held :: "pic_config \<Rightarrow> int list set \<Rightarrow> 'r pic_req_scheme \<Rightarrow> bool" where
  "rope_held cf S r \<longleftrightarrow> rope (cf_policy cf) \<and> dict_ok (pic_miss_segment_slots r) \<and>
     map fst (pic_miss_segment_slots r) = pic_miss_segments r \<and> rope_shape r \<and>
     (\<forall>(seg, sl) \<in> set (pic_miss_segment_slots r). \<forall>priv q m. sl = RopeSlots priv (Some q) m \<longrightarrow>
        length q = length (seg_slice (origin_input_ids r) seg) \<and> seg_slice (origin_input_ids r) seg \<in> S) \<and>
     (pic_scatter_single_seg r \<longrightarrow> global_seg r = None)"

text \<open>The requests that finishing gives back whole: outside the rope modes, those whose prompt is not a single segment
  below the minimum length; in the rope modes, all of them when no minimum length is set.\<close>

definition std_ready :: "pic_config \<Rightarrow> int list set \<Rightarrow> 'r pic_req_scheme \<Rightarrow> bool" where
  "std_ready cf S r \<longleftrightarrow> std_held cf S r \<and>
     (global_seg r = None \<longrightarrow> (\<forall>seg \<in> set (pic_miss_segments r). cacheable_len cf seg))"

definition rope_ready :: "pic_config \<Rightarrow> int list set \<Rightarrow> 'r pic_req_scheme \<Rightarrow> bool" where
  "rope_ready cf S r \<longleftrightarrow> rope_held cf S r \<and> cf_min_tokens cf \<le> 0"

text \<open>The part of a tuple that is shared with the cache in the rope modes.\<close>

fun pub_kv :: "miss_slots \<Rightarrow> nat multiset" where
  "pub_kv (StdSlots kv m) = {#}"
| "pub_kv (RopeSlots priv pub m) = (case pub of None \<Rightarrow> {#} | Some q \<Rightarrow> mset q)"

text \<open>The missed segments whose slots \<open>cache_finished_req\<close> neither files nor frees: with \<open>is_insert\<close> unset, every local
  segment long enough for the cache, and always a segment below the minimum length when it is the whole prompt, or in the
  rope modes any local one. Of such a segment the rope modes still free the private copy.\<close>

definition unreturned :: "pic_config \<Rightarrow> bool \<Rightarrow> 'r pic_req_scheme \<Rightarrow> segment \<Rightarrow> bool" where
  "unreturned cf ins r seg \<longleftrightarrow> global_seg r \<noteq> Some seg \<and>
     (if cacheable_len cf seg then \<not> ins else rope (cf_policy cf) \<or> any_last_seg r = Some seg)"

definition unreturned_kv :: "pic_config \<Rightarrow> bool \<Rightarrow> 'r pic_req_scheme \<Rightarrow> nat multiset" where
  "unreturned_kv cf ins r = (\<Sum>p\<leftarrow>filter (\<lambda>p. unreturned cf ins r (fst p)) (pic_miss_segment_slots r).
     if rope (cf_policy cf) then pub_kv (snd p) else slots_kv (snd p))"

definition unreturned_mb :: "pic_config \<Rightarrow> bool \<Rightarrow> 'r pic_req_scheme \<Rightarrow> int multiset" where
  "unreturned_mb cf ins r = (\<Sum>p\<leftarrow>filter (\<lambda>p. unreturned cf ins r (fst p)) (pic_miss_segment_slots r). slots_mb (snd p))"

lemma skip_register_iff:
  assumes "pic_scatter_single_seg r \<longrightarrow> global_seg r = None" "(seg, sl) \<in> set (pic_miss_segment_slots r)"
    "dict_ok (pic_miss_segment_slots r)"
  shows "skip_register cf r seg \<longleftrightarrow> global_seg r = Some seg \<or> \<not> cacheable_len cf seg"
  using assms by (auto simp: skip_register_def)

lemma any_last_global: "global_seg r = Some seg \<Longrightarrow> any_last_seg r = Some seg"
  by (auto simp: global_seg_def any_last_seg_def split: option.splits list.splits if_splits)

lemma sum_over_keys:
  assumes "map fst d = ks" "\<forall>p\<in>set d. f (fst p) = (if P p then g p else {#})"
  shows "(\<Sum>k\<leftarrow>ks. f k) = (\<Sum>p\<leftarrow>filter P d. g p)"
proof -
  have "(\<Sum>p\<leftarrow>d. f (fst p)) = (\<Sum>p\<leftarrow>filter P d. g p)"
    using assms(2) by (induction d) auto
  then show ?thesis
    using assms(1) by (auto simp: comp_def)
qed

lemma std_held_shape: "std_held cf S r \<Longrightarrow> std_shape r"
  by (fastforce simp: std_held_def std_shape_def)

lemma std_held_item:
  assumes "std_held cf S r" "(seg, sl) \<in> set (pic_miss_segment_slots r)"
  obtains kv m where "sl = StdSlots kv m" "map_of (pic_miss_segment_slots r) seg = Some sl"
    "unpack_public cf sl = Inr (kv, m)" "length kv = length (seg_slice (origin_input_ids r) seg)"
    "seg_slice (origin_input_ids r) seg \<in> S" "m = None \<Longrightarrow> \<not> cacheable_len cf seg"
proof -
  have "map_of (pic_miss_segment_slots r) seg = Some sl"
    using assms by (auto simp: std_held_def)
  moreover obtain kv m where "sl = StdSlots kv m" "length kv = length (seg_slice (origin_input_ids r) seg)"
    "seg_slice (origin_input_ids r) seg \<in> S" "m = None \<longrightarrow> \<not> cacheable_len cf seg"
    using assms by (fastforce simp: std_held_def)
  ultimately show thesis
    using that assms(1) by (auto simp: unpack_public_def std_held_def)
qed

lemma std_held_register:
  assumes r: "std_held cf S r"
  shows "\<forall>seg \<in> set (pic_miss_segments r). reg_ready cf S r seg"
    "(\<Sum>seg\<leftarrow>pic_miss_segments r. mset (reg_kv cf r seg)) =
       (\<Sum>p\<leftarrow>filter (\<lambda>p. \<not> skip_register cf r (fst p)) (pic_miss_segment_slots r). slots_kv (snd p))"
    "(\<Sum>seg\<leftarrow>pic_miss_segments r. reg_mb cf r seg) =
       (\<Sum>p\<leftarrow>filter (\<lambda>p. \<not> skip_register cf r (fst p)) (pic_miss_segment_slots r). slots_mb (snd p))"
proof -
  have keys: "map fst (pic_miss_segment_slots r) = pic_miss_segments r"
    using r by (simp add: std_held_def)
  show "\<forall>seg \<in> set (pic_miss_segments r). reg_ready cf S r seg"
  proof
    fix seg
    assume "seg \<in> set (pic_miss_segments r)"
    then obtain sl where "(seg, sl) \<in> set (pic_miss_segment_slots r)"
      by (auto simp flip: keys)
    then show "reg_ready cf S r seg"
      by (rule std_held_item [OF r]) (auto simp: reg_ready_def skip_register_def)
  qed
  have "\<forall>p\<in>set (pic_miss_segment_slots r).
      mset (reg_kv cf r (fst p)) = (if \<not> skip_register cf r (fst p) then slots_kv (snd p) else {#}) \<and>
      reg_mb cf r (fst p) = (if \<not> skip_register cf r (fst p) then slots_mb (snd p) else {#})"
  proof
    fix p
    assume p: "p \<in> set (pic_miss_segment_slots r)"
    have "(fst p, snd p) \<in> set (pic_miss_segment_slots r)"
      using p by simp
    then show "mset (reg_kv cf r (fst p)) = (if \<not> skip_register cf r (fst p) then slots_kv (snd p) else {#}) \<and>
      reg_mb cf r (fst p) = (if \<not> skip_register cf r (fst p) then slots_mb (snd p) else {#})"
      by (rule std_held_item [OF r]) (simp add: reg_kv_def reg_mb_def)
  qed
  then show "(\<Sum>seg\<leftarrow>pic_miss_segments r. mset (reg_kv cf r seg)) =
       (\<Sum>p\<leftarrow>filter (\<lambda>p. \<not> skip_register cf r (fst p)) (pic_miss_segment_slots r). slots_kv (snd p))"
    "(\<Sum>seg\<leftarrow>pic_miss_segments r. reg_mb cf r seg) =
       (\<Sum>p\<leftarrow>filter (\<lambda>p. \<not> skip_register cf r (fst p)) (pic_miss_segment_slots r). slots_mb (snd p))"
    by (intro sum_over_keys [OF keys]; simp)+
qed

lemma std_four_ways:
  assumes r: "std_held cf S r" and p: "p \<in> set (pic_miss_segment_slots r)"
    and r1: "req_frame r r1" "ins \<longrightarrow> set (pic_cache_owned_miss_segments r1) \<union> set (pic_freed_miss_segments r1) =
      {seg \<in> set (pic_miss_segments r). \<not> skip_register cf r seg}"
      "\<not> ins \<longrightarrow> (\<forall>seg \<in> set (pic_cache_owned_miss_segments r1) \<union> set (pic_freed_miss_segments r1). cacheable_len cf seg)"
  shows "(x :: 'y multiset) = (if ins \<and> \<not> skip_register cf r (fst p) then x else {#}) +
      (if global_seg r = Some (fst p) then x else {#}) + (if is_skipped cf r1 p then x else {#}) +
      (if unreturned cf ins r (fst p) then x else {#})"
proof -
  obtain seg sl where ps: "p = (seg, sl)" by fastforce
  have scatter: "pic_scatter_single_seg r \<longrightarrow> global_seg r = None" and dict: "dict_ok (pic_miss_segment_slots r)"
    and mode: "\<not> rope (cf_policy cf)"
    using r by (auto simp: std_held_def)
  note skip = skip_register_iff [OF scatter p [unfolded ps] dict, of cf]
  have "any_last_seg r1 = any_last_seg r"
    using req_frame_fields(2) [OF r1(1)] by (simp add: any_last_seg_def)
  moreover have "\<not> cacheable_len cf seg \<Longrightarrow>
      seg \<notin> set (pic_cache_owned_miss_segments r1) \<union> set (pic_freed_miss_segments r1)"
    using r1(2,3) skip by (cases ins) auto
  ultimately have skd: "is_skipped cf r1 p \<longleftrightarrow> any_last_seg r \<noteq> Some seg \<and> \<not> cacheable_len cf seg"
    unfolding is_skipped_def ps by auto
  have "global_seg r = Some seg \<Longrightarrow> any_last_seg r = Some seg"
    by (rule any_last_global)
  then show ?thesis
    using skip skd mode by (auto simp: ps unreturned_def)
qed

text \<open>The optional registration step, for both values of \<open>is_insert\<close>.\<close>

lemma finish_register:
  assumes inv: "pic_inv cf w" and S: "toks_in S w" "no_collision cf S"
    and ready: "\<forall>seg \<in> set (pic_miss_segments r). reg_ready cf S r seg"
    and K: "(\<Sum>seg\<leftarrow>pic_miss_segments r. mset (reg_kv cf r seg)) =
       (\<Sum>p\<leftarrow>filter (\<lambda>p. \<not> skip_register cf r (fst p)) (pic_miss_segment_slots r). f (snd p))"
    and M: "(\<Sum>seg\<leftarrow>pic_miss_segments r. reg_mb cf r seg) =
       (\<Sum>p\<leftarrow>filter (\<lambda>p. \<not> skip_register cf r (fst p)) (pic_miss_segment_slots r). slots_mb (snd p))"
  shows "\<exists>r1 w1. (if ins then cache_unfinished_req cf r else retM r) w = (Inr r1, w1) \<and>
    gives cf w (\<Sum>p\<leftarrow>filter (\<lambda>p. ins \<and> \<not> skip_register cf r (fst p)) (pic_miss_segment_slots r). f (snd p))
      (\<Sum>p\<leftarrow>filter (\<lambda>p. ins \<and> \<not> skip_register cf r (fst p)) (pic_miss_segment_slots r). slots_mb (snd p)) w1 \<and>
    req_frame r r1 \<and>
    (ins \<longrightarrow> set (pic_cache_owned_miss_segments r1) \<union> set (pic_freed_miss_segments r1) =
      {seg \<in> set (pic_miss_segments r). \<not> skip_register cf r seg}) \<and> (\<not> ins \<longrightarrow> r1 = r)"
proof (cases ins)
  case True
  then show ?thesis
    using cache_unfinished_spec [OF inv S ready] unfolding K M by auto
qed (use gives_refl [OF inv] in simp)

lemma finish_miss_std:
  assumes inv: "pic_inv cf w" and S: "toks_in S w" "no_collision cf S" and r: "std_held cf S r"
    and old: "ins \<or> (\<forall>seg \<in> set (pic_cache_owned_miss_segments r) \<union> set (pic_freed_miss_segments r). cacheable_len cf seg)"
  shows "\<exists>r' w' K M. finish_miss_slots cf ins r w = (Inr r', w') \<and> gives cf w K M w' \<and> K + unreturned_kv cf ins r = req_kv r \<and>
    M + unreturned_mb cf ins r = req_mb r \<and> req_frame r r'"
proof (cases "pic_miss_segment_slots r = []")
  case True
  then show ?thesis
    using gives_refl [OF inv]
    by (auto simp: finish_miss_slots_def req_kv_def req_mb_def unreturned_kv_def unreturned_mb_def)
next
  case False
  let ?d = "pic_miss_segment_slots r"
  let ?A = "\<lambda>p. ins \<and> \<not> skip_register cf r (fst p)" and ?B = "\<lambda>p. global_seg r = Some (fst p)"
    and ?U = "\<lambda>p. unreturned cf ins r (fst p)"
  have mode: "\<not> rope (cf_policy cf)" and dict: "dict_ok ?d"
    using r unfolding std_held_def by blast+
  note shape = std_held_shape [OF r]
  obtain r1 w1 where s1: "(if ins then cache_unfinished_req cf r else retM r) w = (Inr r1, w1)"
    "gives cf w (\<Sum>p\<leftarrow>filter ?A ?d. slots_kv (snd p)) (\<Sum>p\<leftarrow>filter ?A ?d. slots_mb (snd p)) w1" "req_frame r r1"
    "ins \<longrightarrow> set (pic_cache_owned_miss_segments r1) \<union> set (pic_freed_miss_segments r1) =
      {seg \<in> set (pic_miss_segments r). \<not> skip_register cf r seg}" "\<not> ins \<longrightarrow> r1 = r"
    using finish_register [OF inv S std_held_register [OF r], of ins] by blast
  have old1: "\<not> ins \<longrightarrow> (\<forall>seg \<in> set (pic_cache_owned_miss_segments r1) \<union> set (pic_freed_miss_segments r1). cacheable_len cf seg)"
    using old s1(5) by (cases ins) auto
  note fr = req_frame_fields [OF s1(3)]
  have shape1: "std_shape r1"
    using shape fr by (simp add: std_shape_def)
  obtain w2 where s2: "finish_addition_inflight cf r1 w1 = (Inr (), w2)" "gives cf w1 {#} {#} w2"
    using finish_addition_gives [OF gives_inv [OF s1(2)], of r1] shape1 mode by auto
  have glob: "(case global_seg r of None \<Rightarrow> {#} | Some g \<Rightarrow> (case map_of ?d g of None \<Rightarrow> {#} | Some sl \<Rightarrow> f sl)) =
      (\<Sum>p\<leftarrow>filter ?B ?d. f (snd p))" for f :: "miss_slots \<Rightarrow> 'y multiset"
    using sum_list_filter_key [OF dict, of f "the (global_seg r)"]
    by (cases "global_seg r") (auto simp: case_prod_unfold eq_commute)
  obtain w3 where s3: "finish_last_segment cf r1 w2 = (Inr (), w3)"
    "gives cf w2 (\<Sum>p\<leftarrow>filter ?B ?d. slots_kv (snd p)) (\<Sum>p\<leftarrow>filter ?B ?d. slots_mb (snd p)) w3"
    using finish_last_gives_std [OF gives_inv [OF s2(2)] shape1 mode] unfolding fr glob by blast
  obtain w4 where s4: "finish_skipped cf r1 w3 = (Inr (), w4)"
    "gives cf w3 (\<Sum>p\<leftarrow>filter (is_skipped cf r1) ?d. slots_kv (snd p)) (\<Sum>p\<leftarrow>filter (is_skipped cf r1) ?d. slots_mb (snd p)) w4"
    using finish_skipped_gives [OF gives_inv [OF s3(2)] shape1 mode] unfolding fr case_prod_unfold by blast
  have s5: "finish_private cf r1 w4 = (Inr (), w4)"
    using mode by (simp add: finish_private_def)
  have run: "finish_miss_slots cf ins r w = (Inr r1, w4)"
    using False s1(1) s2(1) s3(1) s4(1) s5 by (simp add: finish_miss_slots_def bindM_InrI)
  have left: "unreturned_kv cf ins r = (\<Sum>p\<leftarrow>filter ?U ?d. slots_kv (snd p))"
    using mode by (simp add: unreturned_kv_def)
  have K: "req_kv r = (\<Sum>p\<leftarrow>filter ?A ?d. slots_kv (snd p)) + (\<Sum>p\<leftarrow>filter ?B ?d. slots_kv (snd p)) +
      (\<Sum>p\<leftarrow>filter (is_skipped cf r1) ?d. slots_kv (snd p)) + (\<Sum>p\<leftarrow>filter ?U ?d. slots_kv (snd p))"
    and M: "req_mb r = (\<Sum>p\<leftarrow>filter ?A ?d. slots_mb (snd p)) + (\<Sum>p\<leftarrow>filter ?B ?d. slots_mb (snd p)) +
      (\<Sum>p\<leftarrow>filter (is_skipped cf r1) ?d. slots_mb (snd p)) + (\<Sum>p\<leftarrow>filter ?U ?d. slots_mb (snd p))"
    unfolding req_kv_def req_mb_def case_prod_unfold
    by (rule sum_list_split4, intro ballI, rule std_four_ways [OF r _ s1(3,4) old1], assumption)+
  show ?thesis
    using run s1(3) gives_trans [OF gives_trans [OF gives_trans [OF s1(2) s2(2)] s3(2)] s4(2)]
    unfolding left unreturned_mb_def K M by (intro exI conjI) (assumption, assumption, simp_all)
qed

lemma rope_held_item:
  assumes "rope_held cf S r" "(seg, sl) \<in> set (pic_miss_segment_slots r)"
  obtains priv pub m where "sl = RopeSlots priv pub (Some m)" "map_of (pic_miss_segment_slots r) seg = Some sl"
    "pub = None \<longleftrightarrow> global_seg r = Some seg" "skip_register cf r seg \<longleftrightarrow> global_seg r = Some seg \<or> \<not> cacheable_len cf seg"
    "\<And>q. pub = Some q \<Longrightarrow> length q = length (seg_slice (origin_input_ids r) seg) \<and> seg_slice (origin_input_ids r) seg \<in> S"
    "\<And>q. pub = Some q \<Longrightarrow> unpack_public cf sl = Inr (q, Some m)"
proof -
  have dict: "dict_ok (pic_miss_segment_slots r)" and scatter: "pic_scatter_single_seg r \<longrightarrow> global_seg r = None"
    and mode: "rope (cf_policy cf)" and shape: "rope_shape r"
    using assms(1) unfolding rope_held_def by blast+
  have look: "map_of (pic_miss_segment_slots r) seg = Some sl"
    using dict assms(2) by auto
  obtain priv pub m where sl: "sl = RopeSlots priv pub (Some m)" "pub = None \<longleftrightarrow> global_seg r = Some seg"
    using shape assms(2) unfolding rope_shape_def by blast
  have "skip_register cf r seg \<longleftrightarrow> global_seg r = Some seg \<or> \<not> cacheable_len cf seg"
    by (rule skip_register_iff [OF scatter assms(2) dict])
  moreover have "length q = length (seg_slice (origin_input_ids r) seg) \<and> seg_slice (origin_input_ids r) seg \<in> S"
    if "pub = Some q" for q
    using assms that sl unfolding rope_held_def by blast
  ultimately show thesis
    using that sl look mode by (simp add: unpack_public_def)
qed

lemma rope_held_register:
  assumes r: "rope_held cf S r"
  shows "\<forall>seg \<in> set (pic_miss_segments r). reg_ready cf S r seg"
    "(\<Sum>seg\<leftarrow>pic_miss_segments r. mset (reg_kv cf r seg)) =
       (\<Sum>p\<leftarrow>filter (\<lambda>p. \<not> skip_register cf r (fst p)) (pic_miss_segment_slots r). pub_kv (snd p))"
    "(\<Sum>seg\<leftarrow>pic_miss_segments r. reg_mb cf r seg) =
       (\<Sum>p\<leftarrow>filter (\<lambda>p. \<not> skip_register cf r (fst p)) (pic_miss_segment_slots r). slots_mb (snd p))"
proof -
  have keys: "map fst (pic_miss_segment_slots r) = pic_miss_segments r"
    using r by (simp add: rope_held_def)
  show "\<forall>seg \<in> set (pic_miss_segments r). reg_ready cf S r seg"
  proof
    fix seg
    assume "seg \<in> set (pic_miss_segments r)"
    then obtain sl where "(seg, sl) \<in> set (pic_miss_segment_slots r)"
      by (auto simp flip: keys)
    then show "reg_ready cf S r seg"
      by (rule rope_held_item [OF r]) (auto simp: reg_ready_def)
  qed
  have "\<forall>p\<in>set (pic_miss_segment_slots r).
      mset (reg_kv cf r (fst p)) = (if \<not> skip_register cf r (fst p) then pub_kv (snd p) else {#}) \<and>
      reg_mb cf r (fst p) = (if \<not> skip_register cf r (fst p) then slots_mb (snd p) else {#})"
  proof
    fix p
    assume "p \<in> set (pic_miss_segment_slots r)"
    then have "(fst p, snd p) \<in> set (pic_miss_segment_slots r)"
      by simp
    then show "mset (reg_kv cf r (fst p)) = (if \<not> skip_register cf r (fst p) then pub_kv (snd p) else {#}) \<and>
      reg_mb cf r (fst p) = (if \<not> skip_register cf r (fst p) then slots_mb (snd p) else {#})"
      by (rule rope_held_item [OF r]) (auto simp: reg_kv_def reg_mb_def)
  qed
  then show "(\<Sum>seg\<leftarrow>pic_miss_segments r. mset (reg_kv cf r seg)) =
       (\<Sum>p\<leftarrow>filter (\<lambda>p. \<not> skip_register cf r (fst p)) (pic_miss_segment_slots r). pub_kv (snd p))"
    "(\<Sum>seg\<leftarrow>pic_miss_segments r. reg_mb cf r seg) =
       (\<Sum>p\<leftarrow>filter (\<lambda>p. \<not> skip_register cf r (fst p)) (pic_miss_segment_slots r). slots_mb (snd p))"
    by (intro sum_over_keys [OF keys]; simp)+
qed

lemma sum_list_split2:
  "(\<Sum>p\<leftarrow>d. f p) = (\<Sum>p\<leftarrow>filter (\<lambda>p. \<not> B p) d. f p) + (\<Sum>p\<leftarrow>filter B d. (f p :: 'y multiset))"
  by (induction d) (auto simp: union_ac)

lemma rope_slots_parts:
  "rope_shape r \<Longrightarrow> xs = filter P (pic_miss_segment_slots r) \<Longrightarrow>
     (\<Sum>p\<leftarrow>xs. slots_kv (snd p)) = (\<Sum>p\<leftarrow>xs. pub_kv (snd p)) + (\<Sum>p\<leftarrow>xs. mset (std_kv (snd p)))"
proof -
  assume shape: "rope_shape r" and xs: "xs = filter P (pic_miss_segment_slots r)"
  have "\<forall>p\<in>set xs. slots_kv (snd p) = pub_kv (snd p) + mset (std_kv (snd p))"
    using shape by (fastforce simp: xs rope_shape_def union_ac)
  then have "(\<Sum>p\<leftarrow>xs. slots_kv (snd p)) = (\<Sum>p\<leftarrow>xs. pub_kv (snd p) + mset (std_kv (snd p)))"
    by (intro arg_cong [where f = sum_list] map_cong) auto
  then show ?thesis
    by (simp add: sum_list_addf)
qed

lemma finish_miss_rope:
  assumes inv: "pic_inv cf w" and S: "toks_in S w" "no_collision cf S" and r: "rope_held cf S r"
  shows "\<exists>r' w' K M. finish_miss_slots cf ins r w = (Inr r', w') \<and> gives cf w K M w' \<and> K + unreturned_kv cf ins r = req_kv r \<and>
    M + unreturned_mb cf ins r = req_mb r \<and> req_frame r r'"
proof (cases "pic_miss_segment_slots r = []")
  case True
  then show ?thesis
    using gives_refl [OF inv]
    by (auto simp: finish_miss_slots_def req_kv_def req_mb_def unreturned_kv_def unreturned_mb_def)
next
  case False
  let ?d = "pic_miss_segment_slots r"
  let ?A = "\<lambda>p. ins \<and> \<not> skip_register cf r (fst p)" and ?N = "\<lambda>p. global_seg r \<noteq> Some (fst p)"
    and ?B = "\<lambda>p. global_seg r = Some (fst p)" and ?U = "\<lambda>p. unreturned cf ins r (fst p)"
  have mode: "rope (cf_policy cf)" and dict: "dict_ok ?d" and shape: "rope_shape r"
    and scatter: "pic_scatter_single_seg r \<longrightarrow> global_seg r = None"
    using r unfolding rope_held_def by blast+
  obtain r1 w1 where s1: "(if ins then cache_unfinished_req cf r else retM r) w = (Inr r1, w1)"
    "gives cf w (\<Sum>p\<leftarrow>filter ?A ?d. pub_kv (snd p)) (\<Sum>p\<leftarrow>filter ?A ?d. slots_mb (snd p)) w1" "req_frame r r1"
    using finish_register [OF inv S rope_held_register [OF r], of ins] by blast
  note fr = req_frame_fields [OF s1(3)]
  have shape1: "rope_shape r1"
    using shape fr by (simp add: rope_shape_def)
  obtain w2 where s2: "finish_addition_inflight cf r1 w1 = (Inr (), w2)" "gives cf w1 {#} {#} w2"
    using finish_addition_gives [OF gives_inv [OF s1(2)], of r1] shape1 mode by auto
  have glob: "(case global_seg r of None \<Rightarrow> {#} | Some g \<Rightarrow> (case map_of ?d g of None \<Rightarrow> {#} | Some sl \<Rightarrow> f sl)) =
      (\<Sum>p\<leftarrow>filter ?B ?d. f (snd p))" for f :: "miss_slots \<Rightarrow> 'y multiset"
    using sum_list_filter_key [OF dict, of f "the (global_seg r)"]
    by (cases "global_seg r") (auto simp: case_prod_unfold eq_commute)
  obtain w3 where s3: "finish_last_segment cf r1 w2 = (Inr (), w3)"
    "gives cf w2 (\<Sum>p\<leftarrow>filter ?B ?d. slots_kv (snd p)) (\<Sum>p\<leftarrow>filter ?B ?d. slots_mb (snd p)) w3"
    using finish_last_gives_rope [OF gives_inv [OF s2(2)] shape1 mode] unfolding fr glob by blast
  have s4: "finish_skipped cf r1 w3 = (Inr (), w3)"
    using mode by (simp add: finish_skipped_def)
  have "filter (\<lambda>(seg, sl). Some seg \<noteq> global_seg r) ?d = filter ?N ?d"
    by (rule filter_cong) auto
  then obtain w4 where s5: "finish_private cf r1 w3 = (Inr (), w4)"
    "gives cf w3 (\<Sum>p\<leftarrow>filter ?N ?d. mset (std_kv (snd p))) {#} w4"
    using finish_private_gives [OF gives_inv [OF s3(2)] shape1 mode] fr by (auto simp: case_prod_unfold)
  have run: "finish_miss_slots cf ins r w = (Inr r1, w4)"
    using False s1(1) s2(1) s3(1) s4 s5(1) by (simp add: finish_miss_slots_def bindM_InrI)
  have part: "\<forall>p\<in>set ?d. (?N p \<longleftrightarrow> ?A p \<or> ?U p) \<and> \<not> (?A p \<and> ?U p)"
    using skip_register_iff [OF scatter _ dict, of _ _ cf] mode by (auto simp: unreturned_def)
  have left: "unreturned_kv cf ins r = (\<Sum>p\<leftarrow>filter ?U ?d. pub_kv (snd p))"
    using mode by (simp add: unreturned_kv_def)
  have K: "req_kv r = ((\<Sum>p\<leftarrow>filter ?A ?d. pub_kv (snd p)) + (\<Sum>p\<leftarrow>filter ?U ?d. pub_kv (snd p))) +
      (\<Sum>p\<leftarrow>filter ?N ?d. mset (std_kv (snd p))) + (\<Sum>p\<leftarrow>filter ?B ?d. slots_kv (snd p))"
    unfolding req_kv_def case_prod_unfold sum_list_split2 [of _ ?d ?B] rope_slots_parts [OF shape refl]
      sum_list_filter_part [OF part] ..
  have M: "req_mb r = ((\<Sum>p\<leftarrow>filter ?A ?d. slots_mb (snd p)) + (\<Sum>p\<leftarrow>filter ?U ?d. slots_mb (snd p))) +
      (\<Sum>p\<leftarrow>filter ?B ?d. slots_mb (snd p))"
    unfolding req_mb_def case_prod_unfold sum_list_split2 [of _ ?d ?B] sum_list_filter_part [OF part] ..
  show ?thesis
    using run s1(3) gives_trans [OF gives_trans [OF gives_trans [OF s1(2) s2(2)] s3(2)] s5(2)]
    unfolding left unreturned_mb_def K M by (intro exI conjI) (assumption, assumption, simp_all add: union_ac)
qed

text \<open>A request that is ready leaves nothing behind.\<close>

lemma ready_held: "std_ready cf S r \<or> rope_ready cf S r \<Longrightarrow> std_held cf S r \<or> rope_held cf S r"
  by (auto simp: std_ready_def rope_ready_def)

lemma ready_returns:
  assumes "std_ready cf S r \<or> rope_ready cf S r"
  shows "unreturned_kv cf True r = {#}" "unreturned_mb cf True r = {#}"
proof -
  have keys: "map fst (pic_miss_segment_slots r) = pic_miss_segments r"
    using assms unfolding std_ready_def std_held_def rope_ready_def rope_held_def by blast
  have "\<not> unreturned cf True r seg" if "seg \<in> set (pic_miss_segments r)" for seg
  proof (cases "rope (cf_policy cf)")
    case True
    then show ?thesis
      using assms by (auto simp: std_ready_def std_held_def rope_ready_def unreturned_def cacheable_len_def)
  next
    case False
    then have "global_seg r = None \<longrightarrow> cacheable_len cf seg"
      using assms that by (auto simp: std_ready_def rope_ready_def rope_held_def)
    then show ?thesis
      using False any_last_global [of r] by (cases "global_seg r") (auto simp: unreturned_def)
  qed
  then have "filter (\<lambda>p. unreturned cf True r (fst p)) (pic_miss_segment_slots r) = []"
    by (auto simp: filter_empty_conv simp flip: keys)
  then show "unreturned_kv cf True r = {#}" "unreturned_mb cf True r = {#}"
    by (simp_all add: unreturned_kv_def unreturned_mb_def)
qed

lemma cache_finished_spec:
  assumes inv: "pic_inv cf w" and S: "toks_in S w" "no_collision cf S"
    and r: "std_held cf S r \<or> rope_held cf S r" and row: "row_ok r w"
    and old: "ins \<or> (\<forall>seg \<in> set (pic_cache_owned_miss_segments r) \<union> set (pic_freed_miss_segments r). cacheable_len cf seg)"
    and mb: "mamba_pool_idx r = None \<longrightarrow> req_mamba r = {#}" "mamba_pool_idx r \<noteq> None \<longrightarrow> mamba_synced r (w_pool w)"
  shows "\<exists>r' w'. cache_finished_req cf ins r w = (Inr r', w') \<and> pic_inv cf w' \<and> req_mamba r' = {#} \<and> fin_frame r r' \<and>
    kv_acct w' + unreturned_kv cf ins r = kv_acct w + (req_kv r + hit_priv cf r + mset (decode_slots cf r w)) \<and>
    mb_acct w' + unreturned_mb cf ins r = mb_acct w + (req_mb r + req_mamba r) \<and> mamba_only (w_pool w) (w_pool w')"
proof -
  obtain r1 w1 K M where s1: "finish_miss_slots cf ins r w = (Inr r1, w1)" "gives cf w K M w1" "req_frame r r1"
    and KM: "K + unreturned_kv cf ins r = req_kv r" "M + unreturned_mb cf ins r = req_mb r"
    using finish_miss_std [OF inv S _ old] finish_miss_rope [OF inv S, of r ins] r by blast
  have pool: "mamba_only (w_pool w) (w_pool w1)"
    using s1(2) by (simp add: gives_def)
  note fr = req_frame_fields [OF s1(3)]
  have same: "row_ok r1 w1" "req_mamba r1 = req_mamba r" "hit_priv cf r1 = hit_priv cf r"
    "decode_slots cf r1 w1 = decode_slots cf r w" "mamba_synced r1 (w_pool w1) = mamba_synced r (w_pool w1)"
    using row fr mamba_only_fields(2) [OF pool]
    by (simp_all add: row_ok_def req_mamba_def hit_priv_def decode_slots_def any_last_seg_def mamba_synced_def split: option.split)
  obtain r' w' where s2: "bindM (finish_hit_private cf r1) (\<lambda>_. bindM (finish_decode_slots cf r1) (\<lambda>_.
      bindM (if mamba_pool_idx r1 \<noteq> None then on_pool (free_mamba_cache r1 None) else retM r1) (\<lambda>r2.
      bindM (stateM (dec_lock_ref r2)) (\<lambda>_. retM r2)))) w1 = (Inr r', w')" "req_mamba r' = {#}" "fin_frame r1 r'"
    "gives cf w1 (hit_priv cf r + mset (decode_slots cf r w)) (req_mamba r) w'"
    using finish_tail_gives [OF gives_inv [OF s1(2)] same(1)] mb mamba_synced_frame [OF pool] same fr by fastforce
  have "cache_finished_req cf ins r w = (Inr r', w')"
    using s1(1) s2(1) by (simp add: cache_finished_req_def bindM_InrI)
  then show ?thesis
    using gives_trans [OF s1(2) s2(4)] s2(2,3) s1(3) unfolding KM [symmetric]
    by (auto simp: gives_def union_ac fin_frame_def req_frame_def)
qed

text \<open>The two exceptions that hold even with \<open>is_insert\<close>: a prompt that is one short segment, and a short local segment in
  the rope modes.\<close>

lemma single_short_unreturned:
  assumes "\<not> rope (cf_policy cf)" "pic_segments r = Some [seg]" "pic_miss_segment_slots r = [(seg, sl)]"
    "\<not> cacheable_len cf seg"
  shows "unreturned_kv cf ins r = req_kv r" "unreturned_mb cf ins r = req_mb r"
  using assms by (simp_all add: unreturned_kv_def unreturned_mb_def unreturned_def req_kv_def req_mb_def global_seg_def any_last_seg_def)

lemma rope_short_unreturned:
  assumes "rope (cf_policy cf)" "global_seg r \<noteq> Some seg" "\<not> cacheable_len cf seg"
    "(seg, RopeSlots priv (Some pub) (Some m)) \<in> set (pic_miss_segment_slots r)"
  shows "mset pub \<subseteq># unreturned_kv cf ins r" "m \<in># unreturned_mb cf ins r"
proof -
  obtain xs ys where d: "pic_miss_segment_slots r = xs @ (seg, RopeSlots priv (Some pub) (Some m)) # ys"
    using split_list [OF assms(4)] by blast
  have "unreturned cf ins r seg"
    using assms(1-3) by (simp add: unreturned_def)
  then show "mset pub \<subseteq># unreturned_kv cf ins r" "m \<in># unreturned_mb cf ins r"
    using assms(1) by (simp_all add: unreturned_kv_def unreturned_mb_def d)
qed

text \<open>C3. Finishing a request always returns, in every mode and for both values of \<open>is_insert\<close>, and accounts exactly for
  the slots the request holds: the slots of its missed segments, the private copies of its hits, the tokens decoded
  behind the prompt and its mamba state are free or owned by a cached segment afterwards, except those of the
  \<open>unreturned\<close> segments, which finishing neither files nor frees. With \<open>is_insert\<close> there is no exception for a prompt that
  is not a single segment below the minimum length outside the rope modes, nor in the rope modes without a minimum length.
  The held slots are counted once when the segments were not registered before; without \<open>is_insert\<close> the segments
  registered earlier are among the exceptions.\<close>

theorem cache_finished_conserves:
  assumes inv: "pic_inv cf w" and S: "toks_in S w" "no_collision cf S"
    and r: "std_held cf S r \<or> rope_held cf S r" and row: "row_ok r w"
    and old: "ins \<or> (\<forall>seg \<in> set (pic_cache_owned_miss_segments r) \<union> set (pic_freed_miss_segments r). cacheable_len cf seg)"
    and mb: "mamba_pool_idx r = None \<longrightarrow> req_mamba r = {#}" "mamba_pool_idx r \<noteq> None \<longrightarrow> mamba_synced r (w_pool w)"
  shows "\<exists>r' w'. cache_finished_req cf ins r w = (Inr r', w') \<and> pic_inv cf w' \<and> req_mamba r' = {#} \<and>
    kv_acct w' + unreturned_kv cf ins r = kv_acct w + (req_kv r + hit_priv cf r + mset (decode_slots cf r w)) \<and>
    mb_acct w' + unreturned_mb cf ins r = mb_acct w + (req_mb r + req_mamba r) \<and>
    (ins \<and> (std_ready cf S r \<or> rope_ready cf S r) \<longrightarrow> unreturned_kv cf ins r = {#} \<and> unreturned_mb cf ins r = {#})"
  using cache_finished_spec [OF assms] ready_returns [of cf S r] by auto

section \<open>Registration is not idempotent\<close>

lemma member_sum_list: "y \<in> set ys \<Longrightarrow> x \<in> set (f y) \<Longrightarrow> x \<in># (\<Sum>y\<leftarrow>ys. mset (f y))"
  by (induction ys) auto

text \<open>C9. Registering the same request a second time books its slots twice: the second run finds the
  entry the first run filed, takes it for another request's and frees the very slots the entry owns. Every registered
  slot is then both in the free list and in a cached segment. The scheduler does run registration twice for a request that decodes
  beyond its first token: once after the prefill and once more from \<open>cache_finished_req\<close>.\<close>

theorem registering_twice_double_books:
  assumes inv: "pic_inv cf w" and S: "toks_in S w" "no_collision cf S"
    and ready: "\<forall>seg\<in>set (pic_miss_segments r). reg_ready cf S r seg"
  shows "\<exists>r1 w1 r2 w2. cache_unfinished_req cf r w = (Inr r1, w1) \<and> cache_unfinished_req cf r1 w1 = (Inr r2, w2) \<and>
    (\<forall>seg\<in>set (pic_miss_segments r). \<forall>x\<in>set (reg_kv cf r seg). count (kv_acct w2) x \<ge> 2)"
proof -
  let ?K = "\<Sum>seg\<leftarrow>pic_miss_segments r. mset (reg_kv cf r seg)"
  obtain r1 w1 where one: "cache_unfinished_req cf r w = (Inr r1, w1)" "toks_in S w1" "req_frame r r1"
    "pic_inv cf w1" "kv_acct w1 = kv_acct w + ?K"
    using cache_unfinished_spec [OF inv S ready] by (auto simp: gives_def)
  note cong = reg_frame_cong [OF one(3), of cf]
  have "\<forall>seg\<in>set (pic_miss_segments r1). reg_ready cf S r1 seg"
    using ready cong(4) req_frame_fields(4) [OF one(3)] by simp
  from cache_unfinished_spec [OF one(4,2) S(2) this] obtain r2 w2 where
    two: "cache_unfinished_req cf r1 w1 = (Inr r2, w2)" "kv_acct w2 = kv_acct w1 + ?K"
    unfolding cong req_frame_fields(4) [OF one(3)] by (auto simp: gives_def)
  have "count (kv_acct w2) x \<ge> 2" if "seg \<in> set (pic_miss_segments r)" "x \<in> set (reg_kv cf r seg)" for seg x
  proof -
    have "x \<in># ?K"
      using that by (rule member_sum_list)
    then have "count ?K x \<noteq> 0"
      by (metis count_eq_zero_iff)
    then have "count (kv_acct w) x + count ?K x + count ?K x \<ge> 2"
      by linarith
    then show ?thesis
      unfolding two(2) one(5) count_union .
  qed
  then show ?thesis
    using one(1) two(1) by blast
qed

text \<open>A request with one cached and one missed segment before the question; the missed segment has slots 3, 4 and the
  question slot 5.\<close>

definition ex_missing :: pic_req where
  "ex_missing = (ex_req [11, 12, 21, 22, 7] [(0, 2), (2, 4), (4, 5)])
     \<lparr>pic_miss_segments := [(2, 4), (4, 5)], req_pool_idx := Some 1, mamba_pool_idx := Some 4, kv_committed_len := 5,
      pic_miss_segment_slots := [((2, 4), StdSlots [3, 4] (Some 2)), ((4, 5), StdSlots [5] (Some 3))]\<rparr>"

definition ex_toks :: "int list set" where
  "ex_toks = {[11, 12], [21, 22], [7]}"

lemma ex_no_collision: "no_collision (ex_cf mode) ex_toks"
  by (simp add: no_collision_def ex_toks_def ex_cf_def segment_hash_tensor_def int32_le_def)

lemma ex_toks_in: "toks_in ex_toks ex_world"
  by (simp add: toks_in_def ex_toks_def ex_world_def insert_segment_def match_segment_def tick_def Let_def)

lemma ex_std_ready: "std_ready (ex_cf ''addition'') ex_toks ex_missing"
  by (simp add: std_ready_def std_held_def ex_cf_def POLICIES_def ex_missing_def ex_req_def seg_slice_def ex_toks_def global_seg_def
      cacheable_len_def)

lemma ex_ready: "\<forall>seg\<in>set (pic_miss_segments ex_missing). reg_ready (ex_cf ''addition'') ex_toks ex_missing seg"
  by (rule std_held_register(1)) (use ex_std_ready in \<open>simp add: std_ready_def\<close>)

theorem registering_twice_double_books_witness:
  "\<exists>r1 w1 r2 w2. cache_unfinished_req (ex_cf ''addition'') ex_missing ex_world = (Inr r1, w1) \<and>
     cache_unfinished_req (ex_cf ''addition'') r1 w1 = (Inr r2, w2) \<and> count (kv_acct w2) 3 \<ge> 2"
proof -
  have "(2, 4) \<in> set (pic_miss_segments ex_missing)" "3 \<in> set (reg_kv (ex_cf ''addition'') ex_missing (2, 4))"
    by (simp_all add: ex_missing_def ex_req_def reg_kv_def skip_register_def ex_cf_def POLICIES_def global_seg_def
        cacheable_len_def unpack_public_def)
  then show ?thesis
    using registering_twice_double_books [OF ex_world_inv ex_toks_in ex_no_collision ex_ready] by blast
qed

theorem cache_unfinished_conserves_witness:
  "\<exists>r' w'. cache_unfinished_req (ex_cf ''addition'') ex_missing ex_world = (Inr r', w') \<and>
     kv_acct w' = kv_acct ex_world + {#3, 4#} \<and> mb_acct w' = mb_acct ex_world + {#2#}"
proof -
  have "(\<Sum>seg\<leftarrow>pic_miss_segments ex_missing. mset (reg_kv (ex_cf ''addition'') ex_missing seg)) = {#3, 4#}"
    "(\<Sum>seg\<leftarrow>pic_miss_segments ex_missing. reg_mb (ex_cf ''addition'') ex_missing seg) = {#2#}"
    by (simp_all add: ex_missing_def ex_req_def reg_kv_def reg_mb_def skip_register_def ex_cf_def POLICIES_def
        global_seg_def cacheable_len_def unpack_public_def)
  then show ?thesis
    using cache_unfinished_conserves [OF ex_world_inv ex_toks_in ex_no_collision ex_ready] by metis
qed

theorem cache_finished_conserves_witness:
  "\<exists>r' w'. cache_finished_req (ex_cf ''addition'') True ex_missing ex_world = (Inr r', w') \<and>
     kv_acct w' = kv_acct ex_world + {#3, 4, 5#} \<and> mb_acct w' = mb_acct ex_world + {#2, 3, 4#}"
proof -
  have row: "row_ok ex_missing ex_world" and sync: "mamba_synced ex_missing (w_pool ex_world)"
    by (simp_all add: row_ok_def ex_missing_def ex_req_def ex_world_def insert_segment_def match_segment_def tick_def Let_def
        hybrid_init_def req_pool_init_def req_pool.defs mamba_synced_def)
  have slots: "req_kv ex_missing + hit_priv (ex_cf ''addition'') ex_missing +
      mset (decode_slots (ex_cf ''addition'') ex_missing ex_world) = {#3, 4, 5#}"
    "req_mb ex_missing + req_mamba ex_missing = {#2, 3, 4#}"
    by (simp_all add: req_kv_def req_mb_def hit_priv_def decode_slots_def req_mamba_def any_last_seg_def ex_cf_def POLICIES_def
        ex_missing_def ex_req_def)
  have "mamba_pool_idx ex_missing \<noteq> None"
    by (simp add: ex_missing_def)
  then show ?thesis
    using cache_finished_conserves [OF ex_world_inv ex_toks_in ex_no_collision _ row, of "''addition''" True] ex_std_ready
      ready_held sync unfolding slots by fastforce
qed

theorem lock_protects_witness:
  "\<exists>n w1. inc_lock_ref (ex_missing\<lparr>pic_segment_entries := w_entries ex_world\<rparr>) ex_world = (n, w1) \<and> n = 1 \<and>
     dec_lock_ref (ex_missing\<lparr>pic_segment_entries := w_entries ex_world\<rparr>) w1 = (- n, ex_world)"
proof -
  have es: "w_entries ex_world = [(segment_hash_tensor (\<lambda>b. b) [11, 12], 0)]"
    by (simp add: ex_world_def insert_segment_def match_segment_def tick_def Let_def)
  show ?thesis
    using lock_protects [OF ex_world_inv [of "''addition''"], of "ex_missing\<lparr>pic_segment_entries := w_entries ex_world\<rparr>"]
    by (auto simp: es)
qed

end
