(* ===== verification/Cache_Alloc.thy ===== *)
theory Cache_Alloc
  imports Req_Pool
begin

text \<open>
  \<^verbatim>\<open>mem_cache/common.py\<close>: allocation of KV slots with eviction on demand, admission of request rows, and the size
  formulas for decoding. The code is written against the \<^verbatim>\<open>BasePrefixCache\<close> interface; here the operations it calls
  are the fields of a record, and what it relies on is the locale \<open>alloc_cache\<close>, interpreted by the segment cache in
  \<open>Pic_Alloc\<close>.
\<close>

section \<open>Operations of a prefix cache and its KV allocator\<close>

record 's cache_ops =
  co_is_chunk_cache :: bool
  co_supports_mamba :: bool
  co_is_swa_allocator :: bool
  co_available_size :: "'s \<Rightarrow> nat"
  co_full_available_size :: "'s \<Rightarrow> nat"
  co_swa_available_size :: "'s \<Rightarrow> nat"
  co_evict :: "nat \<Rightarrow> nat \<Rightarrow> nat \<Rightarrow> ('s, unit) pym"
  co_alloc :: "nat \<Rightarrow> 's \<Rightarrow> nat list option \<times> 's"
  co_backup_state :: "'s \<Rightarrow> nat list \<times> nat list"

text \<open>The arguments of \<open>co_evict\<close> are \<open>num_tokens\<close>, \<open>swa_num_tokens\<close> and \<open>mamba_num\<close> of \<^verbatim>\<open>EvictParams\<close>.\<close>

definition evict_from_tree_cache :: "'s cache_ops option \<Rightarrow> nat \<Rightarrow> ('s, unit) pym" where
  "evict_from_tree_cache tree_cache num_tokens =
     (case tree_cache of
        None \<Rightarrow> retM ()
      | Some c \<Rightarrow>
          if co_is_chunk_cache c then retM ()
          else if co_is_swa_allocator c
          then bindM (getsM (co_full_available_size c)) (\<lambda>full.
               bindM (getsM (co_swa_available_size c)) (\<lambda>swa.
               if full < num_tokens \<or> swa < num_tokens
               then co_evict c (num_tokens - full) (num_tokens - swa) 0
               else retM ()))
          else bindM (getsM (co_available_size c)) (\<lambda>avail.
               if avail < num_tokens then co_evict c num_tokens 0 0 else retM ()))"

definition alloc_token_slots ::
  "'s cache_ops \<Rightarrow> nat \<Rightarrow> bool \<Rightarrow> ('s, nat list \<times> (nat list \<times> nat list) option) pym" where
  "alloc_token_slots tree_cache num_tokens backup =
     bindM (evict_from_tree_cache (Some tree_cache) num_tokens) (\<lambda>_.
     bindM (getsM (\<lambda>s. if backup then Some (co_backup_state tree_cache s) else None)) (\<lambda>state.
     bindM (\<lambda>s. case co_alloc tree_cache num_tokens s of (r, s') \<Rightarrow> (Inr r, s')) (\<lambda>out_cache_loc.
     case out_cache_loc of
       None \<Rightarrow> raiseM RuntimeError
     | Some xs \<Rightarrow> retM (xs, state))))"

section \<open>Request rows\<close>

definition MAMBA_STATE_PER_REQ_PREFIX_CACHE :: nat where
  "MAMBA_STATE_PER_REQ_PREFIX_CACHE = 3"

definition MAMBA_STATE_PER_REQ_PREFIX_CACHE_LAZY :: nat where
  "MAMBA_STATE_PER_REQ_PREFIX_CACHE_LAZY = 2"

definition MAMBA_STATE_PER_REQ_NO_CACHE :: nat where
  "MAMBA_STATE_PER_REQ_NO_CACHE = 1"

text \<open>\<open>pool_of\<close> finds the hybrid pool in the state (\<open>None\<close> for a plain \<^verbatim>\<open>ReqToTokenPool\<close>) and \<open>pool_alloc\<close> is the pool's
  \<open>alloc\<close>.\<close>

definition alloc_req_slots ::
  "('s \<Rightarrow> hybrid_pool) option \<Rightarrow> ('q list \<Rightarrow> ('s, (nat list \<times> 'q list) option) pym) \<Rightarrow> 's cache_ops \<Rightarrow> 'q list \<Rightarrow>
     ('s, nat list \<times> 'q list) pym" where
  "alloc_req_slots pool_of pool_alloc tree_cache reqs =
     bindM (case pool_of of
              None \<Rightarrow> retM ()
            | Some hp \<Rightarrow>
                bindM (getsM hp) (\<lambda>p.
                let mamba_available = mamba_available_size (mamba_allocator p);
                    factor = (if co_supports_mamba tree_cache
                              then (if enable_mamba_extra_buffer_lazy p
                                    then MAMBA_STATE_PER_REQ_PREFIX_CACHE_LAZY
                                    else MAMBA_STATE_PER_REQ_PREFIX_CACHE)
                              else MAMBA_STATE_PER_REQ_NO_CACHE);
                    needed = length reqs * factor
                in if mamba_available < needed \<and> co_supports_mamba tree_cache
                   then co_evict tree_cache 0 0 (needed - mamba_available) else retM ())) (\<lambda>_.
     bindM (pool_alloc reqs) (\<lambda>res. case res of
       None \<Rightarrow> raiseM RuntimeError
     | Some (idxs, reqs') \<Rightarrow> retM (idxs, reqs')))"

section \<open>Sizes\<close>

definition page_align_floor :: "nat \<Rightarrow> nat \<Rightarrow> nat" where
  "page_align_floor len page_size = (len div page_size) * page_size"

definition ceil_div :: "nat \<Rightarrow> nat \<Rightarrow> nat" where
  "ceil_div x y = (x + y - 1) div y"

definition ceil_align :: "nat \<Rightarrow> nat \<Rightarrow> nat" where
  "ceil_align x y = ceil_div x y * y"

text \<open>\<^verbatim>\<open>SpeculativeAlgorithm\<close> (\<^verbatim>\<open>speculative/spec_info.py\<close>); a plugin is known by its name and by whether it counts as NGRAM.\<close>

datatype spec_algo = DFLASH | EAGLE | EAGLE3 | FROZEN_KV_MTP | STANDALONE | NGRAM | NONE | Custom string bool

definition has_draft_kv :: "spec_algo \<Rightarrow> bool" where
  "has_draft_kv a \<longleftrightarrow> \<not> (case a of NGRAM \<Rightarrow> True | Custom name is_ngram \<Rightarrow> is_ngram | _ \<Rightarrow> False)"

record server_args =
  sa_page_size :: nat
  speculative_algorithm :: "spec_algo option"
  speculative_num_steps :: "nat option"
  speculative_eagle_topk :: "nat option"
  max_speculative_num_draft_tokens :: "nat option"

text \<open>Python's \<open>x or 1\<close>: the default replaces both \<open>None\<close> and 0.\<close>

definition or_one :: "nat option \<Rightarrow> nat" where
  "or_one x = (case x of None \<Rightarrow> 1 | Some n \<Rightarrow> if n = 0 then 1 else n)"

text \<open>\<open>max\<close> of a number and \<open>None\<close> raises.\<close>

definition max_tokens :: "nat \<Rightarrow> nat option \<Rightarrow> nat result" where
  "max_tokens n spec_tokens = (case spec_tokens of None \<Rightarrow> Inl TypeError | Some t \<Rightarrow> Inr (max n t))"

definition get_alloc_len_per_decode :: "'a server_args_scheme \<Rightarrow> nat result" where
  "get_alloc_len_per_decode args =
     (case speculative_algorithm args of
        None \<Rightarrow> Inr 1
      | Some spec_algo \<Rightarrow>
          let spec_steps = or_one (speculative_num_steps args);
              spec_topk = or_one (speculative_eagle_topk args);
              spec_tokens = max_speculative_num_draft_tokens args;
              page_size = sa_page_size args
          in if page_size = 1 \<or> spec_topk = 1 \<or> \<not> has_draft_kv spec_algo
             then max_tokens (spec_steps * spec_topk) spec_tokens
             else let num_new_pages_per_topk = ((page_size - 1) + spec_steps + page_size - 1) div page_size
                  in max_tokens (num_new_pages_per_topk * page_size * spec_topk) spec_tokens)"

definition get_alloc_reserve_per_decode :: "'a server_args_scheme \<Rightarrow> nat result" where
  "get_alloc_reserve_per_decode args =
     (case get_alloc_len_per_decode args of Inl e \<Rightarrow> Inl e | Inr n \<Rightarrow> Inr (2 * n))"

definition get_req_to_token_extra_context_len :: "'a server_args_scheme \<Rightarrow> nat result" where
  "get_req_to_token_extra_context_len args =
     (let extra = 4 + (case max_speculative_num_draft_tokens args of None \<Rightarrow> 0 | Some t \<Rightarrow> t)
      in if speculative_algorithm args \<noteq> None \<and> sa_page_size args > 1 \<and> or_one (speculative_eagle_topk args) > 1
         then (case get_alloc_reserve_per_decode args of Inl e \<Rightarrow> Inl e | Inr n \<Rightarrow> Inr (max extra n))
         else Inr extra)"

section \<open>The contract of an evicting cache\<close>

text \<open>
  \<open>acct\<close> are the slots that are free or cached, \<open>evictable\<close> the number of slots an eviction can free. Evicting moves
  slots from the cache to the pool, at least as many as asked for if there are that many.
\<close>

locale alloc_cache =
  fixes c :: "'s cache_ops"
    and acct :: "'s \<Rightarrow> nat multiset"
    and evictable :: "'s \<Rightarrow> nat"
    and inv :: "'s \<Rightarrow> bool"
  assumes not_chunk: "\<not> co_is_chunk_cache c" and not_swa: "\<not> co_is_swa_allocator c"
    and evict_ok: "inv s \<Longrightarrow> \<exists>s'. co_evict c n k m s = (Inr (), s') \<and> inv s' \<and> acct s' = acct s \<and>
         co_available_size c s' + evictable s' = co_available_size c s + evictable s \<and>
         co_available_size c s + min n (evictable s) \<le> co_available_size c s'"
    and alloc_SomeD: "inv s \<Longrightarrow> co_alloc c n s = (Some xs, s') \<Longrightarrow>
         inv s' \<and> length xs = n \<and> acct s = mset xs + acct s' \<and> n \<le> co_available_size c s"
    and alloc_NoneD: "inv s \<Longrightarrow> co_alloc c n s = (None, s') \<Longrightarrow>
         inv s' \<and> acct s' = acct s \<and> co_available_size c s < n"
begin

lemma evict_from_tree_cache_ok:
  assumes "inv s"
  shows "\<exists>s'. evict_from_tree_cache (Some c) n s = (Inr (), s') \<and> inv s' \<and> acct s' = acct s \<and>
    co_available_size c s' + evictable s' = co_available_size c s + evictable s \<and>
    (n \<le> co_available_size c s + evictable s \<longrightarrow> n \<le> co_available_size c s')"
proof (cases "co_available_size c s < n")
  case True
  obtain s' where "co_evict c n 0 0 s = (Inr (), s')" "inv s'" "acct s' = acct s"
    "co_available_size c s' + evictable s' = co_available_size c s + evictable s"
    "co_available_size c s + min n (evictable s) \<le> co_available_size c s'"
    using evict_ok [OF assms] by blast
  then show ?thesis
    using True not_chunk not_swa by (auto simp: evict_from_tree_cache_def min_def split: if_splits)
next
  case False
  then show ?thesis
    using assms not_chunk not_swa by (simp add: evict_from_tree_cache_def)
qed

lemma alloc_token_slots_cases:
  assumes "inv s"
  shows "(n \<le> co_available_size c s + evictable s \<longrightarrow>
      (\<exists>xs st s'. alloc_token_slots c n b s = (Inr (xs, st), s') \<and> inv s' \<and> length xs = n \<and> acct s = mset xs + acct s')) \<and>
    (co_available_size c s + evictable s < n \<longrightarrow>
      (\<exists>s'. alloc_token_slots c n b s = (Inl RuntimeError, s') \<and> inv s' \<and> acct s' = acct s))"
proof -
  obtain s1 where s1: "evict_from_tree_cache (Some c) n s = (Inr (), s1)" "inv s1" "acct s1 = acct s"
    "co_available_size c s1 + evictable s1 = co_available_size c s + evictable s"
    "n \<le> co_available_size c s + evictable s \<longrightarrow> n \<le> co_available_size c s1"
    using evict_from_tree_cache_ok [OF assms] by blast
  obtain r s2 where s2: "co_alloc c n s1 = (r, s2)"
    by fastforce
  have run: "alloc_token_slots c n b s = (case r of None \<Rightarrow> (Inl RuntimeError, s2)
      | Some xs \<Rightarrow> (Inr (xs, if b then Some (co_backup_state c s1) else None), s2))"
    using s1(1) s2 by (simp add: alloc_token_slots_def bindM_app split: option.split)
  show ?thesis
  proof (cases r)
    case None
    then show ?thesis
      using alloc_NoneD [OF s1(2), of n s2] s1 s2 run by auto
  next
    case (Some xs)
    then show ?thesis
      using alloc_SomeD [OF s1(2), of n xs s2] s1 s2 run by auto
  qed
qed

end

section \<open>Properties\<close>

text \<open>The decode reservation of tree speculation on pages is large enough: every draft branch needs the pages
  that its share of the last partial page and its steps touch, and the per-decode length covers that for all
  branches; the row headroom in turn covers the doubled reservation.\<close>

lemma get_alloc_len_per_decode_covers:
  assumes "speculative_algorithm args = Some algo" "sa_page_size args > 1" "or_one (speculative_eagle_topk args) > 1"
    "has_draft_kv algo" "last_page_len < sa_page_size args" "max_speculative_num_draft_tokens args = Some t"
  shows "\<exists>n h. get_alloc_len_per_decode args = Inr n \<and> get_req_to_token_extra_context_len args = Inr h \<and>
    ceil_align (last_page_len + or_one (speculative_num_steps args)) (sa_page_size args) *
      or_one (speculative_eagle_topk args) \<le> n \<and> t \<le> n \<and> 2 * n \<le> h"
proof -
  let ?p = "sa_page_size args" and ?st = "or_one (speculative_num_steps args)"
    and ?k = "or_one (speculative_eagle_topk args)"
  define pages where "pages = ((?p - 1) + ?st + ?p - 1) div ?p"
  have "last_page_len + ?st + ?p - 1 \<le> (?p - 1) + ?st + ?p - 1"
    using assms(5) by simp
  then have "ceil_div (last_page_len + ?st) ?p \<le> pages"
    unfolding ceil_div_def pages_def by (rule div_le_mono)
  then have "ceil_align (last_page_len + ?st) ?p * ?k \<le> pages * ?p * ?k"
    by (simp add: ceil_align_def)
  moreover have "get_alloc_len_per_decode args = Inr (max (pages * ?p * ?k) t)"
    using assms by (simp add: get_alloc_len_per_decode_def Let_def max_tokens_def pages_def)
  moreover from this have "get_req_to_token_extra_context_len args = Inr (max (4 + t) (2 * max (pages * ?p * ?k) t))"
    using assms by (simp add: get_req_to_token_extra_context_len_def get_alloc_reserve_per_decode_def Let_def)
  ultimately show ?thesis
    by (auto simp: le_max_iff_disj)
qed

end
