(* ===== verification/Pic_Alloc.thy ===== *)
theory Pic_Alloc
  imports Pic_Lifecycle Cache_Alloc
begin

text \<open>
  \<^verbatim>\<open>pic/pic_alloc.py\<close>: allocation for the extend batch of a PIC engine. Every request gets a row, every missed segment
  fresh KV slots and a mamba slot; hits are mapped to the cached slots, or, in the rope modes, to fresh private slots.
  The segment cache is an interpretation of \<open>alloc_cache\<close>. Device copies of tensors are the tensors themselves; a
  segment \<open>(start, end)\<close> has \<open>start \<le> end\<close>.
\<close>

section \<open>The segment cache as an evicting cache\<close>

definition pic_ops :: "'w pic_world_scheme cache_ops" where
  "pic_ops = \<lparr>co_is_chunk_cache = False, co_supports_mamba = True, co_is_swa_allocator = False,
     co_available_size = (\<lambda>w. token_available_size (w_kv w)),
     co_full_available_size = (\<lambda>w. 0), co_swa_available_size = (\<lambda>w. 0),
     co_evict = (\<lambda>n swa m. bindM (evict (int n) (int m)) (\<lambda>_. retM ())),
     co_alloc = (\<lambda>n w. case token_alloc n (w_kv w) of (r, a) \<Rightarrow> (r, w\<lparr>w_kv := a\<rparr>)),
     co_backup_state = (\<lambda>w. backup_state (w_kv w))\<rparr>"

definition pic_alloc_req_slots ::
  "'r pic_req_scheme list \<Rightarrow> ('w pic_world_scheme, nat list \<times> 'r pic_req_scheme list) pym" where
  "pic_alloc_req_slots = alloc_req_slots (Some w_pool) (\<lambda>rs. on_pool (hybrid_alloc rs)) pic_ops"

definition pic_alloc_token_slots :: "nat \<Rightarrow> ('w pic_world_scheme, nat list) pym" where
  "pic_alloc_token_slots n = bindM (alloc_token_slots pic_ops n False) (\<lambda>(xs, st). retM xs)"

definition mamba_alloc_w :: "nat \<Rightarrow> 'w pic_world_scheme \<Rightarrow> int list option \<times> 'w pic_world_scheme" where
  "mamba_alloc_w n w = (case mamba_alloc_slots n (mamba_allocator (w_pool w)) of
     (r, m) \<Rightarrow> (r, w\<lparr>w_pool := (w_pool w)\<lparr>mamba_allocator := m\<rparr>\<rparr>))"

definition alloc_one_mamba :: "('w pic_world_scheme, int) pym" where
  "alloc_one_mamba =
     bindM (stateM (mamba_alloc_w 1)) (\<lambda>res. case res of
       Some xs \<Rightarrow> retM (hd xs)
     | None \<Rightarrow>
         bindM (evict 0 1) (\<lambda>(evicted_tokens, evicted_mamba).
         if evicted_mamba \<le> 0 then raiseM RuntimeError
         else bindM (stateM (mamba_alloc_w 1)) (\<lambda>res2. case res2 of
                Some xs \<Rightarrow> retM (hd xs)
              | None \<Rightarrow> raiseM RuntimeError)))"

definition write_slots :: "nat \<Rightarrow> segment \<Rightarrow> nat list \<Rightarrow> ('w pic_world_scheme, unit) pym" where
  "write_slots idx seg xs = on_pool (write_row idx (fst seg) (snd seg) xs)"

section \<open>Addition and transition modes\<close>

definition size_of :: "segment \<Rightarrow> nat" where
  "size_of seg = snd seg - fst seg"

fun write_hits :: "nat \<Rightarrow> 'r pic_req_scheme \<Rightarrow> (nat \<times> nat \<times> bytes) list \<Rightarrow> ('w pic_world_scheme, unit) pym" where
  "write_hits idx r [] = retM ()"
| "write_hits idx r ((s, e, h) # hits) =
     bindM (optM KeyError (map_of (pic_segment_entries r) h)) (\<lambda>i.
     bindM (getsM (\<lambda>w. full_kv_slots (w_heap w i))) (\<lambda>slots.
     bindM (write_slots idx (s, e) slots) (\<lambda>_.
     write_hits idx r hits)))"

fun std_miss_loop ::
  "pic_config \<Rightarrow> nat \<Rightarrow> segment option \<Rightarrow> nat list \<Rightarrow> segment list \<Rightarrow> 'r pic_req_scheme \<times> nat \<times> int \<Rightarrow>
     ('w pic_world_scheme, 'r pic_req_scheme \<times> nat \<times> int) pym" where
  "std_miss_loop cf idx last_seg out [] acc = retM acc"
| "std_miss_loop cf idx last_seg out (seg # segs) (r, cursor, total_mamba) =
     (let n = size_of seg;
          slot_chunk = take n (drop cursor out);
          cacheable_local = (\<not> (Some seg \<noteq> last_seg \<and> cf_min_tokens cf > 0 \<and> int n < cf_min_tokens cf))
      in bindM (if cacheable_local then bindM alloc_one_mamba (\<lambda>m. retM (Some m)) else retM None) (\<lambda>mamba_slot.
         let r' = r\<lparr>pic_miss_segment_slots := AList.update seg (StdSlots slot_chunk mamba_slot) (pic_miss_segment_slots r)\<rparr>
         in bindM (write_slots idx seg slot_chunk) (\<lambda>_.
            std_miss_loop cf idx last_seg out segs
              (r', cursor + n, total_mamba + (if mamba_slot \<noteq> None then 1 else 0)))))"

definition std_req_step ::
  "pic_config \<Rightarrow> nat list \<Rightarrow> 'r pic_req_scheme list \<times> nat \<times> int \<Rightarrow> nat \<times> 'r pic_req_scheme \<Rightarrow>
     ('w pic_world_scheme, 'r pic_req_scheme list \<times> nat \<times> int) pym" where
  "std_req_step cf out acc ir =
     (case acc of (done, cursor, total_mamba) \<Rightarrow> case ir of (idx, r) \<Rightarrow>
      let r0 = r\<lparr>pic_miss_segment_slots := []\<rparr>
      in bindM (write_hits idx r0 (pic_hit_segments r0)) (\<lambda>_.
         bindM (std_miss_loop cf idx (any_last_seg r0) out (pic_miss_segments r0) (r0, cursor, total_mamba)) (\<lambda>(r', c', t').
         retM (done @ [r'], c', t'))))"

definition miss_total :: "'r pic_req_scheme list \<Rightarrow> nat" where
  "miss_total reqs = (\<Sum>r\<leftarrow>reqs. \<Sum>seg\<leftarrow>pic_miss_segments r. size_of seg)"

definition pic_alloc_standard ::
  "pic_config \<Rightarrow> 'r pic_req_scheme list \<Rightarrow>
     ('w pic_world_scheme, nat list \<times> nat list \<times> 'r pic_req_scheme list) pym" where
  "pic_alloc_standard cf reqs =
     bindM (pic_alloc_req_slots reqs) (\<lambda>(req_pool_indices, reqs1).
     let total_miss = miss_total reqs1
     in bindM (pic_alloc_token_slots total_miss) (\<lambda>out_cache_loc.
        bindM (foldM (std_req_step cf out_cache_loc) ([], 0, 0) (zip req_pool_indices reqs1)) (\<lambda>(reqs2, cursor, total_mamba).
        bindM (modifyM (add_inflight (int total_miss) total_mamba)) (\<lambda>_.
        retM (out_cache_loc, req_pool_indices, reqs2)))))"

section \<open>Rope modes\<close>

text \<open>The slot of each absolute position, as one-element tensors.\<close>

type_synonym slot_map = "(nat, nat list) dict"

definition put_positions :: "(nat \<times> nat list) list \<Rightarrow> slot_map \<Rightarrow> slot_map" where
  "put_positions ps d = fold (\<lambda>(p, x). AList.update p x) ps d"

fun rope_hit_loop ::
  "pic_config \<Rightarrow> nat \<Rightarrow> nat list \<Rightarrow> (nat \<times> nat \<times> bytes) list \<Rightarrow> 'r pic_req_scheme \<times> nat \<times> slot_map \<Rightarrow>
     ('w pic_world_scheme, 'r pic_req_scheme \<times> nat \<times> slot_map) pym" where
  "rope_hit_loop cf idx hit_pool [] acc = retM acc"
| "rope_hit_loop cf idx hit_pool ((s, e, h) # hits) (r, hit_cursor, slot_at_pos) =
     bindM (optM KeyError (map_of (pic_segment_entries r) h)) (\<lambda>i.
     bindM (getsM (\<lambda>w. full_kv_slots (w_heap w i))) (\<lambda>entry_slots.
     let n = size_of (s, e);
         private_slots = take n (drop hit_cursor hit_pool);
         r' = r\<lparr>pic_rope_hit_private_slots :=
                  AList.update (s, e) (private_slots, entry_slots) (pic_rope_hit_private_slots r)\<rparr>;
         slot_at_pos' = (if recompute (cf_policy cf)
           then (case map_of (pic_hit_seam_positions r) (s, e) of
                   None \<Rightarrow> slot_at_pos
                 | Some seam \<Rightarrow> put_positions (map (\<lambda>ap. (ap, take 1 (drop (ap - s) private_slots))) seam) slot_at_pos)
           else slot_at_pos)
     in bindM (write_slots idx (s, e) private_slots) (\<lambda>_.
        rope_hit_loop cf idx hit_pool hits (r', hit_cursor + n, slot_at_pos'))))"

fun rope_miss_loop ::
  "pic_config \<Rightarrow> nat \<Rightarrow> segment option \<Rightarrow> nat list \<Rightarrow> nat list \<Rightarrow> segment list \<Rightarrow>
     'r pic_req_scheme \<times> nat \<times> nat \<times> slot_map \<times> int \<Rightarrow>
     ('w pic_world_scheme, 'r pic_req_scheme \<times> nat \<times> nat \<times> slot_map \<times> int) pym" where
  "rope_miss_loop cf idx last_seg miss_pool pub_pool [] acc = retM acc"
| "rope_miss_loop cf idx last_seg miss_pool pub_pool (seg # segs) (r, miss_cursor, pub_cursor, slot_at_pos, total_mamba) =
     (let n = size_of seg;
          private_slots = take n (drop miss_cursor miss_pool);
          public_slots = (if Some seg \<noteq> last_seg then Some (take n (drop pub_cursor pub_pool)) else None);
          pub_cursor' = (if Some seg \<noteq> last_seg then pub_cursor + n else pub_cursor)
      in bindM alloc_one_mamba (\<lambda>mamba_slot.
         let r' = r\<lparr>pic_miss_segment_slots := AList.update seg (RopeSlots private_slots public_slots (Some mamba_slot))
                      (pic_miss_segment_slots r)\<rparr>;
             slot_at_pos' = (if recompute (cf_policy cf)
               then put_positions (map (\<lambda>ofs. (fst seg + ofs, take 1 (drop ofs private_slots))) [0..<n]) slot_at_pos
               else slot_at_pos)
         in bindM (write_slots idx seg private_slots) (\<lambda>_.
            rope_miss_loop cf idx last_seg miss_pool pub_pool segs
              (r', miss_cursor + n, pub_cursor', slot_at_pos', total_mamba + 1))))"

record rope_cursors =
  rc_miss :: nat
  rc_pub :: nat
  rc_hit :: nat
  rc_mamba :: int

definition rope_req_step ::
  "pic_config \<Rightarrow> nat list \<Rightarrow> nat list \<Rightarrow> nat list \<Rightarrow> ('r pic_req_scheme \<times> slot_map) list \<times> rope_cursors \<Rightarrow>
     nat \<times> 'r pic_req_scheme \<Rightarrow> ('w pic_world_scheme, ('r pic_req_scheme \<times> slot_map) list \<times> rope_cursors) pym" where
  "rope_req_step cf miss_pool pub_pool hit_pool acc ir =
     (case acc of (done, rc) \<Rightarrow> case ir of (idx, r) \<Rightarrow>
      let r0 = r\<lparr>pic_miss_segment_slots := [], pic_rope_hit_private_slots := []\<rparr>
      in bindM (rope_hit_loop cf idx hit_pool (pic_hit_segments r0) (r0, rc_hit rc, [])) (\<lambda>(r1, hit_cursor, slot_at_pos).
         bindM (rope_miss_loop cf idx (global_seg r0) miss_pool pub_pool (pic_miss_segments r1)
                  (r1, rc_miss rc, rc_pub rc, slot_at_pos, rc_mamba rc)) (\<lambda>(r2, mc, pc, slot_at_pos', tm).
         retM (done @ [(r2, slot_at_pos')], \<lparr>rc_miss = mc, rc_pub = pc, rc_hit = hit_cursor, rc_mamba = tm\<rparr>))))"

definition local_miss_total :: "'r pic_req_scheme list \<Rightarrow> nat" where
  "local_miss_total reqs =
     (\<Sum>r\<leftarrow>reqs. \<Sum>seg\<leftarrow>filter (\<lambda>seg. Some seg \<noteq> global_seg r) (pic_miss_segments r). size_of seg)"

definition hit_total :: "'r pic_req_scheme list \<Rightarrow> nat" where
  "hit_total reqs = (\<Sum>r\<leftarrow>reqs. \<Sum>(s, e, h)\<leftarrow>pic_hit_segments r. size_of (s, e))"

text \<open>Recompute mode: one slot per extend position, in position order.\<close>

definition req_out_chunk :: "'r pic_req_scheme \<times> slot_map \<Rightarrow> nat list result" where
  "req_out_chunk rs =
     (case pic_miss_token_positions (fst rs) of
        None \<Rightarrow> Inr []
      | Some ps \<Rightarrow>
          (case map_result (\<lambda>p. case map_of (snd rs) p of None \<Rightarrow> Inl KeyError | Some x \<Rightarrow> Inr x) ps of
             Inl e \<Rightarrow> Inl e
           | Inr slots \<Rightarrow> Inr (concat slots)))"

definition pic_alloc_transition_rope ::
  "pic_config \<Rightarrow> 'r pic_req_scheme list \<Rightarrow>
     ('w pic_world_scheme, nat list \<times> nat list \<times> 'r pic_req_scheme list) pym" where
  "pic_alloc_transition_rope cf reqs =
     bindM (pic_alloc_req_slots reqs) (\<lambda>(req_pool_indices, reqs1).
     let total_miss_priv = miss_total reqs1;
         total_local_miss_pub = local_miss_total reqs1;
         total_alloc = total_miss_priv + total_local_miss_pub + hit_total reqs1
     in bindM (pic_alloc_token_slots total_alloc) (\<lambda>all_slots.
        let miss_priv_pool = take total_miss_priv all_slots;
            pub_pool = take total_local_miss_pub (drop total_miss_priv all_slots);
            hit_priv_pool = drop (total_miss_priv + total_local_miss_pub) all_slots
        in bindM (foldM (rope_req_step cf miss_priv_pool pub_pool hit_priv_pool)
                    ([], \<lparr>rc_miss = 0, rc_pub = 0, rc_hit = 0, rc_mamba = 0\<rparr>) (zip req_pool_indices reqs1)) (\<lambda>(rms, rc).
           bindM (if recompute (cf_policy cf)
                  then bindM (liftM (map_result req_out_chunk rms)) (\<lambda>chunks. retM (concat chunks))
                  else retM miss_priv_pool) (\<lambda>out_cache_loc.
           bindM (modifyM (add_inflight (int total_alloc) (rc_mamba rc))) (\<lambda>_.
           retM (out_cache_loc, req_pool_indices, map fst rms))))))"

definition pic_alloc_for_extend ::
  "pic_config \<Rightarrow> 'r pic_req_scheme list \<Rightarrow>
     ('w pic_world_scheme, nat list \<times> nat list \<times> 'r pic_req_scheme list) pym" where
  "pic_alloc_for_extend cf reqs =
     (if rope (cf_policy cf) then pic_alloc_transition_rope cf reqs else pic_alloc_standard cf reqs)"

section \<open>Eviction turns evictable slots into available ones\<close>

lemma token_free_flag [simp]: "is_not_in_free_group (token_free xs a) = is_not_in_free_group a"
  by (simp add: token_free_def)

lemma evict_loop_flag:
  "evict_loop nt nm cands tm w = (res, w') \<Longrightarrow> is_not_in_free_group (w_kv w') = is_not_in_free_group (w_kv w)"
proof (induction nt nm cands tm arbitrary: w rule: evict_loop.induct)
  case (2 nt nm i cands t m)
  show ?case
    using "2.prems" "2.IH" by (auto simp: kv_free_def mb_free_def bindM_app split: if_splits)
qed simp

lemma evict_flag: "evict nt nm w = (res, w') \<Longrightarrow> is_not_in_free_group (w_kv w') = is_not_in_free_group (w_kv w)"
  by (auto simp: evict_def split: if_splits dest: evict_loop_flag)

lemma sum_list_sort_key: "(\<Sum>x\<leftarrow>sort_key k xs. f x) = (\<Sum>x\<leftarrow>xs. (f x :: nat))"
proof -
  have "(\<Sum>x\<leftarrow>sort_key k xs. f x) = (\<Sum>x\<in>#mset (sort_key k xs). f x)"
    by (simp only: mset_map [symmetric] sum_mset_sum_list)
  also have "\<dots> = (\<Sum>x\<leftarrow>xs. f x)"
    by (simp only: mset_sort mset_map [symmetric] sum_mset_sum_list)
  finally show ?thesis .
qed

lemma evictable_size_candidates:
  "evictable_size w = (\<Sum>i\<leftarrow>evict_candidates w. length (full_kv_slots (w_heap w i)))"
  unfolding evictable_size_def evict_candidates_def sum_list_sort_key entry_values_def
  by (simp add: filter_map comp_def)

lemma evict_sizes:
  assumes inv: "pic_inv cf w" and grp: "is_not_in_free_group (w_kv w)"
  shows "\<exists>t m w'. evict nt nm w = (Inr (t, m), w') \<and> pic_inv cf w' \<and> is_not_in_free_group (w_kv w') \<and>
    kv_acct w' = kv_acct w \<and> mb_acct w' = mb_acct w \<and> cache_frame w w' \<and>
    token_available_size (w_kv w') + evictable_size w' = token_available_size (w_kv w) + evictable_size w \<and>
    int (token_available_size (w_kv w')) = int (token_available_size (w_kv w)) + t \<and>
    (t \<ge> nt \<and> m \<ge> nm \<or> evictable_size w' = 0 \<and> evict_candidates w' = [])"
proof -
  obtain evd rest w' where ev: "evict_candidates w = evd @ rest"
    "evict nt nm w = (Inr ((\<Sum>i\<leftarrow>evd. int (length (full_kv_slots (w_heap w i)))), int (length evd)), w')"
    "w_entries w' = filter (\<lambda>(h, j). j \<notin> set evd) (w_entries w)" "cache_frame w w'"
    "kv_acct w' = kv_acct w" "mb_acct w' = mb_acct w" "pic_inv cf w'"
    "rest \<noteq> [] \<longrightarrow> (\<Sum>i\<leftarrow>evd. int (length (full_kv_slots (w_heap w i)))) \<ge> nt \<and> int (length evd) \<ge> nm"
    using evict_spec [OF inv, of nt nm] by blast
  let ?f = "\<lambda>i. length (full_kv_slots (w_heap w i))"
  have heap: "w_heap w' = w_heap w"
    using cache_frame_fields(1) [OF ev(4)] .
  have grp': "is_not_in_free_group (w_kv w')"
    using evict_flag [OF ev(2)] grp by simp
  have "evict_candidates w' = rest"
  proof -
    have "map snd (w_entries w') = filter (\<lambda>i. i \<notin> set evd) (map snd (w_entries w))"
      by (simp add: ev(3) filter_map comp_def case_prod_unfold)
    then have "evict_candidates w' = filter (\<lambda>i. i \<notin> set evd) (evict_candidates w)"
      by (simp add: evict_candidates_def heap filter_sort conj_commute)
    also have "\<dots> = rest"
      using evict_candidates_props(1) [OF inv] by (auto simp: ev(1) filter_id_conv)
    finally show ?thesis .
  qed
  then have evictable: "evictable_size w' + (\<Sum>i\<leftarrow>evd. ?f i) = evictable_size w"
    by (simp add: evictable_size_candidates ev(1) heap)
  have protected: "protected_size w' = protected_size w"
  proof -
    have "set evd \<subseteq> {i. lock_ref (w_heap w i) = 0}"
      using evict_candidates_props(2) [OF inv] by (auto simp: ev(1))
    then have "filter (\<lambda>e. lock_ref e > 0) (entry_values w') = filter (\<lambda>e. lock_ref e > 0) (entry_values w)"
      by (auto simp: entry_values_def ev(3) heap filter_map comp_def intro!: arg_cong [where f = "map _"] filter_cong)
    then show ?thesis
      by (simp add: protected_size_def)
  qed
  have owned: "size (token_owned a) = token_available_size a" if "is_not_in_free_group a" for a :: kv_alloc
    using that by (simp add: token_owned_def token_available_size_def)
  have "total_size w' + token_available_size (w_kv w') = total_size w + token_available_size (w_kv w)"
    using arg_cong [OF ev(5), of size] owned [OF grp] owned [OF grp']
    by (simp add: kv_acct_def total_size_def all_values_flatten_def length_concat comp_def)
  moreover have "total_size w' = evictable_size w' + protected_size w'" "total_size w = evictable_size w + protected_size w"
    using size_split [OF inv] size_split [OF ev(7)] by simp_all
  ultimately have avail: "token_available_size (w_kv w') = token_available_size (w_kv w) + (\<Sum>i\<leftarrow>evd. ?f i)"
    using evictable protected by linarith
  have t: "(\<Sum>i\<leftarrow>evd. int (?f i)) = int (\<Sum>i\<leftarrow>evd. ?f i)"
    by (induction evd) auto
  have "rest = [] \<Longrightarrow> evictable_size w' = 0"
    using \<open>evict_candidates w' = rest\<close> by (simp add: evictable_size_candidates)
  then show ?thesis
    using ev(2,4-8) grp' avail evictable t \<open>evict_candidates w' = rest\<close> by (cases "rest = []") auto
qed

interpretation pc: alloc_cache pic_ops kv_acct evictable_size
    "\<lambda>w. pic_inv cf w \<and> is_not_in_free_group (w_kv w)" for cf
proof
  fix s :: "'w pic_world_scheme" and n k m :: nat
  assume "pic_inv cf s \<and> is_not_in_free_group (w_kv s)"
  then obtain t mm s' where "evict (int n) (int m) s = (Inr (t, mm), s')" "pic_inv cf s'" "is_not_in_free_group (w_kv s')"
    "kv_acct s' = kv_acct s"
    "token_available_size (w_kv s') + evictable_size s' = token_available_size (w_kv s) + evictable_size s"
    "int (token_available_size (w_kv s')) = int (token_available_size (w_kv s)) + t"
    "t \<ge> int n \<and> mm \<ge> int m \<or> evictable_size s' = 0 \<and> evict_candidates s' = []"
    using evict_sizes [of cf s "int n" "int m"] by blast
  then show "\<exists>s'. co_evict pic_ops n k m s = (Inr (), s') \<and> (pic_inv cf s' \<and> is_not_in_free_group (w_kv s')) \<and>
      kv_acct s' = kv_acct s \<and>
      co_available_size pic_ops s' + evictable_size s' = co_available_size pic_ops s + evictable_size s \<and>
      co_available_size pic_ops s + min n (evictable_size s) \<le> co_available_size pic_ops s'"
    by (auto simp: pic_ops_def bindM_app)
next
  fix s s' :: "'w pic_world_scheme" and n xs
  assume inv: "pic_inv cf s \<and> is_not_in_free_group (w_kv s)" and al: "co_alloc pic_ops n s = (Some xs, s')"
  then obtain a where a: "token_alloc n (w_kv s) = (Some xs, a)" "s' = s\<lparr>w_kv := a\<rparr>"
    by (auto simp: pic_ops_def split: prod.splits)
  have post: "token_invar a \<and> length xs = n \<and> token_owned (w_kv s) = mset xs + token_owned a"
    using tk.alloc_SomeD [OF _ a(1)] pic_invD(3) inv by blast
  have flag: "is_not_in_free_group a" "n \<le> token_available_size (w_kv s)"
    using a(1) inv merge_and_sort_owned(6) [of "w_kv s"]
    by (auto simp: token_alloc_def Let_def token_available_size_def split: if_splits)
  then show "(pic_inv cf s' \<and> is_not_in_free_group (w_kv s')) \<and> length xs = n \<and> kv_acct s = mset xs + kv_acct s' \<and>
      n \<le> co_available_size pic_ops s"
    using inv post a(2) by (auto simp: pic_inv_def entry_ok_def kv_acct_def all_values_flatten_def entry_values_def pic_ops_def)
next
  fix s s' :: "'w pic_world_scheme" and n
  assume inv: "pic_inv cf s \<and> is_not_in_free_group (w_kv s)" and al: "co_alloc pic_ops n s = (None, s')"
  then obtain a where a: "token_alloc n (w_kv s) = (None, a)" "s' = s\<lparr>w_kv := a\<rparr>"
    by (auto simp: pic_ops_def split: prod.splits)
  have "token_invar a \<and> token_owned a = token_owned (w_kv s) \<and> token_available_size (w_kv s) < n"
    using tk.alloc_NoneD [OF _ a(1)] pic_invD(3) inv by blast
  moreover have "is_not_in_free_group a"
    using a(1) inv by (auto simp: token_alloc_def Let_def split: if_splits)
  ultimately show "(pic_inv cf s' \<and> is_not_in_free_group (w_kv s')) \<and> kv_acct s' = kv_acct s \<and> co_available_size pic_ops s < n"
    using inv a(2) by (auto simp: pic_inv_def entry_ok_def kv_acct_def all_values_flatten_def entry_values_def pic_ops_def)
qed (simp_all add: pic_ops_def)

text \<open>C14. An allocation of \<open>n\<close> KV slots from the segment cache succeeds exactly when the free and the evictable slots
  together suffice; it then returns \<open>n\<close> slots that leave the account one for one. When they do not suffice it raises
  and no slot is lost, although segments may have been evicted.\<close>

theorem pic_alloc_token_slots_complete:
  assumes "pic_inv cf w" "is_not_in_free_group (w_kv w)"
  shows "(n \<le> token_available_size (w_kv w) + evictable_size w \<longrightarrow>
      (\<exists>xs w'. pic_alloc_token_slots n w = (Inr xs, w') \<and> pic_inv cf w' \<and> length xs = n \<and>
         kv_acct w = mset xs + kv_acct w')) \<and>
    (token_available_size (w_kv w) + evictable_size w < n \<longrightarrow>
      (\<exists>w'. pic_alloc_token_slots n w = (Inl RuntimeError, w') \<and> pic_inv cf w' \<and> kv_acct w' = kv_acct w))"
proof -
  have avail: "co_available_size pic_ops w = token_available_size (w_kv w)"
    by (simp add: pic_ops_def)
  show ?thesis
    using pc.alloc_token_slots_cases [of cf w n False] assms unfolding avail
    by (fastforce simp: pic_alloc_token_slots_def bindM_app)
qed

theorem pic_alloc_token_slots_complete_witness:
  "pic_inv (ex_cf ''addition'') ex_world \<and> (\<exists>xs w'. pic_alloc_token_slots 8 ex_world = (Inr xs, w') \<and> length xs = 8)"
proof -
  have "is_not_in_free_group (w_kv ex_world)" "8 \<le> token_available_size (w_kv ex_world) + evictable_size ex_world"
    by (simp_all add: ex_world_def insert_segment_def match_segment_def tick_def Let_def token_init_def token_clear_def
        token_available_size_def evictable_size_def entry_values_def)
  then show ?thesis
    using pic_alloc_token_slots_complete [OF ex_world_inv [of "''addition''"], of 8] ex_world_inv by blast
qed

section \<open>What an allocation takes\<close>

text \<open>
  \<open>takes cf w K M w'\<close>: from \<open>w\<close> to \<open>w'\<close> the pools and the cache gave away the KV slots \<open>K\<close> and the mamba slots \<open>M\<close>;
  segments may have been evicted, entries themselves are unchanged.
\<close>

definition takes :: "pic_config \<Rightarrow> 'w pic_world_scheme \<Rightarrow> nat multiset \<Rightarrow> int multiset \<Rightarrow> 'w pic_world_scheme \<Rightarrow> bool" where
  "takes cf w K M w' \<longleftrightarrow> pic_inv cf w' \<and> is_not_in_free_group (w_kv w') \<and>
     kv_acct w = kv_acct w' + K \<and> mb_acct w = mb_acct w' + M \<and> w_heap w' = w_heap w \<and>
     set (w_entries w') \<subseteq> set (w_entries w) \<and>
     w_inflight_full_tokens w' = w_inflight_full_tokens w \<and> w_inflight_mamba_slots w' = w_inflight_mamba_slots w \<and>
     length (req_to_token (w_pool w')) = length (req_to_token (w_pool w)) \<and>
     enable_mamba_extra_buffer (w_pool w') = enable_mamba_extra_buffer (w_pool w)"

lemma takes_refl: "pic_inv cf w \<Longrightarrow> is_not_in_free_group (w_kv w) \<Longrightarrow> takes cf w {#} {#} w"
  by (simp add: takes_def)

lemma takes_trans: "takes cf w K M w1 \<Longrightarrow> takes cf w1 K' M' w2 \<Longrightarrow> takes cf w (K + K') (M + M') w2"
  by (auto simp: takes_def union_ac)

lemma takes_inv: "takes cf w K M w' \<Longrightarrow> pic_inv cf w'" "takes cf w K M w' \<Longrightarrow> is_not_in_free_group (w_kv w')"
  by (simp_all add: takes_def)

lemma takes_toks: "takes cf w K M w' \<Longrightarrow> toks_in S w \<Longrightarrow> toks_in S w'"
  by (auto simp: takes_def toks_in_def)

lemma evict_takes:
  assumes "pic_inv cf w" "is_not_in_free_group (w_kv w)"
  shows "\<exists>t m w'. evict nt nm w = (Inr (t, m), w') \<and> takes cf w {#} {#} w' \<and> mamba_only (w_pool w) (w_pool w')"
proof -
  obtain t m w' where ev: "evict nt nm w = (Inr (t, m), w')" "pic_inv cf w'" "is_not_in_free_group (w_kv w')"
    "kv_acct w' = kv_acct w" "mb_acct w' = mb_acct w" "cache_frame w w'"
    using evict_sizes [OF assms] by blast
  have "set (w_entries w') \<subseteq> set (w_entries w)"
    using evict_spec [OF assms(1), of nt nm] ev(1) by auto
  moreover have pool: "mamba_only (w_pool w) (w_pool w')"
    using cache_frame_fields [OF ev(6)] by simp
  ultimately show ?thesis
    using ev cache_frame_fields [OF ev(6)] mamba_only_fields(4) [OF pool] by (auto simp: takes_def)
qed

lemma pic_alloc_token_slots_takes:
  assumes run: "pic_alloc_token_slots n w = (Inr xs, w')" and inv: "pic_inv cf w" "is_not_in_free_group (w_kv w)"
  shows "takes cf w (mset xs) {#} w' \<and> length xs = n \<and> mamba_only (w_pool w) (w_pool w')"
proof -
  obtain w1 where w1: "evict_from_tree_cache (Some pic_ops) n w = (Inr (), w1)" "takes cf w {#} {#} w1"
    "mamba_only (w_pool w) (w_pool w1)"
  proof (cases "token_available_size (w_kv w) < n")
    case True
    then show ?thesis
      using that evict_takes [OF inv, of "int n" 0] by (auto simp: evict_from_tree_cache_def pic_ops_def bindM_app)
  next
    case False
    then show ?thesis
      using that [of w] takes_refl [OF inv] by (auto simp: evict_from_tree_cache_def pic_ops_def)
  qed
  obtain a where a: "token_alloc n (w_kv w1) = (Some xs, a)" "w' = w1\<lparr>w_kv := a\<rparr>"
    using run w1(1)
    by (auto simp: pic_alloc_token_slots_def alloc_token_slots_def pic_ops_def bindM_app
        split: prod.splits sum.splits option.splits)
  have al: "co_alloc pic_ops n w1 = (Some xs, w')"
    using a by (simp add: pic_ops_def)
  have post: "pic_inv cf w' \<and> is_not_in_free_group (w_kv w')" "length xs = n" "kv_acct w1 = mset xs + kv_acct w'"
    using pc.alloc_SomeD [OF _ al, of cf] takes_inv [OF w1(2)] by auto
  have "takes cf w1 (mset xs) {#} w'"
    using post a(2) by (auto simp: takes_def mb_acct_def all_mamba_values_flatten_def entry_values_def union_ac)
  then show ?thesis
    using takes_trans [OF w1(2)] post(2) w1(3) a(2) by simp
qed

lemma mamba_alloc_takes:
  assumes run: "mamba_alloc_w 1 w = (Some xs, w')" and inv: "pic_inv cf w" "is_not_in_free_group (w_kv w)"
  shows "takes cf w {#} {#hd xs#} w' \<and> mamba_only (w_pool w) (w_pool w')"
proof -
  obtain m where m: "mamba_alloc_slots 1 (mamba_allocator (w_pool w)) = (Some xs, m)"
    "w' = w\<lparr>w_pool := (w_pool w)\<lparr>mamba_allocator := m\<rparr>\<rparr>"
    using run by (auto simp: mamba_alloc_w_def split: prod.splits)
  have "length xs = 1" "mamba_owned (mamba_allocator (w_pool w)) = mset xs + mamba_owned m"
    using mb.alloc_SomeD [OF _ m(1)] by simp_all
  moreover from this have "mset xs = {#hd xs#}"
    by (cases xs) auto
  ultimately show ?thesis
    using inv m(2) by (auto simp: takes_def pic_inv_def entry_ok_def kv_acct_def mb_acct_def all_values_flatten_def
        all_mamba_values_flatten_def entry_values_def union_ac)
qed

lemma mamba_alloc_None_takes:
  assumes run: "mamba_alloc_w 1 w = (None, w')" and inv: "pic_inv cf w" "is_not_in_free_group (w_kv w)"
  shows "takes cf w {#} {#} w' \<and> mamba_only (w_pool w) (w_pool w')"
proof -
  obtain m where m: "mamba_alloc_slots 1 (mamba_allocator (w_pool w)) = (None, m)"
    "w' = w\<lparr>w_pool := (w_pool w)\<lparr>mamba_allocator := m\<rparr>\<rparr>"
    using run by (auto simp: mamba_alloc_w_def split: prod.splits)
  have "mamba_owned m = mamba_owned (mamba_allocator (w_pool w))"
    using mb.alloc_NoneD [OF _ m(1)] by simp
  then show ?thesis
    using inv m(2) by (auto simp: takes_def pic_inv_def entry_ok_def kv_acct_def mb_acct_def all_values_flatten_def
        all_mamba_values_flatten_def entry_values_def)
qed

lemma alloc_one_mamba_takes:
  assumes run: "alloc_one_mamba w = (Inr m, w')" and inv: "pic_inv cf w" "is_not_in_free_group (w_kv w)"
  shows "takes cf w {#} {#m#} w' \<and> mamba_only (w_pool w) (w_pool w')"
proof -
  obtain res w1 where r1: "mamba_alloc_w 1 w = (res, w1)"
    by fastforce
  show ?thesis
  proof (cases res)
    case (Some xs)
    then show ?thesis
      using run r1 mamba_alloc_takes [of w xs w1, OF _ inv] by (simp add: alloc_one_mamba_def stateM_def bindM_app)
  next
    case None
    have t1: "takes cf w {#} {#} w1" "mamba_only (w_pool w) (w_pool w1)"
      using mamba_alloc_None_takes [of w w1, OF _ inv] r1 None by simp_all
    obtain t k w2 where ev: "evict 0 1 w1 = (Inr (t, k), w2)" "takes cf w1 {#} {#} w2" "mamba_only (w_pool w1) (w_pool w2)"
      using evict_takes [OF takes_inv [OF t1(1)]] by blast
    obtain xs where xs: "mamba_alloc_w 1 w2 = (Some xs, w')" "m = hd xs"
      using run r1 None ev(1)
      by (auto simp: alloc_one_mamba_def stateM_def bindM_app split: if_splits prod.splits option.splits)
    have "takes cf w2 {#} {#m#} w'" "mamba_only (w_pool w2) (w_pool w')"
      using mamba_alloc_takes [OF xs(1) takes_inv [OF ev(2)]] xs(2) by simp_all
    then show ?thesis
      using takes_trans [OF takes_trans [OF t1(1) ev(2)]] mamba_only_trans [OF mamba_only_trans [OF t1(2) ev(3)]] by simp
  qed
qed

lemma write_slots_takes:
  assumes run: "write_slots idx seg xs w = (Inr (), w')" and inv: "pic_inv cf w" "is_not_in_free_group (w_kv w)"
  shows "takes cf w {#} {#} w'"
proof -
  obtain rows where "w' = w\<lparr>w_pool := (w_pool w)\<lparr>req_to_token := rows\<rparr>\<rparr>" "length rows = length (req_to_token (w_pool w))"
    using run by (auto simp: write_slots_def on_pool_def write_row_def split: prod.splits if_splits sum.splits)
  then show ?thesis
    using inv by (auto simp: takes_def pic_inv_def entry_ok_def kv_acct_def mb_acct_def all_values_flatten_def
        all_mamba_values_flatten_def entry_values_def)
qed

lemma pool_update_takes:
  assumes inv: "pic_inv cf w" "is_not_in_free_group (w_kv w)" and "pool_mamba (w_pool w) = pool_mamba p + M"
    "length (req_to_token p) = length (req_to_token (w_pool w))" "enable_mamba_extra_buffer p = enable_mamba_extra_buffer (w_pool w)"
  shows "takes cf w {#} M (w\<lparr>w_pool := p\<rparr>)"
  using assms by (auto simp: takes_def pic_inv_def entry_ok_def kv_acct_def mb_acct_def all_values_flatten_def
      all_mamba_values_flatten_def entry_values_def union_ac)

lemma co_evict_takes:
  assumes "pic_inv cf w" "is_not_in_free_group (w_kv w)"
  shows "\<exists>w'. co_evict pic_ops a b c w = (Inr (), w') \<and> takes cf w {#} {#} w' \<and> mamba_only (w_pool w) (w_pool w')"
  using evict_takes [OF assms, of "int a" "int c"] by (auto simp: pic_ops_def bindM_app)

text \<open>Admission: the requests gain a row and a mamba state each, and nothing else of them changes.\<close>

definition admitted :: "'w pic_world_scheme \<Rightarrow> nat list \<Rightarrow> 'r req_scheme list \<Rightarrow> 'r req_scheme list \<Rightarrow> bool" where
  "admitted w idxs reqs reqs' \<longleftrightarrow> map kv_committed_len reqs' = map kv_committed_len reqs \<and>
     (\<not> enable_mamba_extra_buffer (w_pool w) \<longrightarrow>
        map mamba_ping_pong_track_buffer reqs' = map mamba_ping_pong_track_buffer reqs) \<and>
     (\<forall>i\<in>set idxs. i \<in> set (rp_free_slots (w_pool w)) \<or> (\<exists>r\<in>set reqs. req_pool_idx r = Some i))"

lemma pic_alloc_req_slots_takes:
  assumes run: "pic_alloc_req_slots reqs w = (Inr (idxs, reqs'), w')"
    and inv: "pic_inv cf w" "is_not_in_free_group (w_kv w)" and sent: "-1 \<notin># mb_acct w"
    and fresh: "\<forall>r\<in>set reqs. req_mamba r = {#}"
  shows "takes cf w {#} (\<Sum>r\<leftarrow>reqs'. req_mamba r) w' \<and> map req_pool_idx reqs' = map Some idxs \<and>
    length idxs = length reqs \<and> map req.more reqs' = map req.more reqs \<and>
    list_all (\<lambda>r. mamba_pool_idx r \<noteq> None) reqs' \<and> req_to_token (w_pool w') = req_to_token (w_pool w) \<and>
    admitted w idxs reqs reqs'"
proof -
  have "\<exists>w1. (if b then co_evict pic_ops 0 0 n else retM ()) w = (Inr (), w1) \<and> takes cf w {#} {#} w1 \<and>
      mamba_only (w_pool w) (w_pool w1)" for b n
    using co_evict_takes [OF inv, of 0 0 n] takes_refl [OF inv] by (cases b) auto
  then have first: "takes cf w {#} {#} w1 \<and> mamba_only (w_pool w) (w_pool w1)"
    if "(if b then co_evict pic_ops 0 0 n else retM ()) w = (Inr u, w1)" for b n u w1
    using that by (metis prod.inject)
  obtain w1 where w1: "bindM (on_pool (hybrid_alloc reqs)) (\<lambda>res. case res of
        None \<Rightarrow> raiseM RuntimeError | Some (idxs, reqs') \<Rightarrow> retM (idxs, reqs')) w1 = (Inr (idxs, reqs'), w')"
    "takes cf w {#} {#} w1" "mamba_only (w_pool w) (w_pool w1)"
    using run unfolding pic_alloc_req_slots_def alloc_req_slots_def Let_def option.case bindM_Inr_iff [of "bindM (getsM _) _"] bindM_state
    using first by blast
  obtain p where p: "hybrid_alloc reqs (w_pool w1) = (Inr (Some (idxs, reqs')), p)" "w' = w1\<lparr>w_pool := p\<rparr>"
    using w1(1) by (auto simp: on_pool_def bindM_app split: prod.splits sum.splits option.splits)
  have sent1: "-1 \<notin># pool_mamba (w_pool w1)"
    using sent w1(2) unfolding takes_def mb_acct_def by (metis add.left_neutral union_iff)
  note h = hybrid_alloc_spec [OF p(1) sent1]
  have "(\<Sum>r\<leftarrow>reqs. req_mamba r) = {#}"
    using fresh by (induction reqs) auto
  then have "takes cf w1 {#} (\<Sum>r\<leftarrow>reqs'. req_mamba r) w'"
    unfolding p(2) by (intro pool_update_takes) (use h hybrid_alloc_frame [OF p(1)] takes_inv [OF w1(2)] in auto)
  then show ?thesis
    using takes_trans [OF w1(2)] h p(2) mamba_only_fields [OF w1(3)] hybrid_alloc_frame [OF p(1)] by (simp add: admitted_def)
qed

lemma write_hits_takes:
  assumes "write_hits idx r hits w = (Inr (), w')" "pic_inv cf w" "is_not_in_free_group (w_kv w)"
  shows "takes cf w {#} {#} w'"
  using assms
proof (induction idx r hits arbitrary: w rule: write_hits.induct)
  case (1 idx r)
  then show ?case by (simp add: takes_refl)
next
  case (2 idx r s e h hits)
  obtain i where i: "map_of (pic_segment_entries r) h = Some i"
    using "2.prems"(1) by (cases "map_of (pic_segment_entries r) h") auto
  obtain w1 where w1: "write_slots idx (s, e) (full_kv_slots (w_heap w i)) w = (Inr (), w1)"
    "write_hits idx r hits w1 = (Inr (), w')"
    using "2.prems"(1) i by (auto simp: bindM_Inr_iff)
  have t1: "takes cf w {#} {#} w1"
    using write_slots_takes [OF w1(1) "2.prems"(2,3)] .
  show ?case
    using takes_trans [OF t1 "2.IH" [OF w1(2) takes_inv [OF t1]]] by simp
qed

text \<open>The slots recorded for the missed segments are consecutive chunks of the allocation.\<close>

definition short_miss :: "pic_config \<Rightarrow> segment option \<Rightarrow> segment \<Rightarrow> bool" where
  "short_miss cf last_seg seg \<longleftrightarrow> Some seg \<noteq> last_seg \<and> cf_min_tokens cf > 0 \<and> int (size_of seg) < cf_min_tokens cf"

fun std_chunks ::
  "pic_config \<Rightarrow> segment option \<Rightarrow> nat list \<Rightarrow> nat \<Rightarrow> segment list \<Rightarrow> (segment, miss_slots) dict \<Rightarrow> bool" where
  "std_chunks cf last_seg out cur [] new \<longleftrightarrow> new = []"
| "std_chunks cf last_seg out cur (seg # segs) new \<longleftrightarrow>
     (\<exists>m new'. new = (seg, StdSlots (take (size_of seg) (drop cur out)) m) # new' \<and>
        (m = None \<longleftrightarrow> short_miss cf last_seg seg) \<and> std_chunks cf last_seg out (cur + size_of seg) segs new')"

lemma std_chunks_keys: "std_chunks cf last_seg out cur segs new \<Longrightarrow> map fst new = segs"
  by (induction segs arbitrary: cur new) auto

lemma std_chunks_kv:
  "std_chunks cf last_seg out cur segs new \<Longrightarrow>
     (\<Sum>p\<leftarrow>new. slots_kv (snd p)) = mset (take (\<Sum>seg\<leftarrow>segs. size_of seg) (drop cur out))"
  by (induction segs arbitrary: cur new) (auto simp: take_add add.commute)

lemma std_chunks_entry:
  assumes "std_chunks cf last_seg out cur segs new" "(seg, sl) \<in> set new"
  shows "\<exists>kv m. sl = StdSlots kv m \<and> (m = None \<longleftrightarrow> short_miss cf last_seg seg) \<and>
    (cur + (\<Sum>seg\<leftarrow>segs. size_of seg) \<le> length out \<longrightarrow> length kv = size_of seg)"
  using assms
proof (induction segs arbitrary: cur new)
  case (Cons s segs)
  obtain m new' where new: "new = (s, StdSlots (take (size_of s) (drop cur out)) m) # new'"
    "m = None \<longleftrightarrow> short_miss cf last_seg s" "std_chunks cf last_seg out (cur + size_of s) segs new'"
    using Cons.prems(1) by auto
  show ?case
  proof (cases "(seg, sl) \<in> set new'")
    case True
    then show ?thesis
      using Cons.IH [OF new(3)] by (auto simp: add.assoc)
  next
    case False
    then show ?thesis
      using Cons.prems(2) new(1,2) by auto
  qed
qed simp

lemma std_miss_loop_spec:
  assumes "std_miss_loop cf idx last_seg out segs (r, cur, tm) w = (Inr (r', cur', tm'), w')"
    and "pic_inv cf w" "is_not_in_free_group (w_kv w)" "distinct segs"
    and "set segs \<inter> fst ` set (pic_miss_segment_slots r) = {}"
  shows "\<exists>new. r' = r\<lparr>pic_miss_segment_slots := pic_miss_segment_slots r @ new\<rparr> \<and>
    std_chunks cf last_seg out cur segs new \<and> cur' = cur + (\<Sum>seg\<leftarrow>segs. size_of seg) \<and>
    takes cf w {#} (\<Sum>p\<leftarrow>new. slots_mb (snd p)) w' \<and> tm' = tm + int (size (\<Sum>p\<leftarrow>new. slots_mb (snd p)))"
  using assms
proof (induction segs arbitrary: r cur tm w)
  case Nil
  then show ?case
    by (intro exI [of _ "[]"]) (auto simp: takes_refl)
next
  case (Cons seg segs)
  let ?n = "size_of seg" and ?chunk = "take (size_of seg) (drop cur out)"
  let ?c = "\<not> short_miss cf last_seg seg"
  obtain m w1 w2 where m: "(if ?c then bindM alloc_one_mamba (\<lambda>m. retM (Some m)) else retM None) w = (Inr m, w1)"
    and wr: "write_slots idx seg ?chunk w1 = (Inr (), w2)"
    and rest: "std_miss_loop cf idx last_seg out segs
        (r\<lparr>pic_miss_segment_slots := AList.update seg (StdSlots ?chunk m) (pic_miss_segment_slots r)\<rparr>, cur + ?n,
         tm + (if m \<noteq> None then 1 else 0)) w2 = (Inr (r', cur', tm'), w')"
    using Cons.prems(1) unfolding short_miss_def by (auto simp: Let_def bindM_Inr_iff simp del: not_None_eq)
  have upd: "AList.update seg (StdSlots ?chunk m) (pic_miss_segment_slots r) =
      pic_miss_segment_slots r @ [(seg, StdSlots ?chunk m)]"
    using Cons.prems(5) by (intro dict_update_new) (auto simp: map_of_eq_None_iff)
  have t1: "takes cf w {#} (opt_mset m) w1" and mnone: "m = None \<longleftrightarrow> \<not> ?c"
  proof -
    show "takes cf w {#} (opt_mset m) w1"
    proof (cases ?c)
      case True
      then obtain k where "alloc_one_mamba w = (Inr k, w1)" "m = Some k"
        using m by (auto simp: bindM_Inr_iff)
      then show ?thesis
        using alloc_one_mamba_takes [OF _ Cons.prems(2,3)] by simp
    qed (use m Cons.prems(2,3) in \<open>auto simp: takes_refl\<close>)
    show "m = None \<longleftrightarrow> \<not> ?c"
      using m by (auto simp: bindM_Inr_iff split: if_splits)
  qed
  have t2: "takes cf w1 {#} {#} w2"
    using write_slots_takes [OF wr takes_inv [OF t1]] .
  have dist: "set segs \<inter> fst ` set (pic_miss_segment_slots r @ [(seg, StdSlots ?chunk m)]) = {}"
    using Cons.prems(4,5) by auto
  from Cons.IH [OF rest [unfolded upd] takes_inv [OF t2]] Cons.prems(4) dist
  obtain new where new: "r' = r\<lparr>pic_miss_segment_slots := pic_miss_segment_slots r @ (seg, StdSlots ?chunk m) # new\<rparr>"
    "std_chunks cf last_seg out (cur + ?n) segs new" "cur' = cur + ?n + (\<Sum>seg\<leftarrow>segs. size_of seg)"
    "takes cf w2 {#} (\<Sum>p\<leftarrow>new. slots_mb (snd p)) w'"
    "tm' = tm + (if m \<noteq> None then 1 else 0) + int (size (\<Sum>p\<leftarrow>new. slots_mb (snd p)))"
    by auto
  have "takes cf w {#} (\<Sum>p\<leftarrow>(seg, StdSlots ?chunk m) # new. slots_mb (snd p)) w'"
    using takes_trans [OF takes_trans [OF t1 t2] new(4)] by simp
  moreover have "tm' = tm + int (size (\<Sum>p\<leftarrow>(seg, StdSlots ?chunk m) # new. slots_mb (snd p)))"
    using new(5) by (cases m) auto
  ultimately show ?case
    using new(1,2,3) mnone
    by (intro exI [of _ "(seg, StdSlots ?chunk m) # new"]) auto
qed

section \<open>The batch of the addition and transition modes\<close>

lemma std_req_step_spec:
  assumes run: "std_req_step cf out (done, cur, tm) (idx, r) w = (Inr acc', w')"
    and inv: "pic_inv cf w" "is_not_in_free_group (w_kv w)" and dist: "distinct (pic_miss_segments r)"
  shows "\<exists>new. acc' = (done @ [r\<lparr>pic_miss_segment_slots := new\<rparr>], cur + (\<Sum>seg\<leftarrow>pic_miss_segments r. size_of seg),
        tm + int (size (\<Sum>p\<leftarrow>new. slots_mb (snd p)))) \<and>
    std_chunks cf (any_last_seg r) out cur (pic_miss_segments r) new \<and> takes cf w {#} (\<Sum>p\<leftarrow>new. slots_mb (snd p)) w'"
proof -
  let ?r0 = "r\<lparr>pic_miss_segment_slots := []\<rparr>"
  have last: "any_last_seg ?r0 = any_last_seg r"
    by (simp add: any_last_seg_def)
  obtain w1 r' c' t' where w1: "write_hits idx ?r0 (pic_hit_segments r) w = (Inr (), w1)"
    and loop: "std_miss_loop cf idx (any_last_seg r) out (pic_miss_segments r) (?r0, cur, tm) w1 = (Inr (r', c', t'), w')"
    and acc: "acc' = (done @ [r'], c', t')"
    using run unfolding std_req_step_def Let_def prod.case last by (auto simp: bindM_Inr_iff)
  have t1: "takes cf w {#} {#} w1"
    using write_hits_takes [OF w1 inv] .
  obtain new where new: "r' = ?r0\<lparr>pic_miss_segment_slots := [] @ new\<rparr>"
    "std_chunks cf (any_last_seg r) out cur (pic_miss_segments r) new" "c' = cur + (\<Sum>seg\<leftarrow>pic_miss_segments r. size_of seg)"
    "takes cf w1 {#} (\<Sum>p\<leftarrow>new. slots_mb (snd p)) w'" "t' = tm + int (size (\<Sum>p\<leftarrow>new. slots_mb (snd p)))"
    using std_miss_loop_spec [OF loop takes_inv [OF t1] dist] by auto
  show ?thesis
    using acc new takes_trans [OF t1 new(4)] by (intro exI [of _ new]) simp
qed

definition std_allocated :: "pic_config \<Rightarrow> nat list \<Rightarrow> nat \<Rightarrow> 'r pic_req_scheme \<Rightarrow> 'r pic_req_scheme \<Rightarrow> bool" where
  "std_allocated cf out bound r r' \<longleftrightarrow> (\<exists>cur new. r' = r\<lparr>pic_miss_segment_slots := new\<rparr> \<and>
     std_chunks cf (any_last_seg r) out cur (pic_miss_segments r) new \<and>
     cur + (\<Sum>seg\<leftarrow>pic_miss_segments r. size_of seg) \<le> bound)"

lemma req_kv_sum: "req_kv (r\<lparr>pic_miss_segment_slots := new\<rparr>) = (\<Sum>p\<leftarrow>new. slots_kv (snd p))"
  "req_mb (r\<lparr>pic_miss_segment_slots := new\<rparr>) = (\<Sum>p\<leftarrow>new. slots_mb (snd p))"
  by (simp_all add: req_kv_def req_mb_def case_prod_unfold)

lemma std_batch_spec:
  assumes "foldM (std_req_step cf out) (done, cur, tm) (zip idxs reqs) w = (Inr (done', cur', tm'), w')"
    and "pic_inv cf w" "is_not_in_free_group (w_kv w)" "\<forall>r\<in>set reqs. distinct (pic_miss_segments r)"
    and "length idxs = length reqs"
  shows "\<exists>rs'. done' = done @ rs' \<and> list_all2 (std_allocated cf out (cur + miss_total reqs)) reqs rs' \<and>
    (\<Sum>r\<leftarrow>rs'. req_kv r) = mset (take (miss_total reqs) (drop cur out)) \<and>
    takes cf w {#} (\<Sum>r\<leftarrow>rs'. req_mb r) w' \<and> tm' = tm + int (size (\<Sum>r\<leftarrow>rs'. req_mb r))"
  using assms
proof (induction reqs arbitrary: idxs "done" cur tm w)
  case Nil
  then show ?case
    by (auto simp: miss_total_def takes_refl)
next
  case (Cons r reqs)
  obtain idx idxs' where idxs: "idxs = idx # idxs'"
    using Cons.prems(5) by (cases idxs) auto
  let ?n = "\<Sum>seg\<leftarrow>pic_miss_segments r. size_of seg"
  obtain acc1 w1 where step: "std_req_step cf out (done, cur, tm) (idx, r) w = (Inr acc1, w1)"
    and rest: "foldM (std_req_step cf out) acc1 (zip idxs' reqs) w1 = (Inr (done', cur', tm'), w')"
    using Cons.prems(1) by (auto simp: idxs bindM_Inr_iff)
  have d: "distinct (pic_miss_segments r)" "\<forall>r\<in>set reqs. distinct (pic_miss_segments r)" "length idxs' = length reqs"
    using Cons.prems(4,5) idxs by auto
  obtain new where new: "acc1 = (done @ [r\<lparr>pic_miss_segment_slots := new\<rparr>], cur + ?n, tm + int (size (\<Sum>p\<leftarrow>new. slots_mb (snd p))))"
    "std_chunks cf (any_last_seg r) out cur (pic_miss_segments r) new" "takes cf w {#} (\<Sum>p\<leftarrow>new. slots_mb (snd p)) w1"
    using std_req_step_spec [OF step Cons.prems(2,3) d(1)] by blast
  let ?r = "r\<lparr>pic_miss_segment_slots := new\<rparr>"
  obtain rs' where rs': "done' = (done @ [?r]) @ rs'" "list_all2 (std_allocated cf out (cur + ?n + miss_total reqs)) reqs rs'"
    "(\<Sum>r\<leftarrow>rs'. req_kv r) = mset (take (miss_total reqs) (drop (cur + ?n) out))"
    "takes cf w1 {#} (\<Sum>r\<leftarrow>rs'. req_mb r) w'"
    "tm' = tm + int (size (\<Sum>p\<leftarrow>new. slots_mb (snd p))) + int (size (\<Sum>r\<leftarrow>rs'. req_mb r))"
    using Cons.IH [OF rest [unfolded new(1)] takes_inv [OF new(3)] d(2,3)] by blast
  have tot: "miss_total (r # reqs) = ?n + miss_total reqs"
    by (simp add: miss_total_def)
  have head: "std_allocated cf out (cur + ?n + miss_total reqs) r ?r"
    unfolding std_allocated_def by (rule exI [of _ cur], rule exI [of _ new]) (simp add: new(2))
  have kv: "(\<Sum>r\<leftarrow>?r # rs'. req_kv r) = mset (take (miss_total (r # reqs)) (drop cur out))"
    unfolding tot take_add using rs'(3) std_chunks_kv [OF new(2)] by (simp add: req_kv_sum add.commute [of cur])
  have tk: "takes cf w {#} (\<Sum>r\<leftarrow>?r # rs'. req_mb r) w'"
    using takes_trans [OF new(3) rs'(4)] by (simp add: req_kv_sum)
  show ?case
    using rs'(1,2,5) head kv tk by (intro exI [of _ "?r # rs'"]) (simp add: tot add.assoc req_kv_sum)
qed

lemma more_fields:
  assumes "req.more r = req.more r'"
  shows "pic_miss_segments r = pic_miss_segments r'" "pic_segments r = pic_segments r'"
    "pic_hit_segments r = pic_hit_segments r'" "origin_input_ids r = origin_input_ids r'"
    "pic_segment_entries r = pic_segment_entries r'" "pic_scatter_single_seg r = pic_scatter_single_seg r'"
    "pic_hit_seam_positions r = pic_hit_seam_positions r'" "pic_miss_token_positions r = pic_miss_token_positions r'"
    "pic_cache_owned_miss_segments r = pic_cache_owned_miss_segments r'" "pic_freed_miss_segments r = pic_freed_miss_segments r'"
  using assms by (cases r; cases r'; simp)+

lemma more_lists:
  assumes "map req.more reqs' = map req.more reqs"
  shows "miss_total reqs' = miss_total reqs" "hit_total reqs' = hit_total reqs" "local_miss_total reqs' = local_miss_total reqs"
    "list_all2 (\<lambda>r r'. req.more r' = req.more r) reqs reqs'"
proof -
  show all2: "list_all2 (\<lambda>r r'. req.more r' = req.more r) reqs reqs'"
    using assms by (simp add: list_eq_iff_nth_eq list_all2_conv_all_nth)
  then show "miss_total reqs' = miss_total reqs"
    by induction (auto simp: miss_total_def dest: more_fields)
  show "hit_total reqs' = hit_total reqs"
    using all2 by induction (auto simp: hit_total_def dest: more_fields)
  show "local_miss_total reqs' = local_miss_total reqs"
    using all2
  proof induction
    case (Cons r rs r' rs')
    then show ?case
      using more_fields(1,2) [OF Cons(1)] by (simp add: local_miss_total_def global_seg_def)
  qed simp
qed

lemma pic_alloc_standard_spec:
  assumes run: "pic_alloc_standard cf reqs w = (Inr (out, idxs, reqs'), w')"
    and inv: "pic_inv cf w" "is_not_in_free_group (w_kv w)" "-1 \<notin># mb_acct w"
    and reqs: "\<forall>r\<in>set reqs. req_mamba r = {#} \<and> distinct (pic_miss_segments r)"
  shows "\<exists>reqs1 w1. map req.more reqs1 = map req.more reqs \<and> map req_pool_idx reqs1 = map Some idxs \<and>
    list_all (\<lambda>r. mamba_pool_idx r \<noteq> None) reqs1 \<and>
    admitted w idxs reqs reqs1 \<and>
    length out = miss_total reqs \<and> list_all2 (std_allocated cf out (length out)) reqs1 reqs' \<and>
    (\<Sum>r\<leftarrow>reqs'. req_kv r) = mset out \<and>
    takes cf w (mset out) ((\<Sum>r\<leftarrow>reqs1. req_mamba r) + (\<Sum>r\<leftarrow>reqs'. req_mb r)) w1 \<and>
    w' = add_inflight (int (length out)) (int (size (\<Sum>r\<leftarrow>reqs'. req_mb r))) w1"
proof -
  obtain idxs1 reqs1 w1 w2 cur tm w3 where run1: "pic_alloc_req_slots reqs w = (Inr (idxs1, reqs1), w1)"
    and run2: "pic_alloc_token_slots (miss_total reqs1) w1 = (Inr out, w2)"
    and run3: "foldM (std_req_step cf out) ([], 0, 0) (zip idxs1 reqs1) w2 = (Inr (reqs', cur, tm), w3)"
    and w': "w' = add_inflight (int (miss_total reqs1)) tm w3" and idxs: "idxs1 = idxs"
    using run unfolding pic_alloc_standard_def by (auto simp: bindM_Inr_iff Let_def)
  have a: "takes cf w {#} (\<Sum>r\<leftarrow>reqs1. req_mamba r) w1" "map req_pool_idx reqs1 = map Some idxs"
    "length idxs = length reqs" "map req.more reqs1 = map req.more reqs" "list_all (\<lambda>r. mamba_pool_idx r \<noteq> None) reqs1"
    "admitted w idxs reqs reqs1"
    using pic_alloc_req_slots_takes [OF run1 inv] reqs idxs by auto
  have b: "takes cf w1 (mset out) {#} w2" "length out = miss_total reqs1"
    using pic_alloc_token_slots_takes [OF run2 takes_inv [OF a(1)]] by auto
  have len: "length idxs1 = length reqs1"
    using arg_cong [OF a(2), of length] idxs by simp
  have dist: "\<forall>r\<in>set reqs1. distinct (pic_miss_segments r)"
    using more_lists(4) [OF a(4)] reqs
    by (auto simp: list_all2_conv_all_nth in_set_conv_nth) (metis more_fields(1) nth_mem)
  obtain c: "list_all2 (std_allocated cf out (0 + miss_total reqs1)) reqs1 reqs'"
    "(\<Sum>r\<leftarrow>reqs'. req_kv r) = mset (take (miss_total reqs1) (drop 0 out))"
    "takes cf w2 {#} (\<Sum>r\<leftarrow>reqs'. req_mb r) w3" "tm = 0 + int (size (\<Sum>r\<leftarrow>reqs'. req_mb r))"
    using std_batch_spec [OF run3 takes_inv [OF b(1)] dist len] by auto
  have "takes cf w (mset out) ((\<Sum>r\<leftarrow>reqs1. req_mamba r) + (\<Sum>r\<leftarrow>reqs'. req_mb r)) w3"
    using takes_trans [OF takes_trans [OF a(1) b(1)] c(3)] by simp
  then show ?thesis
    using a b c w' more_lists(1) [OF a(4)] by (intro exI [of _ reqs1] exI [of _ w3]) simp
qed

section \<open>The batch of the rope modes\<close>

fun hit_chunks :: "nat list \<Rightarrow> nat \<Rightarrow> segment list \<Rightarrow> (segment, nat list \<times> nat list) dict \<Rightarrow> bool" where
  "hit_chunks hit_pool cur [] new \<longleftrightarrow> new = []"
| "hit_chunks hit_pool cur (seg # segs) new \<longleftrightarrow>
     (\<exists>pub new'. new = (seg, take (size_of seg) (drop cur hit_pool), pub) # new' \<and>
        hit_chunks hit_pool (cur + size_of seg) segs new')"

fun rope_chunks ::
  "segment option \<Rightarrow> nat list \<Rightarrow> nat list \<Rightarrow> nat \<Rightarrow> nat \<Rightarrow> segment list \<Rightarrow> (segment, miss_slots) dict \<Rightarrow> bool" where
  "rope_chunks g miss_pool pub_pool mc pc [] new \<longleftrightarrow> new = []"
| "rope_chunks g miss_pool pub_pool mc pc (seg # segs) new \<longleftrightarrow>
     (\<exists>m new'. new = (seg, RopeSlots (take (size_of seg) (drop mc miss_pool))
           (if Some seg \<noteq> g then Some (take (size_of seg) (drop pc pub_pool)) else None) (Some m)) # new' \<and>
        rope_chunks g miss_pool pub_pool (mc + size_of seg) (if Some seg \<noteq> g then pc + size_of seg else pc) segs new')"

definition hit_segs :: "'r pic_req_scheme \<Rightarrow> segment list" where
  "hit_segs r = map (\<lambda>(s, e, h). (s, e)) (pic_hit_segments r)"

definition local_size :: "segment option \<Rightarrow> segment list \<Rightarrow> nat" where
  "local_size g segs = (\<Sum>seg\<leftarrow>filter (\<lambda>seg. Some seg \<noteq> g) segs. size_of seg)"

lemma hit_chunks_priv:
  "hit_chunks hit_pool cur segs new \<Longrightarrow>
     mset (concat (map (\<lambda>(seg, priv, pub). priv) new)) = mset (take (\<Sum>seg\<leftarrow>segs. size_of seg) (drop cur hit_pool))"
proof (induction segs arbitrary: cur new)
  case (Cons seg segs)
  then show ?case
    unfolding list.map sum_list.Cons take_add by (auto simp: add.commute [of cur])
qed simp

lemma rope_chunks_keys: "rope_chunks g mp pp mc pc segs new \<Longrightarrow> map fst new = segs"
  by (induction segs arbitrary: mc pc new) fastforce+

lemma rope_chunks_kv:
  "rope_chunks g mp pp mc pc segs new \<Longrightarrow>
     (\<Sum>p\<leftarrow>new. slots_kv (snd p)) =
       mset (take (\<Sum>seg\<leftarrow>segs. size_of seg) (drop mc mp)) + mset (take (local_size g segs) (drop pc pp))"
proof (induction segs arbitrary: mc pc new)
  case (Cons seg segs)
  obtain m new' where new: "new = (seg, RopeSlots (take (size_of seg) (drop mc mp))
        (if Some seg \<noteq> g then Some (take (size_of seg) (drop pc pp)) else None) (Some m)) # new'"
    "rope_chunks g mp pp (mc + size_of seg) (if Some seg \<noteq> g then pc + size_of seg else pc) segs new'"
    using Cons.prems by auto
  have m: "mset (take (\<Sum>seg\<leftarrow>seg # segs. size_of seg) (drop mc mp)) = mset (take (size_of seg) (drop mc mp)) +
      mset (take (\<Sum>seg\<leftarrow>segs. size_of seg) (drop (mc + size_of seg) mp))"
    unfolding list.map sum_list.Cons take_add by (simp add: add.commute [of mc])
  show ?case
  proof (cases "Some seg = g")
    case True
    then show ?thesis
      using Cons.IH [OF new(2)] new(1) m by (auto simp: local_size_def)
  next
    case False
    have "mset (take (local_size g (seg # segs)) (drop pc pp)) = mset (take (size_of seg) (drop pc pp)) +
        mset (take (local_size g segs) (drop (pc + size_of seg) pp))"
      using False by (auto simp: local_size_def take_add add.commute [of pc])
    then show ?thesis
      using False Cons.IH [OF new(2)] new(1) m by auto
  qed
qed (simp add: local_size_def)

lemma rope_chunks_entry:
  assumes "rope_chunks g mp pp mc pc segs new" "(seg, sl) \<in> set new"
  shows "\<exists>priv m. sl = RopeSlots priv None (Some m) \<and> g = Some seg \<or>
    (\<exists>pub. sl = RopeSlots priv (Some pub) (Some m) \<and> g \<noteq> Some seg \<and>
      (pc + local_size g segs \<le> length pp \<longrightarrow> length pub = size_of seg))"
  using assms
proof (induction segs arbitrary: mc pc new)
  case (Cons s segs)
  let ?pc = "if Some s \<noteq> g then pc + size_of s else pc"
  obtain m new' where new: "new = (s, RopeSlots (take (size_of s) (drop mc mp))
        (if Some s \<noteq> g then Some (take (size_of s) (drop pc pp)) else None) (Some m)) # new'"
    "rope_chunks g mp pp (mc + size_of s) ?pc segs new'"
    using Cons.prems by auto
  have ls: "pc + local_size g (s # segs) = ?pc + local_size g segs"
    by (simp add: local_size_def)
  show ?case
  proof (cases "(seg, sl) \<in> set new'")
    case True
    then show ?thesis
      using Cons.IH [OF new(2)] unfolding ls by blast
  next
    case False
    then show ?thesis
      using Cons.prems(2) new(1) by (auto simp: local_size_def)
  qed
qed simp

lemma rope_hit_loop_spec:
  assumes "rope_hit_loop cf idx hp hits (r, hc, sm) w = (Inr (r', hc', sm'), w')"
    and "pic_inv cf w" "is_not_in_free_group (w_kv w)" "distinct (map (\<lambda>(s, e, h). (s, e)) hits)"
    and "(\<lambda>(s, e, h). (s, e)) ` set hits \<inter> fst ` set (pic_rope_hit_private_slots r) = {}"
  shows "\<exists>new. r' = r\<lparr>pic_rope_hit_private_slots := pic_rope_hit_private_slots r @ new\<rparr> \<and>
    hit_chunks hp hc (map (\<lambda>(s, e, h). (s, e)) hits) new \<and> hc' = hc + (\<Sum>(s, e, h)\<leftarrow>hits. size_of (s, e)) \<and>
    takes cf w {#} {#} w'"
  using assms
proof (induction hits arbitrary: r hc sm w)
  case Nil
  then show ?case
    by (intro exI [of _ "[]"]) (auto simp: takes_refl)
next
  case (Cons hit hits)
  obtain s e h where hit: "hit = (s, e, h)"
    by (cases hit)
  let ?n = "size_of (s, e)" and ?priv = "take (size_of (s, e)) (drop hc hp)"
  obtain i w1 sm1 where wr: "write_slots idx (s, e) ?priv w = (Inr (), w1)"
    and rest: "rope_hit_loop cf idx hp hits (r\<lparr>pic_rope_hit_private_slots :=
        AList.update (s, e) (?priv, full_kv_slots (w_heap w i)) (pic_rope_hit_private_slots r)\<rparr>, hc + ?n, sm1) w1 =
        (Inr (r', hc', sm'), w')"
    using Cons.prems(1) by (auto simp: hit Let_def bindM_Inr_iff optM_def split: option.splits)
  have upd: "AList.update (s, e) (?priv, full_kv_slots (w_heap w i)) (pic_rope_hit_private_slots r) =
      pic_rope_hit_private_slots r @ [((s, e), ?priv, full_kv_slots (w_heap w i))]"
    using Cons.prems(5) by (intro dict_update_new) (auto simp: hit map_of_eq_None_iff)
  have t1: "takes cf w {#} {#} w1"
    using write_slots_takes [OF wr Cons.prems(2,3)] .
  have dist: "(\<lambda>(s, e, h). (s, e)) ` set hits \<inter>
      fst ` set (pic_rope_hit_private_slots r @ [((s, e), ?priv, full_kv_slots (w_heap w i))]) = {}"
    using Cons.prems(4,5) by (auto simp: hit)
  from Cons.IH [OF rest [unfolded upd] takes_inv [OF t1]] Cons.prems(4) dist
  obtain new where new: "r' = r\<lparr>pic_rope_hit_private_slots := pic_rope_hit_private_slots r @
        ((s, e), ?priv, full_kv_slots (w_heap w i)) # new\<rparr>"
    "hit_chunks hp (hc + ?n) (map (\<lambda>(s, e, h). (s, e)) hits) new" "hc' = hc + ?n + (\<Sum>(s, e, h)\<leftarrow>hits. size_of (s, e))"
    "takes cf w1 {#} {#} w'"
    by (auto simp: hit)
  show ?case
    using new(1-3) takes_trans [OF t1 new(4)]
    by (intro exI [of _ "((s, e), ?priv, full_kv_slots (w_heap w i)) # new"]) (simp add: hit)
qed

lemma rope_miss_loop_spec:
  assumes "rope_miss_loop cf idx g mp pp segs (r, mc, pc, sm, tm) w = (Inr (r', mc', pc', sm', tm'), w')"
    and "pic_inv cf w" "is_not_in_free_group (w_kv w)" "distinct segs"
    and "set segs \<inter> fst ` set (pic_miss_segment_slots r) = {}"
  shows "\<exists>new. r' = r\<lparr>pic_miss_segment_slots := pic_miss_segment_slots r @ new\<rparr> \<and>
    rope_chunks g mp pp mc pc segs new \<and> mc' = mc + (\<Sum>seg\<leftarrow>segs. size_of seg) \<and> pc' = pc + local_size g segs \<and>
    takes cf w {#} (\<Sum>p\<leftarrow>new. slots_mb (snd p)) w' \<and> tm' = tm + int (length segs)"
  using assms
proof (induction segs arbitrary: r mc pc sm tm w)
  case Nil
  then show ?case
    by (intro exI [of _ "[]"]) (auto simp: takes_refl local_size_def)
next
  case (Cons seg segs)
  let ?n = "size_of seg" and ?priv = "take (size_of seg) (drop mc mp)"
  let ?pub = "if Some seg \<noteq> g then Some (take ?n (drop pc pp)) else None"
  let ?pc = "if Some seg \<noteq> g then pc + ?n else pc"
  obtain m w1 w2 sm1 u where m: "alloc_one_mamba w = (Inr m, w1)"
    and wr: "write_slots idx seg ?priv w1 = (Inr u, w2)"
    and rest: "rope_miss_loop cf idx g mp pp segs
        (r\<lparr>pic_miss_segment_slots := AList.update seg (RopeSlots ?priv ?pub (Some m)) (pic_miss_segment_slots r)\<rparr>,
         mc + ?n, ?pc, sm1, tm + 1) w2 = (Inr (r', mc', pc', sm', tm'), w')"
    using Cons.prems(1) unfolding rope_miss_loop.simps Let_def by (elim bindM_InrE) blast
  have upd: "AList.update seg (RopeSlots ?priv ?pub (Some m)) (pic_miss_segment_slots r) =
      pic_miss_segment_slots r @ [(seg, RopeSlots ?priv ?pub (Some m))]"
    using Cons.prems(5) by (intro dict_update_new) (auto simp: map_of_eq_None_iff)
  have t1: "takes cf w {#} {#m#} w1"
    using alloc_one_mamba_takes [OF m Cons.prems(2,3)] by simp
  have t2: "takes cf w1 {#} {#} w2"
    using wr by (intro write_slots_takes [OF _ takes_inv [OF t1]]) simp
  have dist: "set segs \<inter> fst ` set (pic_miss_segment_slots r @ [(seg, RopeSlots ?priv ?pub (Some m))]) = {}"
    using Cons.prems(4,5) by auto
  from Cons.IH [OF rest [unfolded upd] takes_inv [OF t2]] Cons.prems(4) dist
  obtain new where new: "r' = r\<lparr>pic_miss_segment_slots := pic_miss_segment_slots r @ (seg, RopeSlots ?priv ?pub (Some m)) # new\<rparr>"
    "rope_chunks g mp pp (mc + ?n) ?pc segs new" "mc' = mc + ?n + (\<Sum>seg\<leftarrow>segs. size_of seg)"
    "pc' = ?pc + local_size g segs" "takes cf w2 {#} (\<Sum>p\<leftarrow>new. slots_mb (snd p)) w'" "tm' = tm + 1 + int (length segs)"
    by auto
  have "takes cf w {#} (\<Sum>p\<leftarrow>(seg, RopeSlots ?priv ?pub (Some m)) # new. slots_mb (snd p)) w'"
    using takes_trans [OF takes_trans [OF t1 t2] new(5)] by simp
  then show ?case
    using new(1-4,6) by (intro exI [of _ "(seg, RopeSlots ?priv ?pub (Some m)) # new"]) (auto simp: local_size_def)
qed

definition rope_allocated ::
  "nat list \<Rightarrow> nat list \<Rightarrow> nat list \<Rightarrow> 'r pic_req_scheme \<Rightarrow> 'r pic_req_scheme \<Rightarrow> bool" where
  "rope_allocated miss_pool pub_pool hit_pool r r' \<longleftrightarrow> (\<exists>mc pc hc new hnew.
     r' = r\<lparr>pic_miss_segment_slots := new, pic_rope_hit_private_slots := hnew\<rparr> \<and>
     rope_chunks (global_seg r) miss_pool pub_pool mc pc (pic_miss_segments r) new \<and>
     pc + local_size (global_seg r) (pic_miss_segments r) \<le> length pub_pool \<and>
     hit_chunks hit_pool hc (hit_segs r) hnew)"

definition hit_size :: "'r pic_req_scheme \<Rightarrow> nat" where
  "hit_size r = (\<Sum>seg\<leftarrow>hit_segs r. size_of seg)"

definition miss_size :: "'r pic_req_scheme \<Rightarrow> nat" where
  "miss_size r = (\<Sum>seg\<leftarrow>pic_miss_segments r. size_of seg)"

lemma totals_Cons:
  "miss_total (r # reqs) = miss_size r + miss_total reqs"
  "local_miss_total (r # reqs) = local_size (global_seg r) (pic_miss_segments r) + local_miss_total reqs"
  "hit_total (r # reqs) = hit_size r + hit_total reqs"
  by (simp_all add: miss_total_def miss_size_def local_miss_total_def local_size_def hit_total_def hit_size_def hit_segs_def
      case_prod_unfold comp_def)

lemma rope_req_step_spec:
  assumes run: "rope_req_step cf mp pp hp (done, rc) (idx, r) w = (Inr (done', rc'), w')"
    and inv: "pic_inv cf w" "is_not_in_free_group (w_kv w)"
    and dist: "distinct (pic_miss_segments r)" "distinct (hit_segs r)"
  shows "\<exists>new hnew sm. done' = done @ [(r\<lparr>pic_miss_segment_slots := new, pic_rope_hit_private_slots := hnew\<rparr>, sm)] \<and>
    rope_chunks (global_seg r) mp pp (rc_miss rc) (rc_pub rc) (pic_miss_segments r) new \<and>
    hit_chunks hp (rc_hit rc) (hit_segs r) hnew \<and>
    rc' = \<lparr>rc_miss = rc_miss rc + miss_size r, rc_pub = rc_pub rc + local_size (global_seg r) (pic_miss_segments r),
           rc_hit = rc_hit rc + hit_size r, rc_mamba = rc_mamba rc + int (length (pic_miss_segments r))\<rparr> \<and>
    takes cf w {#} (\<Sum>p\<leftarrow>new. slots_mb (snd p)) w'"
proof -
  let ?r0 = "r\<lparr>pic_miss_segment_slots := [], pic_rope_hit_private_slots := []\<rparr>"
  have g: "global_seg ?r0 = global_seg r"
    by (simp add: global_seg_def)
  obtain r1 hc sm w1 where hits: "rope_hit_loop cf idx hp (pic_hit_segments r) (?r0, rc_hit rc, []) w = (Inr (r1, hc, sm), w1)"
    and tail: "bindM (rope_miss_loop cf idx (global_seg r) mp pp (pic_miss_segments r1) (r1, rc_miss rc, rc_pub rc, sm, rc_mamba rc))
        (\<lambda>(r2, mc, pc, sm', tm). retM (done @ [(r2, sm')], \<lparr>rc_miss = mc, rc_pub = pc, rc_hit = hc, rc_mamba = tm\<rparr>)) w1 =
        (Inr (done', rc'), w')"
    using run unfolding rope_req_step_def Let_def prod.case g by (auto simp: bindM_Inr_iff)
  obtain hnew where h: "r1 = ?r0\<lparr>pic_rope_hit_private_slots := hnew\<rparr>" "hit_chunks hp (rc_hit rc) (hit_segs r) hnew"
    "hc = rc_hit rc + hit_size r" "takes cf w {#} {#} w1"
    using rope_hit_loop_spec [OF hits inv] dist(2)
    by (auto simp: hit_segs_def hit_size_def case_prod_unfold comp_def)
  obtain r2 mc pc sm' tm where misses: "rope_miss_loop cf idx (global_seg r) mp pp (pic_miss_segments r)
      (r1, rc_miss rc, rc_pub rc, sm, rc_mamba rc) w1 = (Inr (r2, mc, pc, sm', tm), w')"
    and fin: "done' = done @ [(r2, sm')]" "rc' = \<lparr>rc_miss = mc, rc_pub = pc, rc_hit = hc, rc_mamba = tm\<rparr>"
    using tail h(1) by (auto simp: bindM_Inr_iff)
  obtain new where m: "r2 = r1\<lparr>pic_miss_segment_slots := new\<rparr>"
    "rope_chunks (global_seg r) mp pp (rc_miss rc) (rc_pub rc) (pic_miss_segments r) new"
    "mc = rc_miss rc + miss_size r" "pc = rc_pub rc + local_size (global_seg r) (pic_miss_segments r)"
    "takes cf w1 {#} (\<Sum>p\<leftarrow>new. slots_mb (snd p)) w'" "tm = rc_mamba rc + int (length (pic_miss_segments r))"
    using rope_miss_loop_spec [OF misses takes_inv [OF h(4)] dist(1)] h(1) by (auto simp: miss_size_def)
  have "r2 = r\<lparr>pic_miss_segment_slots := new, pic_rope_hit_private_slots := hnew\<rparr>"
    using m(1) h(1) by simp
  then show ?thesis
    using m(2-) h(2,3) fin takes_trans [OF h(4) m(5)]
    by (intro exI [of _ new] exI [of _ hnew] exI [of _ sm']) simp
qed

lemma hit_priv_rope:
  "rope (cf_policy cf) \<Longrightarrow> hit_priv cf (r\<lparr>pic_miss_segment_slots := new, pic_rope_hit_private_slots := hnew\<rparr>) =
     mset (concat (map (\<lambda>(seg, priv, pub). priv) hnew))"
  by (simp add: hit_priv_def)

lemma mset_take_split: "mset (take (a + b) (drop c xs)) = mset (take a (drop c xs)) + mset (take b (drop (c + a) xs))"
  by (simp add: take_add add.commute [of c])

lemma req_kv_rope:
  "req_kv (r\<lparr>pic_miss_segment_slots := new, pic_rope_hit_private_slots := hnew\<rparr>) = (\<Sum>p\<leftarrow>new. slots_kv (snd p))"
  "req_mb (r\<lparr>pic_miss_segment_slots := new, pic_rope_hit_private_slots := hnew\<rparr>) = (\<Sum>p\<leftarrow>new. slots_mb (snd p))"
  by (simp_all add: req_kv_def req_mb_def case_prod_unfold)

lemma rope_batch_spec:
  assumes "foldM (rope_req_step cf mp pp hp) (done, rc) (zip idxs reqs) w = (Inr (done', rc'), w')"
    and "pic_inv cf w" "is_not_in_free_group (w_kv w)" "\<forall>r\<in>set reqs. distinct (pic_miss_segments r) \<and> distinct (hit_segs r)"
    and "length idxs = length reqs" "rope (cf_policy cf)" "rc_pub rc + local_miss_total reqs \<le> length pp"
  shows "\<exists>rs'. map fst done' = map fst done @ rs' \<and> list_all2 (rope_allocated mp pp hp) reqs rs' \<and>
    (\<Sum>r\<leftarrow>rs'. req_kv r) + (\<Sum>r\<leftarrow>rs'. hit_priv cf r) = mset (take (miss_total reqs) (drop (rc_miss rc) mp)) +
      mset (take (local_miss_total reqs) (drop (rc_pub rc) pp)) + mset (take (hit_total reqs) (drop (rc_hit rc) hp)) \<and>
    takes cf w {#} (\<Sum>r\<leftarrow>rs'. req_mb r) w' \<and>
    rc_mamba rc' = rc_mamba rc + int (\<Sum>r\<leftarrow>reqs. length (pic_miss_segments r))"
  using assms
proof (induction reqs arbitrary: idxs "done" rc w)
  case Nil
  then show ?case
    by (auto simp: miss_total_def local_miss_total_def hit_total_def takes_refl)
next
  case (Cons r reqs)
  obtain idx idxs' where idxs: "idxs = idx # idxs'"
    using Cons.prems(5) by (cases idxs) auto
  let ?ls = "local_size (global_seg r) (pic_miss_segments r)"
  obtain d1 rc1 w1 where step: "rope_req_step cf mp pp hp (done, rc) (idx, r) w = (Inr (d1, rc1), w1)"
    and rest: "foldM (rope_req_step cf mp pp hp) (d1, rc1) (zip idxs' reqs) w1 = (Inr (done', rc'), w')"
    using Cons.prems(1) by (auto simp: idxs bindM_Inr_iff)
  have d: "distinct (pic_miss_segments r)" "distinct (hit_segs r)" "length idxs' = length reqs"
    "\<forall>r\<in>set reqs. distinct (pic_miss_segments r) \<and> distinct (hit_segs r)"
    using Cons.prems(4,5) idxs by auto
  obtain new hnew sm where new: "d1 = done @ [(r\<lparr>pic_miss_segment_slots := new, pic_rope_hit_private_slots := hnew\<rparr>, sm)]"
    "rope_chunks (global_seg r) mp pp (rc_miss rc) (rc_pub rc) (pic_miss_segments r) new"
    "hit_chunks hp (rc_hit rc) (hit_segs r) hnew"
    "rc1 = \<lparr>rc_miss = rc_miss rc + miss_size r, rc_pub = rc_pub rc + ?ls, rc_hit = rc_hit rc + hit_size r,
       rc_mamba = rc_mamba rc + int (length (pic_miss_segments r))\<rparr>"
    "takes cf w {#} (\<Sum>p\<leftarrow>new. slots_mb (snd p)) w1"
    using rope_req_step_spec [OF step Cons.prems(2,3) d(1,2)] by blast
  let ?r = "r\<lparr>pic_miss_segment_slots := new, pic_rope_hit_private_slots := hnew\<rparr>"
  have bound: "rc_pub rc1 + local_miss_total reqs \<le> length pp"
    using Cons.prems(7) by (simp add: new(4) totals_Cons)
  obtain rs' where rs': "map fst done' = map fst d1 @ rs'" "list_all2 (rope_allocated mp pp hp) reqs rs'"
    "(\<Sum>r\<leftarrow>rs'. req_kv r) + (\<Sum>r\<leftarrow>rs'. hit_priv cf r) = mset (take (miss_total reqs) (drop (rc_miss rc1) mp)) +
      mset (take (local_miss_total reqs) (drop (rc_pub rc1) pp)) + mset (take (hit_total reqs) (drop (rc_hit rc1) hp))"
    "takes cf w1 {#} (\<Sum>r\<leftarrow>rs'. req_mb r) w'"
    "rc_mamba rc' = rc_mamba rc1 + int (\<Sum>r\<leftarrow>reqs. length (pic_miss_segments r))"
    using Cons.IH [OF rest takes_inv [OF new(5)] d(4,3) Cons.prems(6) bound] by blast
  have head: "rope_allocated mp pp hp r ?r"
    unfolding rope_allocated_def
    by (rule exI [of _ "rc_miss rc"], rule exI [of _ "rc_pub rc"], rule exI [of _ "rc_hit rc"], rule exI [of _ new], rule exI [of _ hnew])
      (use Cons.prems(7) new(2,3) in \<open>simp add: totals_Cons\<close>)
  have own: "req_kv ?r + hit_priv cf ?r = mset (take (miss_size r) (drop (rc_miss rc) mp)) +
      mset (take ?ls (drop (rc_pub rc) pp)) + mset (take (hit_size r) (drop (rc_hit rc) hp))"
    using rope_chunks_kv [OF new(2)] hit_chunks_priv [OF new(3)] Cons.prems(6)
    by (simp add: hit_priv_rope req_kv_rope miss_size_def hit_size_def)
  have split: "req_kv ?r + A + (hit_priv cf ?r + B) = (req_kv ?r + hit_priv cf ?r) + (A + B)" for A B
    by (simp add: union_ac)
  have kv: "(\<Sum>r\<leftarrow>?r # rs'. req_kv r) + (\<Sum>r\<leftarrow>?r # rs'. hit_priv cf r) =
      mset (take (miss_total (r # reqs)) (drop (rc_miss rc) mp)) +
      mset (take (local_miss_total (r # reqs)) (drop (rc_pub rc) pp)) + mset (take (hit_total (r # reqs)) (drop (rc_hit rc) hp))"
    unfolding totals_Cons mset_take_split list.map sum_list.Cons split own rs'(3) new(4) by (simp add: union_ac)
  have tk: "takes cf w {#} (\<Sum>r\<leftarrow>?r # rs'. req_mb r) w'"
    using takes_trans [OF new(5) rs'(4)] by (simp add: req_kv_rope)
  show ?case
    by (rule exI [of _ "?r # rs'"], intro conjI kv tk) (use rs'(1,2,5) head new(1,4) in simp_all)
qed

lemma rope_pools:
  assumes "length xs = a + b + c"
  shows "mset (take a (drop 0 (take a xs))) + mset (take b (drop 0 (take b (drop a xs)))) +
    mset (take c (drop 0 (drop (a + b) xs))) = mset xs"
proof -
  have "xs = take a xs @ take b (drop a xs) @ drop (a + b) xs"
    by (metis append.assoc append_take_drop_id take_add)
  then have "mset xs = mset (take a xs) + mset (take b (drop a xs)) + mset (drop (a + b) xs)"
    by (metis mset_append union_assoc)
  then show ?thesis
    using assms by simp
qed

lemma pic_alloc_transition_rope_spec:
  assumes run: "pic_alloc_transition_rope cf reqs w = (Inr (out, idxs, reqs'), w')"
    and inv: "pic_inv cf w" "is_not_in_free_group (w_kv w)" "-1 \<notin># mb_acct w" and rope: "rope (cf_policy cf)"
    and reqs: "\<forall>r\<in>set reqs. req_mamba r = {#} \<and> distinct (pic_miss_segments r) \<and> distinct (hit_segs r)"
  shows "\<exists>reqs1 all w1 mp pp hp. map req.more reqs1 = map req.more reqs \<and> map req_pool_idx reqs1 = map Some idxs \<and>
    list_all (\<lambda>r. mamba_pool_idx r \<noteq> None) reqs1 \<and> admitted w idxs reqs reqs1 \<and>
    list_all2 (rope_allocated mp pp hp) reqs1 reqs' \<and>
    length all = miss_total reqs + local_miss_total reqs + hit_total reqs \<and>
    (\<Sum>r\<leftarrow>reqs'. req_kv r) + (\<Sum>r\<leftarrow>reqs'. hit_priv cf r) = mset all \<and>
    takes cf w (mset all) ((\<Sum>r\<leftarrow>reqs1. req_mamba r) + (\<Sum>r\<leftarrow>reqs'. req_mb r)) w1 \<and>
    w' = add_inflight (int (length all)) (int (\<Sum>r\<leftarrow>reqs. length (pic_miss_segments r))) w1"
proof -
  obtain reqs1 w1 all w2 rms rc w3 where run1: "pic_alloc_req_slots reqs w = (Inr (idxs, reqs1), w1)"
    and run2: "pic_alloc_token_slots (miss_total reqs1 + local_miss_total reqs1 + hit_total reqs1) w1 = (Inr all, w2)"
    and run3: "foldM (rope_req_step cf (take (miss_total reqs1) all) (take (local_miss_total reqs1) (drop (miss_total reqs1) all))
        (drop (miss_total reqs1 + local_miss_total reqs1) all)) ([], \<lparr>rc_miss = 0, rc_pub = 0, rc_hit = 0, rc_mamba = 0\<rparr>)
        (zip idxs reqs1) w2 = (Inr (rms, rc), w3)"
    and w': "w' = add_inflight (int (miss_total reqs1 + local_miss_total reqs1 + hit_total reqs1)) (rc_mamba rc) w3"
    and reqs': "reqs' = map fst rms"
    using run unfolding pic_alloc_transition_rope_def Let_def by (fastforce simp: bindM_Inr_iff liftM_def split: if_splits sum.splits)
  have a: "takes cf w {#} (\<Sum>r\<leftarrow>reqs1. req_mamba r) w1" "map req_pool_idx reqs1 = map Some idxs"
    "map req.more reqs1 = map req.more reqs" "list_all (\<lambda>r. mamba_pool_idx r \<noteq> None) reqs1"
    "admitted w idxs reqs reqs1"
    using pic_alloc_req_slots_takes [OF run1 inv] reqs by auto
  note tot = more_lists [OF a(3)]
  have b: "takes cf w1 (mset all) {#} w2" "length all = miss_total reqs1 + local_miss_total reqs1 + hit_total reqs1"
    using pic_alloc_token_slots_takes [OF run2 takes_inv [OF a(1)]] by auto
  have len: "length idxs = length reqs1"
    using arg_cong [OF a(2), of length] by simp
  have dist: "\<forall>r\<in>set reqs1. distinct (pic_miss_segments r) \<and> distinct (hit_segs r)"
    using tot(4) reqs unfolding hit_segs_def
    by (auto simp: list_all2_conv_all_nth in_set_conv_nth) (metis more_fields(1,3) nth_mem)+
  have pub: "rc_pub \<lparr>rc_miss = 0, rc_pub = 0, rc_hit = 0, rc_mamba = 0\<rparr> + local_miss_total reqs1 \<le>
      length (take (local_miss_total reqs1) (drop (miss_total reqs1) all))"
    using b(2) by simp
  note c = rope_batch_spec [OF run3 takes_inv [OF b(1)] dist len rope pub, unfolded rope_cursors.simps rope_pools [OF b(2)]]
  have segs: "(\<Sum>r\<leftarrow>reqs1. length (pic_miss_segments r)) = (\<Sum>r\<leftarrow>reqs. length (pic_miss_segments r))"
    using tot(4) by induction (auto dest: more_fields)
  from c have c': "list_all2 (rope_allocated (take (miss_total reqs1) all) (take (local_miss_total reqs1) (drop (miss_total reqs1) all))
      (drop (miss_total reqs1 + local_miss_total reqs1) all)) reqs1 reqs'"
    "(\<Sum>r\<leftarrow>reqs'. req_kv r) + (\<Sum>r\<leftarrow>reqs'. hit_priv cf r) = mset all"
    "takes cf w2 {#} (\<Sum>r\<leftarrow>reqs'. req_mb r) w3" "rc_mamba rc = int (\<Sum>r\<leftarrow>reqs. length (pic_miss_segments r))"
    by (auto simp: reqs' segs)
  have "takes cf w (mset all) ((\<Sum>r\<leftarrow>reqs1. req_mamba r) + (\<Sum>r\<leftarrow>reqs'. req_mb r)) w3"
    using takes_trans [OF takes_trans [OF a(1) b(1)] c'(3)] by simp
  then show ?thesis
    using a c' b(2) w' tot(1-3) by metis
qed

section \<open>Allocation prepares the requests for finishing\<close>

text \<open>What the matching of a prompt promises of a request: it holds no state yet, its segments lie in the prompt and
  are distinct, and a scattered sub-request has one segment.\<close>

definition admissible :: "pic_config \<Rightarrow> int list set \<Rightarrow> 'r pic_req_scheme \<Rightarrow> bool" where
  "admissible cf S r \<longleftrightarrow> req_mamba r = {#} \<and> distinct (pic_miss_segments r) \<and> distinct (hit_segs r) \<and>
     (\<forall>seg\<in>set (pic_miss_segments r). fst seg \<le> snd seg \<and> snd seg \<le> length (origin_input_ids r) \<and>
        seg_slice (origin_input_ids r) seg \<in> S) \<and>
     (pic_scatter_single_seg r \<longrightarrow> global_seg r = None)"

lemma admissible_more:
  assumes "admissible cf S r" "req.more r1 = req.more r"
  shows "distinct (pic_miss_segments r1)"
    "seg \<in> set (pic_miss_segments r1) \<Longrightarrow> length (seg_slice (origin_input_ids r1) seg) = size_of seg"
    "seg \<in> set (pic_miss_segments r1) \<Longrightarrow> seg_slice (origin_input_ids r1) seg \<in> S"
    "seg \<in> set (pic_miss_segments r1) \<Longrightarrow> seg_len seg = int (size_of seg)"
    "pic_scatter_single_seg r1 \<longrightarrow> global_seg r1 = None"
  using assms(1) more_fields [OF assms(2)]
  by (auto simp: admissible_def global_seg_def seg_slice_def size_of_def seg_len_def split: if_splits option.splits)

lemma std_allocated_held:
  assumes al: "std_allocated cf out (length out) r1 r'" and adm: "admissible cf S r" "req.more r1 = req.more r"
    and std: "\<not> rope (cf_policy cf)"
  shows "std_held cf S r'"
proof -
  obtain cur new where new: "r' = r1\<lparr>pic_miss_segment_slots := new\<rparr>"
    "std_chunks cf (any_last_seg r1) out cur (pic_miss_segments r1) new"
    "cur + (\<Sum>seg\<leftarrow>pic_miss_segments r1. size_of seg) \<le> length out"
    using al by (auto simp: std_allocated_def)
  note a = admissible_more [OF adm] and keys = std_chunks_keys [OF new(2)]
  have "\<exists>kv m. sl = StdSlots kv m \<and> length kv = length (seg_slice (origin_input_ids r1) seg) \<and>
      seg_slice (origin_input_ids r1) seg \<in> S \<and> (m = None \<longrightarrow> \<not> cacheable_len cf seg)" if "(seg, sl) \<in> set new" for seg sl
  proof -
    have seg: "seg \<in> set (pic_miss_segments r1)"
      using that unfolding keys [symmetric] by force
    show ?thesis
      using std_chunks_entry [OF new(2) that] new(3) a(2,3,4) [OF seg] by (auto simp: short_miss_def cacheable_len_def)
  qed
  then show ?thesis
    using a(1,5) std keys by (auto simp: std_held_def new(1) global_seg_def)
qed

lemma rope_allocated_held:
  assumes al: "rope_allocated mp pp hp r1 r'" and adm: "admissible cf S r" "req.more r1 = req.more r"
    and rope: "rope (cf_policy cf)"
  shows "rope_held cf S r'"
proof -
  obtain mc pc new hnew where new: "r' = r1\<lparr>pic_miss_segment_slots := new, pic_rope_hit_private_slots := hnew\<rparr>"
    "rope_chunks (global_seg r1) mp pp mc pc (pic_miss_segments r1) new"
    "pc + local_size (global_seg r1) (pic_miss_segments r1) \<le> length pp"
    using al by (auto simp: rope_allocated_def)
  note a = admissible_more [OF adm] and keys = rope_chunks_keys [OF new(2)]
  have g: "global_seg r' = global_seg r1"
    by (simp add: new(1) global_seg_def)
  have seg: "seg \<in> set (pic_miss_segments r1)" if "(seg, sl) \<in> set new" for seg sl
    using that unfolding keys [symmetric] by force
  have shape: "rope_shape r'"
    unfolding rope_shape_def g using rope_chunks_entry [OF new(2)] by (fastforce simp: new(1))
  have "length q = length (seg_slice (origin_input_ids r1) seg) \<and> seg_slice (origin_input_ids r1) seg \<in> S"
    if "(seg, RopeSlots priv (Some q) m) \<in> set new" for seg priv q m
    using rope_chunks_entry [OF new(2) that] new(3) a(2,3) [OF seg [OF that]] by auto
  then show ?thesis
    using a(1,5) rope keys shape by (auto simp: rope_held_def new(1) global_seg_def)
qed

lemma rope_chunks_mb: "rope_chunks g mp pp mc pc segs new \<Longrightarrow> size (\<Sum>p\<leftarrow>new. slots_mb (snd p)) = length segs"
proof (induction segs arbitrary: mc pc new)
  case (Cons seg segs)
  then show ?case
    unfolding rope_chunks.simps by (elim exE conjE) simp
qed simp

lemma allocated_mamba:
  "std_allocated cf out n r r' \<Longrightarrow> req_mamba r' = req_mamba r"
  "rope_allocated mp pp hp r r' \<Longrightarrow> req_mamba r' = req_mamba r"
  "rope_allocated mp pp hp r r' \<Longrightarrow> size (req_mb r') = length (pic_miss_segments r)"
  by (auto simp: std_allocated_def rope_allocated_def req_mamba_def req_kv_rope dest: rope_chunks_mb)

lemma allocated_fields:
  "std_allocated cf out n r r' \<or> rope_allocated mp pp hp r r' \<Longrightarrow> pic_segments r' = pic_segments r \<and>
     pic_miss_segments r' = pic_miss_segments r \<and> pic_cache_owned_miss_segments r' = pic_cache_owned_miss_segments r \<and>
     pic_freed_miss_segments r' = pic_freed_miss_segments r"
  by (auto simp: std_allocated_def rope_allocated_def)

lemma list_all2_map_eq: "list_all2 P xs ys \<Longrightarrow> (\<And>x y. P x y \<Longrightarrow> f y = g x) \<Longrightarrow> map f ys = map g xs"
  by (induction rule: list_all2_induct) auto

lemma list_all2_chain:
  assumes "list_all2 P xs ys" "list_all2 Q ys zs" "\<And>x y z. x \<in> set xs \<Longrightarrow> P x y \<Longrightarrow> Q y z \<Longrightarrow> R x z"
  shows "list_all2 R xs zs"
  using assms by (auto simp: list_all2_conv_all_nth)

definition alloc_ready :: "pic_config \<Rightarrow> int list set \<Rightarrow> 'r pic_req_scheme \<Rightarrow> 'r pic_req_scheme \<Rightarrow> bool" where
  "alloc_ready cf S r r' \<longleftrightarrow> (std_held cf S r' \<or> rope_held cf S r') \<and> pic_segments r' = pic_segments r \<and>
     pic_miss_segments r' = pic_miss_segments r \<and> pic_cache_owned_miss_segments r' = pic_cache_owned_miss_segments r \<and>
     pic_freed_miss_segments r' = pic_freed_miss_segments r"

lemma allocated_alloc_ready:
  assumes "admissible cf S r" "req.more r1 = req.more r"
  shows "std_allocated cf out (length out) r1 r' \<Longrightarrow> \<not> rope (cf_policy cf) \<Longrightarrow> alloc_ready cf S r r'"
    "rope_allocated mp pp hp r1 r' \<Longrightarrow> rope (cf_policy cf) \<Longrightarrow> alloc_ready cf S r r'"
  using std_allocated_held [OF _ assms] rope_allocated_held [OF _ assms] more_fields(1,2,9,10) [OF assms(2)]
  by (simp_all add: alloc_ready_def) (metis allocated_fields)+

lemma add_inflight_simps:
  "pic_inv cf w \<Longrightarrow> a \<ge> 0 \<Longrightarrow> b \<ge> 0 \<Longrightarrow> pic_inv cf (add_inflight a b w)" "kv_acct (add_inflight a b w) = kv_acct w"
  "mb_acct (add_inflight a b w) = mb_acct w" "toks_in S (add_inflight a b w) \<longleftrightarrow> toks_in S w"
  "w_inflight_full_tokens (add_inflight a b w) = w_inflight_full_tokens w + a"
  "w_inflight_mamba_slots (add_inflight a b w) = w_inflight_mamba_slots w + b"
  by (simp_all add: add_inflight_def pic_inv_def entry_ok_def kv_acct_def mb_acct_def all_values_flatten_def
      all_mamba_values_flatten_def entry_values_def toks_in_def)

lemma pic_alloc_spec:
  assumes run: "pic_alloc_for_extend cf reqs w = (Inr (out, idxs, reqs'), w')"
    and inv: "pic_inv cf w" "is_not_in_free_group (w_kv w)" "-1 \<notin># mb_acct w" and adm: "\<forall>r\<in>set reqs. admissible cf S r"
  shows "\<exists>K w1. takes cf w K (\<Sum>r\<leftarrow>reqs'. req_mb r + req_mamba r) w1 \<and> K = (\<Sum>r\<leftarrow>reqs'. req_kv r + hit_priv cf r) \<and>
    w' = add_inflight (int (size K)) (int (size (\<Sum>r\<leftarrow>reqs'. req_mb r))) w1 \<and>
    list_all2 (alloc_ready cf S) reqs reqs' \<and> map req_pool_idx reqs' = map Some idxs \<and>
    list_all (\<lambda>m. m \<noteq> None) (map mamba_pool_idx reqs') \<and> admitted w idxs reqs reqs'"
proof (cases "rope (cf_policy cf)")
  case False
  have reqs: "\<forall>r\<in>set reqs. req_mamba r = {#} \<and> distinct (pic_miss_segments r)"
    using adm by (simp add: admissible_def)
  obtain reqs1 w1 where a: "map req.more reqs1 = map req.more reqs" "map req_pool_idx reqs1 = map Some idxs"
    "list_all (\<lambda>r. mamba_pool_idx r \<noteq> None) reqs1" "list_all2 (std_allocated cf out (length out)) reqs1 reqs'" "(\<Sum>r\<leftarrow>reqs'. req_kv r) = mset out"
    "takes cf w (mset out) ((\<Sum>r\<leftarrow>reqs1. req_mamba r) + (\<Sum>r\<leftarrow>reqs'. req_mb r)) w1"
    "w' = add_inflight (int (length out)) (int (size (\<Sum>r\<leftarrow>reqs'. req_mb r))) w1" "admitted w idxs reqs reqs1"
    using pic_alloc_standard_spec [OF run [unfolded pic_alloc_for_extend_def if_not_P [OF False]] inv reqs] by blast
  have maps: "map req_mamba reqs' = map req_mamba reqs1" "map req_pool_idx reqs' = map req_pool_idx reqs1" "map mamba_pool_idx reqs' = map mamba_pool_idx reqs1"
    "map kv_committed_len reqs' = map kv_committed_len reqs1"
    "map mamba_ping_pong_track_buffer reqs' = map mamba_ping_pong_track_buffer reqs1"
    by (rule list_all2_map_eq [OF a(4)], auto simp: allocated_mamba std_allocated_def)+
  have "(\<Sum>r\<leftarrow>reqs'. hit_priv cf r) = {#}"
    using False by (simp add: hit_priv_def)
  moreover have "list_all2 (alloc_ready cf S) reqs reqs'"
    by (rule list_all2_chain [OF more_lists(4) [OF a(1)] a(4)])
      (use adm False in \<open>auto intro: allocated_alloc_ready\<close>)
  ultimately show ?thesis
    using a(2,3,5-8) maps
    by (intro exI [of _ "mset out"] exI [of _ w1]) (simp add: sum_list_addf add.commute list.pred_map comp_def admitted_def)
next
  case True
  have reqs: "\<forall>r\<in>set reqs. req_mamba r = {#} \<and> distinct (pic_miss_segments r) \<and> distinct (hit_segs r)"
    using adm by (simp add: admissible_def)
  obtain reqs1 all w1 mp pp hp where a: "map req.more reqs1 = map req.more reqs" "map req_pool_idx reqs1 = map Some idxs"
    "list_all (\<lambda>r. mamba_pool_idx r \<noteq> None) reqs1" "list_all2 (rope_allocated mp pp hp) reqs1 reqs'" "(\<Sum>r\<leftarrow>reqs'. req_kv r) + (\<Sum>r\<leftarrow>reqs'. hit_priv cf r) = mset all"
    "takes cf w (mset all) ((\<Sum>r\<leftarrow>reqs1. req_mamba r) + (\<Sum>r\<leftarrow>reqs'. req_mb r)) w1"
    "w' = add_inflight (int (length all)) (int (\<Sum>r\<leftarrow>reqs. length (pic_miss_segments r))) w1" "admitted w idxs reqs reqs1"
    using pic_alloc_transition_rope_spec [OF run [unfolded pic_alloc_for_extend_def if_P [OF True]] inv True reqs] by blast
  have maps: "map req_mamba reqs' = map req_mamba reqs1" "map req_pool_idx reqs' = map req_pool_idx reqs1" "map mamba_pool_idx reqs' = map mamba_pool_idx reqs1"
    "map (\<lambda>r. size (req_mb r)) reqs' = map (\<lambda>r. length (pic_miss_segments r)) reqs1"
    "map kv_committed_len reqs' = map kv_committed_len reqs1"
    "map mamba_ping_pong_track_buffer reqs' = map mamba_ping_pong_track_buffer reqs1"
    by (rule list_all2_map_eq [OF a(4)], auto simp: allocated_mamba rope_allocated_def)+
  have "map (\<lambda>r. length (pic_miss_segments r)) reqs1 = map (\<lambda>r. length (pic_miss_segments r)) reqs"
    by (rule list_all2_map_eq [OF more_lists(4) [OF a(1)]]) (auto dest: more_fields)
  then have "(\<Sum>r\<leftarrow>reqs. length (pic_miss_segments r)) = (\<Sum>r\<leftarrow>reqs'. size (req_mb r))"
    using maps(4) by simp
  also have "\<dots> = size (\<Sum>r\<leftarrow>reqs'. req_mb r)"
    by (induction reqs') auto
  finally have "w' = add_inflight (int (size (mset all))) (int (size (\<Sum>r\<leftarrow>reqs'. req_mb r))) w1"
    using a(7) by simp
  moreover have "list_all2 (alloc_ready cf S) reqs reqs'"
    by (rule list_all2_chain [OF more_lists(4) [OF a(1)] a(4)])
      (use adm True in \<open>auto intro: allocated_alloc_ready\<close>)
  ultimately show ?thesis
    using a(2,3,5,6,8) maps
    by (intro exI [of _ "mset all"] exI [of _ w1]) (simp add: sum_list_addf add.commute list.pred_map comp_def admitted_def)
qed

text \<open>C2. Allocating an extend batch takes from the pools, evicting where needed, exactly the slots it hands out: the KV
  slots of every missed segment and of the private copies of the hits, and the mamba slots of the segments and of the
  requests; none is given out twice or lost, and all are counted as in flight. Every request is left in the shape that
  finishing expects.\<close>

theorem pic_alloc_conserves:
  assumes "pic_alloc_for_extend cf reqs w = (Inr (out, idxs, reqs'), w')"
    and "pic_inv cf w" "is_not_in_free_group (w_kv w)" "-1 \<notin># mb_acct w" "\<forall>r\<in>set reqs. admissible cf S r"
  shows "pic_inv cf w' \<and> kv_acct w = kv_acct w' + (\<Sum>r\<leftarrow>reqs'. req_kv r + hit_priv cf r) \<and>
    mb_acct w = mb_acct w' + (\<Sum>r\<leftarrow>reqs'. req_mb r + req_mamba r) \<and>
    w_inflight_full_tokens w' = w_inflight_full_tokens w + int (size (\<Sum>r\<leftarrow>reqs'. req_kv r + hit_priv cf r)) \<and>
    w_inflight_mamba_slots w' = w_inflight_mamba_slots w + int (size (\<Sum>r\<leftarrow>reqs'. req_mb r)) \<and>
    list_all2 (alloc_ready cf S) reqs reqs'"
  using pic_alloc_spec [OF assms] by (auto simp: takes_def add_inflight_simps)


definition ex_pending :: pic_req where
  "ex_pending = (ex_req [11, 12, 21, 22, 7] [(0, 2), (2, 4), (4, 5)])
     \<lparr>pic_miss_segments := [(2, 4), (4, 5)], pic_hit_segments := [(0, 2, segment_hash_tensor (\<lambda>b. b) [11, 12])],
      pic_segment_entries := [(segment_hash_tensor (\<lambda>b. b) [11, 12], 0)]\<rparr>"

lemma ex_pending_adm: "admissible (ex_cf ''addition'') ex_toks ex_pending"
  by (simp add: admissible_def ex_pending_def ex_req_def req_mamba_def hit_segs_def seg_slice_def ex_toks_def global_seg_def
      ex_cf_def POLICIES_def)

lemma ex_alloc:
  "fst (pic_alloc_for_extend (ex_cf ''addition'') [ex_pending] ex_world) = Inr ([3, 4, 5], [1],
     [ex_pending\<lparr>req_pool_idx := Some 1, mamba_pool_idx := Some 2, mamba_needs_clear := True,
        pic_miss_segment_slots := [((2, 4), StdSlots [3, 4] (Some 3)), ((4, 5), StdSlots [5] (Some 4))]\<rparr>])"
  by code_simp

definition ex_admitted :: pic_req where
  "ex_admitted = ex_pending\<lparr>req_pool_idx := Some 1, mamba_pool_idx := Some 2, mamba_needs_clear := True,
     pic_miss_segment_slots := [((2, 4), StdSlots [3, 4] (Some 3)), ((4, 5), StdSlots [5] (Some 4))]\<rparr>"

definition ex_alloc_world :: pic_world where
  "ex_alloc_world = snd (pic_alloc_for_extend (ex_cf ''addition'') [ex_pending] ex_world)"

lemma ex_alloc_run:
  "pic_alloc_for_extend (ex_cf ''addition'') [ex_pending] ex_world = (Inr ([3, 4, 5], [1], [ex_admitted]), ex_alloc_world)"
  using ex_alloc unfolding ex_alloc_world_def ex_admitted_def by (metis prod.collapse)

lemma ex_alloc_pre: "is_not_in_free_group (w_kv ex_world)" "-1 \<notin># mb_acct ex_world"
  by (simp_all add: ex_world_def insert_segment_def match_segment_def tick_def Let_def token_init_def token_clear_def mb_acct_def
      all_mamba_values_flatten_def entry_values_def mamba_owned_def hybrid_init_def req_pool_init_def req_pool.defs
      mamba_init_def mamba_clear_def)

theorem pic_alloc_conserves_witness:
  "kv_acct ex_world = kv_acct ex_alloc_world + {#3, 4, 5#} \<and> mb_acct ex_world = mb_acct ex_alloc_world + {#2, 3, 4#} \<and>
   w_inflight_full_tokens ex_alloc_world = w_inflight_full_tokens ex_world + 3"
proof -
  have slots: "(\<Sum>r\<leftarrow>[ex_admitted]. req_kv r + hit_priv (ex_cf ''addition'') r) = {#3, 4, 5#}"
    "(\<Sum>r\<leftarrow>[ex_admitted]. req_mb r + req_mamba r) = {#2, 3, 4#}"
    by (simp_all add: ex_admitted_def ex_pending_def ex_req_def req_kv_def req_mb_def req_mamba_def hit_priv_def ex_cf_def POLICIES_def)
  show ?thesis
    using pic_alloc_conserves [OF ex_alloc_run ex_world_inv ex_alloc_pre, of ex_toks] ex_pending_adm unfolding slots by simp
qed


end
