(* ===== verification/Paged_Allocator.thy ===== *)
theory Paged_Allocator
  imports Cache_Alloc
begin

text \<open>
  The page-granular KV allocator: \<^verbatim>\<open>mem_cache/allocator/paged.py\<close>, its two kernels in
  \<^verbatim>\<open>mem_cache/triton_ops/allocator.py\<close> and \<^verbatim>\<open>get_num_new_pages\<close>. A kernel program is the list of its stores
  (address, value) into the output tensor; a launch runs the programs in some order. Reads behind the end of the page list
  return the contents of foreign memory, the function \<open>junk\<close>; a masked lane of a load reads 0; the initial contents of
  \<^verbatim>\<open>torch.empty\<close> are the argument \<open>init\<close>. Lengths are naturals with \<open>prefix_lens ! i \<le> seq_lens ! i\<close>, slots are
  integers because \<open>last_loc\<close> is -1 for an empty prefix.
\<close>

section \<open>Page arithmetic\<close>

fun bit_length :: "nat \<Rightarrow> nat" where
  "bit_length n = (if n = 0 then 0 else Suc (bit_length (n div 2)))"

declare bit_length.simps [simp del]

definition next_power_of_2 :: "nat \<Rightarrow> nat" where
  "next_power_of_2 n = (if n > 0 then 2 ^ bit_length (n - 1) else 1)"

definition new_pages :: "nat \<Rightarrow> nat \<Rightarrow> nat \<Rightarrow> nat" where
  "new_pages page_size seq_len prefix_len = ceil_div seq_len page_size - ceil_div prefix_len page_size"

text \<open>\<open>None\<close> for absent prefix lengths.\<close>

definition get_num_new_pages :: "nat list \<Rightarrow> nat \<Rightarrow> nat list option \<Rightarrow> bool \<Rightarrow> nat result" where
  "get_num_new_pages seq_lens page_size prefix_lens decode =
     (case prefix_lens of
        Some pre \<Rightarrow>
          if decode then Inr (length (filter (\<lambda>s. s mod page_size = 1) seq_lens))
          else Inr (\<Sum>(s, p)\<leftarrow>zip seq_lens pre. new_pages page_size s p)
      | None \<Rightarrow>
          if decode then Inr (length (filter (\<lambda>s. s mod page_size = 1) seq_lens)) else Inl AssertionError)"

section \<open>The reference routine\<close>

definition cumsum :: "nat list \<Rightarrow> nat list" where
  "cumsum xs = map (\<lambda>i. sum_list (take (i + 1) xs)) [0..<length xs]"

definition page_slots :: "nat \<Rightarrow> nat list \<Rightarrow> int list" where
  "page_slots page_size pages = concat (map (\<lambda>p. map (\<lambda>k. int (p * page_size + k)) [0..<page_size]) pages)"

definition naive_step ::
  "nat \<Rightarrow> nat list \<Rightarrow> nat list \<Rightarrow> int list \<Rightarrow> nat list \<Rightarrow> nat \<Rightarrow> int list \<Rightarrow> int list result" where
  "naive_step page_size prefix_lens seq_lens last_loc free_page_ptr i out =
     (let extend_lens = map2 (-) seq_lens prefix_lens;
          end_pos = cumsum extend_lens ! i;
          start_pos = end_pos - extend_lens ! i;
          num_new_pages = map2 (new_pages page_size) seq_lens prefix_lens;
          need_page = int (num_new_pages ! i) -
            (int (seq_lens ! i div page_size) - int (ceil_div (prefix_lens ! i) page_size));
          end_new_pages = cumsum num_new_pages ! i;
          start_new_pages = end_new_pages - num_new_pages ! i;
          pre = prefix_lens ! i; sl = seq_lens ! i;
          num1 = min sl (ceil_div pre page_size * page_size) - pre
      in case (if num1 \<noteq> 0
               then row_write start_pos (start_pos + num1) (map (\<lambda>k. last_loc ! i + 1 + int k) (take num1 [0..<page_size])) out
               else Inr out) of
           Inl e \<Rightarrow> Inl e
         | Inr out1 \<Rightarrow>
             (if pre + num1 = sl then Inr out1
             else let num2 = (sl div page_size - ceil_div pre page_size) * page_size
                  in case (if num2 \<noteq> 0
                           then row_write (start_pos + num1) (start_pos + num1 + num2)
                                  (page_slots page_size (take (nat (int end_new_pages - need_page) - start_new_pages)
                                                           (drop start_new_pages free_page_ptr))) out1
                           else Inr out1) of
                       Inl e \<Rightarrow> Inl e
                     | Inr out2 \<Rightarrow>
                         (if pre + num1 + num2 = sl then Inr out2
                         else let num3 = sl - sl div page_size * page_size
                              in if num3 \<noteq> 0
                                 then row_write (end_pos - num3) end_pos
                                        (map (\<lambda>k. int (free_page_ptr ! (end_new_pages - 1) * page_size + k)) (take num3 [0..<page_size])) out2
                                 else Inr out2)))"

fun fold_result :: "('a \<Rightarrow> 'b \<Rightarrow> 'b result) \<Rightarrow> 'a list \<Rightarrow> 'b \<Rightarrow> 'b result" where
  "fold_result f [] b = Inr b"
| "fold_result f (x # xs) b = (case f x b of Inl e \<Rightarrow> Inl e | Inr b' \<Rightarrow> fold_result f xs b')"

definition alloc_extend_naive ::
  "nat list \<Rightarrow> nat list \<Rightarrow> int list \<Rightarrow> nat list \<Rightarrow> int list \<Rightarrow> nat \<Rightarrow> int list result" where
  "alloc_extend_naive prefix_lens seq_lens last_loc free_page_ptr out_indices page_size =
     fold_result (naive_step page_size prefix_lens seq_lens last_loc free_page_ptr) [0..<length prefix_lens] out_indices"

section \<open>The kernels\<close>

type_synonym stores = "(nat \<times> int) list"

definition run_stores :: "stores \<Rightarrow> int list \<Rightarrow> int list" where
  "run_stores sts out = fold (\<lambda>(a, v) out. out[a := v]) sts out"

definition tl_lanes :: "nat list \<Rightarrow> nat \<Rightarrow> nat \<Rightarrow> nat list" where
  "tl_lanes xs pid bs_upper = map (\<lambda>j. if j \<le> pid then xs ! j else 0) [0..<bs_upper]"

definition tl_load :: "(nat \<Rightarrow> nat) \<Rightarrow> nat list \<Rightarrow> nat \<Rightarrow> nat" where
  "tl_load junk xs i = (if i < length xs then xs ! i else junk i)"

definition tl_store :: "nat \<Rightarrow> nat list \<Rightarrow> (nat \<Rightarrow> int) \<Rightarrow> (nat \<Rightarrow> bool) \<Rightarrow> stores" where
  "tl_store base offsets val msk = map (\<lambda>k. (base + k, val k)) (filter msk offsets)"

definition BLOCK_EXTEND :: nat where
  "BLOCK_EXTEND = 4096"

definition alloc_extend_kernel ::
  "(nat \<Rightarrow> nat) \<Rightarrow> nat list \<Rightarrow> nat list \<Rightarrow> int list \<Rightarrow> nat list \<Rightarrow> nat \<Rightarrow> nat \<Rightarrow> nat \<Rightarrow> stores" where
  "alloc_extend_kernel junk prefix_lens seq_lens last_loc free_page_ptr bs_upper page_size pid =
     (let seq_lanes = tl_lanes seq_lens pid bs_upper; pre_lanes = tl_lanes prefix_lens pid bs_upper;
          seq_len = seq_lens ! pid; pre_len = prefix_lens ! pid;
          extend_len = seq_len - pre_len;
          output_start_loc = sum_list (map2 (-) seq_lanes pre_lanes) - extend_len;
          num_page_start_loc_self = new_pages page_size seq_len pre_len;
          new_page_start_loc = sum_list (map2 (new_pages page_size) seq_lanes pre_lanes) - num_page_start_loc_self;
          num_part1 = min seq_len (ceil_div pre_len page_size * page_size) - pre_len;
          part1 = tl_store output_start_loc [0..<page_size] (\<lambda>k. last_loc ! pid + 1 + int k) (\<lambda>k. k < num_part1)
      in if pre_len + num_part1 = seq_len then part1
         else let num_part2 = seq_len div page_size * page_size - ceil_div pre_len page_size * page_size;
                  num_blocks = ceil_div num_part2 BLOCK_EXTEND;
                  part2 = concat (map (\<lambda>block_id.
                    tl_store (output_start_loc + num_part1) (map (\<lambda>k. block_id * BLOCK_EXTEND + k) [0..<BLOCK_EXTEND])
                      (\<lambda>offset. int (tl_load junk free_page_ptr (new_page_start_loc + offset div page_size) * page_size + offset mod page_size))
                      (\<lambda>offset. offset < num_part2)) [0..<num_blocks])
              in if pre_len + num_part1 + num_part2 = seq_len then part1 @ part2
                 else let num_part3 = seq_len - seq_len div page_size * page_size;
                          start_loc = tl_load junk free_page_ptr (new_page_start_loc + num_page_start_loc_self - 1)
                      in part1 @ part2 @ tl_store (output_start_loc + num_part1 + num_part2) [0..<page_size]
                           (\<lambda>k. int (start_loc * page_size + k)) (\<lambda>k. k < num_part3))"

definition alloc_decode_kernel ::
  "(nat \<Rightarrow> nat) \<Rightarrow> nat list \<Rightarrow> int list \<Rightarrow> nat list \<Rightarrow> nat \<Rightarrow> nat \<Rightarrow> nat \<Rightarrow> stores" where
  "alloc_decode_kernel junk seq_lens last_loc free_page_ptr bs_upper page_size pid =
     (let seq_lanes = tl_lanes seq_lens pid bs_upper;
          pre_lanes = map (\<lambda>j. if j \<le> pid then seq_lanes ! j - 1 else seq_lanes ! j) [0..<bs_upper];
          seq_len = seq_lens ! pid; pre_len = seq_len - 1;
          num_page_start_loc_self = new_pages page_size seq_len pre_len;
          new_page_start_loc = sum_list (map2 (new_pages page_size) seq_lanes pre_lanes) - num_page_start_loc_self
      in if num_page_start_loc_self = 0 then [(pid, last_loc ! pid + 1)]
         else [(pid, int (tl_load junk free_page_ptr new_page_start_loc * page_size))])"

text \<open>A launch: the programs run in the order \<open>pids\<close>.\<close>

definition launch :: "(nat \<Rightarrow> stores) \<Rightarrow> nat list \<Rightarrow> int list \<Rightarrow> int list" where
  "launch prog pids out = fold (\<lambda>pid. run_stores (prog pid)) pids out"

section \<open>PagedTokenToKVPoolAllocator\<close>

record paged_alloc = kv_alloc +
  num_pages :: nat
  debug_mode :: bool

definition paged_clear :: "paged_alloc \<Rightarrow> paged_alloc" where
  "paged_clear a = a\<lparr>free_pages := [1..<num_pages a + 1], is_not_in_free_group := True, free_group := [], release_pages := []\<rparr>"

definition paged_init :: "nat \<Rightarrow> nat \<Rightarrow> bool \<Rightarrow> bool \<Rightarrow> paged_alloc" where
  "paged_init sz page srt debug =
     paged_clear \<lparr>al_size = sz, al_page_size = page, need_sort = srt, free_pages = [], release_pages = [],
       is_not_in_free_group = True, free_group = [], num_pages = sz div page, debug_mode = debug\<rparr>"

definition paged_alloc_slots :: "nat \<Rightarrow> (paged_alloc, int list option) pym" where
  "paged_alloc_slots need_size = (\<lambda>a.
     if debug_mode a \<and> need_size mod al_page_size a \<noteq> 0 then (Inl AssertionError, a)
     else let n = need_size div al_page_size a;
              a1 = (if need_sort a \<and> n > length (free_pages a) then merge_and_sort_free a else a)
          in if n > length (free_pages a1) then (Inr None, a1)
             else (Inr (Some (page_slots (al_page_size a1) (take n (free_pages a1)))),
                   a1\<lparr>free_pages := drop n (free_pages a1)\<rparr>))"

text \<open>What the surroundings of a launch supply: foreign memory, the contents of a fresh tensor, the order of the programs.\<close>

record launch_env =
  le_junk :: "nat \<Rightarrow> nat"
  le_init :: "nat \<Rightarrow> int list"
  le_order :: "nat \<Rightarrow> nat list"

definition take_pages :: "nat \<Rightarrow> int list \<Rightarrow> (paged_alloc, int list option) pym" where
  "take_pages n out = (\<lambda>a.
     if n > length (free_pages a) then (Inr None, a)
     else (Inr (Some out), a\<lparr>free_pages := drop n (free_pages a)\<rparr>))"

definition paged_alloc_extend ::
  "launch_env \<Rightarrow> nat list \<Rightarrow> nat list \<Rightarrow> nat list \<Rightarrow> nat list \<Rightarrow> int list \<Rightarrow> nat \<Rightarrow> nat option \<Rightarrow>
     (paged_alloc, int list option) pym" where
  "paged_alloc_extend env prefix_lens prefix_lens_cpu seq_lens seq_lens_cpu last_loc extend_num_tokens num_new_pages = (\<lambda>a.
     if debug_mode a \<and> \<not> list_all2 (\<lambda>l p. (l + 1) mod int (al_page_size a) = int p mod int (al_page_size a)) last_loc prefix_lens
     then (Inl AssertionError, a)
     else let bs = length prefix_lens;
              a1 = (if need_sort a \<and> extend_num_tokens div al_page_size a + bs + 1 > length (free_pages a)
                    then merge_and_sort_free a else a);
              out_indices = launch (alloc_extend_kernel (le_junk env) prefix_lens seq_lens last_loc (free_pages a1)
                              (next_power_of_2 bs) (al_page_size a1)) (le_order env bs) (le_init env extend_num_tokens)
          in if debug_mode a1 \<and> \<not> distinct out_indices then (Inl AssertionError, a1)
             else case (case num_new_pages of Some n \<Rightarrow> Inr n
                        | None \<Rightarrow> get_num_new_pages seq_lens_cpu (al_page_size a1) (Some prefix_lens_cpu) False) of
                    Inl e \<Rightarrow> (Inl e, a1)
                  | Inr n \<Rightarrow> take_pages n out_indices a1)"

definition paged_alloc_decode ::
  "launch_env \<Rightarrow> nat list \<Rightarrow> nat list \<Rightarrow> int list \<Rightarrow> (paged_alloc, int list option) pym" where
  "paged_alloc_decode env seq_lens seq_lens_cpu last_loc = (\<lambda>a.
     if debug_mode a \<and> \<not> list_all2 (\<lambda>l s. (l + 2) mod int (al_page_size a) = int s mod int (al_page_size a)) last_loc seq_lens
     then (Inl AssertionError, a)
     else let bs = length seq_lens;
              a1 = (if need_sort a \<and> bs > length (free_pages a) then merge_and_sort_free a else a);
              out_indices = launch (alloc_decode_kernel (le_junk env) seq_lens last_loc (free_pages a1)
                              (next_power_of_2 bs) (al_page_size a1)) (le_order env bs) (le_init env bs)
          in if debug_mode a1 \<and> \<not> distinct out_indices then (Inl AssertionError, a1)
             else case get_num_new_pages seq_lens_cpu (al_page_size a1) None True of
                    Inl e \<Rightarrow> (Inl e, a1)
                  | Inr n \<Rightarrow> take_pages n out_indices a1)"

definition paged_free :: "nat list \<Rightarrow> (paged_alloc, unit) pym" where
  "paged_free free_index = (\<lambda>a.
     if length free_index = 0 then (Inr (), a)
     else let a1 = (if is_not_in_free_group a
                    then let free_page_indices = sorted_list_of_set ((\<lambda>x. x div al_page_size a) ` set free_index)
                         in if need_sort a then a\<lparr>release_pages := free_page_indices @ release_pages a\<rparr>
                            else a\<lparr>free_pages := free_page_indices @ free_pages a\<rparr>
                    else a\<lparr>free_group := free_group a @ [free_index]\<rparr>)
          in if debug_mode a1 \<and> \<not> distinct (free_pages a1) then (Inl AssertionError, a1) else (Inr (), a1))"

section \<open>Arithmetic of pages\<close>

lemma ceil_div_bounds:
  assumes "0 < ps"
  shows "n \<le> ceil_div n ps * ps" "ceil_div n ps * ps < n + ps"
proof -
  have eq: "ceil_div n ps * ps + (n + ps - 1) mod ps = n + ps - 1"
    unfolding ceil_div_def by (rule div_mult_mod_eq)
  have lt: "(n + ps - 1) mod ps < ps"
    using assms by simp
  show "n \<le> ceil_div n ps * ps" "ceil_div n ps * ps < n + ps"
    using eq lt assms by linarith+
qed

lemma ceil_div_mono: "m \<le> n \<Longrightarrow> ceil_div m ps \<le> ceil_div n ps"
  unfolding ceil_div_def by (intro div_le_mono) simp

lemma ceil_div_0 [simp]: "ceil_div 0 ps = 0"
  by (cases ps) (simp_all add: ceil_div_def)

lemma new_pages_self [simp]: "new_pages ps n n = 0"
  by (simp add: new_pages_def)

lemma ceil_div_split:
  assumes "0 < ps"
  shows "ceil_div n ps = (if n mod ps = 0 then n div ps else Suc (n div ps))"
proof -
  have b: "n \<le> ceil_div n ps * ps" "ceil_div n ps * ps < n + ps"
    using ceil_div_bounds [OF assms] by auto
  have n: "n = n div ps * ps + n mod ps" "n mod ps < ps"
    using assms by simp_all
  show ?thesis
  proof (cases "n mod ps = 0")
    case True
    then have eq: "n = n div ps * ps"
      using n(1) by simp
    have "n div ps * ps \<le> ceil_div n ps * ps"
      using b(1) eq by simp
    then have "n div ps \<le> ceil_div n ps"
      using assms by simp
    moreover have "ceil_div n ps * ps < Suc (n div ps) * ps"
      using b(2) eq by simp
    then have "ceil_div n ps < Suc (n div ps)"
      using assms by (simp only: mult_less_cancel2)
    ultimately show ?thesis
      using True by simp
  next
    case False
    have "n div ps * ps < ceil_div n ps * ps"
      using b(1) n(1) False by linarith
    then have "n div ps < ceil_div n ps"
      by (simp only: mult_less_cancel2)
    moreover have "ceil_div n ps * ps < (n div ps + 2) * ps"
      unfolding add_mult_distrib using b(2) n by linarith
    then have "ceil_div n ps < n div ps + 2"
      by (simp only: mult_less_cancel2)
    ultimately show ?thesis
      using False by simp
  qed
qed

lemma bit_length_bound: "n < 2 ^ bit_length n"
proof (induction n rule: bit_length.induct)
  case (1 n)
  show ?case
  proof (cases "n = 0")
    case False
    then have "n div 2 < 2 ^ bit_length (n div 2)"
      using 1 by simp
    then show ?thesis
      using False by (subst bit_length.simps) simp
  qed (simp add: bit_length.simps)
qed

lemma next_power_of_2_ge: "n \<le> next_power_of_2 n"
  using bit_length_bound [of "n - 1"] by (auto simp: next_power_of_2_def)

text \<open>Decoding needs a new page exactly when the last token opens one.\<close>

lemma new_pages_decode:
  assumes "1 < ps" "1 \<le> s"
  shows "new_pages ps s (s - 1) = (if s mod ps = 1 then 1 else 0)"
proof -
  have ps: "0 < ps"
    using assms(1) by simp
  obtain m where s: "s = Suc m"
    using assms(2) by (cases s) auto
  show ?thesis
  proof (cases "Suc (m mod ps) = ps")
    case True
    then have "s mod ps = 0" "s div ps = Suc (m div ps)" "m mod ps \<noteq> 0"
      using assms(1) by (auto simp: s mod_Suc div_Suc)
    then show ?thesis
      using ps by (simp add: new_pages_def ceil_div_split s)
  next
    case False
    then have "s mod ps = Suc (m mod ps)" "s div ps = m div ps"
      by (auto simp: s mod_Suc div_Suc)
    then show ?thesis
      using ps by (auto simp: new_pages_def ceil_div_split s)
  qed
qed

section \<open>The slots of one request\<close>

text \<open>
  The specification both routines meet: positions up to the end of the prefix's last page follow \<open>last_loc\<close>, the others
  lie in the request's new pages \<open>pg 0, pg 1, \<dots>\<close> in order.
\<close>

definition extend_slots :: "nat \<Rightarrow> nat \<Rightarrow> nat \<Rightarrow> int \<Rightarrow> (nat \<Rightarrow> nat) \<Rightarrow> int list" where
  "extend_slots ps pre sl lastl pg = map (\<lambda>j. if j < ceil_div pre ps * ps then lastl + 1 + int (j - pre)
     else int (pg (j div ps - ceil_div pre ps) * ps + j mod ps)) [pre..<sl]"

lemma length_extend_slots [simp]: "length (extend_slots ps pre sl lastl pg) = sl - pre"
  by (simp add: extend_slots_def)

lemma extend_slots_parts:
  assumes ps: "0 < ps" and le: "pre \<le> sl"
  defines "c \<equiv> ceil_div pre ps * ps"
  shows "extend_slots ps pre sl lastl pg = map (\<lambda>k. lastl + 1 + int k) [0..<min sl c - pre] @
    map (\<lambda>k. int (pg (k div ps) * ps + k mod ps)) [0..<sl - c]"
proof (rule nth_equalityI)
  show "length (extend_slots ps pre sl lastl pg) = length (map (\<lambda>k. lastl + 1 + int k) [0..<min sl c - pre] @
      map (\<lambda>k. int (pg (k div ps) * ps + k mod ps)) [0..<sl - c])"
    using le ceil_div_bounds(1) [OF ps, of pre] by (auto simp: c_def)
  fix k
  assume k: "k < length (extend_slots ps pre sl lastl pg)"
  show "extend_slots ps pre sl lastl pg ! k = (map (\<lambda>k. lastl + 1 + int k) [0..<min sl c - pre] @
      map (\<lambda>k. int (pg (k div ps) * ps + k mod ps)) [0..<sl - c]) ! k"
  proof (cases "pre + k < c")
    case True
    then show ?thesis
      using k by (auto simp: extend_slots_def nth_append c_def)
  next
    case False
    define o' where "o' = pre + k - c"
    have jo: "pre + k = ceil_div pre ps * ps + o'"
      using False by (simp add: o'_def c_def)
    have "(pre + k) div ps = ceil_div pre ps + o' div ps" "(pre + k) mod ps = o' mod ps"
      unfolding jo using ps by simp_all
    moreover have "min sl c - pre \<le> k" "k - (min sl c - pre) = o'" "o' < sl - c"
      using False k ceil_div_bounds(1) [OF ps, of pre] by (auto simp: o'_def c_def)
    ultimately show ?thesis
      using False k by (auto simp: extend_slots_def nth_append c_def)
  qed
qed

section \<open>A kernel program writes the slots of its request\<close>

definition upto_sum :: "(nat \<Rightarrow> nat \<Rightarrow> nat) \<Rightarrow> nat list \<Rightarrow> nat list \<Rightarrow> nat \<Rightarrow> nat" where
  "upto_sum f xs ys i = (\<Sum>j\<leftarrow>[0..<i]. f (xs ! j) (ys ! j))"

lemma upto_sum_Suc: "upto_sum f xs ys (Suc i) = upto_sum f xs ys i + f (xs ! i) (ys ! i)"
  by (simp add: upto_sum_def)

lemma sum_lanes_prefix:
  "pid < n \<Longrightarrow> (\<Sum>j\<leftarrow>[0..<n]. if j \<le> pid then g j else (0::nat)) = (\<Sum>j\<leftarrow>[0..<Suc pid]. g j)"
proof (induction n)
  case (Suc n)
  show ?case
  proof (cases "pid = n")
    case True
    have "map (\<lambda>j. if j \<le> n then g j else 0) [0..<Suc n] = map g [0..<Suc n]"
      by (simp del: upt_Suc)
    then show ?thesis
      using True by (simp only:)
  qed (use Suc in simp)
qed simp

lemma sum_lanes:
  assumes "f 0 0 = 0" "pid < bs"
  shows "sum_list (map2 f (tl_lanes xs pid bs) (tl_lanes ys pid bs)) = upto_sum f xs ys (Suc pid)"
proof -
  have "map2 f (tl_lanes xs pid bs) (tl_lanes ys pid bs) = map (\<lambda>j. if j \<le> pid then f (xs ! j) (ys ! j) else 0) [0..<bs]"
    using assms(1) by (auto simp: tl_lanes_def zip_map1 zip_map2 zip_same_conv_map)
  then show ?thesis
    using sum_lanes_prefix [OF assms(2)] by (simp add: upto_sum_def del: upt_Suc)
qed

lemma filter_less_upt: "n \<le> m \<Longrightarrow> filter (\<lambda>k. k < n) [0..<m] = [0..<n]"
  by (induction m) (auto simp: le_Suc_eq)

lemma tl_store_prefix: "n \<le> m \<Longrightarrow> tl_store base [0..<m] val (\<lambda>k. k < n) = map (\<lambda>k. (base + k, val k)) [0..<n]"
  by (simp add: tl_store_def filter_less_upt)

lemma blocks_upt: "concat (map (\<lambda>b. map (\<lambda>k. b * B + k) [0..<B]) [0..<m]) = [0..<m * B]"
proof (induction m)
  case (Suc m)
  have "[0..<Suc m * B] = [0..<m * B] @ map (\<lambda>k. m * B + k) [0..<B]"
    by (rule nth_equalityI) (auto simp: nth_append)
  then show ?case
    using Suc by simp
qed simp

lemma tl_store_blocks:
  assumes "0 < B"
  shows "concat (map (\<lambda>b. tl_store base (map (\<lambda>k. b * B + k) [0..<B]) val (\<lambda>k. k < n)) [0..<ceil_div n B]) =
    map (\<lambda>k. (base + k, val k)) [0..<n]"
proof -
  have "concat (map (\<lambda>b. tl_store base (map (\<lambda>k. b * B + k) [0..<B]) val (\<lambda>k. k < n)) [0..<ceil_div n B]) =
      map (\<lambda>k. (base + k, val k)) (filter (\<lambda>k. k < n) [0..<ceil_div n B * B])"
    unfolding blocks_upt [symmetric] tl_store_def by (simp add: filter_concat map_concat comp_def)
  then show ?thesis
    using ceil_div_bounds(1) [OF assms, of n] by (simp add: filter_less_upt)
qed

lemma map_stores_zip: "map (\<lambda>k. (base + k, val k)) [0..<n] = zip [base..<base + n] (map val [0..<n])"
  by (rule nth_equalityI) auto

lemma tail_split:
  assumes ps: "0 < ps" and lt: "ceil_div pre ps * ps < sl"
  defines "n2 \<equiv> (sl div ps - ceil_div pre ps) * ps" and "n3 \<equiv> sl - sl div ps * ps"
  shows "n2 = sl div ps * ps - ceil_div pre ps * ps" "sl - ceil_div pre ps * ps = n2 + n3" "n3 < ps"
    "ceil_div pre ps \<le> sl div ps"
    "map f [0..<sl - ceil_div pre ps * ps] = map f [0..<n2] @ map (\<lambda>k. f (n2 + k)) [0..<n3]"
proof -
  have "ceil_div pre ps * ps div ps \<le> sl div ps"
    using lt by (intro div_le_mono) simp
  then show le: "ceil_div pre ps \<le> sl div ps"
    using ps by simp
  show n2: "n2 = sl div ps * ps - ceil_div pre ps * ps"
    by (simp add: n2_def diff_mult_distrib)
  have le2: "ceil_div pre ps * ps \<le> sl div ps * ps"
    using le by simp
  have sl: "sl div ps * ps + sl mod ps = sl"
    by (rule div_mult_mod_eq)
  then have n3: "n3 = sl mod ps"
    unfolding n3_def by linarith
  show "n3 < ps"
    unfolding n3 using ps by simp
  show tot: "sl - ceil_div pre ps * ps = n2 + n3"
    unfolding n2 n3 using le2 sl by linarith
  show "map f [0..<sl - ceil_div pre ps * ps] = map f [0..<n2] @ map (\<lambda>k. f (n2 + k)) [0..<n3]"
    unfolding tot by (rule nth_equalityI) (auto simp: nth_append)
qed

text \<open>The page of the last, partial page of a request.\<close>

lemma partial_page:
  assumes ps: "0 < ps" and lt: "ceil_div pre ps * ps < sl" and part: "sl \<noteq> sl div ps * ps"
  shows "new_pages ps sl pre = Suc (sl div ps - ceil_div pre ps)"
proof -
  have "sl mod ps \<noteq> 0"
    using part div_mult_mod_eq [of sl ps] by (metis add.right_neutral)
  then show ?thesis
    using tail_split(4) [OF ps lt] ps by (simp add: new_pages_def ceil_div_split [of ps sl] Suc_diff_le)
qed

text \<open>Parts 2 and 3 of the kernel together write the positions in the new pages, \<open>pg k\<close> the \<open>k\<close>-th of them.\<close>

lemma kernel_tail:
  fixes pg :: "nat \<Rightarrow> nat"
  assumes ps: "0 < ps" and lt: "ceil_div pre ps * ps < sl"
  defines "n2 \<equiv> sl div ps * ps - ceil_div pre ps * ps" and "n3 \<equiv> sl - sl div ps * ps"
    and "val \<equiv> \<lambda>k. int (pg (k div ps) * ps + k mod ps)"
  shows "concat (map (\<lambda>b. tl_store base (map (\<lambda>k. b * BLOCK_EXTEND + k) [0..<BLOCK_EXTEND]) val (\<lambda>k. k < n2))
      [0..<ceil_div n2 BLOCK_EXTEND]) @
    (if ceil_div pre ps * ps + n2 = sl then []
     else tl_store (base + n2) [0..<ps] (\<lambda>k. int (pg (new_pages ps sl pre - 1) * ps + k)) (\<lambda>k. k < n3)) =
    map (\<lambda>k. (base + k, val k)) [0..<sl - ceil_div pre ps * ps]"
proof -
  have n2: "n2 = (sl div ps - ceil_div pre ps) * ps"
    by (simp add: n2_def diff_mult_distrib)
  note tl = tail_split [OF ps lt, folded n2 n3_def]
  have blocks: "concat (map (\<lambda>b. tl_store base (map (\<lambda>k. b * BLOCK_EXTEND + k) [0..<BLOCK_EXTEND]) val (\<lambda>k. k < n2))
      [0..<ceil_div n2 BLOCK_EXTEND]) = map (\<lambda>k. (base + k, val k)) [0..<n2]"
    by (rule tl_store_blocks) (simp add: BLOCK_EXTEND_def)
  show ?thesis
  proof (cases "ceil_div pre ps * ps + n2 = sl")
    case True
    then have "sl - ceil_div pre ps * ps = n2"
      by linarith
    then show ?thesis
      using True by (simp add: blocks)
  next
    case False
    then have "sl \<noteq> sl div ps * ps"
      using tl(2) lt by (auto simp: n3_def)
    then have "new_pages ps sl pre - 1 = n2 div ps"
      using partial_page [OF ps lt] ps by (simp add: n2)
    moreover have "val (n2 + k) = int (pg (n2 div ps) * ps + k)" if "k < n3" for k
      using that tl(3) ps by (simp add: val_def n2)
    ultimately have part3: "tl_store (base + n2) [0..<ps] (\<lambda>k. int (pg (new_pages ps sl pre - 1) * ps + k)) (\<lambda>k. k < n3) =
        map (\<lambda>k. (base + (n2 + k), val (n2 + k))) [0..<n3]"
      using tl(3) by (subst tl_store_prefix) auto
    show ?thesis
      using tl(5) [of "\<lambda>k. (base + k, val k)"] False by (simp only: blocks part3 if_False)
  qed
qed

lemma slots_zip:
  assumes ps: "0 < ps" and le: "pre \<le> sl"
  defines "c \<equiv> ceil_div pre ps * ps"
  defines "n1 \<equiv> min sl c - pre"
  shows "map (\<lambda>k. (s + k, l + 1 + int k)) [0..<n1] @
      map (\<lambda>k. (s + n1 + k, int (pg (k div ps) * ps + k mod ps))) [0..<sl - c] =
    zip [s..<s + (sl - pre)] (extend_slots ps pre sl l pg)"
proof -
  have total: "s + (sl - pre) = s + n1 + (sl - c)"
    using ceil_div_bounds(1) [OF ps, of pre] le by (auto simp: n1_def c_def)
  have up: "[s..<s + n1 + (sl - c)] = [s..<s + n1] @ [s + n1..<s + n1 + (sl - c)]"
    by (rule upt_add_eq_append) simp
  show ?thesis
    unfolding total up extend_slots_parts [OF ps le] map_stores_zip c_def [symmetric] n1_def [symmetric] by simp
qed

lemma alloc_extend_kernel_writes:
  assumes ps: "0 < ps" and pid: "pid < bs" and le: "prefix_lens ! pid \<le> seq_lens ! pid"
  defines "s \<equiv> upto_sum (-) seq_lens prefix_lens pid" and "np \<equiv> upto_sum (new_pages ps) seq_lens prefix_lens pid"
  shows "alloc_extend_kernel junk prefix_lens seq_lens last_loc free_page_ptr bs ps pid =
    zip [s..<s + (seq_lens ! pid - prefix_lens ! pid)]
      (extend_slots ps (prefix_lens ! pid) (seq_lens ! pid) (last_loc ! pid) (\<lambda>k. tl_load junk free_page_ptr (np + k)))"
proof -
  define pre sl where "pre = prefix_lens ! pid" and "sl = seq_lens ! pid"
  define c where "c = ceil_div pre ps * ps"
  define n1 where "n1 = min sl c - pre"
  let ?l = "last_loc ! pid" and ?pg = "\<lambda>k. tl_load junk free_page_ptr (np + k)"
  have start: "sum_list (map2 (-) (tl_lanes seq_lens pid bs) (tl_lanes prefix_lens pid bs)) - (sl - pre) = s"
    and npages: "sum_list (map2 (new_pages ps) (tl_lanes seq_lens pid bs) (tl_lanes prefix_lens pid bs)) - new_pages ps sl pre = np"
    using pid by (simp_all add: sum_lanes upto_sum_Suc s_def np_def pre_def sl_def)
  have c: "pre \<le> c" "c < pre + ps" and le': "pre \<le> sl"
    using ceil_div_bounds [OF ps, of pre] le by (simp_all add: c_def pre_def sl_def)
  have part1: "tl_store s [0..<ps] (\<lambda>k. ?l + 1 + int k) (\<lambda>k. k < n1) = map (\<lambda>k. (s + k, ?l + 1 + int k)) [0..<n1]"
    using c by (intro tl_store_prefix) (auto simp: n1_def)
  note join = slots_zip [OF ps le', of s ?l ?pg, folded c_def, folded n1_def]
  have kernel: "alloc_extend_kernel junk prefix_lens seq_lens last_loc free_page_ptr bs ps pid =
      zip [s..<s + (sl - pre)] (extend_slots ps pre sl ?l ?pg)"
  proof (cases "pre + n1 = sl")
    case True
    then have "sl - c = 0"
      using c by (auto simp: n1_def)
    then show ?thesis
      using True join
      unfolding alloc_extend_kernel_def Let_def pre_def [symmetric] sl_def [symmetric] start npages c_def [symmetric] n1_def [symmetric] part1
      by simp
  next
    case False
    then have lt: "c < sl"
      using c le' by (auto simp: n1_def)
    have pn: "pre + n1 = c"
      using lt c by (simp add: n1_def)
    have np1: "np + new_pages ps sl pre - 1 = np + (new_pages ps sl pre - 1)" if "sl \<noteq> sl div ps * ps"
      using partial_page [OF ps lt [unfolded c_def] that] by simp
    note tail = kernel_tail [OF ps lt [unfolded c_def], of "s + n1" ?pg, folded c_def]
    note unfold = alloc_extend_kernel_def Let_def pre_def [symmetric] sl_def [symmetric] start npages c_def [symmetric]
      n1_def [symmetric] pn if_not_P [OF False [unfolded pn]] part1
    show ?thesis
    proof (cases "c + (sl div ps * ps - c) = sl")
      case True
      show ?thesis
        using tail [unfolded if_P [OF True] append_Nil2] join unfolding unfold if_P [OF True] by (simp only:)
    next
      case F: False
      then have "sl \<noteq> sl div ps * ps"
        using lt by auto
      note last = np1 [OF this]
      show ?thesis
        using tail [unfolded if_not_P [OF F]] join unfolding unfold if_not_P [OF F] last by (simp only:)
    qed
  qed
  then show ?thesis
    by (simp add: pre_def sl_def)
qed

section \<open>Writing one segment after the other\<close>

definition seg_start :: "(nat \<Rightarrow> 'a list) \<Rightarrow> nat \<Rightarrow> nat" where
  "seg_start v i = (\<Sum>j\<leftarrow>[0..<i]. length (v j))"

definition seg_write :: "(nat \<Rightarrow> 'a list) \<Rightarrow> nat \<Rightarrow> 'a list \<Rightarrow> 'a list" where
  "seg_write v i out = take (seg_start v i) out @ v i @ drop (seg_start v i + length (v i)) out"

lemma seg_start_Suc: "seg_start v (Suc i) = seg_start v i + length (v i)"
  by (simp add: seg_start_def)

lemma seg_start_mono: "i < j \<Longrightarrow> seg_start v i + length (v i) \<le> seg_start v j"
proof (induction j)
  case (Suc j)
  then show ?case
    by (cases "i = j") (auto simp: seg_start_Suc)
qed simp

lemma seg_write_length: "seg_start v (Suc i) \<le> length out \<Longrightarrow> length (seg_write v i out) = length out"
  by (simp add: seg_write_def seg_start_Suc)

lemma seg_write_nth:
  assumes "seg_start v (Suc i) \<le> length out" "k < length out"
  shows "seg_write v i out ! k = (if seg_start v i \<le> k \<and> k < seg_start v (Suc i) then v i ! (k - seg_start v i) else out ! k)"
  using assms by (auto simp: seg_write_def seg_start_Suc nth_append)

lemma seg_writes_nth:
  assumes "set is \<subseteq> {..<n}" "length out = seg_start v n"
  shows "length (fold (seg_write v) is out) = length out \<and>
    (\<forall>i\<in>set is. \<forall>k<length (v i). fold (seg_write v) is out ! (seg_start v i + k) = v i ! k)"
  using assms(1)
proof (induction "is" rule: rev_induct)
  case (snoc i "is")
  let ?o = "fold (seg_write v) is out"
  have i: "i < n" and o: "length ?o = length out"
    and IH: "\<forall>i\<in>set is. \<forall>k<length (v i). ?o ! (seg_start v i + k) = v i ! k"
    using snoc by auto
  have b: "seg_start v (Suc i) \<le> length ?o"
    using seg_start_mono [OF i, of v] assms(2) o by (simp add: seg_start_Suc)
  have "seg_write v i ?o ! (seg_start v j + k) = v j ! k" if j: "j \<in> insert i (set is)" "k < length (v j)" for j k
  proof -
    have "j < n"
      using j snoc.prems by auto
    then have lt: "seg_start v j + k < length ?o"
      using seg_start_mono [of j n v] j(2) assms(2) o by simp
    show ?thesis
    proof (cases "j = i")
      case True
      then show ?thesis
        using seg_write_nth [OF b lt] j(2) by (simp add: seg_start_Suc)
    next
      case False
      then have "\<not> (seg_start v i \<le> seg_start v j + k \<and> seg_start v j + k < seg_start v (Suc i))"
        using seg_start_mono [of i j v] seg_start_mono [of j i v] j(2) by (cases "i < j") (auto simp: seg_start_Suc)
      then show ?thesis
        using seg_write_nth [OF b lt] IH j False by auto
    qed
  qed
  then show ?case
    using seg_write_length [OF b] o by simp
qed simp

text \<open>Filling disjoint segments gives the same tensor in every order.\<close>

lemma seg_writes_any_order:
  assumes perm: "mset order = mset [0..<n]" and len: "length out = seg_start v n"
  shows "fold (seg_write v) order out = concat (map v [0..<n])"
proof -
  define o' where "o' = fold (seg_write v) order out"
  have "set order = {..<n}"
    using arg_cong [OF perm, of set_mset] by (simp add: atLeast0LessThan)
  then have o': "length o' = seg_start v n" "\<And>i k. i < n \<Longrightarrow> k < length (v i) \<Longrightarrow> o' ! (seg_start v i + k) = v i ! k"
    using seg_writes_nth [OF _ len, of order] len by (auto simp: o'_def)
  have "m \<le> n \<Longrightarrow> take (seg_start v m) o' = concat (map v [0..<m])" for m
  proof (induction m)
    case (Suc m)
    have le: "seg_start v m + length (v m) \<le> length o'"
      using seg_start_mono [of m n v] Suc.prems o'(1) by simp
    have "take (length (v m)) (drop (seg_start v m) o') = v m"
    proof (rule nth_equalityI)
      show "length (take (length (v m)) (drop (seg_start v m) o')) = length (v m)"
        using le by simp
      show "take (length (v m)) (drop (seg_start v m) o') ! k = v m ! k"
        if "k < length (take (length (v m)) (drop (seg_start v m) o'))" for k
        using that le Suc.prems o'(2) [of m k] by simp
    qed
    then show ?case
      using Suc by (simp add: seg_start_Suc take_add)
  qed (simp add: seg_start_def)
  then show ?thesis
    using o'(1) by (metis o'_def order_refl take_all)
qed

definition put :: "nat \<Rightarrow> 'a list \<Rightarrow> 'a list \<Rightarrow> 'a list" where
  "put s xs out = take s out @ xs @ drop (s + length xs) out"

lemma seg_write_put: "seg_write v i out = put (seg_start v i) (v i) out"
  by (simp add: seg_write_def put_def)

lemma put_put: "s + length xs \<le> length out \<Longrightarrow> put (s + length xs) ys (put s xs out) = put s (xs @ ys) out"
  by (simp add: put_def ac_simps)

lemma put_Nil [simp]: "put s [] out = out"
  by (simp add: put_def)

lemma length_put [simp]: "s + length xs \<le> length out \<Longrightarrow> length (put s xs out) = length out"
  by (simp add: put_def)

lemma row_write_put: "s + length xs \<le> length out \<Longrightarrow> row_write s (s + length xs) xs out = Inr (put s xs out)"
  by (simp add: row_write_def put_def Let_def min_absorb1 max_def)

lemma run_stores_zip:
  assumes "s + length vs \<le> length out"
  shows "run_stores (zip [s..<s + length vs] vs) out = put s vs out"
  using assms
proof (induction vs rule: rev_induct)
  case (snoc v vs)
  have up: "[s..<s + length (vs @ [v])] = [s..<s + length vs] @ [s + length vs]"
    by simp
  have "run_stores (zip [s..<s + length (vs @ [v])] (vs @ [v])) out = (put s vs out)[s + length vs := v]"
    using snoc unfolding up by (simp add: run_stores_def)
  also have "\<dots> = put s (vs @ [v]) out"
    using snoc.prems by (auto simp: put_def list_update_append Cons_nth_drop_Suc [symmetric])
  finally show ?case .
qed (simp add: run_stores_def)

section \<open>Both routines meet the specification\<close>

definition req_slots :: "(nat \<Rightarrow> nat) \<Rightarrow> nat list \<Rightarrow> nat list \<Rightarrow> int list \<Rightarrow> nat list \<Rightarrow> nat \<Rightarrow> nat \<Rightarrow> int list" where
  "req_slots junk prefix_lens seq_lens last_loc pages ps i =
     extend_slots ps (prefix_lens ! i) (seq_lens ! i) (last_loc ! i)
       (\<lambda>k. tl_load junk pages (upto_sum (new_pages ps) seq_lens prefix_lens i + k))"

definition batch_slots :: "(nat \<Rightarrow> nat) \<Rightarrow> nat list \<Rightarrow> nat list \<Rightarrow> int list \<Rightarrow> nat list \<Rightarrow> nat \<Rightarrow> int list" where
  "batch_slots junk prefix_lens seq_lens last_loc pages ps =
     concat (map (req_slots junk prefix_lens seq_lens last_loc pages ps) [0..<length prefix_lens])"

abbreviation lens_ok :: "nat list \<Rightarrow> nat list \<Rightarrow> bool" where
  "lens_ok prefix_lens seq_lens \<equiv> list_all2 (\<le>) prefix_lens seq_lens"

lemma seg_start_req_slots: "seg_start (req_slots junk pre sl lastl pages ps) i = upto_sum (-) sl pre i"
  by (simp add: seg_start_def upto_sum_def req_slots_def)

lemma upto_sum_le:
  assumes "i < n"
  shows "upto_sum f xs ys i + f (xs ! i) (ys ! i) \<le> upto_sum f xs ys n"
  using assms
proof (induction n)
  case (Suc n)
  then show ?case
    by (cases "i = n") (auto simp: upto_sum_Suc)
qed simp

lemma launch_extend:
  assumes ps: "0 < ps" and le: "lens_ok pre sl" and bs: "length pre \<le> bs"
    and order: "mset order = mset [0..<length pre]" and len: "length out = upto_sum (-) sl pre (length pre)"
  shows "launch (alloc_extend_kernel junk pre sl last_loc pages bs ps) order out = batch_slots junk pre sl last_loc pages ps"
proof -
  let ?v = "req_slots junk pre sl last_loc pages ps"
  have step: "run_stores (alloc_extend_kernel junk pre sl last_loc pages bs ps i) o' = seg_write ?v i o'"
    if "i < length pre" "length o' = length out" for i o'
  proof -
    have "pre ! i \<le> sl ! i" "i < bs"
      using that le bs by (auto simp: list_all2_conv_all_nth)
    then show ?thesis
      using alloc_extend_kernel_writes [OF ps \<open>i < bs\<close> \<open>pre ! i \<le> sl ! i\<close>, of junk last_loc pages]
        run_stores_zip [of "upto_sum (-) sl pre i" "?v i" o'] upto_sum_le [OF that(1), of "(-)" sl pre] that(2) len
      by (simp add: seg_write_put seg_start_req_slots req_slots_def)
  qed
  have "set is \<subseteq> {..<length pre} \<Longrightarrow> length o' = length out \<Longrightarrow>
      fold (\<lambda>pid. run_stores (alloc_extend_kernel junk pre sl last_loc pages bs ps pid)) is o' = fold (seg_write ?v) is o'" for "is" o'
  proof (induction "is" arbitrary: o')
    case (Cons i "is")
    have "seg_start ?v (Suc i) \<le> length o'"
      using Cons.prems upto_sum_le [of i "length pre" "(-)" sl pre] len by (simp add: seg_start_req_slots upto_sum_Suc)
    then show ?case
      using Cons step [of i o'] by (simp add: seg_write_length)
  qed simp
  moreover have "set order \<subseteq> {..<length pre}"
    using arg_cong [OF order, of set_mset] by auto
  ultimately show ?thesis
    using seg_writes_any_order [OF order, of out ?v] len by (simp add: launch_def batch_slots_def seg_start_req_slots)
qed

lemma cumsum_map2:
  assumes "i < length xs" "length xs = length ys"
  shows "cumsum (map2 f xs ys) ! i = upto_sum f xs ys (Suc i)"
proof -
  have "take (i + 1) (map2 f xs ys) = map (\<lambda>j. f (xs ! j) (ys ! j)) [0..<i + 1]"
    using assms by (intro nth_equalityI) (auto simp del: upt_Suc)
  then show ?thesis
    using assms by (simp add: cumsum_def upto_sum_def del: upt_Suc)
qed

lemma page_slots_upt:
  assumes "0 < ps"
  shows "page_slots ps xs = map (\<lambda>k. int (xs ! (k div ps) * ps + k mod ps)) [0..<length xs * ps]"
proof -
  have "page_slots ps xs = concat (map (\<lambda>b. map (\<lambda>k. int (xs ! b * ps + k)) [0..<ps]) [0..<length xs])"
    unfolding page_slots_def by (subst map_nth [symmetric, of xs]) (simp only: map_map comp_def)
  also have "\<dots> = concat (map (\<lambda>b. map (\<lambda>k. int (xs ! (k div ps) * ps + k mod ps)) (map (\<lambda>k. b * ps + k) [0..<ps])) [0..<length xs])"
    using assms by (intro arg_cong [where f = concat]) simp
  also have "\<dots> = map (\<lambda>k. int (xs ! (k div ps) * ps + k mod ps)) [0..<length xs * ps]"
    unfolding blocks_upt [symmetric] map_concat map_map comp_def ..
  finally show ?thesis .
qed

lemma row_write_at: "length xs = n \<Longrightarrow> s + n \<le> length out \<Longrightarrow> row_write s (s + n) xs out = Inr (put s xs out)"
  using row_write_put by blast

lemma row_write_next:
  assumes "s + length xs = t" "length ys = n" "t + n \<le> length out"
  shows "(if n \<noteq> 0 then row_write t (t + n) ys (put s xs out) else Inr (put s xs out)) = Inr (put s (xs @ ys) out)"
proof -
  have "length (put s xs out) = length out"
    using assms by simp
  then show ?thesis
    using assms row_write_at [of ys n t "put s xs out"] put_put [of s xs out ys] by auto
qed

text \<open>With enough pages, the slots behind the old page, in closed form.\<close>

lemma extend_slots_in_pages:
  assumes ps: "0 < ps" and le: "p \<le> q" and inp: "np + new_pages ps q p \<le> length pages"
  defines "c \<equiv> ceil_div p ps * ps"
  shows "extend_slots ps p q l (\<lambda>k. tl_load junk pages (np + k)) = map (\<lambda>k. l + 1 + int k) [0..<min q c - p] @
    map (\<lambda>k. int (pages ! (np + k div ps) * ps + k mod ps)) [0..<q - c]"
proof -
  have "tl_load junk pages (np + k div ps) = pages ! (np + k div ps)" if k: "k < q - c" for k
  proof -
    have "k < ceil_div q ps * ps - ceil_div p ps * ps"
      using k ceil_div_bounds(1) [OF ps, of q] by (simp add: c_def)
    then have "k < new_pages ps q p * ps"
      by (simp add: new_pages_def diff_mult_distrib)
    then have "k div ps < new_pages ps q p"
      by (rule less_mult_imp_div_less)
    then show ?thesis
      using inp by (simp add: tl_load_def)
  qed
  then show ?thesis
    unfolding extend_slots_parts [OF ps le] c_def by simp
qed

text \<open>The two later writes of the reference routine put down the new pages' part.\<close>

lemma naive_tail:
  assumes ps: "0 < ps" and lt: "ceil_div p ps * ps < q" and inp: "np + new_pages ps q p \<le> length pages"
  defines "val \<equiv> \<lambda>k. int (pages ! (np + k div ps) * ps + k mod ps)"
    and "n2 \<equiv> (q div ps - ceil_div p ps) * ps" and "n3 \<equiv> q - q div ps * ps"
  shows "page_slots ps (take (q div ps - ceil_div p ps) (drop np pages)) = map val [0..<n2]"
    "n3 \<noteq> 0 \<Longrightarrow> map (\<lambda>k. int (pages ! (np + new_pages ps q p - 1) * ps + k)) (take n3 [0..<ps]) = map (\<lambda>k. val (n2 + k)) [0..<n3]"
proof -
  note tl = tail_split [OF ps lt, folded n2_def n3_def]
  have m: "q div ps - ceil_div p ps \<le> new_pages ps q p"
    using ps by (auto simp: new_pages_def ceil_div_split [of ps q] intro: diff_le_mono)
  then have len: "length (take (q div ps - ceil_div p ps) (drop np pages)) = q div ps - ceil_div p ps"
    using inp by simp
  have "k div ps < q div ps - ceil_div p ps" if "k < n2" for k
    using that unfolding n2_def by (rule less_mult_imp_div_less)
  then show "page_slots ps (take (q div ps - ceil_div p ps) (drop np pages)) = map val [0..<n2]"
    unfolding page_slots_upt [OF ps] len n2_def [symmetric] val_def using m inp by simp
  assume n3: "n3 \<noteq> 0"
  then have "q \<noteq> q div ps * ps"
    by (auto simp: n3_def)
  then have "np + new_pages ps q p - 1 = np + n2 div ps"
    using partial_page [OF ps lt] ps by (simp add: n2_def)
  moreover have "val (n2 + k) = int (pages ! (np + n2 div ps) * ps + k)" if "k < n3" for k
    using that tl(3) ps by (simp add: val_def n2_def)
  ultimately show "map (\<lambda>k. int (pages ! (np + new_pages ps q p - 1) * ps + k)) (take n3 [0..<ps]) = map (\<lambda>k. val (n2 + k)) [0..<n3]"
    using tl(3) by (simp add: take_upt)
qed

lemma naive_step_writes:
  assumes ps: "0 < ps" and lens: "lens_ok pre sl" and i: "i < length pre"
    and pages: "upto_sum (new_pages ps) sl pre (length pre) \<le> length pages"
    and out: "length out = upto_sum (-) sl pre (length pre)"
  shows "naive_step ps pre sl last_loc pages i out = Inr (seg_write (req_slots junk pre sl last_loc pages ps) i out)"
proof -
  define p q s np where "p = pre ! i" and "q = sl ! i" and "s = upto_sum (-) sl pre i" and "np = upto_sum (new_pages ps) sl pre i"
  define c where "c = ceil_div p ps * ps"
  define n1 n2 n3 where "n1 = min q c - p" and "n2 = (q div ps - ceil_div p ps) * ps" and "n3 = q - q div ps * ps"
  have i': "i < length sl" "length sl = length pre" and le: "p \<le> q"
    using lens i by (auto simp: list_all2_conv_all_nth p_def q_def)
  have cum: "cumsum (map2 (-) sl pre) ! i = s + (q - p)" "map2 (-) sl pre ! i = q - p"
    "cumsum (map2 (new_pages ps) sl pre) ! i = np + new_pages ps q p" "map2 (new_pages ps) sl pre ! i = new_pages ps q p"
    using i i' by (simp_all add: cumsum_map2 upto_sum_Suc s_def np_def p_def q_def)
  have fits: "s + (q - p) \<le> length out" and inp: "np + new_pages ps q p \<le> length pages"
    using upto_sum_le [OF i, of "(-)" sl pre] upto_sum_le [OF i, of "new_pages ps" sl pre] pages out
    by (simp_all add: s_def np_def p_def q_def)
  define val where "val k = int (pages ! (np + k div ps) * ps + k mod ps)" for k
  define P1 where "P1 = map (\<lambda>k. last_loc ! i + 1 + int k) [0..<n1]"
  have c: "p \<le> c" "c < p + ps"
    using ceil_div_bounds [OF ps, of p] by (simp_all add: c_def)
  have seg: "seg_write (req_slots junk pre sl last_loc pages ps) i out = put s (P1 @ map val [0..<q - c]) out"
    unfolding seg_write_put seg_start_req_slots req_slots_def p_def [symmetric] q_def [symmetric] s_def [symmetric] np_def [symmetric]
      extend_slots_in_pages [OF ps le inp] c_def [symmetric] n1_def [symmetric] P1_def val_def ..
  have w1: "(if n1 \<noteq> 0 then row_write s (s + n1) (map (\<lambda>k. last_loc ! i + 1 + int k) (take n1 [0..<ps])) out else Inr out) =
      Inr (put s P1 out)"
  proof -
    have "n1 \<le> ps" "s + n1 \<le> length out"
      using c fits le by (auto simp: n1_def)
    then show ?thesis
      by (auto simp: P1_def take_upt row_write_at)
  qed
  show ?thesis
  proof (cases "p + n1 = q")
    case True
    then have "q - c = 0"
      using c by (auto simp: n1_def)
    then show ?thesis
      unfolding naive_step_def Let_def cum p_def [symmetric] q_def [symmetric] c_def [symmetric] n1_def [symmetric]
        diff_add_inverse2 w1 sum.case if_P [OF True] seg by simp
  next
    case False
    then have lt: "c < q"
      using c le by (auto simp: n1_def)
    note tl = tail_split [OF ps lt [unfolded c_def], folded n2_def n3_def c_def]
    note nt = naive_tail [OF ps lt [unfolded c_def] inp, folded n2_def n3_def val_def]
    have pn: "p + n1 = c"
      using lt c by (simp add: n1_def)
    have count: "nat (int (np + new_pages ps q p) - (int (new_pages ps q p) - (int (q div ps) - int (ceil_div p ps)))) - np =
        q div ps - ceil_div p ps"
      using tl(4) by simp
    have fit2: "s + n1 + n2 + n3 \<le> length out"
      using fits tl(2) pn lt c by simp
    have w2: "(if n2 \<noteq> 0 then row_write (s + n1) (s + n1 + n2) (map val [0..<n2]) (put s P1 out) else Inr (put s P1 out)) =
        Inr (put s (P1 @ map val [0..<n2]) out)"
      by (rule row_write_next) (use fit2 in \<open>simp_all add: P1_def\<close>)
    have w3: "(if n3 \<noteq> 0 then row_write (s + n1 + n2) (s + n1 + n2 + n3) (map (\<lambda>k. val (n2 + k)) [0..<n3])
          (put s (P1 @ map val [0..<n2]) out) else Inr (put s (P1 @ map val [0..<n2]) out)) =
        Inr (put s (P1 @ map val [0..<q - c]) out)"
      unfolding tl(5) append_assoc [symmetric] by (rule row_write_next) (use fit2 in \<open>simp_all add: P1_def\<close>)
    have ends: "s + (q - p) - n3 = s + n1 + n2" "s + (q - p) = s + n1 + n2 + n3"
      using tl(2) pn lt c by simp_all
    have t3: "(if n3 \<noteq> 0 then row_write (s + (q - p) - n3) (s + (q - p))
          (map (\<lambda>k. int (pages ! (np + new_pages ps q p - 1) * ps + k)) (take n3 [0..<ps])) (put s (P1 @ map val [0..<n2]) out)
        else Inr (put s (P1 @ map val [0..<n2]) out)) = Inr (put s (P1 @ map val [0..<q - c]) out)"
      unfolding ends using w3 by (auto simp only: nt(2) diff_add_inverse2 split: if_splits)
    have done2: "q - c = n2" if "c + n2 = q"
      using that by simp
    show ?thesis
      unfolding naive_step_def Let_def cum p_def [symmetric] q_def [symmetric] c_def [symmetric] n1_def [symmetric] n2_def [symmetric]
        n3_def [symmetric] diff_add_inverse2 w1 sum.case if_not_P [OF False] count nt(1) seg pn w2 t3
      using done2 lt by (cases "c + n2 = q") simp_all
  qed
qed

lemma naive_meets_spec:
  assumes ps: "0 < ps" and lens: "lens_ok pre sl"
    and pages: "upto_sum (new_pages ps) sl pre (length pre) \<le> length pages"
    and out: "length out = upto_sum (-) sl pre (length pre)"
  shows "alloc_extend_naive pre sl last_loc pages out ps = Inr (batch_slots junk pre sl last_loc pages ps)"
proof -
  let ?v = "req_slots junk pre sl last_loc pages ps"
  have "set is \<subseteq> {..<length pre} \<Longrightarrow> length o' = length out \<Longrightarrow>
      fold_result (naive_step ps pre sl last_loc pages) is o' = Inr (fold (seg_write ?v) is o')" for "is" o'
  proof (induction "is" arbitrary: o')
    case (Cons i "is")
    have "seg_start ?v (Suc i) \<le> length o'"
      using Cons.prems upto_sum_le [of i "length pre" "(-)" sl pre] out by (simp add: seg_start_req_slots upto_sum_Suc)
    then show ?case
      using Cons naive_step_writes [OF ps lens _ pages, of i o' last_loc junk] out by (simp add: seg_write_length)
  qed simp
  then show ?thesis
    using seg_writes_any_order [of "[0..<length pre]" "length pre" out ?v] out
    by (simp add: alloc_extend_naive_def batch_slots_def seg_start_req_slots atLeast0LessThan)
qed

text \<open>C15. The parallel kernel computes what the sequential reference routine computes: on any batch with enough free
  pages, for every order in which the programs run and whatever the fresh tensor and foreign memory hold, the launch
  leaves exactly the indices of the reference.\<close>

theorem extend_kernel_equals_naive:
  assumes "0 < ps" and "lens_ok pre sl" and "length pre \<le> bs"
    and "upto_sum (new_pages ps) sl pre (length pre) \<le> length pages"
    and "mset order = mset [0..<length pre]"
    and "length out = upto_sum (-) sl pre (length pre)" "length out' = upto_sum (-) sl pre (length pre)"
  shows "alloc_extend_naive pre sl last_loc pages out' ps = Inr (launch (alloc_extend_kernel junk pre sl last_loc pages bs ps) order out)"
  using launch_extend [OF assms(1,2,3,5,6)] naive_meets_spec [OF assms(1,2,4,7)] by simp

theorem extend_kernel_equals_naive_witness:
  "alloc_extend_naive [3, 0] [6, 5] [10, -1] [7, 8, 9, 1] (replicate 8 0) 2 =
     Inr (launch (alloc_extend_kernel (\<lambda>_. 0) [3, 0] [6, 5] [10, -1] [7, 8, 9, 1] 2 2) [1, 0] (replicate 8 99))"
  by (rule extend_kernel_equals_naive) (simp_all add: upto_sum_def new_pages_def ceil_div_def)

section \<open>Where the slots lie\<close>

text \<open>The page and the offset of a position's slot.\<close>

definition page_of :: "nat \<Rightarrow> nat \<Rightarrow> int \<Rightarrow> (nat \<Rightarrow> nat) \<Rightarrow> nat \<Rightarrow> int" where
  "page_of ps p l pg j = (if j < ceil_div p ps * ps then l div int ps else int (pg (j div ps - ceil_div p ps)))"

lemma open_page_position:
  assumes ps: "0 < ps" and j: "p \<le> j" "j < ceil_div p ps * ps"
  shows "p mod ps \<noteq> 0" "j div ps = p div ps" "j mod ps = p mod ps + (j - p)"
proof -
  show r: "p mod ps \<noteq> 0"
  proof
    assume "p mod ps = 0"
    then have "ceil_div p ps * ps = p"
      using ps by (simp add: ceil_div_split) (metis add.right_neutral div_mult_mod_eq)
    then show False
      using j by simp
  qed
  have p: "p div ps * ps + p mod ps = p"
    by (rule div_mult_mod_eq)
  have "ceil_div p ps * ps = p div ps * ps + ps"
    using r ps by (simp add: ceil_div_split)
  then have lt: "p mod ps + (j - p) < ps" and split: "j = p mod ps + (j - p) + p div ps * ps"
    using j p by linarith+
  have "j div ps = p div ps + (p mod ps + (j - p)) div ps"
    using ps by (subst split) (rule div_mult_self1, simp)
  then show "j div ps = p div ps"
    using lt by (simp only: div_less)
  have "j mod ps = (p mod ps + (j - p)) mod ps"
    by (subst split) (rule mod_mult_self1)
  then show "j mod ps = p mod ps + (j - p)"
    using lt by (simp only: mod_less)
qed

lemma extend_slots_at:
  assumes ps: "0 < ps" and al: "(l + 1) mod int ps = int p mod int ps" and j: "p \<le> j" "j < q"
  shows "extend_slots ps p q l pg ! (j - p) = page_of ps p l pg j * int ps + int (j mod ps)"
proof (cases "j < ceil_div p ps * ps")
  case True
  note pos = open_page_position [OF ps j(1) True]
  define m where "m = (l + 1) div int ps"
  have "(l + 1) mod int ps = int (p mod ps)"
    using al by (simp add: zmod_int)
  then have l: "l = m * int ps + (int (p mod ps) - 1)"
    using div_mult_mod_eq [of "l + 1" "int ps"] by (simp add: m_def)
  have r: "0 \<le> int (p mod ps) - 1" "int (p mod ps) - 1 < int ps"
    using pos(1) mod_less_divisor [OF ps, of p] by linarith+
  have "l div int ps = m"
    unfolding l using r ps by (simp add: div_pos_pos_trivial)
  then show ?thesis
    using True j pos(3) l by (simp add: extend_slots_def page_of_def)
next
  case False
  then show ?thesis
    using j by (simp add: extend_slots_def page_of_def)
qed

lemma extend_slots_page:
  assumes "0 < ps" "(l + 1) mod int ps = int p mod int ps" "p \<le> j" "j < q"
  shows "(extend_slots ps p q l pg ! (j - p)) div int ps = page_of ps p l pg j"
    "(extend_slots ps p q l pg ! (j - p)) mod int ps = int (j mod ps)"
  using assms extend_slots_at [OF assms, of pg] by (simp_all add: zmod_int)

text \<open>The pages a request's slots lie in: its open page, if the prefix ends inside one, and its new pages.\<close>

lemma page_of_cases:
  assumes ps: "0 < ps" and j: "p \<le> j" "j < q"
  obtains "p mod ps \<noteq> 0" "j < ceil_div p ps * ps" "page_of ps p l pg j = l div int ps"
  | k where "k < new_pages ps q p" "\<not> j < ceil_div p ps * ps" "k = j div ps - ceil_div p ps" "page_of ps p l pg j = int (pg k)"
proof (cases "j < ceil_div p ps * ps")
  case True
  then show thesis
    using that(1) open_page_position(1) [OF ps j(1) True] by (simp add: page_of_def)
next
  case False
  define k where "k = j - ceil_div p ps * ps"
  have "k < ceil_div q ps * ps - ceil_div p ps * ps"
    using False j ceil_div_bounds(1) [OF ps, of q] by (simp add: k_def)
  then have "k < new_pages ps q p * ps"
    by (simp add: new_pages_def diff_mult_distrib)
  then have "k div ps < new_pages ps q p"
    by (rule less_mult_imp_div_less)
  moreover have "j = k + ceil_div p ps * ps"
    using False by (simp add: k_def)
  then have "j div ps = k div ps + ceil_div p ps"
    using ps by (metis div_mult_self1 add.commute less_numeral_extra(3))
  ultimately show thesis
    using that(2) False by (simp add: page_of_def)
qed

definition open_pages :: "nat \<Rightarrow> nat list \<Rightarrow> int list \<Rightarrow> int list" where
  "open_pages ps prefix_lens last_loc =
     map (\<lambda>i. last_loc ! i div int ps) (filter (\<lambda>i. prefix_lens ! i mod ps \<noteq> 0) [0..<length prefix_lens])"

abbreviation aligned :: "nat \<Rightarrow> int list \<Rightarrow> nat list \<Rightarrow> bool" where
  "aligned ps last_loc prefix_lens \<equiv> list_all2 (\<lambda>l p. (l + 1) mod int ps = int p mod int ps) last_loc prefix_lens"

lemma open_pages_distinct:
  assumes "distinct (open_pages ps pre last_loc)" "i < length pre" "k < length pre" "i \<noteq> k"
    "pre ! i mod ps \<noteq> 0" "pre ! k mod ps \<noteq> 0"
  shows "last_loc ! i div int ps \<noteq> last_loc ! k div int ps"
  using assms unfolding open_pages_def distinct_map inj_on_def by auto

text \<open>\<open>req_pages i\<close>: which page the request \<open>i\<close> uses, open or new.\<close>

definition req_pages :: "nat \<Rightarrow> nat list \<Rightarrow> nat list \<Rightarrow> int list \<Rightarrow> nat list \<Rightarrow> nat \<Rightarrow> int set" where
  "req_pages ps pre sl last_loc pages i =
     (if pre ! i mod ps \<noteq> 0 then {last_loc ! i div int ps} else {}) \<union>
     (\<lambda>k. int (pages ! (upto_sum (new_pages ps) sl pre i + k))) ` {..<new_pages ps (sl ! i) (pre ! i)}"

lemma req_pages_disjoint:
  assumes dist: "distinct (open_pages ps pre last_loc @ map int pages)"
    and pages: "upto_sum (new_pages ps) sl pre (length pre) \<le> length pages"
    and ik: "i < k" "k < length pre"
  shows "req_pages ps pre sl last_loc pages i \<inter> req_pages ps pre sl last_loc pages k = {}"
proof -
  let ?np = "upto_sum (new_pages ps) sl pre" and ?n = "\<lambda>i. new_pages ps (sl ! i) (pre ! i)"
  have before: "?np i + ?n i \<le> ?np k" and inside: "?np k + ?n k \<le> length pages"
    using upto_sum_le [OF ik(1), of "new_pages ps" sl pre] upto_sum_le [OF ik(2), of "new_pages ps" sl pre] pages by auto
  have new: "pages ! (?np i + a) \<noteq> pages ! (?np k + b)" if "a < ?n i" "b < ?n k" for a b
    using that before inside dist by (simp add: nth_eq_iff_index_eq distinct_map)
  have nopen: "last_loc ! m div int ps \<notin> int ` set pages" if "m < length pre" "pre ! m mod ps \<noteq> 0" for m
    using dist that by (auto simp: open_pages_def)
  have in_pages: "pages ! (?np m + a) \<in> set pages" if "m \<in> {i, k}" "a < ?n m" for m a
    using that before inside by auto
  have op: "last_loc ! i div int ps \<noteq> last_loc ! k div int ps" if "pre ! i mod ps \<noteq> 0" "pre ! k mod ps \<noteq> 0"
    using open_pages_distinct [of ps pre last_loc i k] dist ik that by auto
  show ?thesis
    using new nopen [of i] nopen [of k] in_pages [of i] in_pages [of k] op ik
    unfolding req_pages_def by (auto split: if_splits)
qed

lemma req_slots_nth:
  fixes junk :: "nat \<Rightarrow> nat"
  assumes ps: "0 < ps" and al: "aligned ps last_loc pre" and i: "i < length pre"
    and pages: "upto_sum (new_pages ps) sl pre (length pre) \<le> length pages" and j: "pre ! i \<le> j" "j < sl ! i"
  defines "x \<equiv> req_slots junk pre sl last_loc pages ps i ! (j - pre ! i)"
  shows "x mod int ps = int (j mod ps)" "x div int ps \<in> req_pages ps pre sl last_loc pages i"
    "x div int ps = page_of ps (pre ! i) (last_loc ! i) (\<lambda>k. tl_load junk pages (upto_sum (new_pages ps) sl pre i + k)) j"
proof -
  have al': "(last_loc ! i + 1) mod int ps = int (pre ! i) mod int ps"
    using al i by (auto simp: list_all2_conv_all_nth)
  note at = extend_slots_page [OF ps al' j]
  show "x mod int ps = int (j mod ps)"
    unfolding x_def req_slots_def at ..
  show "x div int ps = page_of ps (pre ! i) (last_loc ! i) (\<lambda>k. tl_load junk pages (upto_sum (new_pages ps) sl pre i + k)) j"
    unfolding x_def req_slots_def at ..
  have inside: "upto_sum (new_pages ps) sl pre i + new_pages ps (sl ! i) (pre ! i) \<le> length pages"
    using upto_sum_le [OF i, of "new_pages ps" sl pre] pages by simp
  show "x div int ps \<in> req_pages ps pre sl last_loc pages i"
    unfolding x_def req_slots_def at
    by (rule page_of_cases [OF ps j, of "last_loc ! i"]) (use inside in \<open>auto simp: req_pages_def tl_load_def\<close>)
qed

lemma distinct_concat_disjoint:
  assumes "\<And>i. i < n \<Longrightarrow> distinct (v i)" "\<And>i k. i < k \<Longrightarrow> k < n \<Longrightarrow> set (v i) \<inter> set (v k) = {}"
  shows "distinct (concat (map v [0..<n]))"
  using assms
proof (induction n)
  case (Suc n)
  then have "set (v i) \<inter> set (v n) = {}" if "i < n" for i
    using that by simp
  then show ?case
    using Suc by fastforce
qed simp

lemma req_slots_distinct:
  assumes ps: "0 < ps" and al: "aligned ps last_loc pre" and i: "i < length pre"
    and pages: "upto_sum (new_pages ps) sl pre (length pre) \<le> length pages"
    and dist: "distinct (open_pages ps pre last_loc @ map int pages)"
  shows "distinct (req_slots junk pre sl last_loc pages ps i)"
proof -
  let ?np = "upto_sum (new_pages ps) sl pre i" and ?p = "pre ! i" and ?v = "req_slots junk pre sl last_loc pages ps i"
  let ?pg = "page_of ps ?p (last_loc ! i) (\<lambda>k. tl_load junk pages (?np + k))"
  have inside: "?np + new_pages ps (sl ! i) ?p \<le> length pages"
    using upto_sum_le [OF i, of "new_pages ps" sl pre] pages by simp
  have "j = k" if j: "?p \<le> j" "j < sl ! i" and k: "?p \<le> k" "k < sl ! i" and eq: "?pg j = ?pg k" "j mod ps = k mod ps" for j k
  proof -
    have "j div ps = k div ps"
    proof (rule page_of_cases [OF ps j]; rule page_of_cases [OF ps k])
      assume "j < ceil_div ?p ps * ps" "k < ceil_div ?p ps * ps"
      then show ?thesis
        using open_page_position(2) [OF ps j(1)] open_page_position(2) [OF ps k(1)] by simp
    next
      fix m
      assume "?p mod ps \<noteq> 0" "?pg j = last_loc ! i div int ps" "m < new_pages ps (sl ! i) ?p" "?pg k = int (tl_load junk pages (?np + m))"
      then show ?thesis
        using dist i inside eq(1) by (force simp: open_pages_def tl_load_def)
    next
      fix m
      assume "?p mod ps \<noteq> 0" "?pg k = last_loc ! i div int ps" "m < new_pages ps (sl ! i) ?p" "?pg j = int (tl_load junk pages (?np + m))"
      then show ?thesis
        using dist i inside eq(1) by (force simp: open_pages_def tl_load_def)
    next
      fix a b
      assume ab: "a < new_pages ps (sl ! i) ?p" "\<not> j < ceil_div ?p ps * ps" "a = j div ps - ceil_div ?p ps" "?pg j = int (tl_load junk pages (?np + a))"
        "b < new_pages ps (sl ! i) ?p" "\<not> k < ceil_div ?p ps * ps" "b = k div ps - ceil_div ?p ps" "?pg k = int (tl_load junk pages (?np + b))"
      have "a = b"
        using ab eq(1) inside dist by (simp add: tl_load_def nth_eq_iff_index_eq distinct_map)
      moreover have "ceil_div ?p ps \<le> j div ps" "ceil_div ?p ps \<le> k div ps"
        using ab(2,6) ps by (simp_all add: less_eq_div_iff_mult_less_eq)
      ultimately show ?thesis
        using ab(3,7) by linarith
    qed
    then show "j = k"
      using eq(2) by (metis div_mult_mod_eq)
  qed
  note same = this
  have inj: "inj_on (\<lambda>j. ?v ! (j - ?p)) {?p..<sl ! i}"
  proof (rule inj_onI)
    fix j k
    assume "j \<in> {?p..<sl ! i}" "k \<in> {?p..<sl ! i}" and eq: "?v ! (j - ?p) = ?v ! (k - ?p)"
    then have j: "?p \<le> j" "j < sl ! i" and k: "?p \<le> k" "k < sl ! i"
      by auto
    note nj = req_slots_nth [OF ps al i pages j, of junk] and nk = req_slots_nth [OF ps al i pages k, of junk]
    have "?pg j = ?pg k" "int (j mod ps) = int (k mod ps)"
      unfolding nj(1,3) [symmetric] nk(1,3) [symmetric] eq by (rule refl)+
    then show "j = k"
      using same [OF j k] by simp
  qed
  have "?v = map (\<lambda>j. ?v ! (j - ?p)) [?p..<sl ! i]"
    by (intro nth_equalityI) (auto simp: req_slots_def)
  then show ?thesis
    using inj by (metis distinct_map distinct_upt set_upt)
qed

section \<open>Allocation for an extend batch\<close>

lemma concat_seg_nth:
  assumes "i < n" "k < length (v i)"
  shows "concat (map v [0..<n]) ! (seg_start v i + k) = v i ! k"
  using assms(1)
proof (induction n)
  case (Suc n)
  have len: "length (concat (map v [0..<n])) = seg_start v n"
    by (simp add: seg_start_def length_concat comp_def)
  show ?case
  proof (cases "i = n")
    case True
    then show ?thesis
      using assms(2) by (simp add: nth_append len)
  next
    case False
    then show ?thesis
      using Suc seg_start_mono [of i n v] assms(2) by (simp add: nth_append len)
  qed
qed simp

lemma length_batch_slots: "length (batch_slots junk pre sl last_loc pages ps) = upto_sum (-) sl pre (length pre)"
  by (simp add: batch_slots_def length_concat comp_def req_slots_def upto_sum_def)

lemma batch_slots_distinct:
  assumes ps: "0 < ps" and al: "aligned ps last_loc pre"
    and pages: "upto_sum (new_pages ps) sl pre (length pre) \<le> length pages"
    and dist: "distinct (open_pages ps pre last_loc @ map int pages)"
  shows "distinct (batch_slots junk pre sl last_loc pages ps)"
  unfolding batch_slots_def
proof (rule distinct_concat_disjoint)
  let ?v = "req_slots junk pre sl last_loc pages ps"
  show "distinct (?v i)" if "i < length pre" for i
    using req_slots_distinct [OF ps al that pages dist] .
  have page: "x div int ps \<in> req_pages ps pre sl last_loc pages i" if i: "i < length pre" and x: "x \<in> set (?v i)" for x i
  proof -
    obtain k where "k < sl ! i - pre ! i" "x = ?v i ! k"
      using x by (auto simp: in_set_conv_nth req_slots_def)
    then show ?thesis
      using req_slots_nth(2) [OF ps al i pages, of "pre ! i + k" junk] by simp
  qed
  show "set (?v i) \<inter> set (?v k) = {}" if ik: "i < k" "k < length pre" for i k
    using page [of i] page [of k] req_pages_disjoint [OF dist pages ik] ik by (meson disjoint_iff order.strict_trans)
qed

lemma get_num_new_pages_extend:
  assumes "length sl = length pre"
  shows "get_num_new_pages sl ps (Some pre) False = Inr (upto_sum (new_pages ps) sl pre (length pre))"
proof -
  have "map (\<lambda>(s, p). new_pages ps s p) (zip sl pre) = map (\<lambda>j. new_pages ps (sl ! j) (pre ! j)) [0..<length pre]"
    using assms by (intro nth_equalityI) auto
  then show ?thesis
    by (simp add: get_num_new_pages_def upto_sum_def)
qed

text \<open>The allocator merges its free lists whenever the pages at hand might not do.\<close>

lemma new_pages_bound:
  assumes "0 < ps" "p \<le> q"
  shows "new_pages ps q p \<le> (q - p) div ps + 1"
proof -
  define a b where "a = p + ps - 1" and "b = q - p"
  have ab: "q + ps - 1 = a + b"
    using assms by (simp add: a_def b_def)
  have "a mod ps + b mod ps < 2 * ps"
    using mod_less_divisor [OF assms(1), of a] mod_less_divisor [OF assms(1), of b] by linarith
  then have "(a mod ps + b mod ps) div ps < 2"
    by (rule less_mult_imp_div_less)
  then have "(a + b) div ps \<le> a div ps + b div ps + 1"
    using div_add1_eq [of a b ps] by linarith
  then show ?thesis
    unfolding new_pages_def ceil_div_def ab a_def [symmetric] b_def [symmetric] by linarith
qed

lemma new_pages_total:
  assumes ps: "0 < ps" and lens: "lens_ok pre sl"
  shows "upto_sum (new_pages ps) sl pre (length pre) \<le> upto_sum (-) sl pre (length pre) div ps + length pre"
proof -
  have "n \<le> length pre \<Longrightarrow> upto_sum (new_pages ps) sl pre n \<le> upto_sum (-) sl pre n div ps + n" for n
  proof (induction n)
    case (Suc n)
    let ?d = "sl ! n - pre ! n" and ?u = "upto_sum (-) sl pre n"
    have "new_pages ps (sl ! n) (pre ! n) \<le> ?d div ps + 1"
      using new_pages_bound [OF ps, of "pre ! n" "sl ! n"] lens Suc.prems by (auto simp: list_all2_conv_all_nth)
    moreover have "?u div ps + ?d div ps \<le> (?u + ?d) div ps"
      using div_add1_eq [of ?u ?d ps] by linarith
    ultimately show ?case
      using Suc by (simp add: upto_sum_Suc)
  qed (simp add: upto_sum_def)
  then show ?thesis
    by simp
qed

definition all_pages :: "paged_alloc \<Rightarrow> nat multiset" where
  "all_pages a = mset (free_pages a) + mset (release_pages a)"

text \<open>What a launch of the extend kernel is given: every program runs once, the output tensor has one entry per new
  token, the last slot of each prefix is aligned with the prefix length, and no page is both open and free.\<close>

definition extend_pre :: "launch_env \<Rightarrow> paged_alloc \<Rightarrow> nat list \<Rightarrow> nat list \<Rightarrow> int list \<Rightarrow> nat \<Rightarrow> bool" where
  "extend_pre env a pre sl last_loc n \<longleftrightarrow> 0 < al_page_size a \<and> lens_ok pre sl \<and> aligned (al_page_size a) last_loc pre \<and>
     n = upto_sum (-) sl pre (length pre) \<and> length (le_init env n) = n \<and>
     mset (le_order env (length pre)) = mset [0..<length pre] \<and>
     distinct (open_pages (al_page_size a) pre last_loc @ map int (free_pages a @ release_pages a)) \<and> token_invar a"

definition extend_refill :: "nat list \<Rightarrow> nat \<Rightarrow> paged_alloc \<Rightarrow> paged_alloc" where
  "extend_refill pre n a =
     (if need_sort a \<and> n div al_page_size a + length pre + 1 > length (free_pages a) then merge_and_sort_free a else a)"

lemma merge_pages:
  fixes a :: paged_alloc
  shows "mset (free_pages (merge_and_sort_free a)) = mset (free_pages a) + mset (release_pages a)"
    "al_page_size (merge_and_sort_free a) = al_page_size a" "debug_mode (merge_and_sort_free a) = debug_mode a"
    "release_pages (merge_and_sort_free a) = []"
  by (simp_all add: merge_and_sort_free_def)

lemma extend_refill_facts:
  assumes "extend_pre env a pre sl last_loc n"
  defines "a1 \<equiv> extend_refill pre n a"
  shows "al_page_size a1 = al_page_size a" "debug_mode a1 = debug_mode a" "all_pages a1 = all_pages a"
    "distinct (open_pages (al_page_size a) pre last_loc @ map int (free_pages a1))"
    "upto_sum (new_pages (al_page_size a)) sl pre (length pre) \<le> length (free_pages a1) \<longleftrightarrow>
     upto_sum (new_pages (al_page_size a)) sl pre (length pre) \<le> size (all_pages a)"
proof -
  show same: "al_page_size a1 = al_page_size a" "debug_mode a1 = debug_mode a" "all_pages a1 = all_pages a"
    by (simp_all add: a1_def extend_refill_def all_pages_def merge_pages)
  have "mset (free_pages a1 @ release_pages a1) = mset (free_pages a @ release_pages a)"
    using same(3) by (simp add: all_pages_def)
  then have "mset (open_pages (al_page_size a) pre last_loc @ map int (free_pages a1 @ release_pages a1)) =
      mset (open_pages (al_page_size a) pre last_loc @ map int (free_pages a @ release_pages a))"
    by (simp only: mset_append mset_map)
  then have "distinct (open_pages (al_page_size a) pre last_loc @ map int (free_pages a1 @ release_pages a1))"
    using assms(1) mset_eq_imp_distinct_iff by (auto simp only: extend_pre_def)
  then show "distinct (open_pages (al_page_size a) pre last_loc @ map int (free_pages a1))"
    by (simp add: Int_Un_distrib)
  have need: "upto_sum (new_pages (al_page_size a)) sl pre (length pre) \<le> n div al_page_size a + length pre"
    using new_pages_total [of "al_page_size a" pre sl] assms(1) by (simp add: extend_pre_def)
  have "\<not> need_sort a \<Longrightarrow> release_pages a = []"
    using assms(1) by (auto simp: extend_pre_def token_invar_def)
  moreover have "size (all_pages a) = length (free_pages a1) + length (release_pages a1)"
    unfolding same(3) [symmetric] by (simp add: all_pages_def)
  ultimately show "upto_sum (new_pages (al_page_size a)) sl pre (length pre) \<le> length (free_pages a1) \<longleftrightarrow>
     upto_sum (new_pages (al_page_size a)) sl pre (length pre) \<le> size (all_pages a)"
    using need by (auto simp: a1_def extend_refill_def merge_pages split: if_splits)
qed

lemma extend_out:
  assumes pre: "extend_pre env a pre sl last_loc n"
  defines "a1 \<equiv> extend_refill pre n a"
  shows "launch (alloc_extend_kernel (le_junk env) pre sl last_loc (free_pages a1) (next_power_of_2 (length pre)) (al_page_size a))
      (le_order env (length pre)) (le_init env n) = batch_slots (le_junk env) pre sl last_loc (free_pages a1) (al_page_size a)"
  using pre next_power_of_2_ge [of "length pre"]
  by (auto simp: extend_pre_def a1_def intro!: launch_extend)

lemma paged_alloc_extend_run:
  assumes pre: "extend_pre env a pre sl last_loc n" 
  defines "a1 \<equiv> extend_refill pre n a"
  shows "paged_alloc_extend env pre pre sl sl last_loc n None a =
    (let out = batch_slots (le_junk env) pre sl last_loc (free_pages a1) (al_page_size a)
     in if debug_mode a \<and> \<not> distinct out then (Inl AssertionError, a1)
        else take_pages (upto_sum (new_pages (al_page_size a)) sl pre (length pre)) out a1)"
proof -
  have "length sl = length pre" "aligned (al_page_size a) last_loc pre"
    using pre by (auto simp: extend_pre_def list_all2_lengthD)
  then show ?thesis
    unfolding paged_alloc_extend_def Let_def extend_refill_def [symmetric] a1_def [symmetric]
      extend_out [OF pre, folded a1_def] extend_refill_facts(1,2) [OF pre, folded a1_def]
    by (simp add: get_num_new_pages_extend)
qed

lemma batch_slots_pages:
  assumes ps: "0 < ps" and al: "aligned ps last_loc pre" and "upto_sum (new_pages ps) sl pre (length pre) = m" "m \<le> length pages"
    and x: "x \<in> set (batch_slots junk pre sl last_loc pages ps)"
  shows "x div int ps \<in> set (open_pages ps pre last_loc) \<union> int ` set (take m pages)"
proof -
  obtain i k where ik: "i < length pre" "k < sl ! i - pre ! i" "x = req_slots junk pre sl last_loc pages ps i ! k"
    using x by (auto simp: batch_slots_def in_set_conv_nth req_slots_def)
  have "x div int ps \<in> req_pages ps pre sl last_loc pages i"
    using req_slots_nth(2) [OF ps al ik(1), of sl pages "pre ! i + k" junk] ik assms by simp
  moreover have "pages ! (upto_sum (new_pages ps) sl pre i + b) \<in> set (take m pages)" if "b < new_pages ps (sl ! i) (pre ! i)" for b
  proof -
    have "upto_sum (new_pages ps) sl pre i + b < m"
      using that upto_sum_le [OF ik(1), of "new_pages ps" sl pre] assms(3) by linarith
    then show ?thesis
      using assms(4) by (metis length_take min.absorb2 nth_mem nth_take)
  qed
  ultimately show ?thesis
    using ik(1) by (auto simp: req_pages_def open_pages_def split: if_splits)
qed

text \<open>C16. Allocating for an extend batch succeeds exactly when the free and released pages suffice, and then hands out
  pairwise different slots: each lies in a page a request of the batch has open or in a page taken from the pool, the pages taken
  are the ones the pool loses, and the slot of position \<open>j\<close> has offset \<open>j mod page_size\<close>, so the next allocation finds the
  alignment it asserts. In debug mode the assertions hold.\<close>

theorem paged_alloc_extend_correct:
  assumes pre: "extend_pre env a pre sl last_loc n"
    and enough: "upto_sum (new_pages (al_page_size a)) sl pre (length pre) \<le> size (all_pages a)"
  shows "\<exists>out used a'. paged_alloc_extend env pre pre sl sl last_loc n None a = (Inr (Some out), a') \<and>
    length out = n \<and> distinct out \<and> all_pages a = mset used + all_pages a' \<and>
    length used = upto_sum (new_pages (al_page_size a)) sl pre (length pre) \<and>
    (\<forall>x\<in>set out. x div int (al_page_size a) \<in> set (open_pages (al_page_size a) pre last_loc) \<union> int ` set used) \<and>
    (\<forall>i<length pre. \<forall>j\<in>{pre ! i..<sl ! i}.
       out ! (upto_sum (-) sl pre i + (j - pre ! i)) mod int (al_page_size a) = int (j mod al_page_size a))"
proof -
  let ?ps = "al_page_size a" and ?m = "upto_sum (new_pages (al_page_size a)) sl pre (length pre)"
  define a1 where "a1 = extend_refill pre n a"
  note f = extend_refill_facts [OF pre, folded a1_def]
  define out where "out = batch_slots (le_junk env) pre sl last_loc (free_pages a1) ?ps"
  have p: "0 < ?ps" "aligned ?ps last_loc pre" "n = upto_sum (-) sl pre (length pre)"
    using pre by (auto simp: extend_pre_def)
  have m: "?m \<le> length (free_pages a1)"
    using enough f(5) by simp
  have dist: "distinct out"
    unfolding out_def by (rule batch_slots_distinct [OF p(1,2) m f(4)])
  define a' where "a' = a1\<lparr>free_pages := drop ?m (free_pages a1)\<rparr>"
  have run: "paged_alloc_extend env pre pre sl sl last_loc n None a = (Inr (Some out), a')"
    using paged_alloc_extend_run [OF pre, folded a1_def, folded out_def] dist m by (simp add: Let_def take_pages_def a'_def)
  have len: "length out = n"
    by (simp add: out_def length_batch_slots p(3))
  have "mset (free_pages a1) = mset (take ?m (free_pages a1)) + mset (drop ?m (free_pages a1))"
    by (simp flip: mset_append)
  then have acct: "all_pages a = mset (take ?m (free_pages a1)) + all_pages a'"
    unfolding f(3) [symmetric] by (simp add: all_pages_def a'_def)
  have offsets: "out ! (upto_sum (-) sl pre i + (j - pre ! i)) mod int ?ps = int (j mod ?ps)"
    if i: "i < length pre" and j: "j \<in> {pre ! i..<sl ! i}" for i j
  proof -
    have "pre ! i \<le> j" "j < sl ! i" "j - pre ! i < length (req_slots (le_junk env) pre sl last_loc (free_pages a1) ?ps i)"
      using j by (auto simp: req_slots_def)
    then show ?thesis
      using concat_seg_nth [OF i, of "j - pre ! i" "req_slots (le_junk env) pre sl last_loc (free_pages a1) ?ps"]
        req_slots_nth(1) [OF p(1,2) i m, of j "le_junk env"] by (simp add: out_def batch_slots_def seg_start_req_slots)
  qed
  have pages: "\<forall>x\<in>set out. x div int ?ps \<in> set (open_pages ?ps pre last_loc) \<union> int ` set (take ?m (free_pages a1))"
    unfolding out_def using batch_slots_pages [OF p(1,2) refl m] by blast
  show ?thesis
    by (rule exI [of _ out], rule exI [of _ "take ?m (free_pages a1)"], rule exI [of _ a'])
      (use run len dist acct m pages offsets in simp)
qed


definition ex_env :: launch_env where
  "ex_env = \<lparr>le_junk = (\<lambda>_. 0), le_init = (\<lambda>n. replicate n 0), le_order = (\<lambda>n. rev [0..<n])\<rparr>"

definition ex_paged :: "nat list \<Rightarrow> bool \<Rightarrow> paged_alloc" where
  "ex_paged pages debug = (paged_init 18 2 False debug)\<lparr>free_pages := pages\<rparr>"

lemma ex_extend_pre: "distinct pages \<Longrightarrow> 5 \<notin> set pages \<Longrightarrow> extend_pre ex_env (ex_paged pages debug) [3, 0] [6, 5] [10, -1] 8"
  by (auto simp: extend_pre_def ex_env_def ex_paged_def paged_init_def paged_clear_def upto_sum_def open_pages_def token_invar_def
      distinct_map)

theorem paged_alloc_extend_correct_witness:
  "\<exists>out a'. paged_alloc_extend ex_env [3, 0] [3, 0] [6, 5] [6, 5] [10, -1] 8 None (ex_paged [7, 8, 9, 1] True) = (Inr (Some out), a') \<and>
     length out = 8 \<and> distinct out"
proof -
  have "upto_sum (new_pages (al_page_size (ex_paged [7, 8, 9, 1] True))) [6, 5] [3, 0] (length [3, 0 :: nat]) \<le>
      size (all_pages (ex_paged [7, 8, 9, 1] True))"
    by (simp add: ex_paged_def paged_init_def paged_clear_def upto_sum_def new_pages_def ceil_div_def all_pages_def)
  then show ?thesis
    using paged_alloc_extend_correct [OF ex_extend_pre [of "[7, 8, 9, 1]" True]] by auto
qed


section \<open>Decoding\<close>

lemma decode_lanes:
  assumes "pid < length sl"
  shows "map (\<lambda>j. if j \<le> pid then tl_lanes sl pid bs ! j - 1 else tl_lanes sl pid bs ! j) [0..<bs] =
    tl_lanes (map (\<lambda>s. s - 1) sl) pid bs"
  using assms by (auto simp: tl_lanes_def)

lemma decode_starts:
  assumes "\<forall>s\<in>set sl. 1 \<le> s" "n \<le> length sl"
  shows "upto_sum (-) sl (map (\<lambda>s. s - 1) sl) n = n"
  using assms(2)
proof (induction n)
  case (Suc n)
  then show ?case
    using assms(1) by (simp add: upto_sum_Suc)
qed (simp add: upto_sum_def)

lemma decode_page_iff:
  assumes ps: "0 < ps" and q: "1 \<le> q"
  shows "new_pages ps q (q - 1) = 0 \<longleftrightarrow> q - 1 < ceil_div (q - 1) ps * ps"
proof (cases "(q - 1) mod ps = 0")
  case True
  then have "ceil_div (q - 1) ps * ps = q - 1"
    using ps by (simp add: ceil_div_split) (metis add.right_neutral div_mult_mod_eq)
  moreover have "q \<le> ceil_div q ps * ps"
    using ceil_div_bounds(1) [OF ps] .
  ultimately have "ceil_div (q - 1) ps * ps < ceil_div q ps * ps"
    using q by linarith
  then show ?thesis
    using \<open>ceil_div (q - 1) ps * ps = q - 1\<close> by (simp add: new_pages_def)
next
  case False
  have "q - 1 < ceil_div (q - 1) ps * ps"
    using ceil_div_bounds(1) [OF ps, of "q - 1"] False by (metis le_neq_implies_less mod_mult_self2_is_0)
  then have "q \<le> ceil_div (q - 1) ps * ps"
    by simp
  then have "ceil_div q ps * ps < Suc (ceil_div (q - 1) ps) * ps"
    using ceil_div_bounds(2) [OF ps, of q] by simp
  then have "ceil_div q ps < Suc (ceil_div (q - 1) ps)"
    by (simp only: mult_less_cancel2)
  then show ?thesis
    using \<open>q - 1 < ceil_div (q - 1) ps * ps\<close> by (simp add: new_pages_def)
qed

lemma decode_kernel_is_extend:
  assumes ps: "0 < ps" and pos: "\<forall>s\<in>set sl. 1 \<le> s" and pid: "pid < length sl" "pid < bs"
  shows "alloc_decode_kernel junk sl last_loc pages bs ps pid = alloc_extend_kernel junk (map (\<lambda>s. s - 1) sl) sl last_loc pages bs ps pid"
proof -
  define q pre where "q = sl ! pid" and "pre = map (\<lambda>s. s - 1) sl"
  have q: "1 \<le> q" "pre ! pid = q - 1" "pre ! pid \<le> sl ! pid"
    using pos pid by (auto simp: q_def pre_def)
  define np where "np = upto_sum (new_pages ps) sl pre pid"
  have np: "sum_list (map2 (new_pages ps) (tl_lanes sl pid bs) (tl_lanes pre pid bs)) - new_pages ps q (q - 1) = np"
    using pid q(2) by (simp add: sum_lanes upto_sum_Suc np_def q_def)
  have up: "[q - 1..<q] = [q - 1]"
    using q(1) by (simp add: upt_rec)
  have aligned: "(q - 1) div ps = ceil_div (q - 1) ps \<and> (q - 1) mod ps = 0" if "\<not> q - 1 < ceil_div (q - 1) ps * ps"
    using that ceil_div_bounds(1) [OF ps, of "q - 1"] ps by (metis le_neq_implies_less mod_mult_self2_is_0 nonzero_mult_div_cancel_right not_gr_zero)
  have "alloc_extend_kernel junk pre sl last_loc pages bs ps pid = [(pid, if q - 1 < ceil_div (q - 1) ps * ps then last_loc ! pid + 1
      else int (tl_load junk pages np * ps))]"
    unfolding alloc_extend_kernel_writes [OF ps pid(2) q(3)] extend_slots_def q(2) q_def [symmetric] np_def [symmetric] up
    using decode_starts [OF pos, of pid] pid aligned q(1) by (auto simp: pre_def)
  then show ?thesis
    unfolding alloc_decode_kernel_def Let_def decode_lanes [OF pid(1)] pre_def [symmetric] q_def [symmetric] np using decode_page_iff [OF ps q(1)] by simp
qed

text \<open>A decode step is the extension of every sequence by its last token: the decode kernel writes what the extend
  kernel writes for prefixes one shorter, and, with more than one token per page, the shortcut count of the sequences whose
  length is 1 modulo the page size is the number of pages the general formula asks for.\<close>

lemma decode_is_extend:
  assumes "0 < ps" and "\<forall>s\<in>set sl. 1 \<le> s" and "set order \<subseteq> {..<length sl}" and "length sl \<le> bs"
  shows "launch (alloc_decode_kernel junk sl last_loc pages bs ps) order out =
      launch (alloc_extend_kernel junk (map (\<lambda>s. s - 1) sl) sl last_loc pages bs ps) order out \<and>
    (1 < ps \<longrightarrow> get_num_new_pages sl ps None True = get_num_new_pages sl ps (Some (map (\<lambda>s. s - 1) sl)) False)"
proof
  show "launch (alloc_decode_kernel junk sl last_loc pages bs ps) order out =
      launch (alloc_extend_kernel junk (map (\<lambda>s. s - 1) sl) sl last_loc pages bs ps) order out"
    unfolding launch_def using assms by (intro fold_cong refl) (auto simp: decode_kernel_is_extend subset_iff)
  have "(\<Sum>s\<leftarrow>sl. new_pages ps s (s - 1)) = length (filter (\<lambda>s. s mod ps = 1) sl)" if "1 < ps"
    using assms(2) by (induction sl) (auto simp: new_pages_decode [OF that, simplified])
  then show "1 < ps \<longrightarrow> get_num_new_pages sl ps None True = get_num_new_pages sl ps (Some (map (\<lambda>s. s - 1) sl)) False"
    by (auto simp: get_num_new_pages_def zip_map2 zip_same_conv_map comp_def)
qed

section \<open>Whole pages and their release\<close>

lemma page_slots_pages:
  assumes "0 < ps"
  shows "(\<lambda>x. x div ps) ` set (map nat (page_slots ps pages)) = set pages"
proof -
  have mem: "x \<in> set (page_slots ps pages) \<longleftrightarrow> (\<exists>p\<in>set pages. \<exists>k<ps. x = int (p * ps + k))" for x
    by (simp add: page_slots_def image_iff) (metis atLeast0LessThan imageE image_eqI lessThan_iff)
  show ?thesis
  proof (intro equalityI subsetI)
    fix p
    assume "p \<in> (\<lambda>x. x div ps) ` set (map nat (page_slots ps pages))"
    then obtain q k where "q \<in> set pages" "k < ps" "p = nat (int (q * ps + k)) div ps"
      using mem by auto
    then show "p \<in> set pages"
      by (simp only: nat_int) simp
  next
    fix p
    assume "p \<in> set pages"
    then have "int (p * ps + 0) \<in> set (page_slots ps pages)"
      using mem assms by blast
    then have "nat (int (p * ps + 0)) div ps \<in> (\<lambda>x. x div ps) ` set (map nat (page_slots ps pages))"
      by (metis image_eqI image_set)
    then show "p \<in> (\<lambda>x. x div ps) ` set (map nat (page_slots ps pages))"
      using assms by (simp only: nat_int) simp
  qed
qed

lemma distinct_page_slots:
  assumes ps: "0 < ps" and "distinct pages"
  shows "distinct (page_slots ps pages)"
proof -
  have "inj_on (\<lambda>k. pages ! (k div ps) * ps + k mod ps) {0..<length pages * ps}"
  proof (rule inj_onI)
    fix j k
    assume jk: "j \<in> {0..<length pages * ps}" "k \<in> {0..<length pages * ps}"
      and eq: "pages ! (j div ps) * ps + j mod ps = pages ! (k div ps) * ps + k mod ps"
    have lt: "j div ps < length pages" "k div ps < length pages"
      using jk by (simp_all add: less_mult_imp_div_less)
    have "j mod ps = k mod ps"
      using arg_cong [OF eq, of "\<lambda>x. x mod ps"] by simp
    moreover have "pages ! (j div ps) = pages ! (k div ps)"
      using arg_cong [OF eq, of "\<lambda>x. x div ps"] ps by simp
    then have "j div ps = k div ps"
      using assms(2) lt by (simp add: nth_eq_iff_index_eq)
    ultimately show "j = k"
      by (metis div_mult_mod_eq)
  qed
  then show ?thesis
    unfolding page_slots_upt [OF ps] by (simp add: distinct_map inj_on_def del: of_nat_add of_nat_mult)
qed

text \<open>C18. Allocating whole pages and freeing their slots again gives the pool back the same pages, and asking for more
  pages than are free or released is the only way to fail.\<close>

theorem paged_alloc_free_roundtrip:
  assumes ps: "0 < al_page_size a" and inv: "token_invar a" and grp: "is_not_in_free_group a"
    and dist: "distinct (free_pages a @ release_pages a)" and size: "n mod al_page_size a = 0"
  shows "(\<exists>a'. paged_alloc_slots n a = (Inr None, a') \<and> all_pages a' = all_pages a \<and> size (all_pages a) < n div al_page_size a) \<or>
    (\<exists>out a' a''. paged_alloc_slots n a = (Inr (Some out), a') \<and> length out = n \<and> distinct out \<and>
       paged_free (map nat out) a' = (Inr (), a'') \<and> all_pages a'' = all_pages a)"
proof -
  let ?k = "n div al_page_size a"
  define a1 where "a1 = (if need_sort a \<and> ?k > length (free_pages a) then merge_and_sort_free a else a)"
  have a1: "all_pages a1 = all_pages a" "al_page_size a1 = al_page_size a" "debug_mode a1 = debug_mode a"
    "is_not_in_free_group a1" "need_sort a1 = need_sort a"
    using grp by (simp_all add: a1_def all_pages_def merge_pages)
  have len: "length (free_pages a1) < ?k \<longrightarrow> size (all_pages a) < ?k"
    using inv by (auto simp: a1_def all_pages_def merge_pages token_invar_def simp flip: size_mset split: if_splits)
  show ?thesis
  proof (cases "length (free_pages a1) < ?k")
    case True
    then show ?thesis
      using size len a1(1) by (auto simp: paged_alloc_slots_def Let_def simp flip: a1_def)
  next
    case False
    define pages a' where "pages = take ?k (free_pages a1)" and "a' = a1\<lparr>free_pages := drop ?k (free_pages a1)\<rparr>"
    have run: "paged_alloc_slots n a = (Inr (Some (page_slots (al_page_size a) pages)), a')"
      using False size by (simp add: paged_alloc_slots_def Let_def pages_def a'_def a1(2) flip: a1_def)
    have "mset (free_pages a1) = mset pages + mset (free_pages a')"
      by (simp add: pages_def a'_def flip: mset_append)
    then have acct: "all_pages a = mset pages + all_pages a'"
      unfolding a1(1) [symmetric] by (simp add: all_pages_def a'_def)
    have "distinct (pages @ free_pages a' @ release_pages a')"
      using dist acct mset_eq_imp_distinct_iff [of "pages @ free_pages a' @ release_pages a'" "free_pages a @ release_pages a"]
      by (simp add: all_pages_def)
    then have d: "distinct pages" "distinct (pages @ free_pages a')"
      by auto
    have out: "length (page_slots (al_page_size a) pages) = n"
      using False size by (simp add: page_slots_upt [OF ps] pages_def) (metis add.right_neutral div_mult_mod_eq)
    have freed: "\<exists>a''. paged_free (map nat (page_slots (al_page_size a) pages)) a' = (Inr (), a'') \<and> all_pages a'' = all_pages a"
    proof (cases "page_slots (al_page_size a) pages = []")
      case True
      then have "pages = []"
        using page_slots_pages [OF ps, of pages] by simp
      then show ?thesis
        using acct by (simp add: paged_free_def page_slots_def)
    next
      case F: False
      have "sorted_list_of_set (set pages) = sort pages"
        using d(1) by (simp add: sorted_list_of_set_sort_remdups distinct_remdups_id)
      then show ?thesis
        using F d(2) acct a1 page_slots_pages [OF ps, of pages]
        by (auto simp: paged_free_def Let_def a'_def all_pages_def)
    qed
    show ?thesis
      using run out distinct_page_slots [OF ps d(1)] freed by blast
  qed
qed

theorem paged_alloc_free_roundtrip_witness:
  "\<exists>out a' a''. paged_alloc_slots 4 (ex_paged [7, 8, 9] True) = (Inr (Some out), a') \<and> length out = 4 \<and> distinct out \<and>
     paged_free (map nat out) a' = (Inr (), a'') \<and> all_pages a'' = all_pages (ex_paged [7, 8, 9] True)"
proof -
  have "(\<exists>a'. paged_alloc_slots 4 (ex_paged [7, 8, 9] True) = (Inr None, a') \<and> all_pages a' = all_pages (ex_paged [7, 8, 9] True) \<and>
      size (all_pages (ex_paged [7, 8, 9] True)) < 4 div al_page_size (ex_paged [7, 8, 9] True)) \<or>
    (\<exists>out a' a''. paged_alloc_slots 4 (ex_paged [7, 8, 9] True) = (Inr (Some out), a') \<and> length out = 4 \<and> distinct out \<and>
       paged_free (map nat out) a' = (Inr (), a'') \<and> all_pages a'' = all_pages (ex_paged [7, 8, 9] True))"
    by (rule paged_alloc_free_roundtrip) (simp_all add: ex_paged_def paged_init_def paged_clear_def token_invar_def)
  then show ?thesis
    by (auto simp: ex_paged_def paged_init_def paged_clear_def all_pages_def)
qed

end
