(* ===== verification/Pic_Release.thy ===== *)
theory Pic_Release
  imports Pic_Alloc
begin

text \<open>
  The rest of a request's life on a PIC engine: the decode allocation and the release of a finished request
  (\<^verbatim>\<open>mem_cache/common.py\<close>, \<^verbatim>\<open>managers/schedule_batch.py\<close>) over the segment cache, and the start-up check of the server
  arguments (\<^verbatim>\<open>server_args.py\<close>) with the two later handlers that fill in what the check leaves open, the page size and the
  mamba cache strategy.
\<close>

section \<open>Start-up constraints\<close>

record pic_args =
  pic_enable :: bool
  pic_mode :: string
  linear_attn_prefill_backend :: "string option"
  linear_attn_decode_backend :: "string option"
  chunked_prefill_size :: int
  pa_page_size :: "int option"
  mamba_scheduler_strategy :: "string option"
  hicache_storage_backend :: "string option"
  pa_disable_radix_cache :: bool
  mamba_radix_cache_strategy :: string
  pa_disable_overlap_schedule :: bool

text \<open>The model-path heuristic and the remaining conditions of the source only log. \<open>mamba_scheduler_strategy\<close> is read with
  \<open>getattr\<close> and a default; \<open>None\<close> is an object without the attribute, which every \<open>ServerArgs\<close> is: the class declares
  only \<open>mamba_radix_cache_strategy\<close>.\<close>

definition check_pic_constraints :: "pic_args \<Rightarrow> pic_args result" where
  "check_pic_constraints a =
     (if \<not> pic_enable a then Inr a
      else case map_of POLICIES (pic_mode a) of
        None \<Rightarrow> Inl AssertionError
      | Some p \<Rightarrow>
          let a1 = (if compose p = TRANSITION
                    then a\<lparr>linear_attn_prefill_backend := Some ''triton'', linear_attn_decode_backend := Some ''triton''\<rparr>
                    else a)
          in if chunked_prefill_size a1 \<noteq> -1 then Inl AssertionError
             else if pa_page_size a1 \<notin> {None, Some 1} then Inl AssertionError
             else let a2 = (if mamba_scheduler_strategy a1 \<notin> {None, Some ''no_buffer''}
                            then a1\<lparr>mamba_scheduler_strategy := Some ''no_buffer''\<rparr> else a1)
                  in if hicache_storage_backend a2 \<noteq> None then Inl AssertionError
                     else Inr a2)"

text \<open>The handlers that run after the check. The platform tests are arguments, and so is whether the model supports the
  extra buffer; the validation that ends the second handler is not modelled.\<close>

definition handle_page_size :: "bool \<Rightarrow> bool \<Rightarrow> pic_args \<Rightarrow> pic_args" where
  "handle_page_size hip_5d musa a =
     (if pa_page_size a = None
      then if hip_5d then a\<lparr>pa_page_size := Some 64\<rparr>
           else if \<not> musa then a\<lparr>pa_page_size := Some 1\<rparr> else a\<lparr>pa_page_size := Some 64\<rparr>
      else a)"

definition handle_mamba_radix_cache :: "bool \<Rightarrow> pic_args \<Rightarrow> pic_args" where
  "handle_mamba_radix_cache supports_extra a =
     (if pa_disable_radix_cache a then a
      else if mamba_radix_cache_strategy a = ''auto''
      then let wants_overlap = \<not> pa_disable_overlap_schedule a;
               wants_paging = (case pa_page_size a of None \<Rightarrow> False | Some n \<Rightarrow> n > 1)
           in if (wants_overlap \<or> wants_paging) \<and> supports_extra
              then a\<lparr>mamba_radix_cache_strategy := ''extra_buffer''\<rparr>
              else a\<lparr>mamba_radix_cache_strategy := ''no_buffer'', pa_disable_overlap_schedule := True\<rparr>
      else a)"

definition args_extra_buffer :: "pic_args \<Rightarrow> bool" where
  "args_extra_buffer a \<longleftrightarrow> \<not> pa_disable_radix_cache a \<and> mamba_radix_cache_strategy a \<in> {''extra_buffer'', ''extra_buffer_lazy''}"

section \<open>Decode allocation\<close>

record eng_req = pic_req +
  skip_radix_cache_insert :: bool
  reasoning_tokens :: nat
  kv_overallocated_freed :: bool

record release_args =
  ra_page_size :: nat
  ra_spec :: bool
  ra_strip_thinking_cache :: bool

text \<open>\<open>req_to_token[idxs, locs] = values\<close>: one element per pair; the three vectors must have one length, and an index
  out of range raises before anything is written.\<close>

definition write_points :: "nat list \<Rightarrow> nat list \<Rightarrow> nat list \<Rightarrow> ('p req_pool_scheme, unit) pym" where
  "write_points idxs locs values = (\<lambda>p.
     if length locs \<noteq> length idxs \<or> length values \<noteq> length idxs then (Inl RuntimeError, p)
     else if list_all (\<lambda>(i, l). i < length (req_to_token p) \<and> l < length (req_to_token p ! i)) (zip idxs locs)
     then (Inr (), p\<lparr>req_to_token :=
             fold (\<lambda>(i, l, x) rows. rows[i := (rows ! i)[l := x]]) (zip idxs (zip locs values)) (req_to_token p)\<rparr>)
     else (Inl IndexError, p))"

text \<open>\<open>alloc_for_decode\<close> for page size 1 and a decoder-only model.\<close>

definition alloc_for_decode ::
  "nat list \<Rightarrow> nat list \<Rightarrow> nat \<Rightarrow> ('w pic_world_scheme, nat list) pym" where
  "alloc_for_decode req_pool_indices seq_lens token_per_req =
     bindM (pic_alloc_token_slots (length seq_lens * token_per_req)) (\<lambda>out_cache_loc.
     bindM (on_pool (write_points req_pool_indices seq_lens out_cache_loc)) (\<lambda>_.
     retM out_cache_loc))"

text \<open>\<open>prepare_for_decode\<close> without speculation: the slots are allocated, then every request and every sequence
  length advances by one.\<close>

definition prepare_for_decode ::
  "'r pic_req_scheme list \<Rightarrow> nat list \<Rightarrow> nat list \<Rightarrow>
     ('w pic_world_scheme, nat list \<times> 'r pic_req_scheme list \<times> nat list) pym" where
  "prepare_for_decode reqs req_pool_indices seq_lens =
     bindM (alloc_for_decode req_pool_indices seq_lens 1) (\<lambda>out_cache_loc.
     retM (out_cache_loc,
           map (\<lambda>r. r\<lparr>kv_committed_len := kv_committed_len r + 1, kv_allocated_len := kv_allocated_len r + 1\<rparr>) reqs,
           map Suc seq_lens))"

section \<open>Release\<close>

definition cache_commit_len :: "release_args \<Rightarrow> 'r eng_req_scheme \<Rightarrow> nat" where
  "cache_commit_len ra r =
     (if ra_strip_thinking_cache ra \<and> reasoning_tokens r > 0
      then min (kv_committed_len r) (length (origin_input_ids r)) else kv_committed_len r)"

definition pop_overallocated_kv_cache ::
  "release_args \<Rightarrow> 'r eng_req_scheme \<Rightarrow> ('s, (nat \<times> nat) \<times> 'r eng_req_scheme) pym" where
  "pop_overallocated_kv_cache ra r =
     bindM (assertM (\<not> kv_overallocated_freed r)) (\<lambda>_.
     retM ((cache_commit_len ra r, kv_allocated_len r), r\<lparr>kv_overallocated_freed := True\<rparr>))"

definition maybe_cache_unfinished_req ::
  "pic_config \<Rightarrow> 'r eng_req_scheme \<Rightarrow> ('w pic_world_scheme, 'r eng_req_scheme) pym" where
  "maybe_cache_unfinished_req cf r =
     (if skip_radix_cache_insert r then retM r else cache_unfinished_req cf r)"

text \<open>\<open>release_kv_cache\<close>; the segment cache manages the mamba states itself (\<open>supports_mamba\<close>).\<close>

definition release_overallocated ::
  "release_args \<Rightarrow> nat \<Rightarrow> 'r eng_req_scheme \<Rightarrow> ('w pic_world_scheme, 'r eng_req_scheme) pym" where
  "release_overallocated ra idx r =
     bindM (pop_overallocated_kv_cache ra r) (\<lambda>((start_p, end_p), r1).
     bindM (assertM (\<not> ra_spec ra \<and> \<not> ra_strip_thinking_cache ra \<longrightarrow> start_p = end_p)) (\<lambda>_.
     let start_p' = (if ra_page_size ra > 1 then ceil_align start_p (ra_page_size ra) else start_p)
     in bindM (if start_p' < end_p
               then bindM (getsM (\<lambda>w. req_to_token (w_pool w))) (\<lambda>rows.
                    if length rows \<le> idx then raiseM IndexError
                    else modifyM (kv_free (drop start_p' (take end_p (rows ! idx)))))
               else retM ()) (\<lambda>_.
        on_pool (req_free r1))))"

definition release_kv_cache ::
  "pic_config \<Rightarrow> release_args \<Rightarrow> bool \<Rightarrow> 'r eng_req_scheme \<Rightarrow> ('w pic_world_scheme, 'r eng_req_scheme) pym" where
  "release_kv_cache cf ra is_insert r =
     (if req_pool_idx r = None
      then (case mamba_pool_idx r of
              None \<Rightarrow> retM r
            | Some m \<Rightarrow> bindM (modifyM (mb_free [m])) (\<lambda>_. retM (r\<lparr>mamba_pool_idx := None\<rparr>)))
      else bindM (cache_finished_req cf (is_insert \<and> \<not> skip_radix_cache_insert r) r) (\<lambda>r1.
           case req_pool_idx r1 of
             None \<Rightarrow> retM r1
           | Some idx \<Rightarrow> release_overallocated ra idx r1))"


section \<open>Decoding and releasing\<close>

text \<open>A request alone in its batch, decoding \<open>n\<close> tokens.\<close>

fun decode_steps ::
  "nat \<Rightarrow> nat \<Rightarrow> 'r pic_req_scheme \<Rightarrow> nat \<Rightarrow> ('w pic_world_scheme, 'r pic_req_scheme) pym" where
  "decode_steps 0 idx r seq_len = retM r"
| "decode_steps (Suc n) idx r seq_len =
     bindM (prepare_for_decode [r] [idx] [seq_len]) (\<lambda>(out, reqs, lens).
     decode_steps n idx (hd reqs) (hd lens))"

definition decoded :: "nat \<Rightarrow> 'r pic_req_scheme \<Rightarrow> 'r pic_req_scheme" where
  "decoded n r = r\<lparr>kv_committed_len := kv_committed_len r + n, kv_allocated_len := kv_allocated_len r + n\<rparr>"

text \<open>The pool after rows were written: everything but the rows and the mamba allocator is as before.\<close>

definition rows_only :: "'p hybrid_pool_scheme \<Rightarrow> nat list list \<Rightarrow> 'p hybrid_pool_scheme \<Rightarrow> bool" where
  "rows_only p rows p' \<longleftrightarrow> (\<exists>m. p' = p\<lparr>mamba_allocator := m, req_to_token := rows\<rparr>)"

lemma rows_only_trans: "rows_only p rows p1 \<Longrightarrow> rows_only p1 rows' p2 \<Longrightarrow> rows_only p rows' p2"
  by (auto simp: rows_only_def)

lemma rows_only_fields:
  assumes "rows_only p rows p'"
  shows "req_to_token p' = rows" "rp_free_slots p' = rp_free_slots p" "mamba_synced r p' = mamba_synced r p"
  using assms by (auto simp: rows_only_def mamba_synced_def)

lemma takes_rows: "takes cf w K M w1 \<Longrightarrow> w2 = w1\<lparr>w_pool := (w_pool w1)\<lparr>req_to_token := rows\<rparr>\<rparr> \<Longrightarrow>
    length rows = length (req_to_token (w_pool w1)) \<Longrightarrow> takes cf w K M w2"
  by (auto simp add: takes_def pic_inv_def entry_ok_def kv_acct_def mb_acct_def all_values_flatten_def
      all_mamba_values_flatten_def entry_values_def)

lemma prepare_for_decode_one:
  assumes run: "prepare_for_decode [r] [idx] [L] w = (Inr res, w')" and inv: "pic_inv cf w" "is_not_in_free_group (w_kv w)"
  shows "\<exists>x. res = ([x], [decoded 1 r], [Suc L]) \<and> takes cf w {#x#} {#} w' \<and>
    idx < length (req_to_token (w_pool w)) \<and> L < length (req_to_token (w_pool w) ! idx) \<and>
    rows_only (w_pool w) ((req_to_token (w_pool w))[idx := (req_to_token (w_pool w) ! idx)[L := x]]) (w_pool w')"
proof -
  obtain out w1 where a: "pic_alloc_token_slots 1 w = (Inr out, w1)"
    "on_pool (write_points [idx] [L] out) w1 = (Inr (), w')" "res = (out, [decoded 1 r], [Suc L])"
    using run by (auto simp: prepare_for_decode_def alloc_for_decode_def bindM_Inr_iff decoded_def)
  have t: "takes cf w (mset out) {#} w1" "length out = 1" "mamba_only (w_pool w) (w_pool w1)"
    using pic_alloc_token_slots_takes [OF a(1) inv] by simp_all
  then obtain x where x: "out = [x]"
    by (cases out) auto
  let ?rows = "(req_to_token (w_pool w1))[idx := (req_to_token (w_pool w1) ! idx)[L := x]]"
  have w': "w' = w1\<lparr>w_pool := (w_pool w1)\<lparr>req_to_token := ?rows\<rparr>\<rparr>" "idx < length (req_to_token (w_pool w1))"
    "L < length (req_to_token (w_pool w1) ! idx)"
    using a(2) by (auto simp: on_pool_def write_points_def x split: if_splits)
  show ?thesis
    using a(3) takes_rows [OF t(1) w'(1)] w' t(3) mamba_only_fields(2) [OF t(3)]
    by (auto simp: x rows_only_def mamba_only_def)
qed

lemma decode_steps_spec:
  assumes "decode_steps n idx r L w = (Inr r', w')" "pic_inv cf w" "is_not_in_free_group (w_kv w)"
    "idx < length (req_to_token (w_pool w))" "L \<le> length (req_to_token (w_pool w) ! idx)"
  shows "\<exists>xs. length xs = n \<and> r' = decoded n r \<and> takes cf w (mset xs) {#} w' \<and> L + n \<le> length (req_to_token (w_pool w) ! idx) \<and>
    rows_only (w_pool w) ((req_to_token (w_pool w))[idx :=
       take L (req_to_token (w_pool w) ! idx) @ xs @ drop (L + n) (req_to_token (w_pool w) ! idx)]) (w_pool w')"
  using assms
proof (induction n arbitrary: r L w)
  case 0
  then show ?case
    by (auto simp: decoded_def rows_only_def takes_refl intro!: exI [of _ "mamba_allocator (w_pool w)"])
next
  case (Suc n)
  let ?rows = "req_to_token (w_pool w)" and ?row = "req_to_token (w_pool w) ! idx"
  obtain res w1 where one: "prepare_for_decode [r] [idx] [L] w = (Inr res, w1)"
    and rest: "(case res of (out, reqs, lens) \<Rightarrow> decode_steps n idx (hd reqs) (hd lens)) w1 = (Inr r', w')"
    using Suc.prems(1) by (auto simp: bindM_Inr_iff)
  obtain x where x: "res = ([x], [decoded 1 r], [Suc L])" "takes cf w {#x#} {#} w1" "L < length ?row"
    "rows_only (w_pool w) (?rows[idx := ?row[L := x]]) (w_pool w1)"
    using prepare_for_decode_one [OF one Suc.prems(2,3)] by blast
  note rows = rows_only_fields(1) [OF x(4)]
  from rest x(1) have run: "decode_steps n idx (decoded 1 r) (Suc L) w1 = (Inr r', w')"
    by simp
  obtain xs where xs: "length xs = n" "r' = decoded n (decoded 1 r)" "takes cf w1 (mset xs) {#} w'"
    "Suc L + n \<le> length (?row[L := x])"
    "rows_only (w_pool w1) ((?rows[idx := ?row[L := x]])[idx := take (Suc L) (?row[L := x]) @ xs @ drop (Suc L + n) (?row[L := x])]) (w_pool w')"
    using Suc.IH [OF run takes_inv [OF x(2)]] Suc.prems(4) x(3) unfolding rows by auto
  have "take (Suc L) (?row[L := x]) = take L ?row @ [x]"
    using x(3) by (simp add: take_Suc_conv_app_nth)
  then have row: "take (Suc L) (?row[L := x]) @ xs @ drop (Suc L + n) (?row[L := x]) =
      take L ?row @ (x # xs) @ drop (L + Suc n) ?row"
    by simp
  show ?case
    using xs takes_trans [OF x(2) xs(3)] rows_only_trans [OF x(4) xs(5) [unfolded row]]
    by (intro exI [of _ "x # xs"]) (simp add: decoded_def)
qed


definition ex_running :: eng_req where
  "ex_running = pic_req.extend (ex_admitted\<lparr>kv_committed_len := 5, kv_allocated_len := 5\<rparr>) (eng_req.fields False 0 False)"

definition ex_decode_world :: pic_world where
  "ex_decode_world = snd (decode_steps 2 1 ex_running 5 ex_alloc_world)"

lemma ex_alloc_facts:
  "pic_inv (ex_cf ''addition'') ex_alloc_world" "is_not_in_free_group (w_kv ex_alloc_world)" "toks_in ex_toks ex_alloc_world"
proof -
  obtain w1 K where t: "takes (ex_cf ''addition'') ex_world K (\<Sum>r\<leftarrow>[ex_admitted]. req_mb r + req_mamba r) w1"
    "ex_alloc_world = add_inflight (int (size K)) (int (size (\<Sum>r\<leftarrow>[ex_admitted]. req_mb r))) w1"
    using pic_alloc_spec [OF ex_alloc_run ex_world_inv ex_alloc_pre, of ex_toks] ex_pending_adm by auto
  show "pic_inv (ex_cf ''addition'') ex_alloc_world" "is_not_in_free_group (w_kv ex_alloc_world)" "toks_in ex_toks ex_alloc_world"
    using takes_inv [OF t(1)] takes_toks [OF t(1) ex_toks_in] unfolding t(2) by (simp_all add: add_inflight_simps) (simp add: add_inflight_def)
qed

lemma ex_decode_run: "decode_steps 2 1 ex_running 5 ex_alloc_world = (Inr (decoded 2 ex_running), ex_decode_world)"
proof -
  have "fst (decode_steps 2 1 ex_running 5 ex_alloc_world) = Inr (decoded 2 ex_running)"
    by code_simp
  then show ?thesis
    unfolding ex_decode_world_def by (metis prod.collapse)
qed

lemma ex_running_ready: "std_ready (ex_cf ''addition'') ex_toks ex_running"
  by (simp add: std_ready_def std_held_def ex_running_def ex_admitted_def ex_pending_def ex_req_def pic_req.defs eng_req.defs ex_cf_def POLICIES_def
      seg_slice_def ex_toks_def cacheable_len_def global_seg_def)


section \<open>What the start-up check leaves open\<close>

text \<open>What does hold of arguments that pass the check: a known mode, no chunked prefill, no external cache storage, and the
  Triton backend in the transition modes.\<close>

lemma check_pic_constraints_facts:
  assumes "check_pic_constraints a = Inr a'" "pic_enable a"
  shows "\<exists>p. map_of POLICIES (pic_mode a') = Some p \<and> pic_mode a' = pic_mode a \<and> chunked_prefill_size a' = -1 \<and>
    pa_page_size a' \<in> {None, Some 1} \<and> hicache_storage_backend a' = None \<and>
    (compose p = TRANSITION \<longrightarrow> linear_attn_prefill_backend a' = Some ''triton'' \<and>
       linear_attn_decode_backend a' = Some ''triton'')"
  using assms by (auto simp: check_pic_constraints_def Let_def split: option.splits if_splits)

text \<open>The page size is not among them: an unset page size passes, and the later handler makes it 64 on a MUSA device or
  with the vectorised layout of the ROCm backend, although the check means to require 1.\<close>

lemma page_size_left_open:
  assumes "check_pic_constraints a = Inr a'" "pa_page_size a = None"
  shows "pa_page_size (handle_page_size hip_5d musa a') = Some (if hip_5d \<or> musa then 64 else 1)"
  using assms by (auto simp: check_pic_constraints_def handle_page_size_def Let_def split: option.splits if_splits)

text \<open>Nor is the mamba strategy: the check looks at an attribute the arguments do not have, so the strategy that is used
  stays what it was, and with \<open>auto\<close> and overlap scheduling the later handler chooses the extra buffer, although the check
  means to force \<open>no_buffer\<close>.\<close>

lemma mamba_strategy_left_open:
  assumes "check_pic_constraints a = Inr a'" "mamba_scheduler_strategy a = None"
  shows "mamba_radix_cache_strategy a' = mamba_radix_cache_strategy a"
    "\<not> pa_disable_radix_cache a \<Longrightarrow> mamba_radix_cache_strategy a = ''auto'' \<Longrightarrow> \<not> pa_disable_overlap_schedule a \<Longrightarrow>
       args_extra_buffer (handle_mamba_radix_cache True a')"
  using assms by (auto simp: check_pic_constraints_def handle_mamba_radix_cache_def args_extra_buffer_def Let_def
      split: option.splits if_splits)

end
