(* ===== verification/Sched_Queue.thy ===== *)
theory Sched_Queue
  imports Pic_Release "HOL-Library.Sublist" "HOL-Library.Product_Lexorder"
begin

text \<open>
  The queues of \<^verbatim>\<open>managers/scheduler.py\<close>: admission under a queue limit and priorities, the waiting timeout, and the
  abort of requests by identifier prefix in every queue. Requests and scheduler are records; the segment cache and the
  pools are the field \<open>sd_world\<close>. Hierarchical and external cache storage, which the PIC start-up check excludes, is left out.
\<close>

section \<open>State\<close>

datatype disagg_mode = NULL | PREFILL | DECODE

text \<open>\<open>disagg_kv_sender\<close>: absent, or present with the two facts whether it has an \<open>abort\<close> method and whether that was called.\<close>

datatype kv_sender = NoSender | Sender bool bool

record combine_item =
  ci_seg_index :: int
  ci_worker_addr :: string
  ci_room :: int

record scatter_meta =
  sm_combine_addr :: string
  sm_scatter_room :: int
  sm_seg_index :: int

record sched_req = eng_req +
  rid :: string
  req_priority :: "int option"
  wait_queue_entry_time :: int
  pending_bootstrap :: bool
  disagg_kv_sender :: kv_sender
  metadata_buffer_index :: int
  to_finish :: bool
  finished_length :: "nat option"
  pic_scatter_meta :: "scatter_meta option"
  pic_combine :: "combine_item list option"
  pic_combine_hashes :: "bytes list"
  is_pic_combine :: bool
  cached_tokens :: nat

text \<open>A decode-side request with the fact whether its receiver was aborted.\<close>

type_synonym decode_req = "sched_req \<times> bool"

datatype abort_reason = PlainAbort | PriorityDisabled | QueueFull | Preempted | WaitingTimeout

record sched =
  sd_world :: pic_world
  sd_mode :: disagg_mode
  max_queued_requests :: "nat option"
  enable_priority_scheduling :: bool
  schedule_low_priority_values_first :: bool
  abort_on_priority_when_disabled :: bool
  sd_waiting :: "sched_req list"
  sd_grammar :: "sched_req list"
  sd_chunked :: "sched_req option"
  sd_pending_chunked_abort :: "sched_req option"
  sd_bootstrap :: "sched_req list"
  sd_prefill_inflight :: "sched_req list"
  sd_prealloc :: "decode_req list"
  sd_transfer :: "decode_req list"
  sd_retracted :: "(sched_req \<times> bool) list"
  sd_running :: "sched_req list"
  sd_cur :: "sched_req list option"
  sd_metadata_free :: "int list"
  sd_sent :: "(string \<times> abort_reason) list"

text \<open>\<open>sd_cur\<close> is \<open>None\<close> when \<open>cur_batch\<close> is absent or is the running batch. \<open>sd_sent\<close> are the abort messages sent to the
  tokenizer.\<close>

definition on_world :: "(pic_world, 'a) pym \<Rightarrow> ('s sched_scheme, 'a) pym" where
  "on_world m = (\<lambda>s. case m (sd_world s) of (x, w) \<Rightarrow> (x, s\<lparr>sd_world := w\<rparr>))"

definition send_abort :: "string \<Rightarrow> abort_reason \<Rightarrow> 's sched_scheme \<Rightarrow> 's sched_scheme" where
  "send_abort i why s = s\<lparr>sd_sent := sd_sent s @ [(i, why)]\<rparr>"

section \<open>Admission\<close>

definition sys_maxsize :: int where
  "sys_maxsize = 2 ^ 63 - 1"

definition set_or_validate_priority :: "sched_req \<Rightarrow> ('s sched_scheme, bool \<times> sched_req) pym" where
  "set_or_validate_priority r =
     bindM (getsM enable_priority_scheduling) (\<lambda>en.
     bindM (getsM schedule_low_priority_values_first) (\<lambda>low.
     bindM (getsM abort_on_priority_when_disabled) (\<lambda>ab.
     if en \<and> req_priority r = None
     then retM (True, r\<lparr>req_priority := Some (if low then sys_maxsize else - sys_maxsize - 1)\<rparr>)
     else if \<not> en \<and> req_priority r \<noteq> None \<and> ab
     then bindM (modifyM (send_abort (rid r) PriorityDisabled)) (\<lambda>_. retM (False, r))
     else retM (True, r))))"

text \<open>Python's \<open>max\<close> keeps the first of several maximal elements.\<close>

fun first_max :: "('a \<times> 'k::linorder) \<Rightarrow> ('a \<times> 'k) list \<Rightarrow> 'a \<times> 'k" where
  "first_max best [] = best"
| "first_max best (x # xs) = first_max (if snd best < snd x then x else best) xs"

definition queue_key :: "int \<Rightarrow> nat \<times> sched_req \<Rightarrow> ((nat \<times> sched_req) \<times> int \<times> int) result" where
  "queue_key direction item =
     (case req_priority (snd item) of
        None \<Rightarrow> Inl TypeError
      | Some p \<Rightarrow> Inr (item, direction * p, wait_queue_entry_time (snd item)))"

definition max_by_key :: "int \<Rightarrow> sched_req list \<Rightarrow> (nat \<times> sched_req) result" where
  "max_by_key direction queue =
     (case map_result (queue_key direction) (List.enumerate 0 queue) of
        Inl e \<Rightarrow> Inl e
      | Inr [] \<Rightarrow> Inl ValueError
      | Inr (x # xs) \<Rightarrow> Inr (fst (first_max x xs)))"

definition pop_nth :: "nat \<Rightarrow> 'a list \<Rightarrow> 'a list" where
  "pop_nth i xs = take i xs @ drop (Suc i) xs"

definition abort_on_queued_limit :: "sched_req \<Rightarrow> ('s sched_scheme, bool) pym" where
  "abort_on_queued_limit recv =
     bindM (getsM (\<lambda>s. (max_queued_requests s, sd_waiting s))) (\<lambda>(limit, queue).
     if (case limit of None \<Rightarrow> True | Some m \<Rightarrow> length queue + 1 \<le> m) then retM False
     else bindM (getsM enable_priority_scheduling) (\<lambda>en.
          bindM (if \<not> en then retM (recv, QueueFull)
                 else bindM (getsM (\<lambda>s. if schedule_low_priority_values_first s then 1 else (-1))) (\<lambda>direction.
                      bindM (liftM (max_by_key direction queue)) (\<lambda>(idx, candidate).
                      bindM (optM TypeError (req_priority recv)) (\<lambda>p.
                      bindM (optM TypeError (req_priority candidate)) (\<lambda>q.
                      if direction * p < direction * q
                      then bindM (modifyM (\<lambda>s. s\<lparr>sd_waiting := pop_nth idx queue\<rparr>)) (\<lambda>_. retM (candidate, Preempted))
                      else retM (recv, QueueFull)))))) (\<lambda>(req_to_abort, why).
          bindM (modifyM (send_abort (rid req_to_abort) why)) (\<lambda>_.
          retM (rid req_to_abort = rid recv)))))"

text \<open>The enqueue of an engine that is not disaggregated.\<close>

definition enqueue_null :: "pic_config \<Rightarrow> sched_req \<Rightarrow> ('s sched_scheme, unit) pym" where
  "enqueue_null cf r =
     bindM (abort_on_queued_limit r) (\<lambda>aborted.
     if aborted then retM ()
     else modifyM (\<lambda>s. s\<lparr>sd_world := tick (sd_world s),
            sd_waiting := sd_waiting s @ [r\<lparr>wait_queue_entry_time := monotonic cf (sd_world s)\<rparr>]\<rparr>))"

definition waiting_expired :: "int \<Rightarrow> sched_req \<Rightarrow> bool" where
  "waiting_expired deadline r \<longleftrightarrow> 0 < wait_queue_entry_time r \<and> wait_queue_entry_time r < deadline"

definition abort_on_waiting_timeout :: "pic_config \<Rightarrow> int \<Rightarrow> 's sched_scheme \<Rightarrow> 's sched_scheme" where
  "abort_on_waiting_timeout cf timeout_s s =
     (if timeout_s \<le> 0 then s
      else let deadline = monotonic cf (sd_world s) - timeout_s;
               s1 = s\<lparr>sd_world := tick (sd_world s)\<rparr>;
               s2 = fold (\<lambda>r. send_abort (rid r) WaitingTimeout) (filter (waiting_expired deadline) (sd_waiting s1)) s1
           in s2\<lparr>sd_waiting := filter (\<lambda>r. \<not> waiting_expired deadline r) (sd_waiting s2)\<rparr>)"

section \<open>Abort\<close>

definition abort_matches :: "bool \<Rightarrow> string \<Rightarrow> sched_req \<Rightarrow> bool" where
  "abort_matches abort_all i r \<longleftrightarrow> abort_all \<or> prefix i (rid r)"

definition maybe_release_metadata_buffer :: "sched_req \<Rightarrow> 's sched_scheme \<Rightarrow> sched_req \<times> 's sched_scheme" where
  "maybe_release_metadata_buffer r s =
     (if metadata_buffer_index r \<ge> 0
      then (r\<lparr>metadata_buffer_index := -1\<rparr>, s\<lparr>sd_metadata_free := sd_metadata_free s @ [metadata_buffer_index r]\<rparr>)
      else (r, s))"

fun sender_abort :: "kv_sender \<Rightarrow> kv_sender" where
  "sender_abort NoSender = NoSender"
| "sender_abort (Sender can a) = Sender can (can \<or> a)"

definition abort_sender :: "sched_req \<Rightarrow> sched_req" where
  "abort_sender r = r\<lparr>disagg_kv_sender := sender_abort (disagg_kv_sender r)\<rparr>"

text \<open>One queued request: pop it, answer it, give back what it holds.\<close>

definition abort_queued :: "pic_config \<Rightarrow> release_args \<Rightarrow> nat \<Rightarrow> ('s sched_scheme, unit) pym" where
  "abort_queued cf ra i =
     bindM (getsM (\<lambda>s. (sd_mode s, sd_waiting s ! i))) (\<lambda>(mode, r).
     bindM (modifyM (\<lambda>s. s\<lparr>sd_waiting := pop_nth i (sd_waiting s)\<rparr>)) (\<lambda>_.
     bindM (modifyM (send_abort (rid r) PlainAbort)) (\<lambda>_.
     bindM (if mode = DECODE then on_world (release_kv_cache cf ra True r) else retM r) (\<lambda>r1.
     bindM (if mode = PREFILL
            then bindM (stateM (maybe_release_metadata_buffer r1)) (\<lambda>r2.
                 retM (if pending_bootstrap r1 then abort_sender r2 else r2))
            else retM r1) (\<lambda>r3.
     if mamba_pool_idx r3 \<noteq> None \<and> mode \<noteq> DECODE
     then bindM (on_world (release_kv_cache cf ra False r3)) (\<lambda>_. retM ())
     else retM ())))))"

definition set_finish_with_abort :: "sched_req \<Rightarrow> sched_req" where
  "set_finish_with_abort r = r\<lparr>origin_input_ids := [0], to_finish := True\<rparr>"

definition grammar_abort :: "bool \<Rightarrow> string \<Rightarrow> sched_req list \<Rightarrow> sched_req list" where
  "grammar_abort abort_all i = map (\<lambda>r. if abort_matches abort_all i r then set_finish_with_abort r else r)"

definition abort_prefill_queues :: "bool \<Rightarrow> string \<Rightarrow> 's sched_scheme \<Rightarrow> 's sched_scheme" where
  "abort_prefill_queues abort_all i s =
     (let ab = map (\<lambda>r. if abort_matches abort_all i r then abort_sender r else r)
      in s\<lparr>sd_bootstrap := ab (sd_bootstrap s), sd_prefill_inflight := ab (sd_prefill_inflight s)\<rparr>)"

text \<open>The retracted requests: a matching one must have its CPU copy, which is dropped, and is answered.\<close>

fun abort_retracted ::
  "bool \<Rightarrow> string \<Rightarrow> (sched_req \<times> bool) list \<Rightarrow> (sched_req \<times> bool) list \<Rightarrow>
     ('s sched_scheme, (sched_req \<times> bool) list) pym" where
  "abort_retracted abort_all i [] remaining = retM remaining"
| "abort_retracted abort_all i ((r, cpu) # rs) remaining =
     (if abort_matches abort_all i r
      then bindM (assertM cpu) (\<lambda>_.
           bindM (modifyM (send_abort (rid r) PlainAbort)) (\<lambda>_.
           abort_retracted abort_all i rs remaining))
      else abort_retracted abort_all i rs (remaining @ [(r, cpu)]))"

definition abort_decode_queues :: "bool \<Rightarrow> string \<Rightarrow> ('s sched_scheme, unit) pym" where
  "abort_decode_queues abort_all i =
     (let ab = map (\<lambda>(r, a). (r, a \<or> abort_matches abort_all i r))
      in bindM (modifyM (\<lambda>s. s\<lparr>sd_prealloc := ab (sd_prealloc s), sd_transfer := ab (sd_transfer s)\<rparr>)) (\<lambda>_.
         bindM (getsM sd_retracted) (\<lambda>retracted.
         bindM (abort_retracted abort_all i retracted []) (\<lambda>remaining.
         modifyM (\<lambda>s. s\<lparr>sd_retracted := remaining\<rparr>)))))"

definition abort_batches :: "bool \<Rightarrow> string \<Rightarrow> 's sched_scheme \<Rightarrow> 's sched_scheme" where
  "abort_batches abort_all i s =
     (let ab = map (\<lambda>r. if finished_length r = None \<and> abort_matches abort_all i r then r\<lparr>to_finish := True\<rparr> else r)
      in s\<lparr>sd_running := ab (sd_running s), sd_cur := map_option ab (sd_cur s)\<rparr>)"

definition matching_indices :: "bool \<Rightarrow> string \<Rightarrow> sched_req list \<Rightarrow> nat list" where
  "matching_indices abort_all i queue = filter (\<lambda>k. abort_matches abort_all i (queue ! k)) [0..<length queue]"

definition abort_request ::
  "pic_config \<Rightarrow> release_args \<Rightarrow> bool \<Rightarrow> string \<Rightarrow> ('s sched_scheme, unit) pym" where
  "abort_request cf ra abort_all i =
     bindM (modifyM (\<lambda>s. case sd_chunked s of
              Some c \<Rightarrow> if abort_matches abort_all i c then s\<lparr>sd_pending_chunked_abort := Some c\<rparr> else s
            | None \<Rightarrow> s)) (\<lambda>_.
     bindM (getsM (\<lambda>s. matching_indices abort_all i (sd_waiting s))) (\<lambda>to_del.
     bindM (foldM (\<lambda>_. abort_queued cf ra) () (rev to_del)) (\<lambda>_.
     bindM (modifyM (\<lambda>s. s\<lparr>sd_grammar := grammar_abort abort_all i (sd_grammar s)\<rparr>)) (\<lambda>_.
     bindM (getsM sd_mode) (\<lambda>mode.
     bindM (if mode = PREFILL then modifyM (abort_prefill_queues abort_all i)
            else if mode = DECODE then abort_decode_queues abort_all i
            else retM ()) (\<lambda>_.
     modifyM (abort_batches abort_all i)))))))"

section \<open>Queue limit and preemption\<close>

lemma first_max_props:
  "first_max b xs \<in> insert b (set xs) \<and> (\<forall>x\<in>insert b (set xs). snd x \<le> snd (first_max b xs))"
proof (induction xs arbitrary: b)
  case (Cons x xs)
  show ?case
    using Cons.IH [of "if snd b < snd x then x else b"] by (auto split: if_splits)
qed simp

lemma map_result_InrD:
  "map_result f xs = Inr ys \<Longrightarrow> length ys = length xs \<and> (\<forall>i<length xs. f (xs ! i) = Inr (ys ! i))"
proof (induction xs arbitrary: ys)
  case (Cons x xs)
  then show ?case
    by (fastforce simp: less_Suc_eq_0_disj split: sum.splits)
qed simp

lemma map_result_set:
  assumes "map_result f xs = Inr ys"
  shows "x \<in> set xs \<Longrightarrow> \<exists>y\<in>set ys. f x = Inr y" "y \<in> set ys \<Longrightarrow> \<exists>x\<in>set xs. f x = Inr y"
  using map_result_InrD [OF assms] by (metis in_set_conv_nth)+

lemma max_by_key_InrD:
  assumes "max_by_key d q = Inr (i, c)"
  shows "i < length q \<and> c = q ! i \<and> (\<exists>p. req_priority c = Some p \<and>
    (\<forall>r\<in>set q. \<exists>p'. req_priority r = Some p' \<and> (d * p', wait_queue_entry_time r) \<le> (d * p, wait_queue_entry_time c)))"
proof -
  obtain x xs where m: "map_result (queue_key d) (List.enumerate 0 q) = Inr (x # xs)" "(i, c) = fst (first_max x xs)"
    using assms by (auto simp: max_by_key_def split: sum.splits list.splits)
  let ?best = "first_max x xs"
  have best: "?best \<in> set (x # xs)" "\<forall>y\<in>set (x # xs). snd y \<le> snd ?best"
    using first_max_props [of x xs] by auto
  obtain it where it: "it \<in> set (List.enumerate 0 q)" "queue_key d it = Inr ?best"
    using map_result_set(2) [OF m(1) best(1)] by blast
  have ic: "it = (i, c)"
    using it(2) m(2) by (auto simp: queue_key_def split: option.splits) (metis fst_conv)
  then have pos: "i < length q" "c = q ! i"
    using it(1) by (auto simp: in_set_enumerate_eq)
  obtain p where p: "req_priority c = Some p" "snd ?best = (d * p, wait_queue_entry_time c)"
    using it(2) unfolding ic queue_key_def by (auto split: option.splits) (metis snd_conv)
  have "\<exists>p'. req_priority r = Some p' \<and> (d * p', wait_queue_entry_time r) \<le> (d * p, wait_queue_entry_time c)"
    if r: "r \<in> set q" for r
  proof -
    obtain k where "k < length q" "q ! k = r"
      using r by (auto simp: in_set_conv_nth)
    then have "(k, r) \<in> set (List.enumerate 0 q)"
      by (simp add: in_set_enumerate_eq)
    then obtain y where y: "y \<in> set (x # xs)" "queue_key d (k, r) = Inr y"
      using map_result_set(1) [OF m(1)] by blast
    then show ?thesis
      using best(2) p(2) by (auto simp: queue_key_def split: option.splits)
  qed
  then show ?thesis
    using pos p(1) by blast
qed

lemma mset_pop_nth: "i < length xs \<Longrightarrow> mset xs = mset (pop_nth i xs) + {#xs ! i#}"
proof -
  assume "i < length xs"
  then have "xs = take i xs @ xs ! i # drop (Suc i) xs"
    by (rule id_take_nth_drop)
  then have "mset xs = mset (take i xs @ xs ! i # drop (Suc i) xs)"
    by simp
  then show ?thesis
    by (simp add: pop_nth_def)
qed

abbreviation (input) prio_dir :: "'s sched_scheme \<Rightarrow> int" where
  "prio_dir s \<equiv> (if schedule_low_priority_values_first s then 1 else -1)"

lemma abort_on_queued_limit_cases:
  assumes run: "abort_on_queued_limit r s = (Inr b, s')" and m: "max_queued_requests s = Some m"
  shows "length (sd_waiting s) < m \<and> \<not> b \<and> s' = s \<or>
    m \<le> length (sd_waiting s) \<and> b \<and> s' = send_abort (rid r) QueueFull s \<or>
    (\<exists>i p q. m \<le> length (sd_waiting s) \<and> i < length (sd_waiting s) \<and> enable_priority_scheduling s \<and>
       b = (rid (sd_waiting s ! i) = rid r) \<and>
       s' = send_abort (rid (sd_waiting s ! i)) Preempted (s\<lparr>sd_waiting := pop_nth i (sd_waiting s)\<rparr>) \<and>
       req_priority r = Some p \<and> req_priority (sd_waiting s ! i) = Some q \<and> prio_dir s * p < prio_dir s * q \<and>
       (\<forall>x\<in>set (sd_waiting s). \<exists>p'. req_priority x = Some p' \<and>
          (prio_dir s * p', wait_queue_entry_time x) \<le> (prio_dir s * q, wait_queue_entry_time (sd_waiting s ! i))))"
proof (cases "length (sd_waiting s) < m \<or> \<not> enable_priority_scheduling s")
  case True
  then show ?thesis
    using run m by (auto simp: abort_on_queued_limit_def split: if_splits)
next
  case False
  obtain i c where ic: "max_by_key (prio_dir s) (sd_waiting s) = Inr (i, c)"
    using run m False by (cases "max_by_key (prio_dir s) (sd_waiting s)") (auto simp: abort_on_queued_limit_def bindM_assoc)
  obtain q where q: "i < length (sd_waiting s)" "c = sd_waiting s ! i" "req_priority c = Some q"
    "\<forall>x\<in>set (sd_waiting s). \<exists>p'. req_priority x = Some p' \<and>
          (prio_dir s * p', wait_queue_entry_time x) \<le> (prio_dir s * q, wait_queue_entry_time c)"
    using max_by_key_InrD [OF ic] by blast
  obtain p where p: "req_priority r = Some p"
    using run m False ic by (cases "req_priority r") (auto simp: abort_on_queued_limit_def bindM_assoc)
  have eq: "abort_on_queued_limit r s = (if prio_dir s * p < prio_dir s * q
      then (Inr (rid c = rid r), send_abort (rid c) Preempted (s\<lparr>sd_waiting := pop_nth i (sd_waiting s)\<rparr>))
      else (Inr True, send_abort (rid r) QueueFull s))"
    using m False ic q(3) p by (simp add: abort_on_queued_limit_def bindM_app)
  show ?thesis
  proof (cases "prio_dir s * p < prio_dir s * q")
    case True
    have full: "m \<le> length (sd_waiting s)" "enable_priority_scheduling s"
      using False by simp_all
    have out: "b = (rid (sd_waiting s ! i) = rid r)"
      "s' = send_abort (rid (sd_waiting s ! i)) Preempted (s\<lparr>sd_waiting := pop_nth i (sd_waiting s)\<rparr>)"
      using run unfolding eq if_P [OF True] q(2) by auto
    show ?thesis
      by (intro disjI2 exI [of _ i] exI [of _ p] exI [of _ q] conjI)
        (fact full out q(1) p q(3) [unfolded q(2)] q(4) [unfolded q(2)] True)+
  next
    case no: False
    then show ?thesis
      using run False unfolding eq if_not_P [OF no] by auto
  qed
qed

text \<open>C29. The queue limit holds on the plain enqueue path (scattered sub-requests do not pass it): a full queue never grows, every request that is dropped is answered, and a waiting
  request is dropped in favour of the new one only when priorities are enabled, its priority is strictly worse than the
  new one's and no waiting request ranks behind it (a worse priority, or the same and queued later).\<close>

theorem queue_limit_respected:
  assumes run: "enqueue_null cf r s = (Inr (), s')" and m: "max_queued_requests s = Some m" "length (sd_waiting s) \<le> m"
    and fresh: "rid r \<notin> rid ` set (sd_waiting s)"
  shows "length (sd_waiting s') \<le> m \<and>
    (sd_sent s' = sd_sent s \<and> sd_waiting s' = sd_waiting s @ [r\<lparr>wait_queue_entry_time := monotonic cf (sd_world s)\<rparr>] \<or>
     sd_sent s' = sd_sent s @ [(rid r, QueueFull)] \<and> sd_waiting s' = sd_waiting s \<and> m \<le> length (sd_waiting s) \<or>
     (\<exists>c\<in>set (sd_waiting s). \<exists>p q. sd_sent s' = sd_sent s @ [(rid c, Preempted)] \<and> enable_priority_scheduling s \<and>
        mset (sd_waiting s') + {#c#} = mset (sd_waiting s) + {#r\<lparr>wait_queue_entry_time := monotonic cf (sd_world s)\<rparr>#} \<and>
        req_priority r = Some p \<and> req_priority c = Some q \<and> prio_dir s * p < prio_dir s * q \<and>
        (\<forall>x\<in>set (sd_waiting s). \<exists>p'. req_priority x = Some p' \<and>
          (prio_dir s * p', wait_queue_entry_time x) \<le> (prio_dir s * q, wait_queue_entry_time c))))"
proof -
  let ?r = "r\<lparr>wait_queue_entry_time := monotonic cf (sd_world s)\<rparr>"
  obtain b s1 where b: "abort_on_queued_limit r s = (Inr b, s1)"
    and rest: "(if b then retM () else modifyM (\<lambda>s. s\<lparr>sd_world := tick (sd_world s),
       sd_waiting := sd_waiting s @ [r\<lparr>wait_queue_entry_time := monotonic cf (sd_world s)\<rparr>]\<rparr>)) s1 = (Inr (), s')"
    using run unfolding enqueue_null_def bindM_Inr_iff by blast
  then have s': "s' = (if b then s1 else s1\<lparr>sd_world := tick (sd_world s1),
       sd_waiting := sd_waiting s1 @ [r\<lparr>wait_queue_entry_time := monotonic cf (sd_world s1)\<rparr>]\<rparr>)"
    by (cases b) auto
  from abort_on_queued_limit_cases [OF b m(1)] show ?thesis
  proof (elim disjE exE conjE, goal_cases)
    case (3 i p q)
    then have c: "sd_waiting s ! i \<in> set (sd_waiting s)" "rid (sd_waiting s ! i) \<noteq> rid r"
      using fresh by auto (metis image_eqI nth_mem)
    then have s'': "sd_waiting s' = pop_nth i (sd_waiting s) @ [?r]" "sd_sent s' = sd_sent s @ [(rid (sd_waiting s ! i), Preempted)]"
      using 3 s' by (simp_all add: send_abort_def)
    have ms: "mset (sd_waiting s') + {#sd_waiting s ! i#} = mset (sd_waiting s) + {#?r#}"
      using mset_pop_nth [OF 3(2)] s''(1) by simp
    then have "length (sd_waiting s') = length (sd_waiting s)"
      by (metis add_right_cancel size_mset size_single size_union)
    then have len: "length (sd_waiting s') \<le> m"
      using m(2) by simp
    show ?thesis
      by (intro conjI disjI2 bexI [OF _ c(1)] exI [of _ p] exI [of _ q]) (fact len s''(2) ms 3)+
  qed (use s' m(2) in \<open>simp_all add: send_abort_def\<close>)
qed

section \<open>Abort reaches exactly the matching requests\<close>

lemma abort_queued_run:
  assumes "sd_mode s \<noteq> DECODE" "mamba_pool_idx (sd_waiting s ! j) = None"
  shows "\<exists>mf. abort_queued cf ra j s = (Inr (), s\<lparr>sd_waiting := pop_nth j (sd_waiting s),
    sd_sent := sd_sent s @ [(rid (sd_waiting s ! j), PlainAbort)], sd_metadata_free := mf\<rparr>)"
proof (cases "sd_mode s = PREFILL \<and> metadata_buffer_index (sd_waiting s ! j) \<ge> 0")
  case True
  then show ?thesis
    using assms by (intro exI) (simp add: abort_queued_def bindM_app stateM_def maybe_release_metadata_buffer_def abort_sender_def
        send_abort_def)
next
  case False
  then show ?thesis
    using assms by (intro exI [of _ "sd_metadata_free s"])
      (auto simp: abort_queued_def bindM_app stateM_def maybe_release_metadata_buffer_def abort_sender_def send_abort_def)
qed

lemma abort_queued_fold:
  assumes "sd_mode s \<noteq> DECODE" "\<forall>r\<in>set (sd_waiting s). P r \<longrightarrow> mamba_pool_idx r = None" "k \<le> length (sd_waiting s)"
  shows "\<exists>mf. foldM (\<lambda>_. abort_queued cf ra) () (rev (filter (\<lambda>j. P (sd_waiting s ! j)) [0..<k])) s =
    (Inr (), s\<lparr>sd_waiting := filter (\<lambda>r. \<not> P r) (take k (sd_waiting s)) @ drop k (sd_waiting s),
       sd_sent := sd_sent s @ rev (map (\<lambda>r. (rid r, PlainAbort)) (filter P (take k (sd_waiting s)))), sd_metadata_free := mf\<rparr>)"
  using assms
proof (induction k arbitrary: s)
  case 0
  show ?case
    by (rule exI [of _ "sd_metadata_free s"]) simp
next
  case (Suc k)
  let ?q = "sd_waiting s"
  have k: "k < length ?q"
    using Suc.prems(3) by simp
  note split = take_Suc_conv_app_nth [OF k]
  show ?case
  proof (cases "P (?q ! k)")
    case False
    have "drop k ?q = ?q ! k # drop (Suc k) ?q"
      using k by (simp add: Cons_nth_drop_Suc)
    then show ?thesis
      using Suc.IH [OF Suc.prems(1,2)] k False by (simp add: split)
  next
    case True
    have "mamba_pool_idx (?q ! k) = None"
      using Suc.prems(2) True k by simp
    from abort_queued_run [OF Suc.prems(1) this] obtain mf where
      run: "abort_queued cf ra k s = (Inr (), s\<lparr>sd_waiting := pop_nth k ?q, sd_sent := sd_sent s @ [(rid (?q ! k), PlainAbort)], sd_metadata_free := mf\<rparr>)"
      by blast
    let ?s1 = "s\<lparr>sd_waiting := pop_nth k ?q, sd_sent := sd_sent s @ [(rid (?q ! k), PlainAbort)], sd_metadata_free := mf\<rparr>"
    have q1: "take k (sd_waiting ?s1) = take k ?q" "drop k (sd_waiting ?s1) = drop (Suc k) ?q" "k \<le> length (sd_waiting ?s1)"
      "set (sd_waiting ?s1) \<subseteq> set ?q"
      using k by (auto simp: pop_nth_def dest: in_set_takeD in_set_dropD)
    have "filter (\<lambda>j. P (sd_waiting ?s1 ! j)) [0..<k] = filter (\<lambda>j. P (?q ! j)) [0..<k]"
      using k by (intro filter_cong) (auto simp: pop_nth_def nth_append)
    then have dels: "rev (filter (\<lambda>j. P (?q ! j)) [0..<Suc k]) = k # rev (filter (\<lambda>j. P (sd_waiting ?s1 ! j)) [0..<k])"
      using True by simp
    have "sd_mode ?s1 \<noteq> DECODE" "\<forall>r\<in>set (sd_waiting ?s1). P r \<longrightarrow> mamba_pool_idx r = None"
      using Suc.prems(1,2) q1(4) by auto
    from Suc.IH [OF this q1(3)] obtain mf' where
      "foldM (\<lambda>_. abort_queued cf ra) () (rev (filter (\<lambda>j. P (sd_waiting ?s1 ! j)) [0..<k])) ?s1 =
        (Inr (), ?s1\<lparr>sd_waiting := filter (\<lambda>r. \<not> P r) (take k ?q) @ drop (Suc k) ?q,
           sd_sent := sd_sent ?s1 @ rev (map (\<lambda>r. (rid r, PlainAbort)) (filter P (take k ?q))), sd_metadata_free := mf'\<rparr>)"
      unfolding q1(1,2) by blast
    then show ?thesis
      using run True unfolding dels by (intro exI [of _ mf']) (simp add: bindM_InrI split)
  qed
qed

lemma abort_request_spec:
  assumes mode: "sd_mode s \<noteq> DECODE" and free: "\<forall>r\<in>set (sd_waiting s). abort_matches all i r \<longrightarrow> mamba_pool_idx r = None"
  shows "\<exists>mf. abort_request cf ra all i s = (Inr (), abort_batches all i ((if sd_mode s = PREFILL then abort_prefill_queues all i else id) (s\<lparr>
       sd_pending_chunked_abort := (case sd_chunked s of Some c \<Rightarrow> if abort_matches all i c then Some c else sd_pending_chunked_abort s
          | None \<Rightarrow> sd_pending_chunked_abort s),
       sd_waiting := filter (\<lambda>r. \<not> abort_matches all i r) (sd_waiting s),
       sd_sent := sd_sent s @ rev (map (\<lambda>r. (rid r, PlainAbort)) (filter (abort_matches all i) (sd_waiting s))),
       sd_metadata_free := mf, sd_grammar := grammar_abort all i (sd_grammar s)\<rparr>)))"
proof -
  let ?s0 = "case sd_chunked s of Some c \<Rightarrow> if abort_matches all i c then s\<lparr>sd_pending_chunked_abort := Some c\<rparr> else s | None \<Rightarrow> s"
  let ?pc = "case sd_chunked s of Some c \<Rightarrow> if abort_matches all i c then Some c else sd_pending_chunked_abort s
          | None \<Rightarrow> sd_pending_chunked_abort s"
  have s0: "?s0 = s\<lparr>sd_pending_chunked_abort := ?pc\<rparr>"
    by (simp split: option.split)
  define s1 where "s1 = s\<lparr>sd_pending_chunked_abort := ?pc\<rparr>"
  have w1: "sd_waiting s1 = sd_waiting s" "sd_mode s1 = sd_mode s" "sd_sent s1 = sd_sent s" "sd_grammar s1 = sd_grammar s"
    by (simp_all add: s1_def)
  obtain mf where f: "foldM (\<lambda>_. abort_queued cf ra) () (rev (filter (\<lambda>j. abort_matches all i (sd_waiting s1 ! j)) [0..<length (sd_waiting s1)])) s1 =
      (Inr (), s1\<lparr>sd_waiting := filter (\<lambda>r. \<not> abort_matches all i r) (sd_waiting s),
        sd_sent := sd_sent s @ rev (map (\<lambda>r. (rid r, PlainAbort)) (filter (abort_matches all i) (sd_waiting s))), sd_metadata_free := mf\<rparr>)"
    using abort_queued_fold [of s1 "abort_matches all i" "length (sd_waiting s1)" cf ra] mode free by (auto simp: w1)
  show ?thesis
    using mode by (intro exI [of _ mf])
      (simp add: abort_request_def s0 s1_def [symmetric] matching_indices_def w1 bindM_app f [unfolded w1])
qed

text \<open>C30. An abort outside decode mode returns, takes exactly the matching requests out of the waiting queue, answers
  each of them once, keeps the order of the others, marks every matching unfinished request of the running batches for
  termination, and leaves the cache and the pools alone, provided the queued ones hold no slots yet.\<close>

theorem abort_request_exact:
  assumes "sd_mode s \<noteq> DECODE" and "\<forall>r\<in>set (sd_waiting s). abort_matches all i r \<longrightarrow> mamba_pool_idx r = None"
  shows "\<exists>s'. abort_request cf ra all i s = (Inr (), s') \<and> sd_world s' = sd_world s \<and>
    sd_waiting s' = filter (\<lambda>r. \<not> abort_matches all i r) (sd_waiting s) \<and>
    mset (sd_sent s') = mset (sd_sent s) + mset (map (\<lambda>r. (rid r, PlainAbort)) (filter (abort_matches all i) (sd_waiting s))) \<and>
    map rid (sd_running s') = map rid (sd_running s) \<and>
    (\<forall>r\<in>set (sd_running s'). abort_matches all i r \<and> finished_length r = None \<longrightarrow> to_finish r) \<and>
    (\<forall>r\<in>set (sd_running s'). \<not> abort_matches all i r \<longrightarrow> r \<in> set (sd_running s))"
proof -
  from abort_request_spec [OF assms] obtain mf where run: "abort_request cf ra all i s = (Inr (),
      abort_batches all i ((if sd_mode s = PREFILL then abort_prefill_queues all i else id) (s\<lparr>
       sd_pending_chunked_abort := (case sd_chunked s of Some c \<Rightarrow> if abort_matches all i c then Some c else sd_pending_chunked_abort s
          | None \<Rightarrow> sd_pending_chunked_abort s),
       sd_waiting := filter (\<lambda>r. \<not> abort_matches all i r) (sd_waiting s),
       sd_sent := sd_sent s @ rev (map (\<lambda>r. (rid r, PlainAbort)) (filter (abort_matches all i) (sd_waiting s))),
       sd_metadata_free := mf, sd_grammar := grammar_abort all i (sd_grammar s)\<rparr>)))" ..
  show ?thesis
    by (rule exI, rule conjI, rule run)
      (simp add: abort_batches_def abort_prefill_queues_def Let_def abort_matches_def, auto)
qed

section \<open>A small scheduler\<close>

definition ex_sreq :: "string \<Rightarrow> int \<Rightarrow> int \<Rightarrow> sched_req" where
  "ex_sreq i p t = eng_req.extend (pic_req.extend (ex_req [11, 12] [(0, 2)]) (eng_req.fields False 0 False))
     (sched_req.fields i (Some p) t False NoSender (-1) False None None None [] False 0)"

definition ex_sched :: sched where
  "ex_sched = \<lparr>sd_world = ex_world, sd_mode = NULL, max_queued_requests = Some 2, enable_priority_scheduling = True,
     schedule_low_priority_values_first = False, abort_on_priority_when_disabled = False,
     sd_waiting = [ex_sreq ''a1'' 3 1, ex_sreq ''a2'' 1 2], sd_grammar = [], sd_chunked = None, sd_pending_chunked_abort = None,
     sd_bootstrap = [], sd_prefill_inflight = [], sd_prealloc = [], sd_transfer = [], sd_retracted = [],
     sd_running = [ex_sreq ''b1'' 0 0], sd_cur = None, sd_metadata_free = [], sd_sent = []\<rparr>"

text \<open>The request of priority 1 gives way to one of priority 2; the one of priority 3 does not.\<close>

theorem queue_limit_respected_witness:
  "\<exists>s'. enqueue_null (ex_cf ''addition'') (ex_sreq ''c'' 2 0) ex_sched = (Inr (), s') \<and> length (sd_waiting s') \<le> 2 \<and>
     sd_sent s' = [(''a2'', Preempted)]"
proof -
  obtain s' where s': "enqueue_null (ex_cf ''addition'') (ex_sreq ''c'' 2 0) ex_sched = (Inr (), s')" "sd_sent s' = [(''a2'', Preempted)]"
  proof -
    have "fst (enqueue_null (ex_cf ''addition'') (ex_sreq ''c'' 2 0) ex_sched) = Inr ()"
      "sd_sent (snd (enqueue_null (ex_cf ''addition'') (ex_sreq ''c'' 2 0) ex_sched)) = [(''a2'', Preempted)]"
      by code_simp+
    then show ?thesis
      using that by (metis prod.collapse)
  qed
  have "max_queued_requests ex_sched = Some 2" "length (sd_waiting ex_sched) \<le> 2"
    "rid (ex_sreq ''c'' 2 0) \<notin> rid ` set (sd_waiting ex_sched)"
    by (simp_all add: ex_sched_def ex_sreq_def eng_req.defs sched_req.defs pic_req.defs)
  then show ?thesis
    using queue_limit_respected [OF s'(1)] s' by blast
qed

theorem abort_request_exact_witness:
  "\<exists>s'. abort_request (ex_cf ''addition'') \<lparr>ra_page_size = 1, ra_spec = False, ra_strip_thinking_cache = False\<rparr> False ''a'' ex_sched =
      (Inr (), s') \<and> sd_waiting s' = [] \<and> size (sd_sent s') = 2 \<and> sd_world s' = ex_world"
proof -
  let ?ra = "\<lparr>ra_page_size = 1, ra_spec = False, ra_strip_thinking_cache = False\<rparr>"
  have pre: "sd_mode ex_sched \<noteq> DECODE" "\<forall>r\<in>set (sd_waiting ex_sched). abort_matches False ''a'' r \<longrightarrow> mamba_pool_idx r = None"
    by (simp_all add: ex_sched_def ex_sreq_def eng_req.defs sched_req.defs pic_req.defs ex_req_def)
  have q: "filter (\<lambda>r. \<not> abort_matches False ''a'' r) (sd_waiting ex_sched) = []" "sd_world ex_sched = ex_world"
    "size (mset (sd_sent ex_sched) + mset (map (\<lambda>r. (rid r, PlainAbort)) (filter (abort_matches False ''a'') (sd_waiting ex_sched)))) = 2"
    by (simp_all add: ex_sched_def ex_sreq_def eng_req.defs sched_req.defs pic_req.defs abort_matches_def)
  show ?thesis
    using abort_request_exact [OF pre, of "ex_cf ''addition''" ?ra] unfolding q by (metis q(3) size_mset)
qed

end
