(* ===== verification/Pic_Scatter.thy ===== *)
theory Pic_Scatter
  imports Sched_Queue
begin

text \<open>
  \<^verbatim>\<open>pic/scatter_xfer.py\<close> and its callers in \<^verbatim>\<open>managers/scheduler.py\<close> and \<^verbatim>\<open>disaggregation/prefill.py\<close>: the segments of a prompt
  are prefilled on several workers (scatter) and their KV and mamba states written into slots the combining engine has
  allocated in advance. The scheduler is extended by the attributes the code attaches to it; an attribute that is
  created on first use is empty before. The NIXL agent, the KV manager, HTTP, \<open>urlparse\<close> and the bootstrap and prealloc queues'
  admission are parameters of each step (\<open>sc_env\<close>); every call may raise. Perf traces and log lines are left out, and writes are
  asynchronous, the default; the synchronous variant is \<open>start_write_sync\<close>.
\<close>

section \<open>State\<close>

type_synonym scatter_key = "int \<times> int"

record scatter_handle =
  h_room :: int
  h_seg_index :: int
  agent_meta_b64 :: string
  dst_kv_ptrs :: "int list"
  dst_kv_item_len :: "int list"
  dst_state_data_ptrs :: "int list"
  dst_state_item_lens :: "int list"
  dst_state_dim_per_tensor :: "int list option"
  dst_kv_indices :: "nat list"
  dst_state_indices :: "int list"
  notif_kv :: string
  notif_mamba :: string

record pending_info =
  pi_kv_slots :: "nat list"
  pi_mamba_slot :: int
  pi_n_tokens :: nat
  pi_seg_hash :: bytes
  pi_token_ids :: "int list"

record push_item =
  pp_room :: int
  pp_seg_index :: int
  pp_seg_hash :: bytes
  pp_deadline :: int

record write_item =
  wi_handles :: "nat list"
  wi_seg_hash :: bytes
  wi_room :: int
  wi_seg_index :: int
  wi_deadline :: int

record parked_item =
  pk_req :: sched_req
  pk_hashes :: "bytes list"
  pk_deadline :: int

record scat = sched +
  sc_pending :: "(scatter_key, pending_info) dict"
  sc_seen :: "string set"
  sc_seg_recomputed :: "(scatter_key, bool) dict"
  sc_push_recomputed :: "(scatter_key, bool) dict"
  sc_handles :: "(scatter_key, scatter_handle) dict"
  sc_push_pending :: "push_item list"
  sc_write_inflight :: "write_item list"
  sc_parked :: "parked_item list"
  sc_hit_retire :: "(sched_req \<times> bytes) list"
  sc_output :: "sched_req list"

record sc_config =
  sc_cf :: pic_config
  sc_ra :: release_args
  sc_port :: nat
  pic_scatter_timeout_s :: int
  url_port :: "string \<Rightarrow> nat option result"

datatype xfer_state = DONE | ERR | PROC

text \<open>What the transport answers during one step. \<open>ev_kv_bufs\<close> and \<open>ev_state_bufs\<close> are the buffer infos of the KV pool,
  \<open>ev_meta\<close> the agent's metadata in base64, \<open>ev_send_kv\<close> and \<open>ev_send_extra\<close> post a transfer and return its handles,
  \<open>ev_bootstrap\<close> and \<open>ev_prealloc\<close> say whether the queue accepts the request.\<close>

record sc_env =
  ev_manager :: bool
  ev_kv_bufs :: "(int list \<times> int list) result"
  ev_state_bufs :: "(int list \<times> int list \<times> int list option) result"
  ev_meta :: "string result"
  ev_post :: "string \<Rightarrow> scatter_handle \<Rightarrow> unit result"
  ev_add_remote :: "string \<Rightarrow> string result"
  ev_send_kv :: "string \<Rightarrow> nat list \<Rightarrow> int list \<Rightarrow> nat list \<Rightarrow> string \<Rightarrow> nat option result"
  ev_send_extra :: "string \<Rightarrow> int list \<Rightarrow> int list \<Rightarrow> int list \<Rightarrow> string \<Rightarrow> int list \<Rightarrow> int list \<Rightarrow> nat list result"
  ev_state :: "nat \<Rightarrow> xfer_state result"
  ev_notifs :: "string list result"
  ev_bootstrap :: "sched_req \<Rightarrow> bool result"
  ev_prealloc :: "sched_req \<Rightarrow> bool result"

definition nowM :: "pic_config \<Rightarrow> ('s sched_scheme, int) pym" where
  "nowM cf = (\<lambda>s. (Inr (monotonic cf (sd_world s)), s\<lparr>sd_world := tick (sd_world s)\<rparr>))"

definition removeM :: "('s \<Rightarrow> 'a list) \<Rightarrow> ('a list \<Rightarrow> 's \<Rightarrow> 's) \<Rightarrow> 'a \<Rightarrow> ('s, unit) pym" where
  "removeM get put x = (\<lambda>s. if x \<in> set (get s) then (Inr (), put (remove1 x (get s)) s) else (Inl ValueError, s))"

text \<open>\<open>xs[i]\<close> with Python's negative indices.\<close>

definition py_index :: "'a list \<Rightarrow> int \<Rightarrow> 'a result" where
  "py_index xs i =
     (if 0 \<le> i \<and> i < int (length xs) then Inr (xs ! nat i)
      else if i < 0 \<and> - int (length xs) \<le> i then Inr (xs ! nat (int (length xs) + i))
      else Inl IndexError)"

definition entry_of :: "bytes \<Rightarrow> 's sched_scheme \<Rightarrow> nat option" where
  "entry_of h s = map_of (w_entries (sd_world s)) h"

definition lock_add :: "int \<Rightarrow> nat \<Rightarrow> 's sched_scheme \<Rightarrow> 's sched_scheme" where
  "lock_add d i s = s\<lparr>sd_world := upd_entry i (\<lambda>e. e\<lparr>lock_ref := lock_ref e + d\<rparr>) (sd_world s)\<rparr>"

text \<open>\<open>if ent is not None: ent.lock_ref += 1\<close> and \<open>if ent is not None and ent.lock_ref > 0: ent.lock_ref -= 1\<close>.\<close>

definition hold :: "bytes \<Rightarrow> 's sched_scheme \<Rightarrow> 's sched_scheme" where
  "hold h s = (case entry_of h s of None \<Rightarrow> s | Some i \<Rightarrow> lock_add 1 i s)"

definition unhold :: "bytes \<Rightarrow> 's sched_scheme \<Rightarrow> 's sched_scheme" where
  "unhold h s = (case entry_of h s of
     None \<Rightarrow> s
   | Some i \<Rightarrow> if lock_ref (w_heap (sd_world s) i) > 0 then lock_add (-1) i s else s)"

definition entries_have :: "bytes list \<Rightarrow> 's sched_scheme \<Rightarrow> bool" where
  "entries_have hs s \<longleftrightarrow> list_all (\<lambda>h. entry_of h s \<noteq> None) hs"

section \<open>Notification strings\<close>

definition digit_char :: "nat \<Rightarrow> char" where
  "digit_char d = char_of (48 + d)"

fun show_nat :: "nat \<Rightarrow> string" where
  "show_nat n = (if n < 10 then [digit_char n] else show_nat (n div 10) @ [digit_char (n mod 10)])"

declare show_nat.simps [simp del]

definition show_int :: "int \<Rightarrow> string" where
  "show_int i = (if i < 0 then CHR ''-'' # show_nat (nat (- i)) else show_nat (nat i))"

definition notif_tag :: "scatter_key \<Rightarrow> string \<Rightarrow> string" where
  "notif_tag k what = show_int (fst k) @ ''|'' @ show_int (snd k) @ ''|'' @ what"

text \<open>\<open>int(...)\<close> of a byte string: surrounding white space, an optional sign, digits with single underscores between them.\<close>

definition is_digit :: "char \<Rightarrow> bool" where
  "is_digit c \<longleftrightarrow> 48 \<le> (of_char c :: nat) \<and> (of_char c :: nat) \<le> 57"

definition digit_val :: "char \<Rightarrow> nat" where
  "digit_val c = of_char c - 48"

definition py_space :: "char \<Rightarrow> bool" where
  "py_space c \<longleftrightarrow> (of_char c :: nat) \<in> {9, 10, 11, 12, 13, 32}"

fun int_tail :: "nat \<Rightarrow> string \<Rightarrow> nat option" where
  "int_tail acc [] = Some acc"
| "int_tail acc (c # cs) =
     (if is_digit c then int_tail (acc * 10 + digit_val c) cs
      else if c = CHR ''_'' \<and> cs \<noteq> [] \<and> is_digit (hd cs) then int_tail acc cs
      else None)"

definition int_digits :: "string \<Rightarrow> nat option" where
  "int_digits cs = (if cs \<noteq> [] \<and> is_digit (hd cs) then int_tail 0 cs else None)"

definition py_int :: "string \<Rightarrow> int result" where
  "py_int str =
     (let cs = rev (dropWhile py_space (rev (dropWhile py_space str)))
      in case cs of
           [] \<Rightarrow> Inl ValueError
         | c # rest \<Rightarrow>
             (case (if c = CHR ''-'' \<or> c = CHR ''+'' then int_digits rest else int_digits cs) of
                None \<Rightarrow> Inl ValueError
              | Some n \<Rightarrow> Inr (if c = CHR ''-'' then - int n else int n)))"

section \<open>Combine side: slots in advance\<close>

definition get_manager :: "sc_env \<Rightarrow> ('s, unit) pym" where
  "get_manager env = (if ev_manager env then retM () else raiseM RuntimeError)"

definition stash_pending :: "scatter_key \<Rightarrow> pending_info \<Rightarrow> 's scat_scheme \<Rightarrow> 's scat_scheme" where
  "stash_pending k info s = s\<lparr>sc_pending := AList.update k info (sc_pending s)\<rparr>"

definition drop_pending :: "scatter_key \<Rightarrow> 's scat_scheme \<Rightarrow> 's scat_scheme" where
  "drop_pending k s = s\<lparr>sc_pending := AList.delete k (sc_pending s)\<rparr>"

definition world_upd :: "(pic_world \<Rightarrow> pic_world) \<Rightarrow> 's sched_scheme \<Rightarrow> 's sched_scheme" where
  "world_upd f s = s\<lparr>sd_world := f (sd_world s)\<rparr>"

definition alloc_dst ::
  "sc_env \<Rightarrow> scatter_key \<Rightarrow> nat \<Rightarrow> bytes \<Rightarrow> int list \<Rightarrow> ('s scat_scheme, scatter_handle) pym" where
  "alloc_dst env k n h toks =
     bindM (get_manager env) (\<lambda>_.
     bindM (on_world (pic_alloc_token_slots n)) (\<lambda>kv_slots.
     bindM (tryM (on_world alloc_one_mamba)
              (\<lambda>e. bindM (modifyM (world_upd (kv_free kv_slots))) (\<lambda>_. raiseM e))) (\<lambda>mamba_slot.
     bindM (modifyM (world_upd (add_inflight (int n) 1))) (\<lambda>_.
     bindM (modifyM (stash_pending k \<lparr>pi_kv_slots = kv_slots, pi_mamba_slot = mamba_slot, pi_n_tokens = n,
                                     pi_seg_hash = h, pi_token_ids = toks\<rparr>)) (\<lambda>_.
     bindM (tryM (bindM (liftM (ev_kv_bufs env)) (\<lambda>kv_bufs.
                  bindM (liftM (ev_state_bufs env)) (\<lambda>st_bufs. retM (kv_bufs, st_bufs))))
              (\<lambda>e. bindM (modifyM (drop_pending k)) (\<lambda>_.
                   bindM (modifyM (world_upd (remove_inflight (int n) 1))) (\<lambda>_.
                   bindM (modifyM (world_upd (mb_free [mamba_slot]))) (\<lambda>_.
                   bindM (modifyM (world_upd (kv_free kv_slots))) (\<lambda>_. raiseM e)))))) (\<lambda>((kv_ptrs, kv_item), st_ptrs, st_item, st_dim).
     bindM (liftM (ev_meta env)) (\<lambda>meta.
     retM \<lparr>h_room = fst k, h_seg_index = snd k, agent_meta_b64 = meta, dst_kv_ptrs = kv_ptrs, dst_kv_item_len = kv_item,
           dst_state_data_ptrs = st_ptrs, dst_state_item_lens = st_item, dst_state_dim_per_tensor = st_dim,
           dst_kv_indices = kv_slots, dst_state_indices = [mamba_slot],
           notif_kv = notif_tag k ''kv'', notif_mamba = notif_tag k ''mamba''\<rparr>)))))))"

definition prealloc_item ::
  "sc_config \<Rightarrow> sc_env \<Rightarrow> sched_req \<Rightarrow> segment list \<Rightarrow> combine_item \<Rightarrow> ('s scat_scheme, unit) pym" where
  "prealloc_item sc env r segments item =
     bindM (liftM (py_index segments (ci_seg_index item))) (\<lambda>seg.
     let toks = seg_slice (origin_input_ids r) seg in
     bindM (liftM (url_port sc (ci_worker_addr item))) (\<lambda>port.
     if port = Some (sc_port sc) then retM ()
     else bindM (liftM (segment_hash_list (cf_sha256 (sc_cf sc)) toks)) (\<lambda>h.
          bindM (alloc_dst env (ci_room item, ci_seg_index item) (size_of seg) h toks) (\<lambda>handle.
          liftM (ev_post env (ci_worker_addr item) handle)))))"

definition prealloc_and_push_handles :: "sc_config \<Rightarrow> sc_env \<Rightarrow> sched_req \<Rightarrow> ('s scat_scheme, unit) pym" where
  "prealloc_and_push_handles sc env r =
     (case (pic_combine r, pic_segments r) of
        (Some items, Some segments) \<Rightarrow>
          if segments = [] then retM ()
          else foldM (\<lambda>_ item. tryM (prealloc_item sc env r segments item) (\<lambda>_. retM ())) () items
      | _ \<Rightarrow> retM ())"

definition item_keys :: "sched_req \<Rightarrow> scatter_key set" where
  "item_keys r = set (map (\<lambda>it. (ci_room it, ci_seg_index it)) (case pic_combine r of None \<Rightarrow> [] | Some its \<Rightarrow> its))"

definition unsee :: "scatter_key \<Rightarrow> 's scat_scheme \<Rightarrow> 's scat_scheme" where
  "unsee k s = s\<lparr>sc_seen := sc_seen s - {notif_tag k ''kv'', notif_tag k ''mamba''}\<rparr>"

definition free_pending :: "scatter_key \<Rightarrow> pending_info \<Rightarrow> 's scat_scheme \<Rightarrow> 's scat_scheme" where
  "free_pending k info s =
     drop_pending k (unsee k (world_upd (remove_inflight (int (pi_n_tokens info)) 1)
       (world_upd (mb_free [pi_mamba_slot info]) (world_upd (kv_free (pi_kv_slots info)) s))))"

definition free_combine_pending :: "sched_req \<Rightarrow> 's scat_scheme \<Rightarrow> 's scat_scheme" where
  "free_combine_pending r s =
     fold (\<lambda>k s. case map_of (sc_pending s) k of None \<Rightarrow> s | Some info \<Rightarrow> free_pending k info s)
       (filter (\<lambda>k. k \<in> item_keys r) (map fst (sc_pending s))) s"

definition release_combine_holds :: "sched_req \<Rightarrow> 's sched_scheme \<Rightarrow> 's sched_scheme" where
  "release_combine_holds r s = fold unhold (pic_combine_hashes r) s"

definition bootstrap_add :: "sc_env \<Rightarrow> sched_req \<Rightarrow> ('s sched_scheme, unit) pym" where
  "bootstrap_add env r =
     bindM (liftM (ev_bootstrap env r)) (\<lambda>ok.
     modifyM (\<lambda>s. if ok then s\<lparr>sd_bootstrap := sd_bootstrap s @ [r]\<rparr> else s))"

abbreviation unpark :: "parked_item \<Rightarrow> ('s scat_scheme, unit) pym" where
  "unpark \<equiv> removeM sc_parked (\<lambda>xs s. s\<lparr>sc_parked := xs\<rparr>)"

definition release_step :: "sc_config \<Rightarrow> sc_env \<Rightarrow> parked_item \<Rightarrow> ('s scat_scheme, unit) pym" where
  "release_step sc env p =
     bindM (nowM (sc_cf sc)) (\<lambda>now.
     if now > pk_deadline p
     then bindM (modifyM (free_combine_pending (pk_req p))) (\<lambda>_.
          bindM (modifyM (release_combine_holds (pk_req p))) (\<lambda>_.
          bindM (abort_request (sc_cf sc) (sc_ra sc) False (rid (pk_req p))) (\<lambda>_.
          unpark p)))
     else bindM (getsM (entries_have (pk_hashes p))) (\<lambda>ready.
          if ready
          then bindM (getsM sd_mode) (\<lambda>mode.
               bindM (assertM (mode = PREFILL)) (\<lambda>_.
               bindM (bootstrap_add env (pk_req p)) (\<lambda>_.
               unpark p)))
          else retM ()))"

definition try_release_combines :: "sc_config \<Rightarrow> sc_env \<Rightarrow> ('s scat_scheme, unit) pym" where
  "try_release_combines sc env =
     bindM (getsM sc_parked) (\<lambda>parked. foldM (\<lambda>_. release_step sc env) () parked)"

section \<open>Combine side: injection\<close>

text \<open>One notification: a mamba tag with the hit flag behind it, or a plain tag.\<close>

definition note_notif :: "string \<Rightarrow> ('s scat_scheme, unit) pym" where
  "note_notif m =
     (let parts = split_str ''|'' [] m
      in if length parts = 4 \<and> parts ! 2 = ''mamba'' \<and> take 1 (parts ! 3) = ''r''
         then bindM (liftM (py_int (parts ! 0))) (\<lambda>room.
              bindM (liftM (py_int (parts ! 1))) (\<lambda>seg.
              modifyM (\<lambda>s. s\<lparr>sc_seg_recomputed := AList.update (room, seg) (take 2 (parts ! 3) = ''r1'') (sc_seg_recomputed s),
                            sc_seen := insert (join_str ''|'' (take 3 parts)) (sc_seen s)\<rparr>)))
         else modifyM (\<lambda>s. s\<lparr>sc_seen := insert m (sc_seen s)\<rparr>))"

definition poll_notifs :: "sc_env \<Rightarrow> ('s scat_scheme, unit) pym" where
  "poll_notifs env =
     bindM (get_manager env) (\<lambda>_.
     bindM (liftM (ev_notifs env)) (\<lambda>ms.
     foldM (\<lambda>_. note_notif) () ms))"

definition inject_step :: "pic_config \<Rightarrow> scatter_key \<times> pending_info \<Rightarrow> 's scat_scheme \<Rightarrow> 's scat_scheme" where
  "inject_step cf ki s =
     (case ki of (k, info) \<Rightarrow>
      if \<not> (notif_tag k ''kv'' \<in> sc_seen s \<and> notif_tag k ''mamba'' \<in> sc_seen s) then s
      else let was_present = (entry_of (pi_seg_hash info) s \<noteq> None);
               s1 = world_upd (\<lambda>w. snd (inject_received_segment cf (pi_seg_hash info) (pi_token_ids info)
                                         (pi_kv_slots info) (pi_mamba_slot info) w)) s;
               s2 = (if was_present
                     then world_upd (mb_free [pi_mamba_slot info]) (world_upd (kv_free (pi_kv_slots info)) s1) else s1)
           in drop_pending k (unsee k (world_upd (remove_inflight (int (pi_n_tokens info)) 1) s2)))"

definition drain_injects :: "sc_config \<Rightarrow> sc_env \<Rightarrow> ('s scat_scheme, unit) pym" where
  "drain_injects sc env =
     bindM (getsM sc_pending) (\<lambda>pending.
     if pending = [] then retM ()
     else bindM (tryM (bindM (poll_notifs env) (\<lambda>_. retM True)) (\<lambda>_. retM False)) (\<lambda>polled.
          if \<not> polled then retM ()
          else bindM (modifyM (\<lambda>s. fold (inject_step (sc_cf sc)) (sc_pending s) s)) (\<lambda>_.
               try_release_combines sc env)))"

section \<open>Worker side: writes\<close>

definition fire_write :: "sc_env \<Rightarrow> scatter_handle \<Rightarrow> nat \<Rightarrow> scatter_key \<Rightarrow> ('s scat_scheme, nat list) pym" where
  "fire_write env h i k =
     bindM (get_manager env) (\<lambda>_.
     bindM (liftM (ev_add_remote env (agent_meta_b64 h))) (\<lambda>peer.
     bindM (getsM (\<lambda>s. w_heap (sd_world s) i)) (\<lambda>entry.
     bindM (liftM (ev_send_kv env peer (full_kv_slots entry) (dst_kv_ptrs h) (dst_kv_indices h) (notif_kv h))) (\<lambda>h_kv.
     bindM (getsM (\<lambda>s. case map_of (sc_push_recomputed s) k of None \<Rightarrow> True | Some b \<Rightarrow> b)) (\<lambda>recomputed.
     bindM (modifyM (\<lambda>s. s\<lparr>sc_push_recomputed := AList.delete k (sc_push_recomputed s)\<rparr>)) (\<lambda>_.
     bindM (liftM (ev_send_extra env peer [mamba_state_slot entry] (dst_state_data_ptrs h) (dst_state_indices h)
              (notif_mamba h @ (if recomputed then ''|r1'' else ''|r0'')) (dst_state_item_lens h)
              (case dst_state_dim_per_tensor h of None \<Rightarrow> [] | Some d \<Rightarrow> d))) (\<lambda>h_st.
     retM ((case h_kv of None \<Rightarrow> [] | Some x \<Rightarrow> [x]) @ h_st))))))))"

definition start_write ::
  "sc_config \<Rightarrow> sc_env \<Rightarrow> scatter_handle \<Rightarrow> nat \<Rightarrow> scatter_key \<Rightarrow> bytes \<Rightarrow> ('s scat_scheme, unit) pym" where
  "start_write sc env h i k hash =
     bindM (modifyM (lock_add 1 i)) (\<lambda>_.
     bindM (fire_write env h i k) (\<lambda>handles.
     bindM (nowM (sc_cf sc)) (\<lambda>now.
     modifyM (\<lambda>s. s\<lparr>sc_write_inflight := sc_write_inflight s @
       [\<lparr>wi_handles = handles, wi_seg_hash = hash, wi_room = fst k, wi_seg_index = snd k, wi_deadline = now + 10\<rparr>]\<rparr>))))"

text \<open>The blocking wait of the synchronous variant; \<open>poll n h\<close> is the state of transfer \<open>h\<close> at the \<open>n\<close>-th poll.\<close>

partial_function (option) wait_loop ::
  "(nat \<Rightarrow> nat \<Rightarrow> xfer_state result) \<Rightarrow> (nat \<Rightarrow> int) \<Rightarrow> nat list \<Rightarrow> int \<Rightarrow> nat \<Rightarrow> nat \<Rightarrow> (unit result \<times> nat) option" where
  "wait_loop poll clock handles deadline n t =
     (case map_result (poll n) handles of
        Inl e \<Rightarrow> Some (Inl e, t)
      | Inr states \<Rightarrow>
          if ERR \<in> set states then Some (Inl RuntimeError, t)
          else if list_all (\<lambda>x. x = DONE) states then Some (Inr (), t)
          else if clock t > deadline then Some (Inl TimeoutError, t + 1)
          else wait_loop poll clock handles deadline (n + 1) (t + 1))"

definition wait_done ::
  "(nat \<Rightarrow> nat \<Rightarrow> xfer_state result) \<Rightarrow> (nat \<Rightarrow> int) \<Rightarrow> nat list \<Rightarrow> nat \<Rightarrow> (unit result \<times> nat) option" where
  "wait_done poll clock handles t = wait_loop poll clock handles (clock t + 10) 0 (t + 1)"

definition start_write_sync ::
  "sc_config \<Rightarrow> sc_env \<Rightarrow> (nat \<Rightarrow> nat \<Rightarrow> xfer_state result) \<Rightarrow> scatter_handle \<Rightarrow> nat \<Rightarrow> scatter_key \<Rightarrow> 's scat_scheme \<Rightarrow>
     (unit result \<times> 's scat_scheme) option" where
  "start_write_sync sc env poll h i k s =
     (case fire_write env h i k (lock_add 1 i s) of
        (Inl e, s1) \<Rightarrow> Some (Inl e, s1)
      | (Inr handles, s1) \<Rightarrow>
          map_option (\<lambda>(res, t).
              (res, let s2 = world_upd (\<lambda>w. w\<lparr>w_ticks := t\<rparr>) s1
                    in if lock_ref (w_heap (sd_world s2) i) > 0 then lock_add (-1) i s2 else s2))
            (wait_done poll (cf_clock (sc_cf sc)) handles (w_ticks (sd_world s1))))"

abbreviation uninflight :: "write_item \<Rightarrow> ('s scat_scheme, unit) pym" where
  "uninflight \<equiv> removeM sc_write_inflight (\<lambda>xs s. s\<lparr>sc_write_inflight := xs\<rparr>)"

definition reap_inflight :: "write_item \<Rightarrow> ('s scat_scheme, unit) pym" where
  "reap_inflight item = bindM (modifyM (unhold (wi_seg_hash item))) (\<lambda>_. uninflight item)"

definition drain_item :: "sc_config \<Rightarrow> sc_env \<Rightarrow> write_item \<Rightarrow> ('s scat_scheme, unit) pym" where
  "drain_item sc env item =
     (case map_result (ev_state env) (wi_handles item) of
        Inl e \<Rightarrow> bindM (nowM (sc_cf sc)) (\<lambda>now. if now > wi_deadline item then reap_inflight item else retM ())
      | Inr states \<Rightarrow>
          bindM (nowM (sc_cf sc)) (\<lambda>now.
          if \<not> (ERR \<in> set states \<or> now > wi_deadline item \<or> list_all (\<lambda>x. x = DONE) states) then retM ()
          else reap_inflight item))"

definition drain_writes :: "sc_config \<Rightarrow> sc_env \<Rightarrow> ('s scat_scheme, unit) pym" where
  "drain_writes sc env =
     bindM (getsM sc_write_inflight) (\<lambda>inflight.
     if inflight = [] \<or> \<not> ev_manager env then retM ()
     else foldM (\<lambda>_. drain_item sc env) () inflight)"

definition push_after_prefill :: "sc_config \<Rightarrow> sc_env \<Rightarrow> sched_req \<Rightarrow> scatter_meta \<Rightarrow> ('s scat_scheme, unit) pym" where
  "push_after_prefill sc env r meta =
     bindM (liftM (url_port sc (sm_combine_addr meta))) (\<lambda>port.
     bindM (liftM (segment_hash_list (cf_sha256 (sc_cf sc)) (origin_input_ids r))) (\<lambda>hash.
     if port = Some (sc_port sc)
     then bindM (modifyM (hold hash)) (\<lambda>_. try_release_combines sc env)
     else let k = (sm_scatter_room meta, sm_seg_index meta) in
          bindM (getsM (\<lambda>s. map_of (sc_handles s) k)) (\<lambda>handle. case handle of
            Some h \<Rightarrow>
              bindM (getsM (entry_of hash)) (\<lambda>entry.
              bindM (optM KeyError entry) (\<lambda>i.
              bindM (modifyM (\<lambda>s. s\<lparr>sc_handles := AList.delete k (sc_handles s)\<rparr>)) (\<lambda>_.
              start_write sc env h i k hash)))
          | None \<Rightarrow>
              bindM (modifyM (hold hash)) (\<lambda>_.
              bindM (nowM (sc_cf sc)) (\<lambda>now.
              modifyM (\<lambda>s. s\<lparr>sc_push_pending := sc_push_pending s @
                [\<lparr>pp_room = fst k, pp_seg_index = snd k, pp_seg_hash = hash,
                  pp_deadline = now + pic_scatter_timeout_s sc\<rparr>]\<rparr>))))))"

definition maybe_push_after_prefill :: "sc_config \<Rightarrow> sc_env \<Rightarrow> sched_req \<Rightarrow> ('s scat_scheme, unit) pym" where
  "maybe_push_after_prefill sc env r =
     (case pic_scatter_meta r of
        None \<Rightarrow> retM ()
      | Some meta \<Rightarrow> tryM (push_after_prefill sc env r meta) (\<lambda>_. retM ()))"

definition record_recomputed :: "sc_config \<Rightarrow> scatter_meta \<Rightarrow> bool \<Rightarrow> ('s scat_scheme, unit) pym" where
  "record_recomputed sc meta recomputed =
     (let k = (sm_scatter_room meta, sm_seg_index meta) in
      bindM (liftM (url_port sc (sm_combine_addr meta))) (\<lambda>port.
      if port = Some (sc_port sc)
      then modifyM (\<lambda>s. s\<lparr>sc_seg_recomputed := AList.update k recomputed (sc_seg_recomputed s)\<rparr>)
      else modifyM (\<lambda>s. s\<lparr>sc_push_recomputed := AList.update k recomputed (sc_push_recomputed s)\<rparr>)))"

definition pic_scatter_retire :: "sc_config \<Rightarrow> sc_env \<Rightarrow> sched_req \<Rightarrow> bytes \<Rightarrow> bool \<Rightarrow> ('s scat_scheme, unit) pym" where
  "pic_scatter_retire sc env r hash recomputed =
     bindM (case pic_scatter_meta r of None \<Rightarrow> retM () | Some meta \<Rightarrow> record_recomputed sc meta recomputed) (\<lambda>_.
     bindM (maybe_push_after_prefill sc env r) (\<lambda>_.
     bindM (modifyM (unhold hash)) (\<lambda>_.
     bindM (if recomputed
            then bindM (if mamba_pool_idx r \<noteq> None then on_world (on_pool (free_mamba_cache r None)) else retM r) (\<lambda>r1.
                 on_world (on_pool (req_free r1)))
            else retM r) (\<lambda>r2.
     modifyM (\<lambda>s. s\<lparr>sc_output := sc_output s @ [r2\<lparr>finished_length := Some 0\<rparr>]\<rparr>)))))"

fun cached_tokens_loop ::
  "segment list \<Rightarrow> combine_item list \<Rightarrow> nat \<Rightarrow> ('s scat_scheme, nat) pym" where
  "cached_tokens_loop segments [] acc = retM acc"
| "cached_tokens_loop segments (item # items) acc =
     (let k = (ci_room item, ci_seg_index item) in
      bindM (getsM (\<lambda>s. case map_of (sc_seg_recomputed s) k of None \<Rightarrow> True | Some b \<Rightarrow> b)) (\<lambda>recomputed.
      bindM (modifyM (\<lambda>s. s\<lparr>sc_seg_recomputed := AList.delete k (sc_seg_recomputed s)\<rparr>)) (\<lambda>_.
      if recomputed then cached_tokens_loop segments items acc
      else bindM (liftM (py_index segments (ci_seg_index item))) (\<lambda>seg.
           cached_tokens_loop segments items (acc + size_of seg)))))"

definition pic_combine_cached_tokens :: "sched_req \<Rightarrow> ('s scat_scheme, nat) pym" where
  "pic_combine_cached_tokens r =
     cached_tokens_loop (case pic_segments r of None \<Rightarrow> [] | Some segs \<Rightarrow> segs)
       (case pic_combine r of None \<Rightarrow> [] | Some its \<Rightarrow> its) 0"

abbreviation unpush :: "push_item \<Rightarrow> ('s scat_scheme, unit) pym" where
  "unpush \<equiv> removeM sc_push_pending (\<lambda>xs s. s\<lparr>sc_push_pending := xs\<rparr>)"

definition push_pending_item :: "sc_config \<Rightarrow> sc_env \<Rightarrow> push_item \<Rightarrow> ('s scat_scheme, unit) pym" where
  "push_pending_item sc env item =
     (let k = (pp_room item, pp_seg_index item) in
      bindM (getsM (\<lambda>s. map_of (sc_handles s) k)) (\<lambda>handle. case handle of
        Some h \<Rightarrow>
          bindM (getsM (entry_of (pp_seg_hash item))) (\<lambda>entry. case entry of
            None \<Rightarrow> unpush item
          | Some i \<Rightarrow>
              bindM (modifyM (\<lambda>s. if lock_ref (w_heap (sd_world s) i) > 0 then lock_add (-1) i s else s)) (\<lambda>_.
              bindM (modifyM (\<lambda>s. s\<lparr>sc_handles := AList.delete k (sc_handles s)\<rparr>)) (\<lambda>_.
              bindM (unpush item) (\<lambda>_.
              start_write sc env h i k (pp_seg_hash item)))))
      | None \<Rightarrow>
          bindM (nowM (sc_cf sc)) (\<lambda>now.
          if now > pp_deadline item
          then bindM (modifyM (unhold (pp_seg_hash item))) (\<lambda>_. unpush item)
          else retM ())))"

definition try_push_pending :: "sc_config \<Rightarrow> sc_env \<Rightarrow> ('s scat_scheme, unit) pym" where
  "try_push_pending sc env =
     bindM (getsM sc_push_pending) (\<lambda>pending.
     foldM (\<lambda>_ item. tryM (push_pending_item sc env item)
                          (\<lambda>_. tryM (unpush item) (\<lambda>_. retM ()))) () pending)"

section \<open>The scheduler's hooks\<close>

definition pic_drain :: "sc_config \<Rightarrow> sc_env \<Rightarrow> ('s scat_scheme, unit) pym" where
  "pic_drain sc env =
     bindM (try_push_pending sc env) (\<lambda>_.
     bindM (drain_writes sc env) (\<lambda>_.
     bindM (drain_injects sc env) (\<lambda>_.
     bindM (getsM sc_hit_retire) (\<lambda>hit_retire.
     bindM (modifyM (\<lambda>s. s\<lparr>sc_hit_retire := []\<rparr>)) (\<lambda>_.
     foldM (\<lambda>_ (r, hash). tryM (pic_scatter_retire sc env r hash False) (\<lambda>_. retM ())) () hit_retire)))))"

definition gated_hashes :: "sc_config \<Rightarrow> sched_req \<Rightarrow> bytes list result" where
  "gated_hashes sc r =
     (case pic_segments r of
        None \<Rightarrow> Inr []
      | Some segs \<Rightarrow>
          if length segs \<ge> 2
          then map_result (\<lambda>seg. segment_hash_list (cf_sha256 (sc_cf sc)) (seg_slice (origin_input_ids r) seg)) (butlast segs)
          else Inr [])"

text \<open>The enqueue behind the PIC branches, by mode; the last argument says whether the request was retracted.\<close>

definition plain_enqueue :: "sc_config \<Rightarrow> sc_env \<Rightarrow> sched_req \<Rightarrow> bool \<Rightarrow> ('s scat_scheme, unit) pym" where
  "plain_enqueue sc env r is_retracted =
     bindM (getsM sd_mode) (\<lambda>mode. case mode of
       NULL \<Rightarrow> enqueue_null (sc_cf sc) r
     | PREFILL \<Rightarrow> bootstrap_add env r
     | DECODE \<Rightarrow>
         bindM (liftM (ev_prealloc env r)) (\<lambda>ok.
         modifyM (\<lambda>s. if \<not> ok then s
                      else if is_retracted then s\<lparr>sd_retracted := sd_retracted s @ [(r, True)]\<rparr>
                      else s\<lparr>sd_prealloc := sd_prealloc s @ [(r, False)]\<rparr>)))"

definition enqueue_scatter :: "sc_config \<Rightarrow> sched_req \<Rightarrow> ('s scat_scheme, unit) pym" where
  "enqueue_scatter sc r =
     bindM (liftM (segment_hash_list (cf_sha256 (sc_cf sc)) (origin_input_ids r))) (\<lambda>hash.
     bindM (getsM (entry_of hash)) (\<lambda>entry. case entry of
       Some i \<Rightarrow>
         bindM (modifyM (lock_add 1 i)) (\<lambda>_.
         modifyM (\<lambda>s. s\<lparr>sc_hit_retire := sc_hit_retire s @ [(r, hash)]\<rparr>))
     | None \<Rightarrow> modifyM (\<lambda>s. s\<lparr>sd_waiting := sd_waiting s @ [r]\<rparr>)))"

definition enqueue_combine :: "sc_config \<Rightarrow> sc_env \<Rightarrow> sched_req \<Rightarrow> bool \<Rightarrow> ('s scat_scheme, unit) pym" where
  "enqueue_combine sc env r is_retracted =
     bindM (liftM (gated_hashes sc r)) (\<lambda>gated.
     let r1 = r\<lparr>pic_combine_hashes := gated, is_pic_combine := True\<rparr> in
     bindM (prealloc_and_push_handles sc env r1) (\<lambda>_.
     bindM (getsM (entries_have gated)) (\<lambda>present.
     if \<not> present
     then bindM (nowM (sc_cf sc)) (\<lambda>now.
          modifyM (\<lambda>s. s\<lparr>sc_parked := sc_parked s @
            [\<lparr>pk_req = r1, pk_hashes = gated, pk_deadline = now + pic_scatter_timeout_s sc\<rparr>]\<rparr>))
     else plain_enqueue sc env r1 is_retracted)))"

definition add_request_to_queue :: "sc_config \<Rightarrow> sc_env \<Rightarrow> sched_req \<Rightarrow> bool \<Rightarrow> ('s scat_scheme, unit) pym" where
  "add_request_to_queue sc env r is_retracted =
     bindM (set_or_validate_priority r) (\<lambda>(ok, r1).
     bindM (getsM sd_mode) (\<lambda>mode.
     if \<not> ok then retM ()
     else if pic_scatter_single_seg r1 then enqueue_scatter sc r1
     else if pic_combine r1 \<noteq> None \<and> mode = PREFILL then enqueue_combine sc env r1 is_retracted
     else plain_enqueue sc env r1 is_retracted))"

definition handle_pic_scatter_handle :: "scatter_handle \<Rightarrow> 's scat_scheme \<Rightarrow> 's scat_scheme" where
  "handle_pic_scatter_handle h s = s\<lparr>sc_handles := AList.update (h_room h, h_seg_index h) h (sc_handles s)\<rparr>"

text \<open>The first statement of \<open>on_idle\<close>.\<close>

definition on_idle_release :: "sc_config \<Rightarrow> sc_env \<Rightarrow> ('s scat_scheme, unit) pym" where
  "on_idle_release sc env =
     bindM (getsM sc_parked) (\<lambda>parked. if parked \<noteq> [] then try_release_combines sc env else retM ())"

text \<open>A request whose prefill is complete: register its segments, then retire a scatter segment or bill a combine and
  hand it to the transfer queue.\<close>

definition prefill_finished :: "sc_config \<Rightarrow> sc_env \<Rightarrow> sched_req \<Rightarrow> ('s scat_scheme, unit) pym" where
  "prefill_finished sc env r =
     bindM (on_world (maybe_cache_unfinished_req (sc_cf sc) r)) (\<lambda>r1.
     if pic_scatter_single_seg r1
     then bindM (liftM (segment_hash_list (cf_sha256 (sc_cf sc)) (origin_input_ids r1))) (\<lambda>hash.
          pic_scatter_retire sc env r1 hash True)
     else bindM (if is_pic_combine r1
                 then bindM (modifyM (release_combine_holds r1)) (\<lambda>_.
                      bindM (pic_combine_cached_tokens r1) (\<lambda>n. retM (r1\<lparr>cached_tokens := n\<rparr>)))
                 else retM r1) (\<lambda>r2.
          modifyM (\<lambda>s. s\<lparr>sd_prefill_inflight := sd_prefill_inflight s @ [r2]\<rparr>)))"

definition partition_combine_first :: "sched_req list \<Rightarrow> sched_req list" where
  "partition_combine_first queue = sort_key (\<lambda>r. if is_pic_combine r then 0 else (1::nat)) queue"

end
