(* ===== verification/Pic_Scatter_Props.thy ===== *)
theory Pic_Scatter_Props
  imports Pic_Scatter
begin

text \<open>
  What the scatter protocol guarantees. Slots: the KV and mamba slots of a combine engine are free, in a cached segment or in
  the stash of an announced segment, and no handler moves one anywhere else, whatever the transport answers and wherever it
  raises. The handlers are composed of statements that keep this account, so the account is a logic on the monad
  (\<open>keepsM\<close>) with a rule per combinator.
\<close>

section \<open>The account of a combine engine\<close>

definition pend_kv :: "'s scat_scheme \<Rightarrow> nat multiset" where
  "pend_kv s = (\<Sum>(k, info)\<leftarrow>sc_pending s. mset (pi_kv_slots info))"

definition pend_mb :: "'s scat_scheme \<Rightarrow> int multiset" where
  "pend_mb s = (\<Sum>(k, info)\<leftarrow>sc_pending s. {#pi_mamba_slot info#})"

definition sc_kv :: "'s scat_scheme \<Rightarrow> nat multiset" where
  "sc_kv s = kv_acct (sd_world s) + pend_kv s"

definition sc_mb :: "'s scat_scheme \<Rightarrow> int multiset" where
  "sc_mb s = mb_acct (sd_world s) + pend_mb s"

definition info_ok :: "pic_config \<Rightarrow> pending_info \<Rightarrow> bool" where
  "info_ok cf info \<longleftrightarrow> length (pi_kv_slots info) = length (pi_token_ids info) \<and>
     pi_seg_hash info = segment_hash_tensor (cf_sha256 cf) (pi_token_ids info)"

text \<open>\<open>sc_inv\<close>: the cache is well formed, the stash has one well-formed entry per key, and the waiting requests of a prefill or
  plain engine hold no mamba slot yet.\<close>

definition sc_inv :: "pic_config \<Rightarrow> 's scat_scheme \<Rightarrow> bool" where
  "sc_inv cf s \<longleftrightarrow> pic_inv cf (sd_world s) \<and> is_not_in_free_group (w_kv (sd_world s)) \<and>
     dict_ok (sc_pending s) \<and> (\<forall>(k, info)\<in>set (sc_pending s). info_ok cf info) \<and>
     sd_mode s \<noteq> DECODE \<and> (\<forall>r\<in>set (sd_waiting s). mamba_pool_idx r = None)"

definition keeps :: "pic_config \<Rightarrow> 's scat_scheme \<Rightarrow> 's scat_scheme \<Rightarrow> bool" where
  "keeps cf s s' \<longleftrightarrow> (sc_inv cf s \<longrightarrow> sc_inv cf s' \<and> sc_kv s' = sc_kv s \<and> sc_mb s' = sc_mb s)"

definition keepsM :: "pic_config \<Rightarrow> ('s scat_scheme, 'a) pym \<Rightarrow> bool" where
  "keepsM cf m \<longleftrightarrow> (\<forall>s. keeps cf s (snd (m s)))"

lemma keeps_refl [simp]: "keeps cf s s"
  by (simp add: keeps_def)

lemma keeps_trans: "keeps cf s s1 \<Longrightarrow> keeps cf s1 s2 \<Longrightarrow> keeps cf s s2"
  by (auto simp: keeps_def)

lemma keepsD: "keepsM cf m \<Longrightarrow> m s = (x, s') \<Longrightarrow> keeps cf s s'"
  by (metis keepsM_def snd_conv)

named_theorems keeps_intros \<open>rules for composing statements that keep the account\<close>

lemma keepsM_atoms [keeps_intros]:
  "keepsM cf (retM x)" "keepsM cf (raiseM e)" "keepsM cf (getsM f)" "keepsM cf (liftM r)" "keepsM cf (assertM b)"
  "keepsM cf (optM e y)"
  by (auto simp: keepsM_def optM_def split: option.split)

lemma keepsM_modify [keeps_intros]: "(\<And>s. keeps cf s (f s)) \<Longrightarrow> keepsM cf (modifyM f)"
  by (simp add: keepsM_def)

lemma keepsM_bind [keeps_intros]:
  assumes "keepsM cf m" "\<And>x. keepsM cf (f x)"
  shows "keepsM cf (bindM m f)"
  unfolding keepsM_def
proof
  fix s
  obtain x s1 where m: "m s = (x, s1)"
    by fastforce
  show "keeps cf s (snd (bindM m f s))"
    using keepsD [OF assms(1) m] assms(2) m by (cases x) (auto simp: bindM_app keepsM_def intro: keeps_trans)
qed

lemma keepsM_try [keeps_intros]:
  assumes "keepsM cf m" "\<And>e. keepsM cf (h e)"
  shows "keepsM cf (tryM m h)"
  unfolding keepsM_def
proof
  fix s
  obtain x s1 where m: "m s = (x, s1)"
    by fastforce
  show "keeps cf s (snd (tryM m h s))"
    using keepsD [OF assms(1) m] assms(2) m by (cases x) (auto simp: tryM_app keepsM_def intro: keeps_trans)
qed

lemma keepsM_foldM [keeps_intros]: "(\<And>b x. keepsM cf (f b x)) \<Longrightarrow> keepsM cf (foldM f b xs)"
  by (induction xs arbitrary: b) (auto intro: keeps_intros)

lemma keepsM_splits [keeps_intros]:
  "(b \<Longrightarrow> keepsM cf m) \<Longrightarrow> (\<not> b \<Longrightarrow> keepsM cf m') \<Longrightarrow> keepsM cf (if b then m else m')"
  "(o1 = None \<Longrightarrow> keepsM cf m) \<Longrightarrow> (\<And>y. o1 = Some y \<Longrightarrow> keepsM cf (g y)) \<Longrightarrow> keepsM cf (case o1 of None \<Rightarrow> m | Some y \<Rightarrow> g y)"
  "(\<And>e. r1 = Inl e \<Longrightarrow> keepsM cf (f1 e)) \<Longrightarrow> (\<And>y. r1 = Inr y \<Longrightarrow> keepsM cf (f2 y)) \<Longrightarrow> keepsM cf (case r1 of Inl e \<Rightarrow> f1 e | Inr y \<Rightarrow> f2 y)"
  "(\<And>a b. p = (a, b) \<Longrightarrow> keepsM cf (h a b)) \<Longrightarrow> keepsM cf (case p of (a, b) \<Rightarrow> h a b)"
  "keepsM cf (k v) \<Longrightarrow> keepsM cf (let x = v in k x)"
  by (auto split: option.split sum.split prod.split)

text \<open>Updates of the fields the account does not mention.\<close>

lemma keeps_frame:
  assumes "sd_world s' = sd_world s" "sc_pending s' = sc_pending s" "sd_mode s' = sd_mode s"
    "set (sd_waiting s') \<subseteq> set (sd_waiting s)"
  shows "keeps cf s s'"
  using assms by (auto simp: keeps_def sc_inv_def sc_kv_def sc_mb_def pend_kv_def pend_mb_def)

lemma keepsM_removeM [keeps_intros]:
  assumes "\<And>xs s. keeps cf s (put xs s)"
  shows "keepsM cf (removeM get put x)"
  using assms by (simp add: keepsM_def removeM_def)

text \<open>Updates of the world that keep the cache's own account.\<close>

lemma keeps_world:
  assumes "pic_inv cf (sd_world s) \<Longrightarrow> pic_inv cf (f (sd_world s)) \<and> kv_acct (f (sd_world s)) = kv_acct (sd_world s) \<and>
      mb_acct (f (sd_world s)) = mb_acct (sd_world s) \<and> w_kv (f (sd_world s)) = w_kv (sd_world s)"
  shows "keeps cf s (s\<lparr>sd_world := f (sd_world s)\<rparr>)"
  using assms by (auto simp: keeps_def sc_inv_def sc_kv_def sc_mb_def pend_kv_def pend_mb_def)

lemma tick_facts: "pic_inv cf (tick w) = pic_inv cf w" "kv_acct (tick w) = kv_acct w" "mb_acct (tick w) = mb_acct w"
    "w_kv (tick w) = w_kv w"
  by (simp_all add: tick_def pic_inv_def entry_ok_def kv_acct_def mb_acct_def all_values_flatten_def
      all_mamba_values_flatten_def entry_values_def)

lemma keepsM_now [keeps_intros]: "keepsM cf (nowM cf')"
  using keeps_world [where f = tick] by (auto simp: keepsM_def nowM_def tick_facts)

lemma keeps_lock_add:
  assumes "d \<ge> 0 \<or> lock_ref (w_heap (sd_world s) i) + d \<ge> 0"
  shows "keeps cf s (lock_add d i s)"
  unfolding lock_add_def
proof (rule keeps_world)
  assume "pic_inv cf (sd_world s)"
  then have "pic_inv cf (upd_entry i (\<lambda>e. e\<lparr>lock_ref := lock_ref e + d\<rparr>) (sd_world s))"
    using assms by (auto simp: pic_inv_def upd_entry_def entry_ok_def)
  then show "pic_inv cf (upd_entry i (\<lambda>e. e\<lparr>lock_ref := lock_ref e + d\<rparr>) (sd_world s)) \<and>
      kv_acct (upd_entry i (\<lambda>e. e\<lparr>lock_ref := lock_ref e + d\<rparr>) (sd_world s)) = kv_acct (sd_world s) \<and>
      mb_acct (upd_entry i (\<lambda>e. e\<lparr>lock_ref := lock_ref e + d\<rparr>) (sd_world s)) = mb_acct (sd_world s) \<and>
      w_kv (upd_entry i (\<lambda>e. e\<lparr>lock_ref := lock_ref e + d\<rparr>) (sd_world s)) = w_kv (sd_world s)"
    by (simp add: acct_lock) (simp add: upd_entry_def)
qed

lemma keeps_hold: "keeps cf s (hold h s)" "keeps cf s (unhold h s)"
  by (auto simp: hold_def unhold_def intro!: keeps_lock_add split: option.split)

lemma keeps_fold: "(\<And>x s. keeps cf s (f x s)) \<Longrightarrow> keeps cf s (fold f xs s)"
  by (induction xs arbitrary: s) (auto intro: keeps_trans)

lemma keeps_release_holds: "keeps cf s (release_combine_holds r s)"
  by (simp add: release_combine_holds_def keeps_fold keeps_hold)

section \<open>Settling a stashed segment\<close>

lemma sum_list_mset: "(\<Sum>x\<leftarrow>xs. f x) = (\<Sum>x\<in>#mset xs. (f x :: 'b multiset))"
  by (simp only: mset_map [symmetric] sum_mset_sum_list)

lemma pend_delete:
  assumes "dict_ok (sc_pending s)" "map_of (sc_pending s) k = Some info" "sc_pending s' = AList.delete k (sc_pending s)"
  shows "pend_kv s = pend_kv s' + mset (pi_kv_slots info)" "pend_mb s = pend_mb s' + {#pi_mamba_slot info#}"
proof -
  show "pend_kv s = pend_kv s' + mset (pi_kv_slots info)" "pend_mb s = pend_mb s' + {#pi_mamba_slot info#}"
    unfolding pend_kv_def pend_mb_def assms(3) sum_list_mset mset_dict_delete [OF assms(1,2)] by simp_all
qed

lemma keeps_settle:
  assumes k: "map_of (sc_pending s) k = Some info"
    and g: "pic_inv cf (sd_world s) \<Longrightarrow> info_ok cf info \<Longrightarrow> is_not_in_free_group (w_kv (sd_world s)) \<Longrightarrow>
      gives cf (sd_world s) (mset (pi_kv_slots info)) {#pi_mamba_slot info#} (sd_world s') \<and> is_not_in_free_group (w_kv (sd_world s'))"
    and s': "sc_pending s' = AList.delete k (sc_pending s)" "sd_mode s' = sd_mode s" "sd_waiting s' = sd_waiting s"
  shows "keeps cf s s'"
  unfolding keeps_def
proof
  assume inv: "sc_inv cf s"
  then have ok: "info_ok cf info"
    using map_of_SomeD [OF k] by (auto simp: sc_inv_def)
  have d: "dict_ok (sc_pending s)"
    using inv by (simp add: sc_inv_def)
  have g': "gives cf (sd_world s) (mset (pi_kv_slots info)) {#pi_mamba_slot info#} (sd_world s')" "is_not_in_free_group (w_kv (sd_world s'))"
    using g ok inv by (simp_all add: sc_inv_def)
  have sub: "set (AList.delete k (sc_pending s)) \<subseteq> set (sc_pending s)"
    by (auto simp: AList.delete_eq)
  have "sc_inv cf s'"
    using inv g' sub gives_inv [OF g'(1)] by (auto simp: sc_inv_def s')
  then show "sc_inv cf s' \<and> sc_kv s' = sc_kv s \<and> sc_mb s' = sc_mb s"
    using g'(1) pend_delete [OF d k s'(1)] by (simp add: sc_kv_def sc_mb_def gives_def union_ac)
qed

lemma free_group_flag [simp]:
  "is_not_in_free_group (w_kv (mb_free ms w)) = is_not_in_free_group (w_kv w)"
  "is_not_in_free_group (w_kv (remove_inflight a b w)) = is_not_in_free_group (w_kv w)"
  "is_not_in_free_group (w_kv (kv_free xs w)) = is_not_in_free_group (w_kv w)"
  "is_not_in_free_group (w_kv (upd_entry i f w)) = is_not_in_free_group (w_kv w)"
  by (simp_all add: mb_free_def remove_inflight_def kv_free_def token_free_def upd_entry_def)

text \<open>Freeing a segment's slots and taking it off the in-flight counters.\<close>

lemma free_slots_gives:
  assumes "pic_inv cf w"
  shows "gives cf w (mset kv) {#m#} (remove_inflight a b (mb_free [m] (kv_free kv w)))"
proof -
  note g1 = gives_prims(1) [OF assms, of kv]
  note g2 = gives_prims(2) [OF gives_inv [OF g1], of "[m]"]
  note g3 = gives_prims(3) [OF gives_inv [OF g2], of a b]
  show ?thesis
    using gives_trans [OF gives_trans [OF g1 g2] g3] by simp
qed

lemma keeps_free_pending:
  assumes "map_of (sc_pending s) k = Some info"
  shows "keeps cf s (free_pending k info s)"
  by (rule keeps_settle [OF assms])
    (use free_slots_gives in \<open>auto simp: free_pending_def drop_pending_def unsee_def world_upd_def\<close>)

lemma keeps_free_combine_pending: "keeps cf s (free_combine_pending r s)"
  unfolding free_combine_pending_def
  by (rule keeps_fold) (auto intro: keeps_free_pending split: option.split)

lemma upd_entry_pool: "w_pool (upd_entry i f w) = w_pool w"
  by (simp add: upd_entry_def)

lemma inject_received_gives:
  assumes inv: "pic_inv cf w" and ok: "info_ok cf info"
  shows "(if map_of (w_entries w) (pi_seg_hash info) = None
     then gives cf w (mset (pi_kv_slots info)) {#pi_mamba_slot info#} (snd (inject_received_segment cf (pi_seg_hash info) (pi_token_ids info)
            (pi_kv_slots info) (pi_mamba_slot info) w))
     else gives cf w {#} {#} (snd (inject_received_segment cf (pi_seg_hash info) (pi_token_ids info)
            (pi_kv_slots info) (pi_mamba_slot info) w)))"
proof (cases "map_of (w_entries w) (pi_seg_hash info)")
  case None
  let ?h = "pi_seg_hash info"
  have h: "?h = segment_hash_tensor (cf_sha256 cf) (pi_token_ids info)" "length (pi_kv_slots info) = length (pi_token_ids info)"
    using ok by (simp_all add: info_ok_def)
  have S: "toks_in UNIV w" "pi_token_ids info \<in> UNIV"
    by (simp_all add: toks_in_def)
  obtain w' where w': "insert_segment cf ?h (pi_token_ids info) (pi_kv_slots info) (pi_mamba_slot info) w = (w_next w, w')"
    "kv_acct w' = kv_acct w + mset (pi_kv_slots info)" "mb_acct w' = mb_acct w + {#pi_mamba_slot info#}" "pic_inv cf w'" "reg_frame w w'"
    using insert_segment_new [OF inv S None h] by blast
  have "gives cf w (mset (pi_kv_slots info)) {#pi_mamba_slot info#} (upd_entry (w_next w) (\<lambda>e. e\<lparr>lock_ref := lock_ref e + 1\<rparr>) w')"
    using w' inv_simple_updates(4) [OF w'(4)] by (simp add: gives_def acct_lock reg_frame_def upd_entry_pool)
  then show ?thesis
    using None w'(1) by (simp add: inject_received_segment_def)
next
  case (Some i)
  then show ?thesis
    using inv_simple_updates(4) [OF inv] by (simp add: inject_received_segment_def gives_def acct_lock upd_entry_pool)
qed

lemma inject_flag: "is_not_in_free_group (w_kv (snd (inject_received_segment cf h toks kv m w))) = is_not_in_free_group (w_kv w)"
  by (simp add: inject_received_segment_def insert_segment_def match_segment_def tick_def Let_def upd_entry_def split: option.split)

lemma inject_step_pending:
  "sc_pending (inject_step cf (k, info) s) = sc_pending s \<or> sc_pending (inject_step cf (k, info) s) = AList.delete k (sc_pending s)"
  by (auto simp: inject_step_def Let_def drop_pending_def unsee_def world_upd_def)

lemma keeps_inject_step:
  assumes k: "map_of (sc_pending s) k = Some info"
  shows "keeps cf s (inject_step cf (k, info) s)"
proof (cases "notif_tag k ''kv'' \<in> sc_seen s \<and> notif_tag k ''mamba'' \<in> sc_seen s")
  case True
  let ?w1 = "snd (inject_received_segment cf (pi_seg_hash info) (pi_token_ids info) (pi_kv_slots info) (pi_mamba_slot info) (sd_world s))"
  let ?rem = "remove_inflight (int (pi_n_tokens info)) 1"
  have g: "gives cf (sd_world s) (mset (pi_kv_slots info)) {#pi_mamba_slot info#} (sd_world (inject_step cf (k, info) s))"
    if inv: "pic_inv cf (sd_world s)" and ok: "info_ok cf info"
  proof (cases "map_of (w_entries (sd_world s)) (pi_seg_hash info)")
    case None
    then have g1: "gives cf (sd_world s) (mset (pi_kv_slots info)) {#pi_mamba_slot info#} ?w1"
      using inject_received_gives [OF inv ok] by simp
    have "sd_world (inject_step cf (k, info) s) = ?rem ?w1"
      using True None by (simp add: inject_step_def entry_of_def Let_def drop_pending_def unsee_def world_upd_def)
    then show ?thesis
      using gives_trans [OF g1 gives_prims(3) [OF gives_inv [OF g1]]] by simp
  next
    case (Some i)
    then have g1: "gives cf (sd_world s) {#} {#} ?w1"
      using inject_received_gives [OF inv ok] by simp
    have "sd_world (inject_step cf (k, info) s) = ?rem (mb_free [pi_mamba_slot info] (kv_free (pi_kv_slots info) ?w1))"
      using True Some by (simp add: inject_step_def entry_of_def Let_def drop_pending_def unsee_def world_upd_def)
    then show ?thesis
      using gives_trans [OF g1 free_slots_gives [OF gives_inv [OF g1]]] by simp
  qed
  show ?thesis
    by (rule keeps_settle [OF k]) (use True g in \<open>auto simp: inject_step_def entry_of_def Let_def drop_pending_def unsee_def world_upd_def inject_flag\<close>)
qed (auto simp: inject_step_def)

lemma keeps_inject_fold:
  assumes "dict_ok xs" "\<forall>(k, info)\<in>set xs. map_of (sc_pending s) k = Some info"
  shows "keeps cf s (fold (inject_step cf) xs s)"
  using assms
proof (induction xs arbitrary: s)
  case (Cons x xs)
  obtain k info where x: "x = (k, info)"
    by fastforce
  have step: "keeps cf s (inject_step cf x s)"
    using Cons.prems(2) by (simp add: x keeps_inject_step)
  have "\<forall>(k', info')\<in>set xs. map_of (sc_pending (inject_step cf x s)) k' = Some info'"
  proof clarify
    fix k1 k2 info'
    assume mem: "((k1, k2), info') \<in> set xs"
    then have "map_of (sc_pending s) (k1, k2) = Some info'"
      using Cons.prems by (fastforce simp: x)
    moreover have "(k1, k2) \<noteq> k"
      using Cons.prems(1) imageI [OF mem, of fst] by (auto simp: x)
    ultimately show "map_of (sc_pending (inject_step cf x s)) (k1, k2) = Some info'"
      using inject_step_pending [of cf k info s] by (auto simp: x delete_conv)
  qed
  from Cons.IH [OF _ this] Cons.prems(1) step show ?case
    by (auto intro: keeps_trans)
qed simp

lemma keeps_inject_all: "keeps cf s (fold (inject_step cf) (sc_pending s) s)"
proof (cases "sc_inv cf s")
  case True
  then have "dict_ok (sc_pending s)"
    by (simp add: sc_inv_def)
  then show ?thesis
    by (intro keeps_inject_fold) auto
qed (simp add: keeps_def)

section \<open>Every handler of a tick keeps the account\<close>

lemma keepsM_abort_request [keeps_intros]: "keepsM cf (abort_request cf' ra all i)"
  unfolding keepsM_def
proof
  fix s :: "'a scat_scheme"
  show "keeps cf s (snd (abort_request cf' ra all i s))"
  proof (cases "sc_inv cf s")
    case True
    then have pre: "sd_mode s \<noteq> DECODE" "\<forall>r\<in>set (sd_waiting s). abort_matches all i r \<longrightarrow> mamba_pool_idx r = None"
      by (auto simp: sc_inv_def)
    from abort_request_spec [OF pre, of cf' ra] obtain s' where
      s': "abort_request cf' ra all i s = (Inr (), s')" "sd_world s' = sd_world s" "sc_pending s' = sc_pending s"
        "sd_mode s' = sd_mode s" "set (sd_waiting s') \<subseteq> set (sd_waiting s)"
      by (auto simp: abort_batches_def abort_prefill_queues_def Let_def)
    then show ?thesis
      using keeps_frame [OF s'(2-5)] by simp
  qed (simp add: keeps_def)
qed

lemma keeps_fields [simp]:
  "keeps cf s (s\<lparr>sc_seen := a\<rparr>)" "keeps cf s (s\<lparr>sc_seg_recomputed := b\<rparr>)" "keeps cf s (s\<lparr>sc_push_recomputed := b\<rparr>)"
  "keeps cf s (s\<lparr>sc_seg_recomputed := b, sc_seen := a\<rparr>)"
  "keeps cf s (s\<lparr>sc_handles := c\<rparr>)" "keeps cf s (s\<lparr>sc_push_pending := d\<rparr>)" "keeps cf s (s\<lparr>sc_write_inflight := e\<rparr>)"
  "keeps cf s (s\<lparr>sc_parked := f\<rparr>)" "keeps cf s (s\<lparr>sc_hit_retire := g\<rparr>)" "keeps cf s (s\<lparr>sc_output := h\<rparr>)"
  "keeps cf s (s\<lparr>sd_bootstrap := i\<rparr>)"
  by (rule keeps_frame; simp)+

lemma keeps_lock_if: "keeps cf s (if lock_ref (w_heap (sd_world s) i) > 0 then lock_add (-1) i s else s)"
  by (auto intro: keeps_lock_add)

lemmas keeps_updates = keeps_hold keeps_lock_if keeps_release_holds keeps_free_combine_pending keeps_inject_all keeps_lock_add

lemma keepsM_notifs [keeps_intros]: "keepsM cf (note_notif m)" "keepsM cf (get_manager env)" "keepsM cf (poll_notifs env)"
proof -
  show one: "keepsM cf (note_notif m)" for m
    unfolding note_notif_def by (intro keeps_intros) simp_all
  show man: "keepsM cf (get_manager env)"
    unfolding get_manager_def by (intro keeps_intros)
  show "keepsM cf (poll_notifs env)"
    unfolding poll_notifs_def by (intro keeps_intros one man)
qed

lemma keepsM_bootstrap [keeps_intros]: "keepsM cf (bootstrap_add env r)"
  unfolding bootstrap_add_def by (intro keeps_intros) simp

lemma keepsM_release_step [keeps_intros]: "keepsM cf (release_step sc env p)"
  unfolding release_step_def by (intro keeps_intros keeps_updates keeps_fields)

lemma keepsM_try_release [keeps_intros]: "keepsM cf (try_release_combines sc env)"
  unfolding try_release_combines_def by (intro keeps_intros)

lemma keepsM_drain_injects [keeps_intros]: "keepsM (sc_cf sc) (drain_injects sc env)"
  unfolding drain_injects_def by (intro keeps_intros keeps_updates)

lemma keepsM_start_write [keeps_intros]: "keepsM cf (start_write sc env h i k hash)"
  unfolding start_write_def fire_write_def
  by (intro keeps_intros keeps_fields) (simp add: keeps_lock_add)

lemma keepsM_drain_writes [keeps_intros]: "keepsM cf (drain_writes sc env)"
  unfolding drain_writes_def drain_item_def reap_inflight_def
  by (intro keeps_intros keeps_updates keeps_fields)

lemma keepsM_push_after_prefill [keeps_intros]: "keepsM cf (maybe_push_after_prefill sc env r)"
  unfolding maybe_push_after_prefill_def push_after_prefill_def
  by (intro keeps_intros keeps_updates keeps_fields)

lemma keepsM_try_push_pending [keeps_intros]: "keepsM cf (try_push_pending sc env)"
  unfolding try_push_pending_def push_pending_item_def
  by (intro keeps_intros keeps_updates keeps_fields)

lemma keepsM_retire_hit [keeps_intros]: "keepsM cf (pic_scatter_retire sc env r hash False)"
  unfolding pic_scatter_retire_def record_recomputed_def if_False
  by (intro keeps_intros keeps_updates keeps_fields)

lemma keepsM_pic_drain: "keepsM (sc_cf sc) (pic_drain sc env)"
  unfolding pic_drain_def by (intro keeps_intros keeps_fields)

lemma keepsM_on_idle: "keepsM cf (on_idle_release sc env)"
  unfolding on_idle_release_def by (intro keeps_intros)

section \<open>Announcing a segment\<close>

lemma alloc_token_slots_fail_takes:
  assumes run: "pic_alloc_token_slots n w = (Inl e, w')" and inv: "pic_inv cf w" "is_not_in_free_group (w_kv w)"
  shows "takes cf w {#} {#} w'"
proof -
  obtain w1 where w1: "evict_from_tree_cache (Some pic_ops) n w = (Inr (), w1)" "takes cf w {#} {#} w1"
  proof (cases "token_available_size (w_kv w) < n")
    case True
    then show ?thesis
      using that evict_takes [OF inv, of "int n" 0] by (auto simp: evict_from_tree_cache_def pic_ops_def bindM_app)
  next
    case False
    then show ?thesis
      using that [of w] takes_refl [OF inv] by (auto simp: evict_from_tree_cache_def pic_ops_def)
  qed
  obtain a where a: "token_alloc n (w_kv w1) = (None, a)" "w' = w1\<lparr>w_kv := a\<rparr>"
    using run w1(1)
    by (auto simp: pic_alloc_token_slots_def alloc_token_slots_def pic_ops_def bindM_app
        split: prod.splits sum.splits option.splits)
  have al: "co_alloc pic_ops n w1 = (None, w')"
    using a by (simp add: pic_ops_def)
  have "pic_inv cf w' \<and> is_not_in_free_group (w_kv w')" "kv_acct w' = kv_acct w1"
    using pc.alloc_NoneD [OF _ al, of cf] takes_inv [OF w1(2)] by auto
  then have "takes cf w1 {#} {#} w'"
    using a(2) by (auto simp: takes_def mb_acct_def all_mamba_values_flatten_def entry_values_def)
  then show ?thesis
    using takes_trans [OF w1(2)] by simp
qed

lemma alloc_one_mamba_fail_takes:
  assumes run: "alloc_one_mamba w = (Inl e, w')" and inv: "pic_inv cf w" "is_not_in_free_group (w_kv w)"
  shows "takes cf w {#} {#} w'"
proof -
  obtain w1 where r1: "mamba_alloc_w 1 w = (None, w1)"
    using run by (auto simp: alloc_one_mamba_def stateM_def bindM_app split: prod.splits option.splits)
  have t1: "takes cf w {#} {#} w1"
    using mamba_alloc_None_takes [OF r1 inv] by simp
  obtain t k w2 where ev: "evict 0 1 w1 = (Inr (t, k), w2)" "takes cf w1 {#} {#} w2"
    using evict_takes [OF takes_inv [OF t1]] by blast
  have "w' = w2 \<or> mamba_alloc_w 1 w2 = (None, w')"
    using run r1 ev(1) by (auto simp: alloc_one_mamba_def stateM_def bindM_app split: if_splits prod.splits option.splits)
  then have "takes cf w2 {#} {#} w'"
    using takes_refl [OF takes_inv [OF ev(2)]] mamba_alloc_None_takes [of w2 w', OF _ takes_inv [OF ev(2)]] by auto
  then show ?thesis
    using takes_trans [OF takes_trans [OF t1 ev(2)]] by simp
qed

text \<open>The world took slots and gave them back.\<close>

lemma keeps_world_acct:
  assumes "sc_inv cf s \<Longrightarrow> pic_inv cf w' \<and> is_not_in_free_group (w_kv w') \<and> kv_acct w' = kv_acct (sd_world s) \<and> mb_acct w' = mb_acct (sd_world s)"
  shows "keeps cf s (s\<lparr>sd_world := w'\<rparr>)"
  using assms by (auto simp: keeps_def sc_inv_def sc_kv_def sc_mb_def pend_kv_def pend_mb_def)

lemma takes_kv_back:
  assumes "takes cf w (mset kv) {#} w1"
  shows "pic_inv cf (kv_free kv w1) \<and> is_not_in_free_group (w_kv (kv_free kv w1)) \<and> kv_acct (kv_free kv w1) = kv_acct w \<and>
    mb_acct (kv_free kv w1) = mb_acct w"
  using gives_prims(1) [OF takes_inv(1) [OF assms], of kv] assms by (simp add: gives_def takes_def)

lemma takes_all_back:
  assumes t: "takes cf w (mset kv) {#m#} w1"
  shows "pic_inv cf (kv_free kv (mb_free [m] (remove_inflight (int n) 1 (add_inflight (int n) 1 w1)))) \<and>
    is_not_in_free_group (w_kv (kv_free kv (mb_free [m] (remove_inflight (int n) 1 (add_inflight (int n) 1 w1))))) \<and>
    kv_acct (kv_free kv (mb_free [m] (remove_inflight (int n) 1 (add_inflight (int n) 1 w1)))) = kv_acct w \<and>
    mb_acct (kv_free kv (mb_free [m] (remove_inflight (int n) 1 (add_inflight (int n) 1 w1)))) = mb_acct w"
proof -
  have i1: "pic_inv cf (add_inflight (int n) 1 w1)"
    using add_inflight_simps(1) [OF takes_inv(1) [OF t]] by simp
  note g1 = gives_prims(3) [OF i1, of "int n" 1]
  note g2 = gives_prims(2) [OF gives_inv [OF g1], of "[m]"]
  note g3 = gives_prims(1) [OF gives_inv [OF g2], of kv]
  have "gives cf (add_inflight (int n) 1 w1) (mset kv) {#m#} (kv_free kv (mb_free [m] (remove_inflight (int n) 1 (add_inflight (int n) 1 w1))))"
    using gives_trans [OF gives_trans [OF g1 g2] g3] by simp
  then show ?thesis
    using t by (simp add: gives_def takes_def add_inflight_simps) (simp add: add_inflight_def)
qed

lemma pend_add:
  assumes "map_of (sc_pending s) k = None" "sc_pending s' = AList.update k info (sc_pending s)"
  shows "pend_kv s' = pend_kv s + mset (pi_kv_slots info)" "pend_mb s' = pend_mb s + {#pi_mamba_slot info#}"
    "set (sc_pending s') = insert (k, info) (set (sc_pending s))"
  using assms by (simp_all add: pend_kv_def pend_mb_def dict_update_new)

lemma keeps_stash:
  assumes fresh: "map_of (sc_pending s) k = None" and ok: "info_ok cf info"
    and t: "sc_inv cf s \<Longrightarrow> takes cf (sd_world s) (mset (pi_kv_slots info)) {#pi_mamba_slot info#} w1"
  shows "keeps cf s (stash_pending k info (s\<lparr>sd_world := add_inflight (int n) 1 w1\<rparr>))"
  unfolding keeps_def
proof
  let ?s' = "stash_pending k info (s\<lparr>sd_world := add_inflight (int n) 1 w1\<rparr>)"
  assume inv: "sc_inv cf s"
  have s': "sc_pending ?s' = AList.update k info (sc_pending s)"
    by (simp add: stash_pending_def)
  note p = pend_add [OF fresh s'] and t' = t [OF inv]
  have "sc_inv cf ?s'"
    using inv ok p(3) takes_inv [OF t'] unfolding s'
    by (auto simp: sc_inv_def stash_pending_def add_inflight_simps) (simp add: add_inflight_def)
  then show "sc_inv cf ?s' \<and> sc_kv ?s' = sc_kv s \<and> sc_mb ?s' = sc_mb s"
    using t' p(1,2) by (simp add: sc_kv_def sc_mb_def takes_def union_ac) (simp add: stash_pending_def add_inflight_simps)
qed

definition handle_for :: "scatter_key \<Rightarrow> pending_info \<Rightarrow> scatter_handle \<Rightarrow> bool" where
  "handle_for k info h \<longleftrightarrow> h_room h = fst k \<and> h_seg_index h = snd k \<and> dst_kv_indices h = pi_kv_slots info \<and>
     dst_state_indices h = [pi_mamba_slot info] \<and> notif_kv h = notif_tag k ''kv'' \<and> notif_mamba h = notif_tag k ''mamba''"

definition alloc_dst_post ::
  "pic_config \<Rightarrow> sc_env \<Rightarrow> scatter_key \<Rightarrow> nat \<Rightarrow> 's scat_scheme \<Rightarrow> scatter_handle result \<Rightarrow> 's scat_scheme \<Rightarrow> bool" where
  "alloc_dst_post cf env k n s res s' \<longleftrightarrow> keeps cf s s' \<and> sd_mode s' = sd_mode s \<and> sd_waiting s' = sd_waiting s \<and>
    (case res of
       Inl e \<Rightarrow> sc_pending s' = sc_pending s \<or> ev_meta env = Inl e \<and> (\<exists>info. sc_pending s' = sc_pending s @ [(k, info)])
     | Inr hdl \<Rightarrow> \<exists>info. sc_pending s' = sc_pending s @ [(k, info)] \<and> handle_for k info hdl \<and> length (pi_kv_slots info) = n)"

text \<open>Both kinds of slots are allocated; only the buffer infos and the metadata are missing.\<close>

lemma alloc_dst_stashed:
  assumes run: "alloc_dst env k n h toks s = (res, s')" and inv: "sc_inv cf s" and fresh: "map_of (sc_pending s) k = None"
    and ok: "length toks = n" "h = segment_hash_tensor (cf_sha256 cf) toks" "ev_manager env"
    and kv: "pic_alloc_token_slots n (sd_world s) = (Inr kv, w1)" "length kv = n" and m: "alloc_one_mamba w1 = (Inr m, w2)"
    and t2: "takes cf (sd_world s) (mset kv) {#m#} w2"
  shows "alloc_dst_post cf env k n s res s'"
proof -
  let ?info = "\<lparr>pi_kv_slots = kv, pi_mamba_slot = m, pi_n_tokens = n, pi_seg_hash = h, pi_token_ids = toks\<rparr>"
  let ?s1 = "stash_pending k ?info (s\<lparr>sd_world := add_inflight (int n) 1 w2\<rparr>)"
  have stash: "keeps cf s ?s1"
    by (rule keeps_stash [OF fresh]) (use t2 kv(2) ok in \<open>simp_all add: info_ok_def\<close>)
  have pend: "sc_pending ?s1 = sc_pending s @ [(k, ?info)]"
    using fresh by (simp add: stash_pending_def dict_update_new)
  show ?thesis
  proof (cases "\<exists>e. ev_kv_bufs env = Inl e \<or> ev_state_bufs env = Inl e")
    case True
    let ?w3 = "kv_free kv (mb_free [m] (remove_inflight (int n) 1 (add_inflight (int n) 1 w2)))"
    have "AList.delete k (sc_pending s @ [(k, ?info)]) = sc_pending s"
      using fresh by (simp add: AList.delete_eq map_of_eq_None_iff filter_id_conv) force
    then have "\<exists>e. res = Inl e" "s' = s\<lparr>sd_world := ?w3\<rparr>"
      using True run ok(3) kv m fresh
      by (auto simp: alloc_dst_def get_manager_def bindM_app tryM_app on_world_def world_upd_def stash_pending_def
          drop_pending_def dict_update_new split: sum.splits)
    then show ?thesis
      using takes_all_back [OF t2, of n] by (auto simp: alloc_dst_post_def intro: keeps_world_acct)
  next
    case False
    then obtain kb sb where "ev_kv_bufs env = Inr kb" "ev_state_bufs env = Inr sb"
      by (meson sum.exhaust)
    then show ?thesis
      using run ok(3) kv m stash pend
      by (cases "ev_meta env"; cases kb; cases sb)
        (auto simp: alloc_dst_def get_manager_def bindM_app tryM_app on_world_def world_upd_def handle_for_def stash_pending_def
          alloc_dst_post_def)
  qed
qed

lemma alloc_dst_spec:
  assumes run: "alloc_dst env k n h toks s = (res, s')" and inv: "sc_inv cf s" and fresh: "map_of (sc_pending s) k = None"
    and len: "length toks = n" and hash: "h = segment_hash_tensor (cf_sha256 cf) toks"
  shows "alloc_dst_post cf env k n s res s'"
proof (cases "ev_manager env")
  case False
  then show ?thesis
    using run by (auto simp: alloc_dst_def get_manager_def alloc_dst_post_def)
next
  case man: True
  have w: "pic_inv cf (sd_world s)" "is_not_in_free_group (w_kv (sd_world s))"
    using inv by (simp_all add: sc_inv_def)
  obtain r1 w1 where r1: "pic_alloc_token_slots n (sd_world s) = (r1, w1)"
    by fastforce
  show ?thesis
  proof (cases r1)
    case (Inl e)
    then have "res = Inl e" "s' = s\<lparr>sd_world := w1\<rparr>" "takes cf (sd_world s) {#} {#} w1"
      using run man r1 alloc_token_slots_fail_takes [of n "sd_world s" e w1, OF _ w]
      by (auto simp: alloc_dst_def get_manager_def bindM_app on_world_def)
    then show ?thesis
      by (auto simp: takes_def alloc_dst_post_def intro: keeps_world_acct)
  next
    case kv: (Inr kv)
    have t1: "takes cf (sd_world s) (mset kv) {#} w1" "length kv = n"
      using pic_alloc_token_slots_takes [of n "sd_world s" kv w1, OF _ w] r1 kv by simp_all
    obtain r2 w2 where r2: "alloc_one_mamba w1 = (r2, w2)"
      by fastforce
    show ?thesis
    proof (cases r2)
      case (Inl e)
      have "takes cf (sd_world s) (mset kv) {#} w2"
        using takes_trans [OF t1(1) alloc_one_mamba_fail_takes [of w1 e w2, OF _ takes_inv [OF t1(1)]]] r2 Inl by simp
      note ret = takes_kv_back [OF this]
      have "res = Inl e" "s' = s\<lparr>sd_world := kv_free kv w2\<rparr>"
        using run man r1 kv r2 Inl by (auto simp: alloc_dst_def get_manager_def bindM_app tryM_app on_world_def world_upd_def)
      then show ?thesis
        using ret by (auto simp: alloc_dst_post_def intro: keeps_world_acct)
    next
      case m: (Inr m)
      have "takes cf (sd_world s) (mset kv) {#m#} w2"
        using takes_trans [OF t1(1)] alloc_one_mamba_takes [of w1 m w2, OF _ takes_inv [OF t1(1)]] r2 m by fastforce
      then show ?thesis
        using alloc_dst_stashed [OF run inv fresh len hash man _ t1(2)] r1 kv r2 m by blast
    qed
  qed
qed

section \<open>Admission\<close>

text \<open>A combine request the engine can announce: its segments lie inside the prompt, and it names no segment twice and none
  that is announced already.\<close>

definition combine_ok :: "sched_req \<Rightarrow> 's scat_scheme \<Rightarrow> bool" where
  "combine_ok r s \<longleftrightarrow> mamba_pool_idx r = None \<and>
     (\<forall>segs seg. pic_segments r = Some segs \<longrightarrow> seg \<in> set segs \<longrightarrow> fst seg \<le> snd seg \<and> snd seg \<le> length (origin_input_ids r)) \<and>
     (\<forall>its. pic_combine r = Some its \<longrightarrow> distinct (map (\<lambda>it. (ci_room it, ci_seg_index it)) its) \<and>
        (\<forall>it\<in>set its. map_of (sc_pending s) (ci_room it, ci_seg_index it) = None))"

lemma py_index_mem: "py_index xs i = Inr x \<Longrightarrow> x \<in> set xs"
  by (auto simp: py_index_def split: if_splits)

lemma segment_hash_list_tensor: "segment_hash_list sha xs = Inr h \<Longrightarrow> h = segment_hash_tensor sha xs"
  by (auto simp: segment_hash_list_def segment_hash_tensor_def split: if_splits)

lemma prealloc_item_cases:
  "snd (prealloc_item sc env r segments it s) = s \<or>
   (\<exists>seg h. py_index segments (ci_seg_index it) = Inr seg \<and>
      segment_hash_list (cf_sha256 (sc_cf sc)) (seg_slice (origin_input_ids r) seg) = Inr h \<and>
      snd (prealloc_item sc env r segments it s) =
        snd (alloc_dst env (ci_room it, ci_seg_index it) (size_of seg) h (seg_slice (origin_input_ids r) seg) s))"
proof (cases "py_index segments (ci_seg_index it)")
  case seg: (Inr seg)
  show ?thesis
  proof (cases "url_port sc (ci_worker_addr it)")
    case port: (Inr port)
    show ?thesis
    proof (cases "segment_hash_list (cf_sha256 (sc_cf sc)) (seg_slice (origin_input_ids r) seg)")
      case (Inr h)
      then show ?thesis
        using seg port by (auto simp: prealloc_item_def bindM_app Let_def split: sum.split prod.split)
    qed (use seg port in \<open>simp add: prealloc_item_def bindM_app Let_def\<close>)
  qed (use seg in \<open>simp add: prealloc_item_def bindM_app Let_def\<close>)
qed (simp add: prealloc_item_def)

lemma prealloc_item_keeps:
  assumes inv: "sc_inv (sc_cf sc) s"
    and segs: "\<forall>seg\<in>set segments. fst seg \<le> snd seg \<and> snd seg \<le> length (origin_input_ids r)"
    and fresh: "map_of (sc_pending s) (ci_room it, ci_seg_index it) = None"
  shows "keeps (sc_cf sc) s (snd (prealloc_item sc env r segments it s)) \<and>
    (\<forall>k. k \<noteq> (ci_room it, ci_seg_index it) \<longrightarrow>
       map_of (sc_pending (snd (prealloc_item sc env r segments it s))) k = map_of (sc_pending s) k)"
proof -
  let ?k = "(ci_room it, ci_seg_index it)" and ?sha = "cf_sha256 (sc_cf sc)"
  consider "snd (prealloc_item sc env r segments it s) = s"
    | seg h where "py_index segments (ci_seg_index it) = Inr seg"
      "segment_hash_list ?sha (seg_slice (origin_input_ids r) seg) = Inr h"
      "snd (prealloc_item sc env r segments it s) = snd (alloc_dst env ?k (size_of seg) h (seg_slice (origin_input_ids r) seg) s)"
    using prealloc_item_cases [of sc env r segments it s] by blast
  then show ?thesis
  proof cases
    case (2 seg h)
    have len: "length (seg_slice (origin_input_ids r) seg) = size_of seg"
      using segs py_index_mem [OF 2(1)] by (cases seg) (force simp: seg_slice_def size_of_def)
    obtain res s' where run: "alloc_dst env ?k (size_of seg) h (seg_slice (origin_input_ids r) seg) s = (res, s')"
      by fastforce
    have "alloc_dst_post (sc_cf sc) env ?k (size_of seg) s res s'"
      by (rule alloc_dst_spec [OF run inv fresh len]) (use 2(2) segment_hash_list_tensor in blast)
    then show ?thesis
      unfolding 2(3) run alloc_dst_post_def by (cases res) (auto simp: map_add_def split: option.split)
  qed simp
qed

lemma foldM_guarded:
  "foldM (\<lambda>_ x. tryM (f x) (\<lambda>_. retM ())) () xs s = (Inr (), fold (\<lambda>x s. snd (f x s)) xs s)"
  for f :: "'x \<Rightarrow> ('s, unit) pym"
proof (induction xs arbitrary: s)
  case (Cons x xs)
  obtain r s1 where r: "f x s = (r, s1)"
    by fastforce
  then have t: "tryM (f x) (\<lambda>_. retM ()) s = (Inr (), s1)"
    by (cases r) (simp_all add: tryM_app)
  have "foldM (\<lambda>_ x. tryM (f x) (\<lambda>_. retM ())) () (x # xs) s = foldM (\<lambda>_ x. tryM (f x) (\<lambda>_. retM ())) () xs s1"
    unfolding foldM.simps by (rule bindM_InrI) (rule t)
  also have "\<dots> = (Inr (), fold (\<lambda>x s. snd (f x s)) (x # xs) s)"
    unfolding Cons.IH using r by simp
  finally show ?case .
qed simp

lemma prealloc_fold_keeps:
  assumes "sc_inv (sc_cf sc) s" "\<forall>seg\<in>set segments. fst seg \<le> snd seg \<and> snd seg \<le> length (origin_input_ids r)"
    "distinct (map (\<lambda>it. (ci_room it, ci_seg_index it)) its)"
    "\<forall>it\<in>set its. map_of (sc_pending s) (ci_room it, ci_seg_index it) = None"
  shows "keeps (sc_cf sc) s (fold (\<lambda>it s. snd (prealloc_item sc env r segments it s)) its s)"
  using assms
proof (induction its arbitrary: s)
  case (Cons it its)
  let ?s1 = "snd (prealloc_item sc env r segments it s)"
  have one: "keeps (sc_cf sc) s ?s1" "\<And>k. k \<noteq> (ci_room it, ci_seg_index it) \<Longrightarrow> map_of (sc_pending ?s1) k = map_of (sc_pending s) k"
    using prealloc_item_keeps [OF Cons.prems(1,2), of it env] Cons.prems(4) by (meson list.set_intros(1))+
  have "sc_inv (sc_cf sc) ?s1"
    using one(1) Cons.prems(1) by (simp add: keeps_def)
  moreover have "map_of (sc_pending ?s1) (ci_room it', ci_seg_index it') = None" if "it' \<in> set its" for it'
  proof -
    have "(ci_room it', ci_seg_index it') \<noteq> (ci_room it, ci_seg_index it)"
      using Cons.prems(3) that by (metis (mono_tags, lifting) distinct.simps(2) image_eqI list.set_map list.simps(9))
    then show ?thesis
      using one(2) Cons.prems(4) that by simp
  qed
  ultimately have "keeps (sc_cf sc) ?s1 (fold (\<lambda>it s. snd (prealloc_item sc env r segments it s)) its ?s1)"
    using Cons.IH Cons.prems(2,3) by simp
  then show ?case
    using keeps_trans [OF one(1)] by simp
qed simp

lemma prealloc_keeps:
  assumes "sc_inv (sc_cf sc) s" "combine_ok r s"
  shows "keeps (sc_cf sc) s (snd (prealloc_and_push_handles sc env r s))"
  using assms(2)
  by (auto simp: prealloc_and_push_handles_def foldM_guarded combine_ok_def split: option.split
      intro!: prealloc_fold_keeps [OF assms(1)])

lemma abort_limit_frame:
  "snd (abort_on_queued_limit r s) = s \<or> (\<exists>i why. snd (abort_on_queued_limit r s) = send_abort i why s) \<or>
   (\<exists>k i why. snd (abort_on_queued_limit r s) = send_abort i why (s\<lparr>sd_waiting := pop_nth k (sd_waiting s)\<rparr>))"
proof (cases "(case max_queued_requests s of None \<Rightarrow> True | Some m \<Rightarrow> length (sd_waiting s) + 1 \<le> m) \<or> \<not> enable_priority_scheduling s")
  case True
  then show ?thesis
    by (auto simp: abort_on_queued_limit_def split: option.splits)
next
  case False
  let ?d = "if schedule_low_priority_values_first s then 1 else (-1)"
  show ?thesis
  proof (cases "max_by_key ?d (sd_waiting s)")
    case (Inl e)
    then show ?thesis
      using False by (simp add: abort_on_queued_limit_def bindM_app)
  next
    case (Inr ic)
    obtain i c where ic: "ic = (i, c)"
      by fastforce
    show ?thesis
    proof (cases "\<exists>p q. req_priority r = Some p \<and> req_priority c = Some q \<and> ?d * p < ?d * q")
      case True
      then have "snd (abort_on_queued_limit r s) = send_abort (rid c) Preempted (s\<lparr>sd_waiting := pop_nth i (sd_waiting s)\<rparr>)"
        using False Inr by (auto simp: abort_on_queued_limit_def bindM_app ic)
      then show ?thesis
        by blast
    next
      case no: False
      then have "snd (abort_on_queued_limit r s) \<in> {s, send_abort (rid r) QueueFull s}"
        using False Inr by (cases "req_priority r"; cases "req_priority c") (simp_all add: abort_on_queued_limit_def bindM_app ic)
      then show ?thesis
        by blast
    qed
  qed
qed

lemma pop_nth_subset: "set (pop_nth k xs) \<subseteq> set xs"
  by (auto simp: pop_nth_def dest: in_set_takeD in_set_dropD)

lemma keepsM_abort_limit [keeps_intros]: "keepsM cf (abort_on_queued_limit r)"
  unfolding keepsM_def
proof
  fix s :: "'a scat_scheme"
  have "keeps cf s (send_abort i why s)" "keeps cf s (send_abort i why (s\<lparr>sd_waiting := pop_nth k (sd_waiting s)\<rparr>))" for i why k
    by (rule keeps_frame; simp add: send_abort_def pop_nth_subset)+
  then show "keeps cf s (snd (abort_on_queued_limit r s))"
    using abort_limit_frame [of r s] by auto
qed

lemma keeps_queue:
  assumes "mamba_pool_idx r = None"
  shows "keeps cf s (s\<lparr>sd_waiting := sd_waiting s @ [r]\<rparr>)"
  using assms by (auto simp: keeps_def sc_inv_def sc_kv_def sc_mb_def pend_kv_def pend_mb_def)

lemma keepsM_enqueue_null [keeps_intros]:
  assumes "mamba_pool_idx r = None"
  shows "keepsM cf (enqueue_null cf' r)"
proof -
  have "keeps cf s (s\<lparr>sd_world := tick (sd_world s), sd_waiting := sd_waiting s @ [r\<lparr>wait_queue_entry_time := t\<rparr>]\<rparr>)" for s :: "'a scat_scheme" and t
    using keeps_trans [OF keeps_world [where f = tick and s = s] keeps_queue [of "r\<lparr>wait_queue_entry_time := t\<rparr>"]] assms
    by (simp add: tick_facts)
  then show ?thesis
    unfolding enqueue_null_def by (intro keeps_intros)
qed

lemma keepsM_plain_enqueue [keeps_intros]:
  assumes "mamba_pool_idx r = None"
  shows "keepsM cf (plain_enqueue sc env r b)"
proof -
  have dec: "keepsM cf (bindM (liftM (ev_prealloc env r)) (\<lambda>ok.
         modifyM (\<lambda>s. if \<not> ok then s
                      else if b then s\<lparr>sd_retracted := sd_retracted s @ [(r, True)]\<rparr>
                      else s\<lparr>sd_prealloc := sd_prealloc s @ [(r, False)]\<rparr>)))"
    by (intro keeps_intros) (auto intro: keeps_frame)
  have "keepsM cf (case m of NULL \<Rightarrow> enqueue_null (sc_cf sc) r | PREFILL \<Rightarrow> bootstrap_add env r | DECODE \<Rightarrow> bindM (liftM (ev_prealloc env r)) (\<lambda>ok.
         modifyM (\<lambda>s. if \<not> ok then s
                      else if b then s\<lparr>sd_retracted := sd_retracted s @ [(r, True)]\<rparr>
                      else s\<lparr>sd_prealloc := sd_prealloc s @ [(r, False)]\<rparr>)))" for m
    using dec assms by (cases m) (auto intro: keeps_intros)
  then show ?thesis
    unfolding plain_enqueue_def by (intro keeps_intros)
qed

lemma keepsM_enqueue_scatter [keeps_intros]:
  assumes "mamba_pool_idx r = None"
  shows "keepsM cf (enqueue_scatter sc r)"
  unfolding enqueue_scatter_def using assms by (intro keeps_intros keeps_fields keeps_queue) (auto intro: keeps_lock_add)

lemma enqueue_combine_keeps:
  assumes inv: "sc_inv (sc_cf sc) s" and ok: "combine_ok r s"
  shows "keeps (sc_cf sc) s (snd (enqueue_combine sc env r b s))"
proof (cases "gated_hashes sc r")
  case (Inr gated)
  let ?r1 = "r\<lparr>pic_combine_hashes := gated, is_pic_combine := True\<rparr>"
  let ?rest = "bindM (getsM (entries_have gated)) (\<lambda>present.
     if \<not> present
     then bindM (nowM (sc_cf sc)) (\<lambda>now.
          modifyM (\<lambda>s. s\<lparr>sc_parked := sc_parked s @
            [\<lparr>pk_req = ?r1, pk_hashes = gated, pk_deadline = now + pic_scatter_timeout_s sc\<rparr>]\<rparr>))
     else plain_enqueue sc env ?r1 b)"
  have ok1: "combine_ok ?r1 s" "mamba_pool_idx ?r1 = None"
    using ok by (simp_all add: combine_ok_def)
  have rest: "keepsM (sc_cf sc) ?rest"
    using ok1(2) by (intro keeps_intros keeps_fields)
  obtain x s1 where x: "prealloc_and_push_handles sc env ?r1 s = (x, s1)"
    by fastforce
  have k1: "keeps (sc_cf sc) s s1"
    using prealloc_keeps [OF inv ok1(1), of env] x by simp
  have k2: "keeps (sc_cf sc) s1 (snd (?rest s1))"
    using rest unfolding keepsM_def ..
  have "snd (enqueue_combine sc env r b s) = (case x of Inl e \<Rightarrow> s1 | Inr _ \<Rightarrow> snd (?rest s1))"
    using Inr x by (cases x) (simp_all add: enqueue_combine_def bindM_app Let_def)
  then show ?thesis
    using k1 keeps_trans [OF k1 k2] by (cases x) (simp_all only: sum.case)
qed (simp add: enqueue_combine_def)

lemma set_or_validate_priority_run:
  "\<exists>ok p s1. set_or_validate_priority r s = (Inr (ok, r\<lparr>req_priority := p\<rparr>), s1) \<and>
     (s1 = s \<or> s1 = send_abort (rid r) PriorityDisabled s)"
proof (cases "enable_priority_scheduling s \<and> req_priority r = None")
  case True
  then show ?thesis
    by (auto simp: set_or_validate_priority_def)
next
  case False
  let ?bad = "\<not> enable_priority_scheduling s \<and> req_priority r \<noteq> None \<and> abort_on_priority_when_disabled s"
  show ?thesis
    by (rule exI [of _ "\<not> ?bad"], rule exI [of _ "req_priority r"],
        rule exI [of _ "if ?bad then send_abort (rid r) PriorityDisabled s else s"])
      (use False in \<open>auto simp: set_or_validate_priority_def\<close>)
qed

section \<open>Every execution\<close>

text \<open>The events that drive the protocol, in any order and with any answers of the transport: a tick, a request, a handle posted by
  a combine engine, an idle step. An event that raises leaves what its handlers did so far.\<close>

inductive sc_step :: "sc_config \<Rightarrow> scat \<Rightarrow> scat \<Rightarrow> bool" for sc where
  tick: "pic_drain sc env s = (res, s') \<Longrightarrow> sc_step sc s s'"
| arrive: "combine_ok r s \<Longrightarrow> add_request_to_queue sc env r b s = (res, s') \<Longrightarrow> sc_step sc s s'"
| receive: "sc_step sc s (handle_pic_scatter_handle h s)"
| idle: "on_idle_release sc env s = (res, s') \<Longrightarrow> sc_step sc s s'"

lemma add_request_keeps:
  assumes "sc_inv (sc_cf sc) s" "combine_ok r s"
  shows "keeps (sc_cf sc) s (snd (add_request_to_queue sc env r b s))"
proof -
  obtain ok p s1 where p: "set_or_validate_priority r s = (Inr (ok, r\<lparr>req_priority := p\<rparr>), s1)"
    "s1 = s \<or> s1 = send_abort (rid r) PriorityDisabled s"
    using set_or_validate_priority_run by blast
  define r1 where "r1 = r\<lparr>req_priority := p\<rparr>"
  have r1: "combine_ok r1 s1"
    using p(2) assms(2) by (auto simp: combine_ok_def r1_def send_abort_def)
  have s1: "keeps (sc_cf sc) s s1"
    by (rule keeps_frame) (use p(2) in \<open>auto simp: send_abort_def\<close>)
  have inv1: "sc_inv (sc_cf sc) s1" and m: "mamba_pool_idx r1 = None"
    using s1 assms(1) r1 by (simp_all add: keeps_def combine_ok_def)
  have run: "add_request_to_queue sc env r b s = (if \<not> ok then retM ()
     else if pic_scatter_single_seg r1 then enqueue_scatter sc r1
     else if pic_combine r1 \<noteq> None \<and> sd_mode s1 = PREFILL then enqueue_combine sc env r1 b
     else plain_enqueue sc env r1 b) s1"
    using p(1) by (simp add: add_request_to_queue_def bindM_app r1_def)
  have "keeps (sc_cf sc) s1 (snd (add_request_to_queue sc env r b s))"
    using enqueue_combine_keeps [OF inv1 r1, of env b] keepsM_enqueue_scatter [OF m, of "sc_cf sc" sc]
      keepsM_plain_enqueue [OF m, of "sc_cf sc" sc env b] unfolding run by (auto simp: keepsM_def)
  from keeps_trans [OF s1 this] show ?thesis .
qed

lemma sc_step_keeps:
  assumes "sc_step sc s s'" "sc_inv (sc_cf sc) s"
  shows "keeps (sc_cf sc) s s'"
  using assms(1)
proof cases
  case (tick env)
  then show ?thesis
    using keepsD [OF keepsM_pic_drain] by blast
next
  case (arrive r env b)
  then show ?thesis
    using add_request_keeps [OF assms(2) arrive(1), of env b] by simp
next
  case (receive h)
  then show ?thesis
    by (simp add: handle_pic_scatter_handle_def)
next
  case (idle env)
  then show ?thesis
    using keepsD [OF keepsM_on_idle] by blast
qed

text \<open>C19. Along every sequence of steps of the protocol (drain ticks, arriving requests whose announcements use fresh keys, received
  handles, idle releases), from any well-formed state and whatever the transport answers, the multisets of KV and mamba slots that are
  free, cached, or stashed for an announced segment do not change. The completion of a prefill, which files slots a running
  request holds, is not one of the steps.\<close>

theorem scatter_run_conserves:
  assumes "(sc_step sc)\<^sup>*\<^sup>* s s'" "sc_inv (sc_cf sc) s"
  shows "sc_inv (sc_cf sc) s' \<and> sc_kv s' = sc_kv s \<and> sc_mb s' = sc_mb s"
  using assms
proof (induction rule: rtranclp_induct)
  case (step s1 s2)
  then show ?case
    using sc_step_keeps [OF step(2)] by (simp add: keeps_def)
qed simp

section \<open>A small combine engine\<close>

text \<open>One segment with tokens 21, 22 is announced under key (7, 0), with KV slots 3, 4 and mamba slot 2; its write has landed.\<close>

definition ex_info :: pending_info where
  "ex_info = \<lparr>pi_kv_slots = [3, 4], pi_mamba_slot = 2, pi_n_tokens = 2,
     pi_seg_hash = segment_hash_tensor (\<lambda>b. b) [21, 22], pi_token_ids = [21, 22]\<rparr>"

definition ex_scat_world :: pic_world where
  "ex_scat_world = ex_world\<lparr>w_kv := (w_kv ex_world)\<lparr>free_pages := [5, 6, 7, 8]\<rparr>,
     w_pool := (w_pool ex_world)\<lparr>mamba_allocator := (mamba_init 6)\<lparr>free_slots := [3, 4, 5, 6]\<rparr>\<rparr>,
     w_inflight_full_tokens := 2, w_inflight_mamba_slots := 1\<rparr>"

definition ex_scat :: scat where
  "ex_scat = sched.extend (ex_sched\<lparr>sd_world := ex_scat_world, sd_mode := PREFILL\<rparr>)
     (scat.fields [((7, 0), ex_info)] {} [] [] [] [] [] [] [] [])"

definition ex_sc :: sc_config where
  "ex_sc = \<lparr>sc_cf = ex_cf ''addition'', sc_ra = \<lparr>ra_page_size = 1, ra_spec = False, ra_strip_thinking_cache = False\<rparr>,
     sc_port = 1, pic_scatter_timeout_s = 60, url_port = (\<lambda>a. if a = ''local'' then Inr (Some 1) else Inr (Some 2))\<rparr>"

definition ex_env :: "string list \<Rightarrow> sc_env" where
  "ex_env notifs = \<lparr>ev_manager = True, ev_kv_bufs = Inr ([100], [8]), ev_state_bufs = Inr ([200], [8], None), ev_meta = Inr ''meta'',
     ev_post = (\<lambda>_ _. Inr ()), ev_add_remote = Inr, ev_send_kv = (\<lambda>_ _ _ _ _. Inr (Some 1)),
     ev_send_extra = (\<lambda>_ _ _ _ _ _ _. Inr [2]), ev_state = (\<lambda>_. Inr DONE), ev_notifs = Inr notifs,
     ev_bootstrap = (\<lambda>_. Inr True), ev_prealloc = (\<lambda>_. Inr True)\<rparr>"

lemmas ex_scat_defs = ex_scat_def ex_scat_world_def ex_info_def ex_sc_def ex_sched_def ex_sreq_def scat.defs sched.defs
  eng_req.defs sched_req.defs pic_req.defs ex_req_def

lemma ex_scat_inv: "sc_inv (ex_cf ''addition'') ex_scat"
  by (simp add: sc_inv_def info_ok_def ex_scat_defs pic_inv_def entry_ok_def ex_world_def insert_segment_def match_segment_def
      tick_def monotonic_def ex_cf_def token_invar_def token_init_def token_clear_def Let_def)

definition ex_drained :: scat where
  "ex_drained = snd (pic_drain ex_sc (ex_env [''7|0|kv'', ''7|0|mamba|r0_0'']) ex_scat)"

lemma ex_drain_run: "pic_drain ex_sc (ex_env [''7|0|kv'', ''7|0|mamba|r0_0'']) ex_scat = (Inr (), ex_drained)"
  "sc_pending ex_drained = []" "length (w_entries (sd_world ex_drained)) = 2"
proof -
  have "fst (pic_drain ex_sc (ex_env [''7|0|kv'', ''7|0|mamba|r0_0'']) ex_scat) = Inr ()"
    by code_simp
  then show "pic_drain ex_sc (ex_env [''7|0|kv'', ''7|0|mamba|r0_0'']) ex_scat = (Inr (), ex_drained)"
    unfolding ex_drained_def by (metis prod.collapse)
  show "sc_pending ex_drained = []" "length (w_entries (sd_world ex_drained)) = 2"
    by code_simp+
qed

definition ex_combine :: sched_req where
  "ex_combine = (ex_sreq ''comb'' 0 0)\<lparr>origin_input_ids := [31, 32, 7], pic_segments := Some [(0, 2), (2, 3)],
     pic_combine := Some [\<lparr>ci_seg_index = 0, ci_worker_addr = ''w1'', ci_room = 9\<rparr>]\<rparr>"

lemma ex_combine_ok: "combine_ok ex_combine ex_scat"
  by (simp add: combine_ok_def ex_combine_def ex_scat_defs)

definition ex_parked :: scat where
  "ex_parked = snd (add_request_to_queue ex_sc (ex_env []) ex_combine False ex_scat)"

lemma ex_arrive_run: "add_request_to_queue ex_sc (ex_env []) ex_combine False ex_scat = (Inr (), ex_parked)"
  "map fst (sc_pending ex_parked) = [(7, 0), (9, 0)]"
proof -
  have "fst (add_request_to_queue ex_sc (ex_env []) ex_combine False ex_scat) = Inr ()"
    by code_simp
  then show "add_request_to_queue ex_sc (ex_env []) ex_combine False ex_scat = (Inr (), ex_parked)"
    unfolding ex_parked_def by (metis prod.collapse)
  show "map fst (sc_pending ex_parked) = [(7, 0), (9, 0)]"
    by code_simp
qed

theorem scatter_run_conserves_witness:
  "(sc_step ex_sc)\<^sup>*\<^sup>* ex_scat ex_drained \<and> (sc_step ex_sc)\<^sup>*\<^sup>* ex_scat ex_parked \<and>
   sc_pending ex_drained = [] \<and> map fst (sc_pending ex_parked) = [(7, 0), (9, 0)] \<and>
   sc_kv ex_drained = sc_kv ex_scat \<and> sc_mb ex_drained = sc_mb ex_scat \<and>
   sc_kv ex_parked = sc_kv ex_scat \<and> sc_mb ex_parked = sc_mb ex_scat"
proof -
  have runs: "(sc_step ex_sc)\<^sup>*\<^sup>* ex_scat ex_drained" "(sc_step ex_sc)\<^sup>*\<^sup>* ex_scat ex_parked"
    by (intro r_into_rtranclp sc_step.arrive [OF ex_combine_ok ex_arrive_run(1)] sc_step.tick [OF ex_drain_run(1)])+
  then show ?thesis
    using scatter_run_conserves [of ex_sc ex_scat ex_drained] scatter_run_conserves [of ex_sc ex_scat ex_parked] ex_scat_inv
      ex_drain_run(2) ex_arrive_run(2) by (simp add: ex_sc_def)
qed

end
