(* ===== verification/Pic_Scatter_Locks.thy ===== *)
theory Pic_Scatter_Locks
  imports Pic_Scatter_Props
begin

text \<open>
  The holds of the scatter protocol: a segment that waits for its handle, is being written, or waits to be retired is pinned by its
  lock count, so that eviction leaves it alone until the transfer is over. The worker's part of a tick keeps every pin and
  releases exactly the ones it ends; a transfer that cannot be posted leaks its pin.
\<close>

section \<open>Holds and lock counts\<close>

definition lockc :: "bytes \<Rightarrow> 's sched_scheme \<Rightarrow> int" where
  "lockc h s = (case entry_of h s of None \<Rightarrow> 0 | Some i \<Rightarrow> lock_ref (w_heap (sd_world s) i))"

text \<open>The holds on a segment: its pushes that wait for a handle, its writes in flight, and its hits that wait to be retired.\<close>

definition holds :: "bytes \<Rightarrow> 's scat_scheme \<Rightarrow> nat" where
  "holds h s = count_list (map pp_seg_hash (sc_push_pending s)) h + count_list (map wi_seg_hash (sc_write_inflight s)) h +
     count_list (map snd (sc_hit_retire s)) h"

definition surplus :: "bytes \<Rightarrow> 's scat_scheme \<Rightarrow> int" where
  "surplus h s = lockc h s - int (holds h s)"

definition held_ok :: "'s scat_scheme \<Rightarrow> bool" where
  "held_ok s \<longleftrightarrow> distinct (map snd (w_entries (sd_world s))) \<and> distinct (sc_push_pending s) \<and>
     (\<forall>h. holds h s > 0 \<longrightarrow> entry_of h s \<noteq> None \<and> int (holds h s) \<le> lockc h s)"

text \<open>No transport call fails while a write is posted.\<close>

definition fires_ok :: "sc_env \<Rightarrow> bool" where
  "fires_ok env \<longleftrightarrow> ev_manager env \<and> (\<forall>m. \<exists>p. ev_add_remote env m = Inr p) \<and>
     (\<forall>p a b c d. \<exists>x. ev_send_kv env p a b c d = Inr x) \<and> (\<forall>p a b c d e f. \<exists>x. ev_send_extra env p a b c d e f = Inr x)"

text \<open>\<open>bal ex s s'\<close>: the index is the same and no surplus shrank; if \<open>ex\<close> then no surplus grew either.\<close>

definition bal :: "bool \<Rightarrow> 's scat_scheme \<Rightarrow> 's scat_scheme \<Rightarrow> bool" where
  "bal ex s s' \<longleftrightarrow> w_entries (sd_world s') = w_entries (sd_world s) \<and>
     (\<forall>h. surplus h s \<le> surplus h s' \<and> (ex \<longrightarrow> surplus h s' = surplus h s)) \<and> (\<forall>h. holds h s' > 0 \<longrightarrow> holds h s > 0) \<and>
     (distinct (sc_push_pending s) \<longrightarrow> distinct (sc_push_pending s'))"

lemma bal_refl [simp]: "bal ex s s"
  by (simp add: bal_def)

lemma bal_trans: "bal ex s s1 \<Longrightarrow> bal ex s1 s2 \<Longrightarrow> bal ex s s2"
  by (auto simp: bal_def intro: order_trans)

lemma bal_held:
  assumes "bal ex s s'" "held_ok s"
  shows "held_ok s'"
  unfolding held_ok_def
proof (intro conjI allI impI)
  have e: "entry_of h s' = entry_of h s" for h
    using assms(1) by (simp add: bal_def entry_of_def)
  show "distinct (map snd (w_entries (sd_world s')))" "distinct (sc_push_pending s')"
    using assms by (simp_all add: bal_def held_ok_def)
  fix h
  assume "0 < holds h s'"
  then have "holds h s > 0"
    using assms(1) by (auto simp: bal_def)
  then have "entry_of h s \<noteq> None" "0 \<le> surplus h s"
    using assms(2) by (auto simp: held_ok_def surplus_def)
  moreover have "surplus h s \<le> surplus h s'"
    using assms(1) by (simp add: bal_def)
  ultimately show "entry_of h s' \<noteq> None" "int (holds h s') \<le> lockc h s'"
    using e by (auto simp: surplus_def)
qed

lemma lockc_cong:
  "w_entries (sd_world s') = w_entries (sd_world s) \<Longrightarrow> w_heap (sd_world s') = w_heap (sd_world s) \<Longrightarrow> lockc h s' = lockc h s"
  by (simp add: lockc_def entry_of_def split: option.split)

lemma entry_of_lock_add [simp]: "entry_of h (lock_add d i s) = entry_of h s"
  by (simp add: entry_of_def lock_add_def upd_entry_def)

lemma lockc_lock_add: "lockc h (lock_add d i s) = lockc h s + (if entry_of h s = Some i then d else 0)"
  by (auto simp: lockc_def lock_add_def upd_entry_def entry_of_def split: option.split)

lemma entries_lock_add [simp]: "w_entries (sd_world (lock_add d i s)) = w_entries (sd_world s)"
  by (simp add: lock_add_def upd_entry_def)

lemma scat_lock_add [simp]:
  "sc_push_pending (lock_add d i s) = sc_push_pending s" "sc_write_inflight (lock_add d i s) = sc_write_inflight s"
  "sc_hit_retire (lock_add d i s) = sc_hit_retire s" "sc_handles (lock_add d i s) = sc_handles s"
  by (simp_all add: lock_add_def)

lemma entry_of_inj:
  assumes "held_ok s" "entry_of h s = Some i"
  shows "entry_of h' s = Some i \<longleftrightarrow> h' = h"
proof
  assume "entry_of h' s = Some i"
  then have "(h', i) \<in> set (w_entries (sd_world s))" "(h, i) \<in> set (w_entries (sd_world s))"
    using assms(2) by (auto simp: entry_of_def dest: map_of_SomeD)
  moreover have "inj_on snd (set (w_entries (sd_world s)))"
    using assms(1) by (simp add: held_ok_def distinct_map)
  ultimately show "h' = h"
    by (metis inj_onD prod.inject snd_conv)
qed (use assms in simp)

lemma count_list_map_remove1:
  "x \<in> set xs \<Longrightarrow> int (count_list (map f (remove1 x xs)) y) = int (count_list (map f xs) y) - (if f x = y then 1 else 0)"
  by (induction xs) auto

section \<open>A push\<close>

lemma fire_write_frame:
  assumes "fire_write env h i k s = (res, s')"
  shows "\<exists>pr. s' = s\<lparr>sc_push_recomputed := pr\<rparr>" "fires_ok env \<Longrightarrow> \<exists>hs. res = Inr hs"
proof -
  have same: "\<exists>pr. s = s\<lparr>sc_push_recomputed := pr\<rparr>"
    by (rule exI [of _ "sc_push_recomputed s"]) simp
  have "s' = s \<or> s' = s\<lparr>sc_push_recomputed := AList.delete k (sc_push_recomputed s)\<rparr>"
    using assms unfolding fire_write_def get_manager_def
    by (auto simp: bindM_app split: if_splits sum.splits prod.splits)
  then show "\<exists>pr. s' = s\<lparr>sc_push_recomputed := pr\<rparr>"
    using same by blast
  assume ok: "fires_ok env"
  obtain p where p: "ev_add_remote env (agent_meta_b64 h) = Inr p"
    using ok unfolding fires_ok_def by blast
  obtain x where x: "ev_send_kv env p (full_kv_slots (w_heap (sd_world s) i)) (dst_kv_ptrs h) (dst_kv_indices h) (notif_kv h) = Inr x"
    using ok unfolding fires_ok_def by blast
  obtain y where y: "ev_send_extra env p [mamba_state_slot (w_heap (sd_world s) i)] (dst_state_data_ptrs h) (dst_state_indices h)
      (notif_mamba h @ (if case map_of (sc_push_recomputed s) k of None \<Rightarrow> True | Some b \<Rightarrow> b then ''|r1'' else ''|r0''))
      (dst_state_item_lens h) (case dst_state_dim_per_tensor h of None \<Rightarrow> [] | Some d \<Rightarrow> d) = Inr y"
    using ok unfolding fires_ok_def by blast
  show "\<exists>hs. res = Inr hs"
    using assms ok p x y by (auto simp: fire_write_def get_manager_def fires_ok_def bindM_app)
qed

text \<open>A posted write adds one hold and one lock; a failing one adds the lock only.\<close>

lemma start_write_spec:
  assumes "start_write sc env h i k hash s = (res, s')" "held_ok s" "entry_of hash s = Some i"
  shows "w_entries (sd_world s') = w_entries (sd_world s) \<and> sc_push_pending s' = sc_push_pending s \<and>
    sc_hit_retire s' = sc_hit_retire s \<and> (\<forall>x. lockc x s' = lockc x s + (if x = hash then 1 else 0)) \<and>
    (case res of
       Inl e \<Rightarrow> \<not> fires_ok env \<and> sc_write_inflight s' = sc_write_inflight s
     | Inr _ \<Rightarrow> \<exists>it. sc_write_inflight s' = sc_write_inflight s @ [it] \<and> wi_seg_hash it = hash)"
proof -
  let ?s1 = "lock_add 1 i s"
  obtain r s2 where f: "fire_write env h i k ?s1 = (r, s2)"
    by fastforce
  obtain pr where s2: "s2 = ?s1\<lparr>sc_push_recomputed := pr\<rparr>"
    using fire_write_frame(1) [OF f] by blast
  have lock: "lockc x s2 = lockc x s + (if x = hash then 1 else 0)" for x
  proof -
    have "lockc x s2 = lockc x ?s1"
      by (rule lockc_cong) (simp_all add: s2)
    then show ?thesis
      using lockc_lock_add [of x 1 i s] entry_of_inj [OF assms(2,3)] by simp
  qed
  show ?thesis
  proof (cases r)
    case (Inl e)
    have "res = Inl e" "s' = s2"
      using assms(1) f Inl by (auto simp: start_write_def bindM_app)
    then show ?thesis
      using lock fire_write_frame(2) [OF f] Inl by (auto simp: s2)
  next
    case (Inr hs)
    have "res = Inr ()" and s': "s' = (s2\<lparr>sd_world := tick (sd_world s2)\<rparr>)\<lparr>sc_write_inflight := sc_write_inflight s2 @
       [\<lparr>wi_handles = hs, wi_seg_hash = hash, wi_room = fst k, wi_seg_index = snd k,
         wi_deadline = monotonic (sc_cf sc) (sd_world s2) + 10\<rparr>]\<rparr>"
      using assms(1) f Inr by (auto simp: start_write_def bindM_app nowM_def)
    moreover have "lockc x s' = lockc x s2" for x
      unfolding s' by (rule lockc_cong) (simp_all add: tick_def)
    ultimately show ?thesis
      using lock by (auto simp: s2 tick_def)
  qed
qed

lemma held_lock:
  assumes "held_ok s" "holds h s > 0"
  obtains i where "entry_of h s = Some i" "lock_ref (w_heap (sd_world s) i) > 0"
proof -
  obtain i where i: "entry_of h s = Some i" and "int (holds h s) \<le> lockc h s"
    using assms unfolding held_ok_def by blast
  then have "lock_ref (w_heap (sd_world s) i) > 0"
    using assms(2) by (simp add: lockc_def)
  then show ?thesis
    using that i by blast
qed

lemma balI:
  assumes "w_entries (sd_world s') = w_entries (sd_world s)"
    and "\<And>x. lockc x s' = lockc x s + d x" "\<And>x. int (holds x s') = int (holds x s) + e x"
    and "\<And>x. e x \<le> d x" "ex \<Longrightarrow> d = e" "\<And>x. e x > 0 \<Longrightarrow> holds x s > 0"
    and "distinct (sc_push_pending s) \<Longrightarrow> distinct (sc_push_pending s')"
  shows "bal ex s s'"
  unfolding bal_def
proof (intro conjI allI impI assms(1,7))
  fix x
  show "surplus x s \<le> surplus x s'"
    using assms(2-4) [of x] by (simp add: surplus_def)
  show "surplus x s' = surplus x s" if ex
    using assms(2,3) [of x] assms(5) [OF that] by (simp add: surplus_def)
  show "holds x s > 0" if "holds x s' > 0"
    using assms(3,6) [of x] that by (cases "e x > 0") auto
qed

lemma unhold_spec:
  assumes "held_ok s" "holds hash s > 0"
  shows "w_entries (sd_world (unhold hash s)) = w_entries (sd_world s) \<and> sc_push_pending (unhold hash s) = sc_push_pending s \<and>
    sc_write_inflight (unhold hash s) = sc_write_inflight s \<and> sc_hit_retire (unhold hash s) = sc_hit_retire s \<and>
    (\<forall>x. lockc x (unhold hash s) = lockc x s - (if x = hash then 1 else 0))"
proof -
  obtain i where i: "entry_of hash s = Some i" "lock_ref (w_heap (sd_world s) i) > 0"
    using held_lock [OF assms] by blast
  then show ?thesis
    using i(2) entry_of_inj [OF assms(1) i(1)] by (auto simp: unhold_def i(1) lockc_lock_add)
qed

definition guarded_push :: "sc_config \<Rightarrow> sc_env \<Rightarrow> push_item \<Rightarrow> ('s scat_scheme, unit) pym" where
  "guarded_push sc env item = tryM (push_pending_item sc env item) (\<lambda>_. tryM (unpush item) (\<lambda>_. retM ()))"

lemma push_fires:
  assumes held: "held_ok s" and mem: "item \<in> set (sc_push_pending s)" and i: "entry_of (pp_seg_hash item) s = Some i"
    and lock: "lock_ref (w_heap (sd_world s) i) > 0" and Some: "map_of (sc_handles s) (pp_room item, pp_seg_index item) = Some h"
  shows "\<exists>s'. guarded_push sc env item s = (Inr (), s') \<and> bal (fires_ok env) s s' \<and>
    (sc_push_pending s' = sc_push_pending s \<or> sc_push_pending s' = remove1 item (sc_push_pending s))"
proof -
  let ?k = "(pp_room item, pp_seg_index item)" and ?h = "pp_seg_hash item"
  let ?s1 = "(lock_add (-1) i s)\<lparr>sc_handles := AList.delete ?k (sc_handles s), sc_push_pending := remove1 item (sc_push_pending s)\<rparr>"
  obtain res s' where w: "start_write sc env h i ?k ?h ?s1 = (res, s')"
    by fastforce
  have e1: "entry_of x ?s1 = entry_of x s" "lockc x ?s1 = lockc x s - (if x = ?h then 1 else 0)" for x
  proof -
    show "entry_of x ?s1 = entry_of x s"
      using entry_of_lock_add [of x "-1" i s] by (simp add: entry_of_def)
    have "lockc x ?s1 = lockc x (lock_add (-1) i s)"
      by (rule lockc_cong) simp_all
    then show "lockc x ?s1 = lockc x s - (if x = ?h then 1 else 0)"
      using entry_of_inj [OF held i, of x] by (simp add: lockc_lock_add)
  qed
  have h1: "int (holds x ?s1) = int (holds x s) - (if x = ?h then 1 else 0)" for x
    using count_list_map_remove1 [OF mem, of pp_seg_hash x] by (simp add: holds_def)
  have held1: "held_ok ?s1"
    by (rule bal_held [OF balI [where s = s and d = "\<lambda>x. if x = ?h then -1 else 0" and e = "\<lambda>x. if x = ?h then -1 else 0"] held])
      (use e1 h1 in \<open>auto split: if_splits\<close>)
  note w' = start_write_spec [OF w held1 e1(1) [of ?h, unfolded i]]
  have gone: "item \<notin> set (sc_push_pending s')" and pp: "sc_push_pending s' = remove1 item (sc_push_pending s)"
    using w' held by (simp_all add: held_ok_def)
  have "push_pending_item sc env item s = (res, s')"
    using Some i lock mem w by (simp add: push_pending_item_def removeM_def bindM_app Let_def)
  then have run: "guarded_push sc env item s = (Inr (), s')"
    using gone by (cases res) (simp_all add: guarded_push_def tryM_app removeM_def)
  have lock': "lockc x s' = lockc x s + 0" for x
    using w' e1(2) [of x] by simp
  have "bal (fires_ok env) s s'"
  proof (cases res)
    case (Inl e)
    then have "\<not> fires_ok env" "sc_write_inflight s' = sc_write_inflight s" "sc_hit_retire s' = sc_hit_retire s"
      using w' by simp_all
    then have "int (holds x s') = int (holds x s) + (if x = ?h then -1 else 0)" for x
      using h1 [of x] by (simp add: holds_def pp)
    then show ?thesis
      using w' lock' \<open>\<not> fires_ok env\<close> pp
      by (intro balI [where d = "\<lambda>x. 0" and e = "\<lambda>x. if x = ?h then -1 else 0"]) (auto split: if_splits)
  next
    case (Inr u)
    then obtain it where "sc_write_inflight s' = sc_write_inflight s @ [it]" "wi_seg_hash it = ?h" "sc_hit_retire s' = sc_hit_retire s"
      using w' by auto
    then have "int (holds x s') = int (holds x s) + 0" for x
      using h1 [of x] by (auto simp: holds_def pp)
    then show ?thesis
      using w' lock' pp by (intro balI [where d = "\<lambda>x. 0" and e = "\<lambda>x. 0"]) auto
  qed
  then show ?thesis
    using run pp by blast
qed

lemma push_waits:
  assumes held: "held_ok s" and mem: "item \<in> set (sc_push_pending s)" and pos: "holds (pp_seg_hash item) s > 0"
    and None: "map_of (sc_handles s) (pp_room item, pp_seg_index item) = None"
  shows "\<exists>s'. guarded_push sc env item s = (Inr (), s') \<and> bal (fires_ok env) s s' \<and>
    (sc_push_pending s' = sc_push_pending s \<or> sc_push_pending s' = remove1 item (sc_push_pending s))"
proof -
  let ?h = "pp_seg_hash item"
  let ?s1 = "s\<lparr>sd_world := tick (sd_world s)\<rparr>"
  have l1: "lockc x ?s1 = lockc x s" "holds x ?s1 = holds x s" "entry_of x ?s1 = entry_of x s" for x
    by (rule lockc_cong) (simp_all add: tick_def holds_def entry_of_def)
  have held1: "held_ok ?s1"
    using held by (simp add: held_ok_def l1) (simp add: tick_def)
  show ?thesis
  proof (cases "monotonic (sc_cf sc) (sd_world s) > pp_deadline item")
    case False
    have "guarded_push sc env item s = (Inr (), ?s1)"
      using None False by (simp add: guarded_push_def push_pending_item_def nowM_def tryM_app bindM_app Let_def)
    moreover have "bal (fires_ok env) s ?s1"
      by (rule balI [where d = "\<lambda>x. 0" and e = "\<lambda>x. 0"]) (simp_all add: l1, simp add: tick_def)
    ultimately show ?thesis
      by (intro exI [of _ ?s1]) simp
  next
    case True
    note u = unhold_spec [OF held1, of ?h]
    let ?s2 = "(unhold ?h ?s1)\<lparr>sc_push_pending := remove1 item (sc_push_pending s)\<rparr>"
    have pos1: "holds ?h ?s1 > 0"
      using pos l1(2) by simp
    have run: "guarded_push sc env item s = (Inr (), ?s2)"
      using None True mem u [OF pos1] by (simp add: guarded_push_def push_pending_item_def nowM_def tryM_app bindM_app Let_def removeM_def)
    have "lockc x ?s2 = lockc x (unhold ?h ?s1)" for x
      by (rule lockc_cong) simp_all
    then have lk: "lockc x ?s2 = lockc x s + (if x = ?h then -1 else 0)" for x
      using u [OF pos1] l1(1) [of x] by simp
    have "int (holds x ?s2) = int (holds x s) + (if x = ?h then -1 else 0)" for x
      using count_list_map_remove1 [OF mem, of pp_seg_hash x] u [OF pos1] by (simp add: holds_def)
    then have "bal (fires_ok env) s ?s2"
      using u [OF pos1] lk by (intro balI [where d = "\<lambda>x. if x = ?h then -1 else 0" and e = "\<lambda>x. if x = ?h then -1 else 0"])
        (auto simp: tick_def split: if_splits)
    then show ?thesis
      using run by (intro exI [of _ ?s2]) simp
  qed
qed

lemma guarded_push_spec:
  assumes held: "held_ok s" and mem: "item \<in> set (sc_push_pending s)"
  shows "\<exists>s'. guarded_push sc env item s = (Inr (), s') \<and> bal (fires_ok env) s s' \<and>
    (sc_push_pending s' = sc_push_pending s \<or> sc_push_pending s' = remove1 item (sc_push_pending s))"
proof -
  have pos: "holds (pp_seg_hash item) s > 0"
    using mem count_list_0_iff [of "map pp_seg_hash (sc_push_pending s)" "pp_seg_hash item"]
    by (auto simp: holds_def simp flip: neq0_conv)
  obtain i where i: "entry_of (pp_seg_hash item) s = Some i" "lock_ref (w_heap (sd_world s) i) > 0"
    using held_lock [OF held pos] by blast
  show ?thesis
    using push_fires [OF held mem i] push_waits [OF held mem pos]
    by (cases "map_of (sc_handles s) (pp_room item, pp_seg_index item)") blast+
qed

lemma try_push_pending_spec:
  assumes "held_ok s"
  shows "\<exists>s'. try_push_pending sc env s = (Inr (), s') \<and> bal (fires_ok env) s s'"
proof -
  have fold: "\<exists>s'. foldM (\<lambda>_. guarded_push sc env) () xs s = (Inr (), s') \<and> bal (fires_ok env) s s'"
    if "held_ok s" "distinct xs" "set xs \<subseteq> set (sc_push_pending s)" for xs and s :: "'a scat_scheme"
    using that
  proof (induction xs arbitrary: s)
    case (Cons x xs)
    obtain s1 where s1: "guarded_push sc env x s = (Inr (), s1)" "bal (fires_ok env) s s1"
      "sc_push_pending s1 = sc_push_pending s \<or> sc_push_pending s1 = remove1 x (sc_push_pending s)"
      using guarded_push_spec [OF Cons.prems(1), of x sc env] Cons.prems(3) by auto
    have "set xs \<subseteq> set (sc_push_pending s1)"
      using s1(3) Cons.prems(1-3) by (auto simp: held_ok_def)
    from Cons.IH [OF bal_held [OF s1(2) Cons.prems(1)] _ this] Cons.prems(2) obtain s' where
      "foldM (\<lambda>_. guarded_push sc env) () xs s1 = (Inr (), s')" "bal (fires_ok env) s1 s'"
      by auto
    then show ?case
      using s1(1,2) by (auto simp: bindM_app intro: bal_trans)
  qed simp
  have "distinct (sc_push_pending s)"
    using assms by (simp add: held_ok_def)
  from fold [OF assms this order_refl] show ?thesis
    by (simp add: try_push_pending_def guarded_push_def [symmetric])
qed

section \<open>A write\<close>

lemma reap_spec:
  assumes held: "held_ok s" and mem: "it \<in> set (sc_write_inflight s)"
  shows "\<exists>s'. reap_inflight it s = (Inr (), s') \<and> bal True s s' \<and> sc_write_inflight s' = remove1 it (sc_write_inflight s)"
proof -
  let ?h = "wi_seg_hash it" and ?s' = "(unhold (wi_seg_hash it) s)\<lparr>sc_write_inflight := remove1 it (sc_write_inflight s)\<rparr>"
  have pos: "holds ?h s > 0"
    using mem count_list_0_iff [of "map wi_seg_hash (sc_write_inflight s)" ?h] by (auto simp: holds_def simp flip: neq0_conv)
  note u = unhold_spec [OF held pos]
  have "lockc x ?s' = lockc x (unhold ?h s)" for x
    by (rule lockc_cong) simp_all
  then have lk: "lockc x ?s' = lockc x s + (if x = ?h then -1 else 0)" for x
    using u by simp
  have "int (holds x ?s') = int (holds x s) + (if x = ?h then -1 else 0)" for x
    using count_list_map_remove1 [OF mem, of wi_seg_hash x] u by (simp add: holds_def)
  then have "bal True s ?s'"
    using u lk by (intro balI [where d = "\<lambda>x. if x = ?h then -1 else 0" and e = "\<lambda>x. if x = ?h then -1 else 0"])
      (auto split: if_splits)
  then show ?thesis
    using mem u by (intro exI [of _ ?s']) (simp add: reap_inflight_def removeM_def)
qed

lemma bal_tick: "bal ex s (s\<lparr>sd_world := tick (sd_world s)\<rparr>)"
proof (rule balI [where d = "\<lambda>x. 0" and e = "\<lambda>x. 0"])
  show "lockc x (s\<lparr>sd_world := tick (sd_world s)\<rparr>) = lockc x s + 0" for x
    using lockc_cong [of "s\<lparr>sd_world := tick (sd_world s)\<rparr>" s x] by (simp add: tick_def)
qed (simp_all add: holds_def tick_def)

text \<open>The decision of one poll: reap when a handle failed, all are done, or the deadline has passed.\<close>

definition reaps :: "sc_config \<Rightarrow> sc_env \<Rightarrow> write_item \<Rightarrow> int \<Rightarrow> bool" where
  "reaps sc env it now \<longleftrightarrow> now > wi_deadline it \<or>
     (case map_result (ev_state env) (wi_handles it) of
        Inl e \<Rightarrow> False
      | Inr states \<Rightarrow> ERR \<in> set states \<or> list_all (\<lambda>x. x = DONE) states)"

lemma drain_item_run:
  "drain_item sc env it s =
    (if reaps sc env it (monotonic (sc_cf sc) (sd_world s)) then reap_inflight it else retM ()) (s\<lparr>sd_world := tick (sd_world s)\<rparr>)"
  by (cases "map_result (ev_state env) (wi_handles it)") (auto simp: drain_item_def reaps_def nowM_def bindM_app)

lemma drain_item_spec:
  assumes held: "held_ok s" and mem: "it \<in> set (sc_write_inflight s)"
  shows "\<exists>s'. drain_item sc env it s = (Inr (), s') \<and> bal True s s' \<and>
    sc_write_inflight s' = (if reaps sc env it (monotonic (sc_cf sc) (sd_world s)) then remove1 it (sc_write_inflight s) else sc_write_inflight s)"
proof -
  let ?s1 = "s\<lparr>sd_world := tick (sd_world s)\<rparr>"
  have held1: "held_ok ?s1"
    by (rule bal_held [OF bal_tick held])
  obtain s' where s': "reap_inflight it ?s1 = (Inr (), s')" "bal True ?s1 s'" "sc_write_inflight s' = remove1 it (sc_write_inflight s)"
    using reap_spec [OF held1, of it] mem by auto
  show ?thesis
    using s' bal_trans [OF bal_tick s'(2)] bal_tick [of True s] by (simp add: drain_item_run)
qed

lemma drain_writes_spec:
  assumes "held_ok s"
  shows "\<exists>s'. drain_writes sc env s = (Inr (), s') \<and> bal True s s' \<and> set (sc_write_inflight s') \<subseteq> set (sc_write_inflight s)"
proof -
  have fold: "\<exists>s'. foldM (\<lambda>_. drain_item sc env) () xs s = (Inr (), s') \<and> bal True s s' \<and> set (sc_write_inflight s') \<subseteq> set (sc_write_inflight s)"
    if "held_ok s" "mset xs \<subseteq># mset (sc_write_inflight s)" for xs and s :: "'a scat_scheme"
    using that
  proof (induction xs arbitrary: s)
    case (Cons x xs)
    have mem: "x \<in> set (sc_write_inflight s)"
      using Cons.prems(2) by (metis mset_subset_eqD set_mset_mset list.set_intros(1))
    obtain s1 where s1: "drain_item sc env x s = (Inr (), s1)" "bal True s s1"
      "sc_write_inflight s1 = (if reaps sc env x (monotonic (sc_cf sc) (sd_world s)) then remove1 x (sc_write_inflight s) else sc_write_inflight s)"
      using drain_item_spec [OF Cons.prems(1) mem] by blast
    have "mset xs \<subseteq># mset (sc_write_inflight s1)"
      using Cons.prems(2) s1(3) by (auto simp: insert_subset_eq_iff dest: subset_mset.order_trans [OF _ diff_subset_eq_self])
    from Cons.IH [OF bal_held [OF s1(2) Cons.prems(1)] this] obtain s' where
      s': "foldM (\<lambda>_. drain_item sc env) () xs s1 = (Inr (), s')" "bal True s1 s'" "set (sc_write_inflight s') \<subseteq> set (sc_write_inflight s1)"
      by auto
    have "set (sc_write_inflight s1) \<subseteq> set (sc_write_inflight s)"
      using s1(3) set_remove1_subset [of x "sc_write_inflight s"] by auto
    then show ?case
      using s1(1,2) s' by (auto simp: bindM_app intro: bal_trans)
  qed simp
  from fold [OF assms, of "sc_write_inflight s"] show ?thesis
    by (auto simp: drain_writes_def)
qed

text \<open>C20. The worker's part of a tick returns, and keeps the pins exact: every segment that still waits for its handle,
  is being written or waits to be retired stays in the index with a lock count covering its holds, and the lock count above the holds
  changes for no segment, unless the transport fails while a write is posted; then it can only grow.\<close>

theorem worker_tick_keeps_holds:
  assumes "held_ok s"
  shows "\<exists>s'. bindM (try_push_pending sc env) (\<lambda>_. drain_writes sc env) s = (Inr (), s') \<and> held_ok s' \<and>
    w_entries (sd_world s') = w_entries (sd_world s) \<and>
    (\<forall>h. surplus h s \<le> surplus h s' \<and> (fires_ok env \<longrightarrow> surplus h s' = surplus h s))"
proof -
  obtain s1 where s1: "try_push_pending sc env s = (Inr (), s1)" "bal (fires_ok env) s s1"
    using try_push_pending_spec [OF assms] by blast
  obtain s2 where s2: "drain_writes sc env s1 = (Inr (), s2)" "bal True s1 s2"
    using drain_writes_spec [OF bal_held [OF s1(2) assms]] by blast
  have b2: "bal (fires_ok env) s1 s2"
    using s2(2) by (simp add: bal_def)
  show ?thesis
    using s1(1) s2(1) bal_trans [OF s1(2) b2] bal_held [OF bal_trans [OF s1(2) b2] assms]
    by (intro exI [of _ s2]) (simp add: bindM_app bal_def)
qed

text \<open>A segment with a hold survives every eviction: it stays in the index under the same entry, however much is asked for.\<close>

lemma held_survives_eviction:
  assumes "held_ok s" "pic_inv cf (sd_world s)" "holds h s > 0"
  shows "\<exists>t m w'. evict nt nm (sd_world s) = (Inr (t, m), w') \<and> map_of (w_entries w') h = entry_of h s \<and> entry_of h s \<noteq> None"
proof -
  obtain i where i: "entry_of h s = Some i" "lock_ref (w_heap (sd_world s) i) > 0"
    using held_lock [OF assms(1,3)] by blast
  obtain evd rest t m w' where ev: "evict_candidates (sd_world s) = evd @ rest" "evict nt nm (sd_world s) = (Inr (t, m), w')"
    "w_entries w' = filter (\<lambda>(h, j). j \<notin> set evd) (w_entries (sd_world s))" "pic_inv cf w'"
    using evict_spec [OF assms(2), of nt nm] by blast
  have "set evd \<subseteq> {i. lock_ref (w_heap (sd_world s) i) = 0}"
    using evict_candidates_props(2) [OF assms(2)] unfolding ev(1) by auto
  then have "i \<notin> set evd"
    using i(2) by auto
  then have "(h, i) \<in> set (w_entries w')"
    using i(1) by (auto simp: ev(3) entry_of_def dest: map_of_SomeD)
  then have "map_of (w_entries w') h = Some i"
    using pic_invD(1) [OF ev(4)] by simp
  then show ?thesis
    using ev(2) i(1) by auto
qed

lemma drain_all_reaped:
  assumes "held_ok s" "ev_manager env"
    and "\<And>it t. it \<in> set (sc_write_inflight s) \<Longrightarrow> t \<ge> w_ticks (sd_world s) \<Longrightarrow> cf_clock (sc_cf sc) t > wi_deadline it"
  shows "sc_write_inflight (snd (drain_writes sc env s)) = []"
proof -
  have fold: "sc_write_inflight (snd (foldM (\<lambda>_. drain_item sc env) () xs s)) = []"
    if "held_ok s" "xs = sc_write_inflight s"
      "\<And>it t. it \<in> set xs \<Longrightarrow> t \<ge> w_ticks (sd_world s) \<Longrightarrow> cf_clock (sc_cf sc) t > wi_deadline it" for xs and s :: "'a scat_scheme"
    using that
  proof (induction xs arbitrary: s)
    case (Cons x xs)
    have mem: "x \<in> set (sc_write_inflight s)"
      using Cons.prems(2) [symmetric] by simp
    have r: "reaps sc env x (monotonic (sc_cf sc) (sd_world s))"
      using Cons.prems(3) [of x] by (simp add: reaps_def monotonic_def)
    obtain s1 where s1: "drain_item sc env x s = (Inr (), s1)" "bal True s s1" "sc_write_inflight s1 = xs"
      using drain_item_spec [OF Cons.prems(1) mem, of sc env] unfolding if_P [OF r] Cons.prems(2) [symmetric] remove1.simps by auto
    have "w_ticks (sd_world s1) \<ge> w_ticks (sd_world s)"
      using s1(1) r by (auto simp: drain_item_run reap_inflight_def removeM_def unhold_def lock_add_def tick_def upd_entry_def
          split: if_splits option.splits)
    then have "sc_write_inflight (snd (foldM (\<lambda>_. drain_item sc env) () xs s1)) = []"
      by (intro Cons.IH [OF bal_held [OF s1(2) Cons.prems(1)] s1(3) [symmetric]])
        (use Cons.prems(3) in \<open>meson dual_order.trans list.set_intros(2)\<close>)
    then show ?case
      using s1(1) by (simp add: bindM_app)
  qed simp
  show ?thesis
    using fold [OF assms(1) refl assms(3)] assms(2) by (auto simp: drain_writes_def)
qed

text \<open>C21. No write hangs a worker: once the clock has passed the deadlines of the writes in flight, the next tick with a
  reachable manager drops them all, whatever state the transport reports or raises.\<close>

theorem expired_writes_dropped:
  assumes "held_ok s" "ev_manager env"
    and "\<forall>it\<in>set (sc_write_inflight s). \<forall>t \<ge> w_ticks (sd_world s). cf_clock (sc_cf sc) t > wi_deadline it"
  shows "\<exists>s'. drain_writes sc env s = (Inr (), s') \<and> sc_write_inflight s' = [] \<and> held_ok s'"
proof -
  obtain s' where "drain_writes sc env s = (Inr (), s')" "bal True s s'"
    using drain_writes_spec [OF assms(1)] by blast
  then show ?thesis
    using drain_all_reaped [OF assms(1,2), of sc] assms(3) bal_held [OF _ assms(1)] by auto
qed

section \<open>A pin that is never released\<close>

text \<open>C22. A write that cannot be posted leaks its pin: \<open>_start_write\<close> raises the lock count before it calls the transport, and
  when that call raises, nothing in the queues remembers the pin, so the lock count stays one above the holds.\<close>

theorem failed_write_leaks_pin:
  assumes "held_ok s" "entry_of hash s = Some i" "start_write sc env h i k hash s = (Inl e, s')"
  shows "surplus hash s' = surplus hash s + 1 \<and> (\<forall>x. holds x s' = holds x s)"
  using start_write_spec [OF assms(3,1,2)] by (simp add: surplus_def holds_def)

section \<open>A small worker\<close>

text \<open>The cached segment waits for its handle under key (7, 0) and a write of it is in flight, so it is locked twice.\<close>

abbreviation ex_hash :: bytes where
  "ex_hash \<equiv> segment_hash_tensor (\<lambda>b. b) [11, 12]"

definition ex_worker :: scat where
  "ex_worker = lock_add 2 0 (ex_scat\<lparr>sc_pending := [],
     sc_push_pending := [\<lparr>pp_room = 7, pp_seg_index = 0, pp_seg_hash = ex_hash, pp_deadline = 50\<rparr>],
     sc_write_inflight := [\<lparr>wi_handles = [1], wi_seg_hash = ex_hash, wi_room = 6, wi_seg_index = 0, wi_deadline = 0\<rparr>]\<rparr>)"

lemma ex_worker_entry: "w_entries (sd_world ex_worker) = [(ex_hash, 0)]" "lock_ref (w_heap (sd_world ex_worker) 0) = 2"
  "w_ticks (sd_world ex_worker) = 1"
  by (simp_all add: ex_worker_def lock_add_def upd_entry_def ex_scat_defs ex_world_def insert_segment_def match_segment_def tick_def Let_def)

lemma ex_worker_queues:
  "sc_push_pending ex_worker = [\<lparr>pp_room = 7, pp_seg_index = 0, pp_seg_hash = ex_hash, pp_deadline = 50\<rparr>]"
  "sc_write_inflight ex_worker = [\<lparr>wi_handles = [1], wi_seg_hash = ex_hash, wi_room = 6, wi_seg_index = 0, wi_deadline = 0\<rparr>]"
  "sc_hit_retire ex_worker = []"
  by (simp_all add: ex_worker_def ex_scat_defs)

lemma ex_worker_held: "held_ok ex_worker" "holds ex_hash ex_worker = 2" "entry_of ex_hash ex_worker = Some 0"
  by (auto simp: held_ok_def holds_def ex_worker_queues ex_worker_entry entry_of_def lockc_def)

lemma ex_worker_inv: "pic_inv (ex_cf ''addition'') (sd_world ex_worker)"
proof -
  have "pic_inv (ex_cf ''addition'') ex_scat_world"
    using ex_scat_inv by (simp add: sc_inv_def ex_scat_def sched.defs)
  then show ?thesis
    by (simp add: ex_worker_def lock_add_def ex_scat_def sched.defs scat.defs)
      (auto simp: pic_inv_def upd_entry_def entry_ok_def)
qed

theorem worker_tick_keeps_holds_witness:
  "\<exists>s'. bindM (try_push_pending ex_sc (ex_env [])) (\<lambda>_. drain_writes ex_sc (ex_env [])) ex_worker = (Inr (), s') \<and> held_ok s' \<and>
     surplus ex_hash s' = surplus ex_hash ex_worker"
proof -
  have "fires_ok (ex_env [])"
    by (simp add: fires_ok_def ex_env_def)
  then show ?thesis
    using worker_tick_keeps_holds [OF ex_worker_held(1), of ex_sc "ex_env []"] by blast
qed

theorem expired_writes_dropped_witness:
  "\<exists>s'. drain_writes ex_sc ((ex_env [])\<lparr>ev_state := (\<lambda>_. Inl RuntimeError)\<rparr>) ex_worker = (Inr (), s') \<and> sc_write_inflight s' = []"
  using expired_writes_dropped [OF ex_worker_held(1), of "(ex_env [])\<lparr>ev_state := (\<lambda>_. Inl RuntimeError)\<rparr>" ex_sc]
  by (auto simp: ex_worker_queues ex_worker_entry ex_env_def ex_sc_def ex_cf_def)

theorem failed_write_leaks_pin_witness:
  "\<forall>h. \<exists>s'. start_write ex_sc ((ex_env [])\<lparr>ev_manager := False\<rparr>) h 0 (7, 0) ex_hash ex_worker = (Inl RuntimeError, s') \<and>
     surplus ex_hash s' = surplus ex_hash ex_worker + 1"
proof
  fix h
  obtain s' where s': "start_write ex_sc ((ex_env [])\<lparr>ev_manager := False\<rparr>) h 0 (7, 0) ex_hash ex_worker = (Inl RuntimeError, s')"
    by (simp add: start_write_def fire_write_def get_manager_def)
  then show "\<exists>s'. start_write ex_sc ((ex_env [])\<lparr>ev_manager := False\<rparr>) h 0 (7, 0) ex_hash ex_worker = (Inl RuntimeError, s') \<and>
     surplus ex_hash s' = surplus ex_hash ex_worker + 1"
    using failed_write_leaks_pin [OF ex_worker_held(1,3) s'] by blast
qed

end
