(* ===== verification/Pic_Scatter_Gate.thy ===== *)
theory Pic_Scatter_Gate
  imports Pic_Scatter_Locks
begin

text \<open>
  The protocol as its users see it: the notification strings and how they are read back, the gate a combine request passes when all
  its segments have arrived, its timeout, the tokens it is billed for, the order of the waiting queue, and the bounded wait of a
  synchronous write.
\<close>

section \<open>Notification strings are read back\<close>

abbreviation no_bar :: "string \<Rightarrow> bool" where
  "no_bar str \<equiv> CHR ''|'' \<notin> set str"

lemma split_bar_last: "no_bar xs \<Longrightarrow> split_str ''|'' acc xs = [acc @ xs]"
proof (induction xs arbitrary: acc)
  case (Cons x xs)
  then show ?case
    by (auto simp add: split_str.simps [of "''|''" acc "x # xs"])
qed (simp add: split_str.simps)

lemma split_bar_cons: "no_bar xs \<Longrightarrow> split_str ''|'' acc (xs @ CHR ''|'' # ys) = (acc @ xs) # split_str ''|'' [] ys"
proof (induction xs arbitrary: acc)
  case Nil
  show ?case
    by (simp add: split_str.simps [of "''|''" acc])
next
  case (Cons x xs)
  then show ?case
    by (auto simp add: split_str.simps [of "''|''" acc])
qed

lemma of_char_digit: "d < 10 \<Longrightarrow> (of_char (digit_char d) :: nat) = 48 + d"
  by (simp add: digit_char_def)

lemma digit_props:
  assumes "d < 10"
  shows "is_digit (digit_char d)" "digit_val (digit_char d) = d" "\<not> py_space (digit_char d)"
    "digit_char d \<noteq> CHR ''|''" "digit_char d \<noteq> CHR ''-''" "digit_char d \<noteq> CHR ''+''"
proof -
  note oc = of_char_digit [OF assms]
  show "is_digit (digit_char d)" "digit_val (digit_char d) = d" "\<not> py_space (digit_char d)"
    using assms by (simp_all add: is_digit_def digit_val_def py_space_def oc)
  have "(of_char CHR ''|'' :: nat) = 124" "(of_char CHR ''-'' :: nat) = 45" "(of_char CHR ''+'' :: nat) = 43"
    by simp_all
  then show "digit_char d \<noteq> CHR ''|''" "digit_char d \<noteq> CHR ''-''" "digit_char d \<noteq> CHR ''+''"
    using oc assms by (auto simp del: of_char_Char)
qed

lemma show_nat_digits: "show_nat n \<noteq> [] \<and> (\<forall>c\<in>set (show_nat n). \<exists>d<10. c = digit_char d)"
proof (induction n rule: show_nat.induct)
  case (1 n)
  have "n mod 10 < 10"
    by simp
  with 1 show ?case
    by (auto simp: show_nat.simps [of n] simp del: mod_less_divisor)
qed

lemma show_nat_chars:
  assumes "c \<in> set (show_nat n)"
  shows "is_digit c" "\<not> py_space c" "c \<noteq> CHR ''|''"
proof -
  obtain d where "d < 10" "c = digit_char d"
    using assms show_nat_digits [of n] by auto
  then show "is_digit c" "\<not> py_space c" "c \<noteq> CHR ''|''"
    using digit_props by simp_all
qed

lemma int_tail_append:
  "(\<forall>c\<in>set xs. is_digit c) \<Longrightarrow> int_tail acc xs = Some m \<Longrightarrow> int_tail acc (xs @ ys) = int_tail m ys"
  by (induction xs arbitrary: acc) auto

lemma int_tail_show: "int_tail 0 (show_nat n) = Some n"
proof (induction n rule: show_nat.induct)
  case (1 n)
  have dig: "\<forall>c\<in>set (show_nat (n div 10)). is_digit c"
    using show_nat_chars(1) by simp
  show ?case
  proof (cases "n < 10")
    case True
    then show ?thesis
      by (simp add: show_nat.simps [of n] digit_props)
  next
    case False
    have "show_nat n = show_nat (n div 10) @ [digit_char (n mod 10)]"
      using False by (subst show_nat.simps) simp
    then have "int_tail 0 (show_nat n) = int_tail (n div 10) [digit_char (n mod 10)]"
      using int_tail_append [OF dig 1 [OF False]] by simp
    then show ?thesis
      by (simp add: digit_props)
  qed
qed

lemma int_digits_show: "int_digits (show_nat n) = Some n"
proof -
  have "show_nat n \<noteq> []" "is_digit (hd (show_nat n))"
    using show_nat_digits [of n] show_nat_chars(1) [of "hd (show_nat n)" n] by auto
  then show ?thesis
    by (simp add: int_digits_def int_tail_show)
qed

lemma strip_id:
  assumes "xs \<noteq> []" "\<forall>c\<in>set xs. \<not> py_space c"
  shows "rev (dropWhile py_space (rev (dropWhile py_space xs))) = xs"
proof -
  have "dropWhile py_space xs = xs" "dropWhile py_space (rev xs) = rev xs"
    using assms by (simp_all add: dropWhile_eq_self_iff last_rev hd_rev)
  then show ?thesis
    by simp
qed

lemma py_int_show: "py_int (show_int i) = Inr i"
proof -
  let ?n = "if i < 0 then nat (- i) else nat i"
  obtain d ds where d: "show_nat ?n = digit_char d # ds" "d < 10"
    using show_nat_digits [of ?n] by (cases "show_nat ?n") auto
  have sp: "\<forall>c\<in>set (show_nat ?n). \<not> py_space c"
    using show_nat_chars(2) by simp
  have "\<not> py_space CHR ''-''"
    by (simp add: py_space_def)
  then have strip: "rev (dropWhile py_space (rev (dropWhile py_space (show_int i)))) = show_int i"
    using sp d by (intro strip_id) (auto simp: show_int_def split: if_splits)
  show ?thesis
  proof (cases "i < 0")
    case True
    then show ?thesis
      using strip int_digits_show [of "nat (- i)"] by (simp add: py_int_def show_int_def Let_def)
  next
    case False
    then have "show_int i = digit_char d # ds" "int_digits (digit_char d # ds) = Some (nat i)"
      using d int_digits_show [of "nat i"] by (simp_all add: show_int_def)
    then show ?thesis
      using strip False digit_props(5,6) [OF d(2)] by (simp add: py_int_def Let_def)
  qed
qed

lemma show_int_no_bar: "no_bar (show_int i)"
proof -
  have "no_bar (show_nat n)" for n
    using show_nat_chars(3) [of "CHR ''|''" n] by auto
  then show ?thesis
    by (auto simp: show_int_def)
qed

lemma split_tag:
  assumes "no_bar what"
  shows "split_str ''|'' [] (notif_tag k what) = [show_int (fst k), show_int (snd k), what]"
    "no_bar x \<Longrightarrow> split_str ''|'' [] (notif_tag k what @ CHR ''|'' # x) = [show_int (fst k), show_int (snd k), what, x]"
  using assms show_int_no_bar by (simp_all add: notif_tag_def split_bar_cons split_bar_last)

text \<open>C23. The notifications a worker sends are read back by the combine engine: for every room and segment index, the KV
  tag and the mamba tag with the hit flag, also with the component suffix the transfer manager appends, mark exactly the
  tags the engine waits for and record the flag under the same key, and tags of different segments are different.\<close>

theorem notif_roundtrip:
  assumes "no_bar tail"
  shows "\<exists>s'. bindM (note_notif (notif_tag k ''kv'')) (\<lambda>_.
      note_notif (notif_tag k ''mamba'' @ (if recomputed then ''|r1'' else ''|r0'') @ tail)) s = (Inr (), s') \<and>
    sc_seen s' = sc_seen s \<union> {notif_tag k ''kv'', notif_tag k ''mamba''} \<and> map_of (sc_seg_recomputed s') k = Some recomputed \<and>
    (\<forall>k'. k' \<noteq> k \<longrightarrow> map_of (sc_seg_recomputed s') k' = map_of (sc_seg_recomputed s) k' \<and>
       notif_tag k' ''kv'' \<notin> {notif_tag k ''kv'', notif_tag k ''mamba''} \<and> notif_tag k' ''mamba'' \<notin> {notif_tag k ''kv'', notif_tag k ''mamba''})"
proof -
  let ?flag = "(if recomputed then ''r1'' else ''r0'') @ tail"
  have msg: "notif_tag k ''mamba'' @ (if recomputed then ''|r1'' else ''|r0'') @ tail = notif_tag k ''mamba'' @ CHR ''|'' # ?flag"
    by simp
  have parts: "split_str ''|'' [] (notif_tag k ''mamba'' @ CHR ''|'' # ?flag) = [show_int (fst k), show_int (snd k), ''mamba'', ?flag]"
    by (rule split_tag(2)) (use assms in auto)
  have tag: "join_str ''|'' [show_int (fst k), show_int (snd k), ''mamba''] = notif_tag k ''mamba''"
    by (simp add: notif_tag_def)
  have kv: "split_str ''|'' [] (notif_tag k ''kv'') = [show_int (fst k), show_int (snd k), ''kv'']"
    by (rule split_tag(1)) simp
  have flag: "take 1 ?flag = ''r''" "(take 2 ?flag = ''r1'') = recomputed"
    by simp_all
  have inj: "k' = k \<and> what' = what" if "notif_tag k' what' = notif_tag k what" "no_bar what" "no_bar what'" for k' what what'
  proof -
    have "show_int (fst k') = show_int (fst k)" "show_int (snd k') = show_int (snd k)" "what' = what"
      using arg_cong [OF that(1), of "split_str ''|'' []"] split_tag(1) [OF that(2), of k] split_tag(1) [OF that(3), of k'] by simp_all
    then show ?thesis
      using py_int_show by (metis prod_eqI sum.inject(2))
  qed
  have other: "notif_tag k' ''kv'' \<notin> {notif_tag k ''kv'', notif_tag k ''mamba''} \<and>
      notif_tag k' ''mamba'' \<notin> {notif_tag k ''kv'', notif_tag k ''mamba''}" if "k' \<noteq> k" for k'
    using that inj [of k' "''kv''" "''kv''"] inj [of k' "''kv''" "''mamba''"] inj [of k' "''mamba''" "''kv''"]
      inj [of k' "''mamba''" "''mamba''"] by auto
  show ?thesis
    unfolding msg using parts tag kv flag py_int_show other
    by (auto simp: note_notif_def Let_def bindM_app update_conv' numeral_2_eq_2 numeral_3_eq_3)
qed

theorem notif_roundtrip_witness:
  "\<exists>s'. bindM (note_notif (notif_tag (7, 0) ''kv'')) (\<lambda>_.
      note_notif (notif_tag (7, 0) ''mamba'' @ (if False then ''|r1'' else ''|r0'') @ ''_0'')) ex_scat = (Inr (), s') \<and>
    map_of (sc_seg_recomputed s') (7, 0) = Some False \<and> ''7|0|kv'' = notif_tag (7, 0) ''kv''"
proof -
  have "no_bar ''_0''" "''7|0|kv'' = notif_tag (7, 0) ''kv''"
    by (simp, code_simp)
  then show ?thesis
    using notif_roundtrip [of "''_0''" "(7, 0)" False ex_scat] by auto
qed

section \<open>The gate of a combine request\<close>

abbreviation ready :: "'s sched_scheme \<Rightarrow> parked_item \<Rightarrow> bool" where
  "ready s p \<equiv> entries_have (pk_hashes p) s"

text \<open>A sweep reads the clock once per parked entry: the reading the \<open>k\<close>-th entry is compared with.\<close>

abbreviation reading :: "sc_config \<Rightarrow> 's sched_scheme \<Rightarrow> nat \<Rightarrow> int" where
  "reading sc s k \<equiv> cf_clock (sc_cf sc) (w_ticks (sd_world s) + k)"

lemma release_step_live:
  assumes "reading sc s 0 \<le> pk_deadline p" "sd_mode s = PREFILL" "ready s p \<longrightarrow> ev_bootstrap env (pk_req p) = Inr True" "p \<in> set (sc_parked s)"
  shows "release_step sc env p s = (Inr (), if ready s p
    then s\<lparr>sd_world := tick (sd_world s), sd_bootstrap := sd_bootstrap s @ [pk_req p], sc_parked := remove1 p (sc_parked s)\<rparr>
    else s\<lparr>sd_world := tick (sd_world s)\<rparr>)"
proof -
  have "\<not> pk_deadline p < monotonic (sc_cf sc) (sd_world s)"
    using assms(1) by (auto simp: monotonic_def not_less)
  then show ?thesis
    using assms(2-4) by (simp add: release_step_def bindM_app nowM_def bootstrap_add_def removeM_def entries_have_def entry_of_def tick_def)
qed

lemma release_fold_live:
  assumes "\<forall>k<length ps. reading sc s k \<le> pk_deadline (ps ! k)"
    "\<forall>p\<in>set ps. ready s p \<longrightarrow> ev_bootstrap env (pk_req p) = Inr True" "sd_mode s = PREFILL"
    "set ps \<subseteq> set (sc_parked s)" "distinct ps" "distinct (sc_parked s)"
  shows "\<exists>w. foldM (\<lambda>_. release_step sc env) () ps s = (Inr (), s\<lparr>sd_world := w,
      sd_bootstrap := sd_bootstrap s @ map pk_req (filter (ready s) ps),
      sc_parked := filter (\<lambda>p. \<not> (p \<in> set ps \<and> ready s p)) (sc_parked s)\<rparr>) \<and>
    w = (sd_world s)\<lparr>w_ticks := w_ticks (sd_world s) + length ps\<rparr>"
  using assms
proof (induction ps arbitrary: s)
  case (Cons p ps)
  define s1 where "s1 = snd (release_step sc env p s)"
  have live: "reading sc s 0 \<le> pk_deadline p"
    using Cons.prems(1) by fastforce
  have st: "release_step sc env p s = (Inr (), s1)"
    using Cons.prems(2-4) live by (simp add: s1_def release_step_live)
  have s1: "s1 = s\<lparr>sd_world := tick (sd_world s), sd_bootstrap := sd_bootstrap s @ (if ready s p then [pk_req p] else []),
      sc_parked := if ready s p then remove1 p (sc_parked s) else sc_parked s\<rparr>"
    using Cons.prems(2-4) live by (simp add: s1_def release_step_live)
  have rd: "\<And>hs. entries_have hs s1 = entries_have hs s" "sd_mode s1 = PREFILL" "w_ticks (sd_world s1) = Suc (w_ticks (sd_world s))"
    using Cons.prems by (simp_all add: s1 entries_have_def entry_of_def tick_def)
  have "\<exists>w. foldM (\<lambda>_. release_step sc env) () ps s1 = (Inr (), s1\<lparr>sd_world := w,
      sd_bootstrap := sd_bootstrap s1 @ map pk_req (filter (ready s1) ps),
      sc_parked := filter (\<lambda>p. \<not> (p \<in> set ps \<and> ready s1 p)) (sc_parked s1)\<rparr>) \<and>
    w = (sd_world s1)\<lparr>w_ticks := w_ticks (sd_world s1) + length ps\<rparr>"
  proof (rule Cons.IH)
    show "\<forall>k<length ps. reading sc s1 k \<le> pk_deadline (ps ! k)"
      using Cons.prems(1) by (auto simp: rd(3) nth_Cons split: nat.splits)
    show "\<forall>q\<in>set ps. ready s1 q \<longrightarrow> ev_bootstrap env (pk_req q) = Inr True"
      using Cons.prems(2) by (auto simp: rd)
    show "set ps \<subseteq> set (sc_parked s1)" "distinct ps" "distinct (sc_parked s1)"
      using Cons.prems(4-6) by (auto simp: s1)
  qed (fact rd)
  moreover have "filter (\<lambda>q. \<not> (q \<in> set ps \<and> ready s q)) (sc_parked s1) =
      filter (\<lambda>q. \<not> (q \<in> set (p # ps) \<and> ready s q)) (sc_parked s)"
    using Cons.prems(5,6) by (auto simp: s1 distinct_remove1_removeAll removeAll_filter_not_eq intro!: filter_cong)
  ultimately have "foldM (\<lambda>_. release_step sc env) () ps s1 = (Inr (), s1\<lparr>
      sd_world := (sd_world s1)\<lparr>w_ticks := w_ticks (sd_world s1) + length ps\<rparr>,
      sd_bootstrap := sd_bootstrap s1 @ map pk_req (filter (ready s) ps),
      sc_parked := filter (\<lambda>q. \<not> (q \<in> set (p # ps) \<and> ready s q)) (sc_parked s)\<rparr>)"
    by (simp add: rd)
  then show ?case
    by (simp add: bindM_app st) (simp add: s1 tick_def)
qed simp

text \<open>C24. The gate of a combine engine is exact: when no parked combine is past its deadline at the reading the sweep compares it
  with, and the prefill queue accepts those that are due, a sweep over the parked combines returns, hands exactly those whose segments are
  all in the cache to the prefill queue, in their order of arrival, keeps the others parked, and touches nothing else but the clock.\<close>

theorem release_gate_exact:
  assumes "\<forall>k<length (sc_parked s). cf_clock (sc_cf sc) (w_ticks (sd_world s) + k) \<le> pk_deadline (sc_parked s ! k)"
    and "\<forall>p\<in>set (sc_parked s). ready s p \<longrightarrow> ev_bootstrap env (pk_req p) = Inr True"
    and "sd_mode s = PREFILL" "distinct (sc_parked s)"
  shows "try_release_combines sc env s = (Inr (), s\<lparr>
      sd_world := (sd_world s)\<lparr>w_ticks := w_ticks (sd_world s) + length (sc_parked s)\<rparr>,
      sd_bootstrap := sd_bootstrap s @ map pk_req (filter (ready s) (sc_parked s)),
      sc_parked := filter (\<lambda>p. \<not> ready s p) (sc_parked s)\<rparr>)"
proof -
  have "filter (\<lambda>p. \<not> (p \<in> set (sc_parked s) \<and> ready s p)) (sc_parked s) = filter (\<lambda>p. \<not> ready s p) (sc_parked s)"
    by (rule filter_cong) auto
  then show ?thesis
    using release_fold_live [of "sc_parked s" sc s env] assms by (auto simp: try_release_combines_def bindM_app)
qed

theorem release_gate_exact_witness:
  "let s = ex_scat\<lparr>sc_parked := [\<lparr>pk_req = ex_combine, pk_hashes = [ex_hash], pk_deadline = 60\<rparr>,
       \<lparr>pk_req = ex_sreq ''late'' 0 0, pk_hashes = [[1]], pk_deadline = 60\<rparr>]\<rparr>
   in \<exists>w. try_release_combines (ex_sc\<lparr>sc_cf := (sc_cf ex_sc)\<lparr>cf_clock := int\<rparr>\<rparr>) (ex_env []) s =
     (Inr (), s\<lparr>sd_world := w, sd_bootstrap := [ex_combine], sc_parked := [\<lparr>pk_req = ex_sreq ''late'' 0 0, pk_hashes = [[1]], pk_deadline = 60\<rparr>]\<rparr>)"
proof -
  let ?ps = "[\<lparr>pk_req = ex_combine, pk_hashes = [ex_hash], pk_deadline = 60\<rparr>,
       \<lparr>pk_req = ex_sreq ''late'' 0 0, pk_hashes = [[1]], pk_deadline = 60\<rparr>] :: parked_item list"
  let ?s = "ex_scat\<lparr>sc_parked := ?ps\<rparr>" and ?sc = "ex_sc\<lparr>sc_cf := (sc_cf ex_sc)\<lparr>cf_clock := int\<rparr>\<rparr>"
  have pres: "entries_have [ex_hash] ?s" "\<not> entries_have [[1]] ?s"
    by code_simp+
  have "ex_hash \<noteq> [1]"
    by code_simp
  then have d: "distinct ?ps"
    by simp
  have "w_ticks (sd_world ?s) \<le> 50"
    by code_simp
  then have live: "\<forall>k<length ?ps. reading ?sc ?s k \<le> pk_deadline (?ps ! k)"
    by (auto simp: less_Suc_eq)
  have "sd_mode ?s = PREFILL" "sd_bootstrap ?s = []"
    by (simp_all add: ex_scat_defs)
  then show ?thesis
    using release_gate_exact [of ?s ?sc "ex_env []"] pres d live
    by (auto simp: Let_def ex_env_def)
qed

section \<open>The timeout of a combine request\<close>

lemma free_pending_frame:
  "sc_parked (free_pending k info s) = sc_parked s" "sd_waiting (free_pending k info s) = sd_waiting s"
  "sd_sent (free_pending k info s) = sd_sent s" "sd_mode (free_pending k info s) = sd_mode s" "sc_output (free_pending k info s) = sc_output s"
  "map_of (sc_pending (free_pending k info s)) = (map_of (sc_pending s))(k := None)"
  by (simp_all add: free_pending_def drop_pending_def unsee_def world_upd_def delete_conv')

lemma free_fold_frame:
  defines "f \<equiv> \<lambda>k s. case map_of (sc_pending s) k of None \<Rightarrow> s | Some info \<Rightarrow> free_pending k info s"
  shows "sc_parked (fold f ks s) = sc_parked s \<and> sd_waiting (fold f ks s) = sd_waiting s \<and> sd_sent (fold f ks s) = sd_sent s \<and>
    sd_mode (fold f ks s) = sd_mode s \<and> sc_output (fold f ks s) = sc_output s \<and>
    map_of (sc_pending (fold f ks s)) = (\<lambda>k. if k \<in> set ks then None else map_of (sc_pending s) k)"
proof (induction ks arbitrary: s)
  case (Cons k ks)
  have "map_of (sc_pending (f k s)) = (map_of (sc_pending s))(k := None)"
    by (auto simp: f_def free_pending_frame split: option.split)
  then show ?case
    using Cons.IH [of "f k s"] by (auto simp: f_def free_pending_frame fun_eq_iff split: option.split)
qed simp

lemma free_combine_pending_frame:
  defines "g \<equiv> free_combine_pending"
  shows "sc_parked (g r s) = sc_parked s" "sd_waiting (g r s) = sd_waiting s" "sd_sent (g r s) = sd_sent s"
    "sd_mode (g r s) = sd_mode s" "sc_output (g r s) = sc_output s"
    "map_of (sc_pending (g r s)) = (\<lambda>k. if k \<in> item_keys r then None else map_of (sc_pending s) k)"
proof -
  note frame = free_fold_frame [of "filter (\<lambda>k. k \<in> item_keys r) (map fst (sc_pending s))" s]
  show "sc_parked (g r s) = sc_parked s" "sd_waiting (g r s) = sd_waiting s" "sd_sent (g r s) = sd_sent s"
    "sd_mode (g r s) = sd_mode s" "sc_output (g r s) = sc_output s"
    using frame by (simp_all add: g_def free_combine_pending_def)
  have "map_of (sc_pending s) k = None" if "k \<notin> set (map fst (sc_pending s))" for k
    using that by (simp add: map_of_eq_None_iff)
  then show "map_of (sc_pending (g r s)) = (\<lambda>k. if k \<in> item_keys r then None else map_of (sc_pending s) k)"
    using frame by (auto simp: g_def free_combine_pending_def fun_eq_iff)
qed

text \<open>The entries of the stash a combine is waiting for, and what dropping them gives back to the pools.\<close>

definition awaited :: "sched_req \<Rightarrow> 's scat_scheme \<Rightarrow> (scatter_key \<times> pending_info) list" where
  "awaited r s = filter (\<lambda>p. fst p \<in> item_keys r) (sc_pending s)"

lemma free_pending_pools:
  assumes "token_invar (w_kv (sd_world s))"
  shows "token_invar (w_kv (sd_world (free_pending k info s)))"
    "token_owned (w_kv (sd_world (free_pending k info s))) = token_owned (w_kv (sd_world s)) + mset (pi_kv_slots info)"
    "pool_mamba (w_pool (sd_world (free_pending k info s))) = pool_mamba (w_pool (sd_world s)) + {#pi_mamba_slot info#}"
    "w_entries (sd_world (free_pending k info s)) = w_entries (sd_world s)"
  using token_free_owned [OF assms, of "pi_kv_slots info"]
  by (simp_all add: free_pending_def drop_pending_def unsee_def world_upd_def kv_free_def mb_free_def remove_inflight_def)

lemma free_fold_pools:
  defines "f \<equiv> \<lambda>k s. case map_of (sc_pending s) k of None \<Rightarrow> s | Some info \<Rightarrow> free_pending k info s"
  assumes "token_invar (w_kv (sd_world s))" "distinct (map fst xs)" "\<forall>(k, info)\<in>set xs. map_of (sc_pending s) k = Some info"
  shows "token_owned (w_kv (sd_world (fold f (map fst xs) s))) =
      token_owned (w_kv (sd_world s)) + (\<Sum>(k, info)\<leftarrow>xs. mset (pi_kv_slots info)) \<and>
    pool_mamba (w_pool (sd_world (fold f (map fst xs) s))) =
      pool_mamba (w_pool (sd_world s)) + (\<Sum>(k, info)\<leftarrow>xs. {#pi_mamba_slot info#}) \<and>
    w_entries (sd_world (fold f (map fst xs) s)) = w_entries (sd_world s)"
  using assms(2-)
proof (induction xs arbitrary: s)
  case (Cons x xs)
  obtain k info where x: "x = (k, info)" by fastforce
  have fk: "f k s = free_pending k info s"
    using Cons.prems(3) by (simp add: f_def x)
  note pools = free_pending_pools [OF Cons.prems(1), of k info]
  have rest: "\<forall>(k', i)\<in>set xs. map_of (sc_pending (free_pending k info s)) k' = Some i"
    using Cons.prems(2,3) by (force simp: free_pending_frame x)
  show ?case
    using Cons.IH [OF pools(1) _ rest] Cons.prems(2) pools by (simp add: x fk)
qed simp

lemma free_combine_pools:
  assumes "token_invar (w_kv (sd_world s))" "dict_ok (sc_pending s)"
  shows "token_owned (w_kv (sd_world (free_combine_pending r s))) =
      token_owned (w_kv (sd_world s)) + (\<Sum>(k, info)\<leftarrow>awaited r s. mset (pi_kv_slots info)) \<and>
    pool_mamba (w_pool (sd_world (free_combine_pending r s))) =
      pool_mamba (w_pool (sd_world s)) + (\<Sum>(k, info)\<leftarrow>awaited r s. {#pi_mamba_slot info#}) \<and>
    w_entries (sd_world (free_combine_pending r s)) = w_entries (sd_world s)"
proof -
  have keys: "filter (\<lambda>k. k \<in> item_keys r) (map fst (sc_pending s)) = map fst (awaited r s)"
    by (simp add: awaited_def filter_map comp_def)
  have "distinct (map fst (awaited r s))"
    using assms(2) by (simp add: awaited_def distinct_map_filter)
  moreover have "\<forall>(k, info)\<in>set (awaited r s). map_of (sc_pending s) k = Some info"
    using assms(2) by (auto simp: awaited_def)
  ultimately show ?thesis
    unfolding free_combine_pending_def keys by (rule free_fold_pools [OF assms(1)])
qed

lemma release_holds_frame: "\<exists>h. release_combine_holds r s = s\<lparr>sd_world := (sd_world s)\<lparr>w_heap := h\<rparr>\<rparr>"
proof -
  have "\<exists>h. fold unhold hs s = s\<lparr>sd_world := (sd_world s)\<lparr>w_heap := h\<rparr>\<rparr>" for hs
  proof (induction hs arbitrary: s)
    case Nil
    show ?case
      by (intro exI [of _ "w_heap (sd_world s)"]) simp
  next
    case (Cons x hs)
    have "\<exists>h. unhold x s = s\<lparr>sd_world := (sd_world s)\<lparr>w_heap := h\<rparr>\<rparr>"
      by (auto simp: unhold_def lock_add_def upd_entry_def split: option.split intro: exI [of _ "w_heap (sd_world s)"])
    then obtain h where h: "unhold x s = s\<lparr>sd_world := (sd_world s)\<lparr>w_heap := h\<rparr>\<rparr>" ..
    obtain h2 where "fold unhold hs (unhold x s) = (unhold x s)\<lparr>sd_world := (sd_world (unhold x s))\<lparr>w_heap := h2\<rparr>\<rparr>"
      using Cons.IH by blast
    then show ?case
      by (auto simp: h)
  qed
  then show ?thesis
    unfolding release_combine_holds_def .
qed

lemma abort_tail_frame:
  defines "g \<equiv> \<lambda>m all i s. abort_batches all i ((if m then abort_prefill_queues all i else id) s)"
  shows "sc_parked (g m all i s) = sc_parked s" "sc_pending (g m all i s) = sc_pending s" "sd_sent (g m all i s) = sd_sent s"
    "sc_output (g m all i s) = sc_output s" "sd_waiting (g m all i s) = sd_waiting s" "sd_world (g m all i s) = sd_world s"
  by (simp_all add: g_def abort_batches_def abort_prefill_queues_def Let_def)

lemma abort_request_misses:
  assumes "sd_mode s \<noteq> DECODE" "\<forall>r\<in>set (sd_waiting s). \<not> abort_matches all i r"
  shows "\<exists>s'. abort_request cf ra all i s = (Inr (), s') \<and> sc_parked s' = sc_parked s \<and> sc_pending s' = sc_pending s \<and>
    sd_sent s' = sd_sent s \<and> sc_output s' = sc_output s \<and> sd_waiting s' = sd_waiting s \<and> sd_world s' = sd_world s"
proof -
  have f: "filter (\<lambda>r. \<not> abort_matches all i r) (sd_waiting s) = sd_waiting s" "filter (abort_matches all i) (sd_waiting s) = []"
    using assms(2) by (simp_all add: filter_empty_conv)
  obtain mf where "abort_request cf ra all i s = (Inr (), abort_batches all i ((if sd_mode s = PREFILL then abort_prefill_queues all i else id) (s\<lparr>
       sd_pending_chunked_abort := (case sd_chunked s of Some c \<Rightarrow> if abort_matches all i c then Some c else sd_pending_chunked_abort s
          | None \<Rightarrow> sd_pending_chunked_abort s),
       sd_waiting := sd_waiting s, sd_sent := sd_sent s, sd_metadata_free := mf, sd_grammar := grammar_abort all i (sd_grammar s)\<rparr>)))"
    using abort_request_spec [of s all i cf ra] assms by (auto simp: f)
  then show ?thesis
    by (intro exI conjI) (assumption, simp_all only: abort_tail_frame, simp_all)
qed

text \<open>C25. A combine that waits too long is dropped without an answer: it leaves the parked list, the announcements it was waiting for
  leave the stash, and exactly their KV and mamba slots return to the free pools, while the cached segments stay; but since
  \<open>abort_request\<close> does not look at the parked list, no abort message is sent and nothing is streamed when no queued request shares its id.\<close>

theorem combine_timeout_unanswered:
  assumes "cf_clock (sc_cf sc) (w_ticks (sd_world s)) > pk_deadline p" "p \<in> set (sc_parked s)" "sd_mode s \<noteq> DECODE"
    and none: "\<forall>r\<in>set (sd_waiting s). \<not> abort_matches False (rid (pk_req p)) r"
    and wf: "token_invar (w_kv (sd_world s))" "dict_ok (sc_pending s)"
  shows "\<exists>s'. release_step sc env p s = (Inr (), s') \<and> sc_parked s' = remove1 p (sc_parked s) \<and>
    map_of (sc_pending s') = (\<lambda>k. if k \<in> item_keys (pk_req p) then None else map_of (sc_pending s) k) \<and>
    token_owned (w_kv (sd_world s')) =
      token_owned (w_kv (sd_world s)) + (\<Sum>(k, info)\<leftarrow>awaited (pk_req p) s. mset (pi_kv_slots info)) \<and>
    mamba_owned (mamba_allocator (w_pool (sd_world s'))) =
      mamba_owned (mamba_allocator (w_pool (sd_world s))) + (\<Sum>(k, info)\<leftarrow>awaited (pk_req p) s. {#pi_mamba_slot info#}) \<and>
    w_entries (sd_world s') = w_entries (sd_world s) \<and>
    sd_sent s' = sd_sent s \<and> sc_output s' = sc_output s \<and> sd_waiting s' = sd_waiting s"
proof -
  let ?r = "pk_req p" and ?s0 = "s\<lparr>sd_world := tick (sd_world s)\<rparr>"
  let ?s1 = "free_combine_pending ?r ?s0"
  obtain h where h: "release_combine_holds ?r ?s1 = ?s1\<lparr>sd_world := (sd_world ?s1)\<lparr>w_heap := h\<rparr>\<rparr>"
    using release_holds_frame by blast
  define s2 where "s2 = ?s1\<lparr>sd_world := (sd_world ?s1)\<lparr>w_heap := h\<rparr>\<rparr>"
  have s2: "sd_mode s2 = sd_mode s" "sd_waiting s2 = sd_waiting s" "sd_sent s2 = sd_sent s" "sc_parked s2 = sc_parked s" "sc_output s2 = sc_output s"
    "map_of (sc_pending s2) = (\<lambda>k. if k \<in> item_keys ?r then None else map_of (sc_pending s) k)"
    by (simp_all add: s2_def free_combine_pending_frame cong: if_cong)
  have "awaited ?r ?s0 = awaited ?r s"
    by (simp add: awaited_def)
  then have pools: "token_owned (w_kv (sd_world s2)) =
      token_owned (w_kv (sd_world s)) + (\<Sum>(k, info)\<leftarrow>awaited ?r s. mset (pi_kv_slots info))"
    "pool_mamba (w_pool (sd_world s2)) = pool_mamba (w_pool (sd_world s)) + (\<Sum>(k, info)\<leftarrow>awaited ?r s. {#pi_mamba_slot info#})"
    "w_entries (sd_world s2) = w_entries (sd_world s)"
    using free_combine_pools [of ?s0 ?r] wf by (simp_all add: s2_def tick_def)
  obtain s3 where s3: "abort_request (sc_cf sc) (sc_ra sc) False (rid ?r) s2 = (Inr (), s3)" "sc_parked s3 = sc_parked s2"
    "sc_pending s3 = sc_pending s2" "sd_sent s3 = sd_sent s2" "sc_output s3 = sc_output s2" "sd_waiting s3 = sd_waiting s2"
    "sd_world s3 = sd_world s2"
    using abort_request_misses [of s2 False "rid ?r" "sc_cf sc" "sc_ra sc"] none assms(3) by (auto simp: s2(1,2))
  have "release_step sc env p s = (Inr (), s3\<lparr>sc_parked := remove1 p (sc_parked s)\<rparr>)"
    using assms(1,2) s3 by (simp add: release_step_def bindM_app nowM_def monotonic_def h s2(4) removeM_def flip: s2_def)
  then show ?thesis
    using pools by (simp add: s2 s3)
qed

theorem combine_timeout_unanswered_witness:
  "let p = \<lparr>pk_req = ex_combine, pk_hashes = [[1]], pk_deadline = -1\<rparr>;
     s = ex_scat\<lparr>sc_parked := [p], sc_pending := [((9, 0), ex_info\<lparr>pi_kv_slots := [6, 7], pi_mamba_slot := 8\<rparr>)]\<rparr>
   in \<exists>s'. release_step ex_sc (ex_env []) p s = (Inr (), s') \<and> sc_parked s' = [] \<and> sd_sent s' = [] \<and> sc_output s' = [] \<and>
     token_owned (w_kv (sd_world s')) = token_owned (w_kv (sd_world s)) + {#6, 7#} \<and>
     mamba_owned (mamba_allocator (w_pool (sd_world s'))) = mamba_owned (mamba_allocator (w_pool (sd_world s))) + {#8#}"
proof -
  let ?p = "\<lparr>pk_req = ex_combine, pk_hashes = [[1]], pk_deadline = -1\<rparr> :: parked_item"
  let ?s = "ex_scat\<lparr>sc_parked := [?p], sc_pending := [((9, 0), ex_info\<lparr>pi_kv_slots := [6, 7], pi_mamba_slot := 8\<rparr>)]\<rparr>"
  have facts: "cf_clock (sc_cf ex_sc) (w_ticks (sd_world ?s)) > pk_deadline ?p" "sd_mode ?s \<noteq> DECODE" "sd_sent ?s = []" "sc_output ?s = []"
    "\<forall>r\<in>set (sd_waiting ?s). \<not> abort_matches False (rid (pk_req ?p)) r" "token_invar (w_kv (sd_world ?s))"
    "(9, 0) \<in> item_keys ex_combine"
    by code_simp+
  then have aw: "awaited ex_combine ?s = [((9, 0), ex_info\<lparr>pi_kv_slots := [6, 7], pi_mamba_slot := 8\<rparr>)]"
    by (simp add: awaited_def)
  obtain s' where s': "release_step ex_sc (ex_env []) ?p ?s = (Inr (), s')" "sc_parked s' = remove1 ?p (sc_parked ?s)"
    "token_owned (w_kv (sd_world s')) = token_owned (w_kv (sd_world ?s)) + (\<Sum>(k, info)\<leftarrow>awaited (pk_req ?p) ?s. mset (pi_kv_slots info))"
    "mamba_owned (mamba_allocator (w_pool (sd_world s'))) =
      mamba_owned (mamba_allocator (w_pool (sd_world ?s))) + (\<Sum>(k, info)\<leftarrow>awaited (pk_req ?p) ?s. {#pi_mamba_slot info#})"
    "sd_sent s' = sd_sent ?s" "sc_output s' = sc_output ?s"
    using combine_timeout_unanswered [of ?p ex_sc ?s "ex_env []"] facts by auto
  show ?thesis
    unfolding Let_def by (intro exI [of _ s'] conjI) (use s' facts(3,4) in \<open>simp_all add: aw\<close>)
qed

section \<open>Billing\<close>

abbreviation item_key :: "combine_item \<Rightarrow> scatter_key" where
  "item_key it \<equiv> (ci_room it, ci_seg_index it)"

lemma cached_tokens_loop_run:
  assumes "distinct (map item_key items)" "\<forall>it\<in>set items. 0 \<le> ci_seg_index it \<and> ci_seg_index it < int (length segs)"
  shows "cached_tokens_loop segs items acc s = (Inr (acc + (\<Sum>it\<leftarrow>items.
      if map_of (sc_seg_recomputed s) (item_key it) = Some False then size_of (segs ! nat (ci_seg_index it)) else 0)),
    s\<lparr>sc_seg_recomputed := fold AList.delete (map item_key items) (sc_seg_recomputed s)\<rparr>)"
  using assms
proof (induction items arbitrary: acc s)
  case (Cons it items)
  let ?s1 = "s\<lparr>sc_seg_recomputed := AList.delete (item_key it) (sc_seg_recomputed s)\<rparr>"
  have eq: "map_of (sc_seg_recomputed ?s1) (item_key x) = map_of (sc_seg_recomputed s) (item_key x)" if "x \<in> set items" for x
  proof -
    have "item_key x \<noteq> item_key it"
      using Cons.prems(1) that by (metis (no_types, lifting) distinct.simps(2) image_eqI list.simps(9) set_map)
    then show ?thesis
      by (auto simp: delete_conv')
  qed
  have sum: "(\<Sum>x\<leftarrow>items. if map_of (sc_seg_recomputed ?s1) (item_key x) = Some False then size_of (segs ! nat (ci_seg_index x)) else 0) =
      (\<Sum>x\<leftarrow>items. if map_of (sc_seg_recomputed s) (item_key x) = Some False then size_of (segs ! nat (ci_seg_index x)) else 0)"
    by (intro arg_cong [where f = sum_list] map_cong) (simp_all only: eq)
  have run: "cached_tokens_loop segs items a ?s1 = (Inr (a + (\<Sum>x\<leftarrow>items.
      if map_of (sc_seg_recomputed s) (item_key x) = Some False then size_of (segs ! nat (ci_seg_index x)) else 0)),
    s\<lparr>sc_seg_recomputed := fold AList.delete (map item_key (it # items)) (sc_seg_recomputed s)\<rparr>)" for a
    using Cons.IH [of a ?s1] Cons.prems unfolding sum by simp
  have idx: "py_index segs (ci_seg_index it) = Inr (segs ! nat (ci_seg_index it))"
    using Cons.prems(2) by (simp add: py_index_def)
  show ?case
    using run by (auto simp: bindM_app idx Let_def split: option.split)
qed simp

text \<open>C26. A combine request is billed as cached exactly the tokens of the segments whose worker reported a hit: a missing
  flag counts as recomputed, and the flags it consumes are gone afterwards, so that no segment is billed twice.\<close>

theorem combine_billing_exact:
  assumes "pic_combine r = Some items" "pic_segments r = Some segs" "distinct (map item_key items)"
    and "\<forall>it\<in>set items. 0 \<le> ci_seg_index it \<and> ci_seg_index it < int (length segs)"
  shows "\<exists>s'. pic_combine_cached_tokens r s = (Inr (\<Sum>it\<leftarrow>items.
      if map_of (sc_seg_recomputed s) (item_key it) = Some False then size_of (segs ! nat (ci_seg_index it)) else 0), s') \<and>
    map_of (sc_seg_recomputed s') = (\<lambda>k. if k \<in> item_keys r then None else map_of (sc_seg_recomputed s) k) \<and> sd_world s' = sd_world s"
proof -
  have del: "map_of (fold AList.delete ks al) = (\<lambda>k. if k \<in> set ks then None else map_of al k)" for ks and al :: "(scatter_key \<times> bool) list"
    by (induction ks arbitrary: al) (auto simp: fun_eq_iff delete_conv')
  show ?thesis
    using cached_tokens_loop_run [OF assms(3,4), of 0 s] assms(1,2)
    by (simp add: pic_combine_cached_tokens_def del item_keys_def)
qed

theorem combine_billing_exact_witness:
  "let s = ex_scat\<lparr>sc_seg_recomputed := [((9, 0), False)]\<rparr>
   in \<exists>s'. pic_combine_cached_tokens ex_combine s = (Inr 2, s') \<and> map_of (sc_seg_recomputed s') (9, 0) = None"
  using combine_billing_exact [of ex_combine "[\<lparr>ci_seg_index = 0, ci_worker_addr = ''w1'', ci_room = 9\<rparr>]" "[(0, 2), (2, 3)]"
      "ex_scat\<lparr>sc_seg_recomputed := [((9, 0), False)]\<rparr>"]
  by (auto simp: ex_combine_def Let_def size_of_def item_keys_def)

section \<open>A synchronous write\<close>

lemma map_result_all: "map_result f xs = Inr ys \<Longrightarrow> \<forall>y\<in>set ys. y = c \<Longrightarrow> \<forall>x\<in>set xs. f x = Inr c"
  by (induction xs arbitrary: ys) (auto split: sum.splits)

lemma wait_loop_returns:
  assumes "clock (t + d) > deadline"
  shows "\<exists>res t'. wait_loop poll clock handles deadline n t = Some (res, t') \<and>
    (res = Inr () \<longrightarrow> (\<exists>m. \<forall>x\<in>set handles. poll m x = Inr DONE))"
  using assms
proof (induction d arbitrary: n t)
  case 0
  then show ?case
    using map_result_all [of "poll n" handles _ DONE]
    by (subst wait_loop.simps) (auto split: sum.split simp: list_all_iff)
next
  case (Suc d)
  have "\<exists>res t'. wait_loop poll clock handles deadline (n + 1) (t + 1) = Some (res, t') \<and>
      (res = Inr () \<longrightarrow> (\<exists>m. \<forall>x\<in>set handles. poll m x = Inr DONE))"
    using Suc by simp
  then show ?case
    using map_result_all [of "poll n" handles _ DONE]
    by (subst wait_loop.simps) (auto split: sum.split simp: list_all_iff)
qed

text \<open>C27. A synchronous write never hangs the scheduler: whatever the transport reports, the wait returns as soon as the
  clock is ten seconds past its start, with success only if all transfers were reported done at once, and the pin of the source entry is
  released again, also after an error.\<close>

theorem sync_write_returns:
  assumes "fire_write env h i k (lock_add 1 i s) = (Inr handles, s1)" and "lock_ref (w_heap (sd_world s) i) \<ge> 0"
    and "cf_clock (sc_cf sc) (w_ticks (sd_world s) + 1 + d) > cf_clock (sc_cf sc) (w_ticks (sd_world s)) + 10"
  shows "\<exists>res s'. start_write_sync sc env poll h i k s = Some (res, s') \<and> w_heap (sd_world s') = w_heap (sd_world s) \<and>
    (res = Inr () \<longrightarrow> (\<exists>m. \<forall>x\<in>set handles. poll m x = Inr DONE))"
proof -
  obtain pr where s1: "s1 = (lock_add 1 i s)\<lparr>sc_push_recomputed := pr\<rparr>"
    using fire_write_frame(1) [OF assms(1)] by blast
  have w1: "w_heap (sd_world s1) = (w_heap (sd_world s))(i := (w_heap (sd_world s) i)\<lparr>lock_ref := lock_ref (w_heap (sd_world s) i) + 1\<rparr>)"
    "w_ticks (sd_world s1) = w_ticks (sd_world s)"
    by (simp_all add: s1 lock_add_def upd_entry_def)
  obtain res t' where wd: "wait_done poll (cf_clock (sc_cf sc)) handles (w_ticks (sd_world s1)) = Some (res, t')"
    "res = Inr () \<longrightarrow> (\<exists>m. \<forall>x\<in>set handles. poll m x = Inr DONE)"
    using wait_loop_returns [where clock = "cf_clock (sc_cf sc)" and t = "w_ticks (sd_world s) + 1", OF assms(3), of poll handles 0]
    by (auto simp: wait_done_def w1)
  have "start_write_sync sc env poll h i k s = Some (res, lock_add (-1) i (world_upd (\<lambda>w. w\<lparr>w_ticks := t'\<rparr>) s1))"
    using wd(1) assms(2) by (simp add: start_write_sync_def assms(1) Let_def world_upd_def w1)
  moreover have "w_heap (sd_world (lock_add (-1) i (world_upd (\<lambda>w. w\<lparr>w_ticks := t'\<rparr>) s1))) = w_heap (sd_world s)"
    by (simp add: lock_add_def upd_entry_def world_upd_def w1)
  ultimately show ?thesis
    using wd(2) by blast
qed

definition ex_handle :: scatter_handle where
  "ex_handle = \<lparr>h_room = 7, h_seg_index = 0, agent_meta_b64 = ''meta'', dst_kv_ptrs = [100], dst_kv_item_len = [8],
     dst_state_data_ptrs = [200], dst_state_item_lens = [8], dst_state_dim_per_tensor = None, dst_kv_indices = [3, 4],
     dst_state_indices = [2], notif_kv = ''7|0|kv'', notif_mamba = ''7|0|mamba''\<rparr>"

theorem sync_write_returns_witness:
  "let sc = ex_sc\<lparr>sc_cf := (sc_cf ex_sc)\<lparr>cf_clock := int\<rparr>\<rparr>
   in \<exists>res s'. start_write_sync sc (ex_env []) (\<lambda>_ _. Inr PROC) ex_handle 0 (7, 0) ex_scat = Some (res, s') \<and> res \<noteq> Inr ()"
proof -
  let ?sc = "ex_sc\<lparr>sc_cf := (sc_cf ex_sc)\<lparr>cf_clock := int\<rparr>\<rparr>"
  have "fst (fire_write (ex_env []) ex_handle 0 (7, 0) (lock_add 1 0 ex_scat)) = Inr [1, 2]" "lock_ref (w_heap (sd_world ex_scat) 0) \<ge> 0"
    by code_simp+
  then obtain s1 where "fire_write (ex_env []) ex_handle 0 (7, 0) (lock_add 1 0 ex_scat) = (Inr [1, 2], s1)"
    by (metis prod.collapse)
  then show ?thesis
    using sync_write_returns [of "ex_env []" ex_handle 0 "(7, 0)" ex_scat "[1, 2]" s1 ?sc 11 "\<lambda>_ _. Inr PROC"]
      \<open>lock_ref (w_heap (sd_world ex_scat) 0) \<ge> 0\<close> by (auto simp: Let_def)
qed

section \<open>Order of the waiting queue\<close>

text \<open>Ready combines are moved in front of the segment prefills and the order of arrival is kept inside both groups.\<close>

lemma partition_combine_first_stable:
  "partition_combine_first q = filter is_pic_combine q @ filter (\<lambda>r. \<not> is_pic_combine r) q"
proof (induction q)
  case (Cons r q)
  let ?k = "\<lambda>r :: sched_req. if is_pic_combine r then 0 else (1::nat)"
  have skip: "\<forall>x\<in>set xs. is_pic_combine x \<Longrightarrow> \<forall>x\<in>set ys. \<not> is_pic_combine x \<Longrightarrow> \<not> is_pic_combine r \<Longrightarrow>
      insort_key ?k r (xs @ ys) = xs @ r # ys" for xs ys
    by (induction xs) (simp_all add: insort_is_Cons)
  have "partition_combine_first (r # q) = insort_key ?k r (partition_combine_first q)"
    by (simp add: partition_combine_first_def)
  also have "\<dots> = insort_key ?k r (filter is_pic_combine q @ filter (\<lambda>r. \<not> is_pic_combine r) q)"
    unfolding Cons.IH ..
  also have "\<dots> = filter is_pic_combine (r # q) @ filter (\<lambda>r. \<not> is_pic_combine r) (r # q)"
  proof (cases "is_pic_combine r")
    case True
    then have "insort_key ?k r xs = r # xs" for xs
      by (intro insort_is_Cons) simp
    then show ?thesis
      by (simp only: filter.simps True if_True not_True_eq_False if_False append_Cons)
  next
    case False
    then have "insort_key ?k r (filter is_pic_combine q @ filter (\<lambda>r. \<not> is_pic_combine r) q) =
        filter is_pic_combine q @ r # filter (\<lambda>r. \<not> is_pic_combine r) q"
      by (intro skip) simp_all
    then show ?thesis
      by (simp only: filter.simps False if_False if_True not_False_eq_True)
  qed
  finally show ?case .
qed (simp add: partition_combine_first_def)

end
