(* ===== verification/Radix_Key.thy ===== *)
theory Radix_Key
  imports Prelude "HOL-Library.Sublist"
begin

text \<open>
  Class \<open>RadixKey\<close> of \<^verbatim>\<open>mem_cache/radix_cache.py\<close>: a token sequence with a namespace tag, read either token by token or as
  overlapping pairs (bigrams), optionally capped without a copy. The logical units of a key are \<open>key_iter\<close>; slicing, page
  alignment and the galloping comparison are shown to be what they are on that list of units.
\<close>

section \<open>The key\<close>

record radix_key =
  rk_token_ids :: "int list"
  rk_extra_key :: "string option"
  rk_is_bigram :: bool
  rk_limit :: "nat option"

datatype logical_unit = Token int | Bigram int int

definition raw_len :: "radix_key \<Rightarrow> nat" where
  "raw_len k = (let n = length (rk_token_ids k) in case rk_limit k of Some l \<Rightarrow> if l < n then l else n | None \<Rightarrow> n)"

definition raw_token_ids :: "radix_key \<Rightarrow> int list" where
  "raw_token_ids k =
     (let n = raw_len k; t = rk_token_ids k in if n = length t then t else take n t)"

definition key_len :: "radix_key \<Rightarrow> nat" where
  "key_len k = (let n = raw_len k in if rk_is_bigram k then (if n > 0 then n - 1 else 0) else n)"

definition key_iter :: "radix_key \<Rightarrow> logical_unit list" where
  "key_iter k =
     (let t = rk_token_ids k; n = raw_len k
      in if rk_is_bigram k then map (\<lambda>i. Bigram (t ! i) (t ! (i + 1))) [0..<(if n > 0 then n - 1 else 0)]
         else if n = length t then map Token t
         else map (\<lambda>i. Token (t ! i)) [0..<n])"

section \<open>Slices\<close>

text \<open>\<open>__getitem__\<close> takes an index or a slice; \<open>slice_bound\<close> is how \<open>slice.indices\<close> clips one bound for step 1.\<close>

datatype py_subscript = Index int | Slice "int option" "int option" "int option"

definition slice_bound :: "nat \<Rightarrow> nat \<Rightarrow> int option \<Rightarrow> nat" where
  "slice_bound n dflt b =
     (case b of
        None \<Rightarrow> dflt
      | Some i \<Rightarrow> if i < 0 then nat (max 0 (int n + i)) else nat (min (int n) i))"

definition slice_key :: "nat \<Rightarrow> nat \<Rightarrow> radix_key \<Rightarrow> radix_key" where
  "slice_key start stop k =
     (if rk_is_bigram k
      then \<lparr>rk_token_ids = (if stop > start then take (stop + 1 - start) (drop start (rk_token_ids k)) else []),
            rk_extra_key = rk_extra_key k, rk_is_bigram = True, rk_limit = None\<rparr>
      else \<lparr>rk_token_ids = take (stop - start) (drop start (rk_token_ids k)),
            rk_extra_key = rk_extra_key k, rk_is_bigram = False, rk_limit = None\<rparr>)"

fun key_getitem :: "radix_key \<Rightarrow> py_subscript \<Rightarrow> radix_key result" where
  "key_getitem k (Slice start stop step) =
     (if step \<noteq> None \<and> step \<noteq> Some 1 then Inl ValueError
      else Inr (slice_key (slice_bound (key_len k) 0 start) (slice_bound (key_len k) (key_len k) stop) k))"
| "key_getitem k (Index idx) =
     (let i = (if idx < 0 then idx + int (key_len k) else idx)
      in if i < 0 \<or> i \<ge> int (key_len k) then Inl IndexError
         else Inr (slice_key (slice_bound (key_len k) 0 (Some i)) (slice_bound (key_len k) (key_len k) (Some (i + 1))) k))"

text \<open>The two forms the tree uses, \<open>key[:n]\<close> and \<open>key[n:]\<close>.\<close>

definition key_take :: "nat \<Rightarrow> radix_key \<Rightarrow> radix_key" where
  "key_take n k = slice_key 0 (min n (key_len k)) k"

definition key_drop :: "nat \<Rightarrow> radix_key \<Rightarrow> radix_key" where
  "key_drop n k = slice_key (min n (key_len k)) (key_len k) k"

definition page_aligned :: "nat \<Rightarrow> radix_key \<Rightarrow> radix_key" where
  "page_aligned page_size k =
     (if page_size = 1 then k else key_take (key_len k div page_size * page_size) k)"

definition maybe_to_bigram_view :: "bool \<Rightarrow> radix_key \<Rightarrow> 'v list option \<Rightarrow> radix_key \<times> 'v list option" where
  "maybe_to_bigram_view is_eagle k value =
     (if is_eagle \<and> \<not> rk_is_bigram k
      then let k' = k\<lparr>rk_is_bigram := True\<rparr> in (k', map_option (take (key_len k')) value)
      else (k, value))"

section \<open>Comparison\<close>

definition slice_of :: "nat \<Rightarrow> nat \<Rightarrow> 'a list \<Rightarrow> 'a list" where
  "slice_of lo hi xs = take (hi - lo) (drop lo xs)"

text \<open>The binary search of the diverging window, and the doubling search for that window; the step is \<open>2 ^ e\<close>.\<close>

function bisect :: "'a list \<Rightarrow> 'a list \<Rightarrow> nat \<Rightarrow> nat \<Rightarrow> nat" where
  "bisect t0 t1 lo hi =
     (if hi - lo > 1
      then let mid = (lo + hi) div 2
           in if slice_of lo mid t0 = slice_of lo mid t1 then bisect t0 t1 mid hi else bisect t0 t1 lo mid
      else lo)"
  by auto
termination
  by (relation "measure (\<lambda>(t0, t1, lo, hi). hi - lo)") auto

function gallop :: "'a list \<Rightarrow> 'a list \<Rightarrow> nat \<Rightarrow> nat \<Rightarrow> nat \<Rightarrow> nat" where
  "gallop t0 t1 n lo e =
     (if lo < n
      then let hi = (if lo + 2 ^ e < n then lo + 2 ^ e else n)
           in if slice_of lo hi t0 \<noteq> slice_of lo hi t1 then bisect t0 t1 lo hi
              else gallop t0 t1 n hi (e + 1)
      else n)"
  by auto
termination
  by (relation "measure (\<lambda>(t0, t1, n, lo, e). n - lo)") (auto intro!: diff_less_mono2)

declare bisect.simps [simp del] gallop.simps [simp del]

definition check_compatible :: "radix_key \<Rightarrow> radix_key \<Rightarrow> unit result" where
  "check_compatible k other = (if rk_extra_key k \<noteq> rk_extra_key other then Inl ValueError else Inr ())"

definition key_match :: "radix_key \<Rightarrow> radix_key \<Rightarrow> nat \<Rightarrow> nat result" where
  "key_match k other page_size =
     (case check_compatible k other of
        Inl e \<Rightarrow> Inl e
      | Inr _ \<Rightarrow>
          let t0 = rk_token_ids k; t1 = rk_token_ids other;
              matched_tokens = gallop t0 t1 (min (length t0) (length t1)) 0 0
          in if rk_is_bigram k
             then let matched = min (matched_tokens - 1) (min (key_len k) (key_len other))
                  in Inr (if page_size > 1 then matched div page_size * page_size else matched)
             else let matched = min matched_tokens (min (key_len k) (key_len other))
                  in Inr (if page_size = 1 then matched else matched div page_size * page_size))"

text \<open>The dictionary key of a child: the first page of units, tagged with the namespace. Indexing past the tokens raises.\<close>

type_synonym child_id = "string option \<times> logical_unit list"

definition child_key :: "nat \<Rightarrow> radix_key \<Rightarrow> child_id result" where
  "child_key page_size k =
     (let t = rk_token_ids k
      in if rk_is_bigram k
         then if length t \<le> page_size then Inl IndexError
              else Inr (rk_extra_key k, map (\<lambda>j. Bigram (t ! j) (t ! (j + 1))) [0..<page_size])
         else if page_size = 1
         then if t = [] then Inl IndexError else Inr (rk_extra_key k, [Token (hd t)])
         else Inr (rk_extra_key k, map Token (take page_size t)))"

section \<open>What the operations are on the units\<close>

lemma raw_len_le: "raw_len k \<le> length (rk_token_ids k)"
  by (simp add: raw_len_def Let_def split: option.split)

lemma key_iter_alt:
  "key_iter k = (if rk_is_bigram k then map (\<lambda>i. Bigram (rk_token_ids k ! i) (rk_token_ids k ! (i + 1))) [0..<key_len k]
     else map Token (take (key_len k) (rk_token_ids k)))"
proof -
  have "map (\<lambda>i. Token (rk_token_ids k ! i)) [0..<raw_len k] = map Token (take (raw_len k) (rk_token_ids k))"
    using raw_len_le [of k] by (intro nth_equalityI) auto
  then show ?thesis
    by (simp add: key_iter_def key_len_def Let_def)
qed

lemma length_key_iter [simp]: "length (key_iter k) = key_len k"
  using raw_len_le [of k] by (auto simp: key_iter_alt key_len_def Let_def)

lemma raw_token_ids_take: "raw_token_ids k = take (raw_len k) (rk_token_ids k)"
  by (simp add: raw_token_ids_def Let_def)

lemma key_len_raw:
  "rk_is_bigram k \<Longrightarrow> key_len k = raw_len k - 1" "\<not> rk_is_bigram k \<Longrightarrow> key_len k = raw_len k"
  by (simp_all add: key_len_def Let_def)

lemma slice_key_iter:
  assumes "start \<le> stop" "stop \<le> key_len k"
  shows "key_iter (slice_key start stop k) = take (stop - start) (drop start (key_iter k))"
    "key_len (slice_key start stop k) = stop - start"
proof -
  have len: "key_len k \<le> length (rk_token_ids k)" "rk_is_bigram k \<Longrightarrow> stop > start \<Longrightarrow> stop < length (rk_token_ids k)"
    using raw_len_le [of k] assms by (auto simp: key_len_def Let_def split: if_splits)
  show *: "key_len (slice_key start stop k) = stop - start"
    using len assms by (auto simp: slice_key_def key_len_def raw_len_def Let_def)
  show "key_iter (slice_key start stop k) = take (stop - start) (drop start (key_iter k))"
  proof (rule nth_equalityI)
    show "length (key_iter (slice_key start stop k)) = length (take (stop - start) (drop start (key_iter k)))"
      using assms by (simp add: *)
  next
    fix i
    assume "i < length (key_iter (slice_key start stop k))"
    then have "i < stop - start"
      by (simp add: *)
    then show "key_iter (slice_key start stop k) ! i = take (stop - start) (drop start (key_iter k)) ! i"
      using assms len * by (simp add: key_iter_alt) (auto simp: slice_key_def)
  qed
qed

lemma key_take_iter [simp]: "key_iter (key_take n k) = take n (key_iter k)" "key_len (key_take n k) = min n (key_len k)"
  using slice_key_iter [of 0 "min n (key_len k)" k] by (auto simp: key_take_def min_def)

lemma key_drop_iter [simp]: "key_iter (key_drop n k) = drop n (key_iter k)" "key_len (key_drop n k) = key_len k - n"
  using slice_key_iter [of "min n (key_len k)" "key_len k" k] by (auto simp: key_drop_def min_def)

lemma slice_key_fields [simp]:
  "rk_extra_key (slice_key a b k) = rk_extra_key k" "rk_is_bigram (slice_key a b k) = rk_is_bigram k"
  by (simp_all add: slice_key_def)

lemma key_part_fields [simp]:
  "rk_extra_key (key_take n k) = rk_extra_key k" "rk_is_bigram (key_take n k) = rk_is_bigram k"
  "rk_extra_key (key_drop n k) = rk_extra_key k" "rk_is_bigram (key_drop n k) = rk_is_bigram k"
  "rk_extra_key (page_aligned ps k) = rk_extra_key k" "rk_is_bigram (page_aligned ps k) = rk_is_bigram k"
  by (simp_all add: key_take_def key_drop_def page_aligned_def)

section \<open>The galloping comparison\<close>

lemma slice_of_split: "lo \<le> mid \<Longrightarrow> mid \<le> hi \<Longrightarrow> slice_of lo hi xs = slice_of lo mid xs @ slice_of mid hi xs"
proof -
  assume "lo \<le> mid" "mid \<le> hi"
  then have "hi - lo = (mid - lo) + (hi - mid)" "drop mid xs = drop (mid - lo) (drop lo xs)"
    by simp_all
  then show ?thesis
    by (simp add: slice_of_def take_add)
qed

lemma take_slice: "lo \<le> hi \<Longrightarrow> take hi xs = take lo xs @ slice_of lo hi xs"
  using take_add [of lo "hi - lo" xs] by (simp add: slice_of_def)

lemma bisect_first_difference:
  assumes "lo < hi" "hi \<le> length t0" "hi \<le> length t1" "take lo t0 = take lo t1" "slice_of lo hi t0 \<noteq> slice_of lo hi t1"
  shows "bisect t0 t1 lo hi < hi \<and> take (bisect t0 t1 lo hi) t0 = take (bisect t0 t1 lo hi) t1 \<and>
    t0 ! bisect t0 t1 lo hi \<noteq> t1 ! bisect t0 t1 lo hi"
  using assms
proof (induction t0 t1 lo hi rule: bisect.induct)
  case (1 t0 t1 lo hi)
  let ?mid = "(lo + hi) div 2"
  show ?case
  proof (cases "hi - lo > 1")
    case False
    then have "hi = Suc lo"
      using 1(3) by simp
    then show ?thesis
      using 1(4-7) by (simp add: bisect.simps [of t0 t1 lo "Suc lo"] slice_of_def hd_drop_conv_nth take_Suc)
  next
    case True
    then have mid: "lo < ?mid" "?mid < hi"
      by simp_all
    show ?thesis
    proof (cases "slice_of lo ?mid t0 = slice_of lo ?mid t1")
      case eq: True
      have "slice_of ?mid hi t0 \<noteq> slice_of ?mid hi t1" "take ?mid t0 = take ?mid t1"
        using 1(6,7) eq mid slice_of_split [of lo ?mid hi t0] slice_of_split [of lo ?mid hi t1]
          take_slice [of lo ?mid t0] take_slice [of lo ?mid t1] by simp_all
      then show ?thesis
        using 1(1) [OF True refl eq mid(2) 1(4,5)] True eq by (simp add: bisect.simps [of t0 t1 lo hi] Let_def)
    next
      case ne: False
      then show ?thesis
        using 1(2) [OF True refl ne mid(1)] 1(4-6) mid True by (simp add: bisect.simps [of t0 t1 lo hi] Let_def)
    qed
  qed
qed

lemma gallop_first_difference:
  assumes "lo \<le> n" "n = min (length t0) (length t1)" "take lo t0 = take lo t1"
  shows "gallop t0 t1 n lo e \<le> n \<and> take (gallop t0 t1 n lo e) t0 = take (gallop t0 t1 n lo e) t1 \<and>
    (gallop t0 t1 n lo e < n \<longrightarrow> t0 ! gallop t0 t1 n lo e \<noteq> t1 ! gallop t0 t1 n lo e)"
  using assms
proof (induction t0 t1 n lo e rule: gallop.induct)
  case (1 t0 t1 n lo e)
  let ?hi = "if lo + 2 ^ e < n then lo + 2 ^ e else n"
  show ?case
  proof (cases "lo < n")
    case False
    then show ?thesis
      using 1(2,4) by (simp add: gallop.simps [of t0 t1 n n e])
  next
    case True
    then have hi: "lo < ?hi" "?hi \<le> length t0" "?hi \<le> length t1" "?hi \<le> n"
      using 1(3) by auto
    show ?thesis
    proof (cases "slice_of lo ?hi t0 = slice_of lo ?hi t1")
      case eq: True
      have "take ?hi t0 = take ?hi t1"
        using 1(4) eq hi(1) take_slice [of lo ?hi t0] take_slice [of lo ?hi t1] by simp
      then show ?thesis
        using 1(1) [OF True refl _ hi(4) 1(3)] eq True by (simp add: gallop.simps [of t0 t1 n lo e] Let_def)
    next
      case False
      then show ?thesis
        using bisect_first_difference [OF hi(1-3) 1(4) False] True hi(4)
        by (simp add: gallop.simps [of t0 t1 n lo e] Let_def)
    qed
  qed
qed

abbreviation lcp_len :: "'a list \<Rightarrow> 'a list \<Rightarrow> nat" where
  "lcp_len xs ys \<equiv> length (longest_common_prefix xs ys)"

lemma lcp_lenI:
  assumes "m \<le> length xs" "m \<le> length ys" "take m xs = take m ys" "m < length xs \<Longrightarrow> m < length ys \<Longrightarrow> xs ! m \<noteq> ys ! m"
  shows "lcp_len xs ys = m"
  using assms
proof (induction xs ys arbitrary: m rule: longest_common_prefix.induct)
  case (1 x xs y ys)
  then show ?case
    by (cases m) auto
qed auto

lemma nth_take_eq: "take m xs = take m ys \<Longrightarrow> i < m \<Longrightarrow> xs ! i = ys ! i"
  by (metis nth_take)

lemma key_match_common:
  assumes "rk_is_bigram k = rk_is_bigram other" "page_size > 0"
  shows "key_match k other page_size =
    (if rk_extra_key k = rk_extra_key other then Inr (lcp_len (key_iter k) (key_iter other) div page_size * page_size) else Inl ValueError)"
proof -
  let ?t0 = "rk_token_ids k" and ?t1 = "rk_token_ids other"
  define m where "m = gallop ?t0 ?t1 (min (length ?t0) (length ?t1)) 0 0"
  have m: "m \<le> min (length ?t0) (length ?t1)" "take m ?t0 = take m ?t1" "m < min (length ?t0) (length ?t1) \<Longrightarrow> ?t0 ! m \<noteq> ?t1 ! m"
    using gallop_first_difference [of 0 "min (length ?t0) (length ?t1)" ?t0 ?t1 0] by (auto simp: m_def)
  note same = nth_take_eq [OF m(2)]
  have len: "key_len k \<le> length ?t0" "key_len other \<le> length ?t1" "rk_is_bigram k \<Longrightarrow> key_len k \<le> length ?t0 - 1"
    "rk_is_bigram other \<Longrightarrow> key_len other \<le> length ?t1 - 1"
    using raw_len_le [of k] raw_len_le [of other] by (auto simp: key_len_def Let_def)
  let ?b = "min (if rk_is_bigram k then m - 1 else m) (min (key_len k) (key_len other))"
  have "lcp_len (key_iter k) (key_iter other) = ?b"
  proof (rule lcp_lenI)
    show "take ?b (key_iter k) = take ?b (key_iter other)"
      using same assms(1) len by (intro nth_equalityI) (auto simp: key_iter_alt)
    show "key_iter k ! ?b \<noteq> key_iter other ! ?b" if "?b < length (key_iter k)" "?b < length (key_iter other)"
    proof (cases "rk_is_bigram k \<and> m > 0")
      case True
      then have "?b = m - 1" "m < min (length ?t0) (length ?t1)"
        using that len assms(1) by (auto simp: min_def split: if_splits)
      then show ?thesis
        using True m(3) that assms(1) by (simp add: key_iter_alt)
    next
      case False
      then have "?b = m" "m < min (length ?t0) (length ?t1)"
        using that len assms(1) by (auto simp: min_def split: if_splits)
      then show ?thesis
        using m(3) that assms(1) by (auto simp: key_iter_alt)
    qed
  qed simp_all
  then show ?thesis
    using assms(2) by (auto simp: key_match_def check_compatible_def Let_def m_def [symmetric])
qed

text \<open>C31. The galloping comparison computes the longest common prefix of the two keys' units, rounded down to whole pages, for token
  keys and bigram keys, capped or not; it raises exactly when the namespaces differ.\<close>

theorem key_match_is_common_prefix:
  assumes "rk_is_bigram k = rk_is_bigram other" "page_size > 0"
  shows "key_match k other page_size =
    (if rk_extra_key k = rk_extra_key other then Inr (lcp_len (key_iter k) (key_iter other) div page_size * page_size) else Inl ValueError)"
  using key_match_common [OF assms] .

theorem key_match_is_common_prefix_witness:
  "let k = \<lparr>rk_token_ids = [1, 2, 3, 4, 5, 9], rk_extra_key = None, rk_is_bigram = False, rk_limit = None\<rparr>;
       k' = \<lparr>rk_token_ids = [1, 2, 3, 4, 5, 6, 7], rk_extra_key = None, rk_is_bigram = False, rk_limit = None\<rparr>
   in key_match k k' 2 = Inr 4"
proof -
  let ?k = "\<lparr>rk_token_ids = [1, 2, 3, 4, 5, 9], rk_extra_key = None, rk_is_bigram = False, rk_limit = None\<rparr> :: radix_key"
  let ?k' = "\<lparr>rk_token_ids = [1, 2, 3, 4, 5, 6, 7], rk_extra_key = None, rk_is_bigram = False, rk_limit = None\<rparr> :: radix_key"
  have "lcp_len (key_iter ?k) (key_iter ?k') = 5"
    by (simp add: key_iter_def raw_len_def)
  then show ?thesis
    using key_match_is_common_prefix [of ?k ?k' 2] by (simp add: Let_def)
qed

end
