(* ===== verification/Radix_Cache.thy ===== *)
theory Radix_Cache
  imports Radix_Key Evict_Policy Req_Pool
begin

text \<open>
  \<open>TreeNode\<close> and \<open>RadixCache\<close> of \<^verbatim>\<open>mem_cache/radix_cache.py\<close>: the prefix cache of the engine, a radix tree over token keys whose nodes
  hold the KV slots of their stretch of tokens. Nodes are objects with parent and child references, so they live in a
  heap; \<open>rx_next\<close> is the next free address. In this class \<open>value\<close> is set right after a node is built and never becomes \<open>None\<close> again, so \<open>evicted\<close>
  is constantly false and left out, as are the host copies, the page hashes and the event queue, which belong to other features. The KV
  pool is the token allocator. Loops that follow references carry a bound (\<open>OutOfFuel\<close>).
\<close>

section \<open>State\<close>

record tree_node = evict_node +
  n_children :: "(child_id, nat) dict"
  n_parent :: "nat option"
  n_key :: radix_key
  n_value :: "nat list"
  n_lock_ref :: int

record radix =
  rx_heap :: "nat \<Rightarrow> tree_node"
  rx_next :: nat
  rx_root :: nat
  rx_evictable_size :: int
  rx_protected_size :: int
  rx_leaves :: "nat set"
  rx_kv :: kv_alloc
  rx_pool :: req_pool
  rx_ticks :: nat

text \<open>\<open>rc_clock n\<close> is the \<open>n\<close>-th reading of the monotonic clock and \<open>rc_order\<close> the order in which iterating over a set of nodes
  lists it.\<close>

record radix_config =
  rc_disable :: bool
  rc_page_size :: nat
  rc_is_eagle :: bool
  rc_disable_finished_insert :: bool
  rc_strategy :: eviction_strategy
  rc_strip_thinking_cache :: bool
  rc_clock :: "nat \<Rightarrow> int"
  rc_order :: "nat set \<Rightarrow> nat list"

record radix_req = req +
  rq_origin_input_ids :: "int list"
  rq_output_ids :: "int list"
  rq_full_untruncated_fill_ids :: "int list"
  rq_fill_len :: nat
  rq_extra_key :: "string option"
  rq_priority :: "int option"
  rq_reasoning_tokens :: nat
  rq_kv_committed_freed :: bool
  rq_cache_protected_len :: nat
  rq_last_node :: "nat option"
  rq_prefix_indices :: "nat list"

abbreviation nd :: "'s radix_scheme \<Rightarrow> nat \<Rightarrow> tree_node" where
  "nd s i \<equiv> rx_heap s i"

definition upd_node :: "nat \<Rightarrow> (tree_node \<Rightarrow> tree_node) \<Rightarrow> 's radix_scheme \<Rightarrow> 's radix_scheme" where
  "upd_node i f s = s\<lparr>rx_heap := (rx_heap s)(i := f (rx_heap s i))\<rparr>"

definition radix_now :: "radix_config \<Rightarrow> ('s radix_scheme, int) pym" where
  "radix_now cf = (\<lambda>s. (Inr (rc_clock cf (rx_ticks s)), s\<lparr>rx_ticks := rx_ticks s + 1\<rparr>))"

definition touch_node :: "nat \<Rightarrow> int \<Rightarrow> 's radix_scheme \<Rightarrow> 's radix_scheme" where
  "touch_node i t = upd_node i (\<lambda>n. n\<lparr>last_access_time := t\<rparr>)"

definition raise_priority :: "nat \<Rightarrow> int \<Rightarrow> 's radix_scheme \<Rightarrow> 's radix_scheme" where
  "raise_priority i p = upd_node i (\<lambda>n. n\<lparr>priority := max (priority n) p\<rparr>)"

definition inc_hit_count :: "bool \<Rightarrow> nat \<Rightarrow> 's radix_scheme \<Rightarrow> 's radix_scheme" where
  "inc_hit_count chunked i s = (if chunked then s else upd_node i (\<lambda>n. n\<lparr>hit_count := hit_count n + 1\<rparr>) s)"

text \<open>\<open>TreeNode(priority=..)\<close>; key and value are assigned by the caller.\<close>

definition empty_key :: radix_key where
  "empty_key = \<lparr>rk_token_ids = [], rk_extra_key = None, rk_is_bigram = False, rk_limit = None\<rparr>"

definition new_tree_node :: "radix_config \<Rightarrow> int \<Rightarrow> ('s radix_scheme, nat) pym" where
  "new_tree_node cf prio = (\<lambda>s.
     (Inr (rx_next s),
      s\<lparr>rx_heap := (rx_heap s)(rx_next s :=
          \<lparr>last_access_time = rc_clock cf (rx_ticks s), creation_time = rc_clock cf (rx_ticks s + 1), hit_count = 0,
           priority = prio, n_children = [], n_parent = None, n_key = empty_key, n_value = [], n_lock_ref = 0\<rparr>),
        rx_next := rx_next s + 1, rx_ticks := rx_ticks s + 2\<rparr>))"

definition radix_reset :: "radix_config \<Rightarrow> int \<Rightarrow> ('s radix_scheme, unit) pym" where
  "radix_reset cf maxsize =
     bindM (new_tree_node cf (- maxsize)) (\<lambda>root.
     modifyM (\<lambda>s. (upd_node root (\<lambda>n. n\<lparr>n_key := empty_key, n_value := [], n_lock_ref := 1\<rparr>) s)
       \<lparr>rx_root := root, rx_evictable_size := 0, rx_protected_size := 0, rx_leaves := {}\<rparr>))"

definition update_leaf_status :: "nat \<Rightarrow> 's radix_scheme \<Rightarrow> 's radix_scheme" where
  "update_leaf_status i s =
     (if n_lock_ref (nd s i) > 0 then s\<lparr>rx_leaves := rx_leaves s - {i}\<rparr>
      else if n_children (nd s i) \<noteq> [] then s\<lparr>rx_leaves := rx_leaves s - {i}\<rparr>
      else s\<lparr>rx_leaves := insert i (rx_leaves s)\<rparr>)"

section \<open>Splitting, matching, inserting\<close>

definition split_node :: "radix_config \<Rightarrow> radix_key \<Rightarrow> nat \<Rightarrow> nat \<Rightarrow> ('s radix_scheme, nat) pym" where
  "split_node cf key child split_len =
     bindM (getsM (\<lambda>s. nd s child)) (\<lambda>c.
     bindM (new_tree_node cf (priority c)) (\<lambda>new_node.
     bindM (liftM (child_key (rc_page_size cf) (key_drop split_len key))) (\<lambda>ck.
     bindM (modifyM (upd_node new_node (\<lambda>n. n\<lparr>hit_count := hit_count c, n_children := [(ck, child)], n_parent := n_parent c,
              n_lock_ref := n_lock_ref c, n_key := key_take split_len (n_key c), n_value := take split_len (n_value c)\<rparr>))) (\<lambda>_.
     bindM (modifyM (upd_node child (\<lambda>n. n\<lparr>n_parent := Some new_node, n_key := key_drop split_len (n_key n),
              n_value := drop split_len (n_value n)\<rparr>))) (\<lambda>_.
     bindM (optM AttributeError (n_parent c)) (\<lambda>par.
     bindM (liftM (child_key (rc_page_size cf) key)) (\<lambda>pk.
     bindM (modifyM (upd_node par (\<lambda>n. n\<lparr>n_children := AList.update pk new_node (n_children n)\<rparr>))) (\<lambda>_.
     retM new_node))))))))"

fun match_walk ::
  "radix_config \<Rightarrow> int \<Rightarrow> nat \<Rightarrow> nat \<Rightarrow> radix_key \<Rightarrow> child_id \<Rightarrow> nat list list \<Rightarrow> ('s radix_scheme, nat list list \<times> nat) pym" where
  "match_walk cf now 0 node key ck value = raiseM OutOfFuel"
| "match_walk cf now (Suc fuel) node key ck value =
     bindM (getsM (\<lambda>s. map_of (n_children (nd s node)) ck)) (\<lambda>next.
     case (if key_len key > 0 then next else None) of
       None \<Rightarrow> retM (value, node)
     | Some child \<Rightarrow>
         bindM (modifyM (touch_node child now)) (\<lambda>_.
         bindM (getsM (\<lambda>s. nd s child)) (\<lambda>c.
         bindM (liftM (key_match (n_key c) key (rc_page_size cf))) (\<lambda>prefix_len.
         if prefix_len < key_len (n_key c)
         then bindM (split_node cf (n_key c) child prefix_len) (\<lambda>new_node.
              bindM (getsM (\<lambda>s. n_value (nd s new_node))) (\<lambda>v. retM (value @ [v], new_node)))
         else let key' = key_drop prefix_len key
              in bindM (if key_len key' > 0 then liftM (child_key (rc_page_size cf) key') else retM ck) (\<lambda>ck'.
                 match_walk cf now fuel child key' ck' (value @ [n_value c]))))))"

definition match_prefix_helper :: "radix_config \<Rightarrow> nat \<Rightarrow> radix_key \<Rightarrow> ('s radix_scheme, nat list list \<times> nat) pym" where
  "match_prefix_helper cf node key =
     bindM (radix_now cf) (\<lambda>now.
     bindM (modifyM (touch_node node now)) (\<lambda>_.
     bindM (liftM (child_key (rc_page_size cf) key)) (\<lambda>ck.
     match_walk cf now (key_len key + 1) node key ck [])))"

definition radix_match_prefix :: "radix_config \<Rightarrow> radix_key \<Rightarrow> ('s radix_scheme, nat list \<times> nat) pym" where
  "radix_match_prefix cf key0 =
     (let key1 = fst (maybe_to_bigram_view (rc_is_eagle cf) key0 (None :: nat list option)); key = page_aligned (rc_page_size cf) key1
      in if rc_disable cf \<or> key_len key1 = 0 \<or> key_len key = 0 then getsM (\<lambda>s. ([], rx_root s))
         else bindM (getsM rx_root) (\<lambda>root.
              bindM (match_prefix_helper cf root key) (\<lambda>(value, last_node). retM (concat value, last_node))))"

fun insert_walk ::
  "radix_config \<Rightarrow> int \<Rightarrow> int \<Rightarrow> bool \<Rightarrow> nat \<Rightarrow> nat \<Rightarrow> radix_key \<Rightarrow> nat list \<Rightarrow> child_id \<Rightarrow> nat \<Rightarrow>
     ('s radix_scheme, nat \<times> radix_key \<times> nat list \<times> child_id \<times> nat) pym" where
  "insert_walk cf now prio chunked 0 node key value ck total_prefix = raiseM OutOfFuel"
| "insert_walk cf now prio chunked (Suc fuel) node key value ck total_prefix =
     bindM (getsM (\<lambda>s. map_of (n_children (nd s node)) ck)) (\<lambda>next.
     case (if key_len key > 0 then next else None) of
       None \<Rightarrow> retM (node, key, value, ck, total_prefix)
     | Some child \<Rightarrow>
         bindM (modifyM (touch_node child now)) (\<lambda>_.
         bindM (getsM (\<lambda>s. nd s child)) (\<lambda>c.
         bindM (liftM (key_match (n_key c) key (rc_page_size cf))) (\<lambda>prefix_len.
         let key' = key_drop prefix_len key; value' = drop prefix_len value
         in bindM (if prefix_len < key_len (n_key c) then split_node cf (n_key c) child prefix_len else retM child) (\<lambda>node'.
            bindM (modifyM (raise_priority node' prio)) (\<lambda>_.
            bindM (modifyM (inc_hit_count chunked node')) (\<lambda>_.
            bindM (if key_len key' > 0 then liftM (child_key (rc_page_size cf) key') else retM ck) (\<lambda>ck'.
            insert_walk cf now prio chunked fuel node' key' value' ck' (total_prefix + prefix_len)))))))))"

definition add_leaf :: "radix_config \<Rightarrow> int \<Rightarrow> bool \<Rightarrow> nat \<Rightarrow> radix_key \<Rightarrow> nat list \<Rightarrow> child_id \<Rightarrow> ('s radix_scheme, unit) pym" where
  "add_leaf cf prio chunked node key value ck =
     bindM (new_tree_node cf prio) (\<lambda>new_node.
     bindM (modifyM (upd_node new_node (\<lambda>n. n\<lparr>n_parent := Some node, n_key := key, n_value := value\<rparr>))) (\<lambda>_.
     bindM (modifyM (inc_hit_count chunked new_node)) (\<lambda>_.
     bindM (modifyM (upd_node node (\<lambda>n. n\<lparr>n_children := AList.update ck new_node (n_children n)\<rparr>))) (\<lambda>_.
     bindM (modifyM (\<lambda>s. s\<lparr>rx_evictable_size := rx_evictable_size s + int (key_len key)\<rparr>)) (\<lambda>_.
     bindM (modifyM (update_leaf_status node)) (\<lambda>_.
     modifyM (update_leaf_status new_node)))))))"

definition insert_helper :: "radix_config \<Rightarrow> nat \<Rightarrow> radix_key \<Rightarrow> nat list \<Rightarrow> int \<Rightarrow> bool \<Rightarrow> ('s radix_scheme, nat) pym" where
  "insert_helper cf node key value prio chunked =
     bindM (radix_now cf) (\<lambda>now.
     bindM (modifyM (touch_node node now)) (\<lambda>_.
     bindM (modifyM (raise_priority node prio)) (\<lambda>_.
     if key_len key = 0 then retM 0
     else bindM (liftM (child_key (rc_page_size cf) key)) (\<lambda>ck.
          bindM (insert_walk cf now prio chunked (key_len key + 1) node key value ck 0) (\<lambda>(node', key', value', ck', total_prefix).
          bindM (if key_len key' > 0 then add_leaf cf prio chunked node' key' value' ck' else retM ()) (\<lambda>_.
          retM total_prefix))))))"

definition radix_insert :: "radix_config \<Rightarrow> radix_key \<Rightarrow> nat list option \<Rightarrow> int option \<Rightarrow> bool \<Rightarrow> ('s radix_scheme, nat) pym" where
  "radix_insert cf key0 value0 prio chunked =
     (if rc_disable cf then retM 0
      else case maybe_to_bigram_view (rc_is_eagle cf) key0 value0 of (key1, value1) \<Rightarrow>
        let key = page_aligned (rc_page_size cf) key1;
            value = (case value1 of Some v \<Rightarrow> take (key_len key) v | None \<Rightarrow> map nat (take (key_len key) (rk_token_ids key)))
        in bindM (getsM rx_root) (\<lambda>root.
           insert_helper cf root key value (case prio of None \<Rightarrow> 0 | Some p \<Rightarrow> p) chunked))"

section \<open>Locks and eviction\<close>

fun inc_walk :: "nat \<Rightarrow> nat option \<Rightarrow> int \<Rightarrow> ('s radix_scheme, int) pym" where
  "inc_walk 0 node delta = raiseM OutOfFuel"
| "inc_walk (Suc fuel) node delta =
     bindM (getsM rx_root) (\<lambda>root.
     if node = Some root then retM delta
     else bindM (optM AttributeError node) (\<lambda>i.
          bindM (getsM (\<lambda>s. nd s i)) (\<lambda>n.
          let len = int (key_len (n_key n))
          in bindM (modifyM (\<lambda>s. if n_lock_ref n = 0
                      then s\<lparr>rx_evictable_size := rx_evictable_size s - len, rx_protected_size := rx_protected_size s + len\<rparr> else s)) (\<lambda>_.
             bindM (modifyM (upd_node i (\<lambda>n. n\<lparr>n_lock_ref := n_lock_ref n + 1\<rparr>))) (\<lambda>_.
             bindM (modifyM (update_leaf_status i)) (\<lambda>_.
             inc_walk fuel (n_parent n) (if n_lock_ref n = 0 then delta - len else delta)))))))"

definition radix_inc_lock_ref :: "radix_config \<Rightarrow> nat option \<Rightarrow> ('s radix_scheme, int) pym" where
  "radix_inc_lock_ref cf node =
     (if rc_disable cf then retM 0 else bindM (getsM rx_next) (\<lambda>fuel. inc_walk (fuel + 1) node 0))"

fun dec_walk :: "nat \<Rightarrow> nat option \<Rightarrow> int \<Rightarrow> ('s radix_scheme, int) pym" where
  "dec_walk 0 node delta = raiseM OutOfFuel"
| "dec_walk (Suc fuel) node delta =
     bindM (getsM rx_root) (\<lambda>root.
     if node = Some root then retM delta
     else bindM (optM AttributeError node) (\<lambda>i.
          bindM (getsM (\<lambda>s. nd s i)) (\<lambda>n.
          let len = int (key_len (n_key n))
          in bindM (modifyM (\<lambda>s. if n_lock_ref n = 1
                      then s\<lparr>rx_evictable_size := rx_evictable_size s + len, rx_protected_size := rx_protected_size s - len\<rparr> else s)) (\<lambda>_.
             bindM (modifyM (upd_node i (\<lambda>n. n\<lparr>n_lock_ref := n_lock_ref n - 1\<rparr>))) (\<lambda>_.
             bindM (modifyM (update_leaf_status i)) (\<lambda>_.
             bindM (assertM (n_parent n \<noteq> None)) (\<lambda>_.
             dec_walk fuel (n_parent n) (if n_lock_ref n = 1 then delta + len else delta))))))))"

definition radix_dec_lock_ref :: "radix_config \<Rightarrow> nat option \<Rightarrow> ('s radix_scheme, int) pym" where
  "radix_dec_lock_ref cf node =
     (if rc_disable cf then retM 0 else bindM (getsM rx_next) (\<lambda>fuel. dec_walk (fuel + 1) node 0))"

definition delete_leaf :: "radix_config \<Rightarrow> nat \<Rightarrow> ('s radix_scheme, unit) pym" where
  "delete_leaf cf node =
     bindM (getsM (\<lambda>s. nd s node)) (\<lambda>n.
     bindM (liftM (child_key (rc_page_size cf) (n_key n))) (\<lambda>ck.
     bindM (optM AttributeError (n_parent n)) (\<lambda>par.
     bindM (getsM (\<lambda>s. map_of (n_children (nd s par)) ck)) (\<lambda>v.
     bindM (modifyM (upd_node par (\<lambda>n. n\<lparr>n_children := AList.delete ck (n_children n)\<rparr>))) (\<lambda>_.
     bindM (assertM (v = Some node)) (\<lambda>_.
     bindM (modifyM (\<lambda>s. s\<lparr>rx_evictable_size := rx_evictable_size s - int (key_len (n_key n)),
                          rx_leaves := rx_leaves s - {node}\<rparr>)) (\<lambda>_.
     modifyM (update_leaf_status par))))))))"

text \<open>An entry of the eviction heap. \<open>heappop\<close> takes a smallest entry; entries of equal priority compare by \<open>TreeNode.__lt__\<close>, the
  access times.\<close>

type_synonym heap_entry = "int list \<times> int \<times> nat"

definition entry_less :: "heap_entry \<Rightarrow> heap_entry \<Rightarrow> bool" where
  "entry_less a b \<longleftrightarrow> fst a < fst b \<or> fst a = fst b \<and> fst (snd a) < fst (snd b)"

fun min_entry :: "heap_entry \<Rightarrow> heap_entry list \<Rightarrow> heap_entry" where
  "min_entry x [] = x"
| "min_entry x (y # ys) = min_entry (if entry_less y x then y else x) ys"

definition heap_entry_of :: "radix_config \<Rightarrow> 's radix_scheme \<Rightarrow> nat \<Rightarrow> heap_entry" where
  "heap_entry_of cf s i = (get_priority (rc_strategy cf) (nd s i), last_access_time (nd s i), i)"

fun radix_evict_loop :: "radix_config \<Rightarrow> nat \<Rightarrow> nat \<Rightarrow> nat \<Rightarrow> heap_entry list \<Rightarrow> ('s radix_scheme, nat) pym" where
  "radix_evict_loop cf 0 num_tokens num_evicted h = raiseM OutOfFuel"
| "radix_evict_loop cf (Suc fuel) num_tokens num_evicted h =
     (case h of
        [] \<Rightarrow> retM num_evicted
      | e # es \<Rightarrow>
          if \<not> num_evicted < num_tokens then retM num_evicted
          else let top = min_entry e es; x = snd (snd top); h' = remove1 top (e # es)
               in bindM (getsM (\<lambda>s. nd s x)) (\<lambda>n.
                  bindM (modifyM (\<lambda>s. s\<lparr>rx_kv := token_free (n_value n) (rx_kv s)\<rparr>)) (\<lambda>_.
                  bindM (delete_leaf cf x) (\<lambda>_.
                  bindM (optM AttributeError (n_parent n)) (\<lambda>par.
                  bindM (getsM (\<lambda>s. if n_children (nd s par) = [] \<and> n_lock_ref (nd s par) = 0
                                    then h' @ [heap_entry_of cf s par] else h')) (\<lambda>h''.
                  radix_evict_loop cf fuel num_tokens (num_evicted + length (n_value n)) h''))))))"

definition radix_evict :: "radix_config \<Rightarrow> nat \<Rightarrow> ('s radix_scheme, nat) pym" where
  "radix_evict cf num_tokens =
     (if rc_disable cf then retM 0
      else bindM (getsM (\<lambda>s. (rx_next s, map (heap_entry_of cf s) (rc_order cf (rx_leaves s))))) (\<lambda>(fuel, h).
           radix_evict_loop cf (fuel + 1) num_tokens 0 h))"

fun total_size_loop :: "nat \<Rightarrow> nat list \<Rightarrow> nat \<Rightarrow> ('s radix_scheme, nat) pym" where
  "total_size_loop fuel [] size_acc = retM size_acc"
| "total_size_loop 0 (i # stack) size_acc = raiseM OutOfFuel"
| "total_size_loop (Suc fuel) (i # stack) size_acc =
     bindM (getsM (\<lambda>s. nd s i)) (\<lambda>n. total_size_loop fuel (rev (map snd (n_children n)) @ stack) (size_acc + length (n_value n)))"

definition radix_total_size :: "('s radix_scheme, nat) pym" where
  "radix_total_size = bindM (getsM (\<lambda>s. (rx_next s, rx_root s))) (\<lambda>(fuel, root). total_size_loop fuel [root] 0)"

section \<open>Caching a request\<close>

definition pop_committed_kv_cache :: "radix_config \<Rightarrow> 'r radix_req_scheme \<Rightarrow> ('s, nat \<times> 'r radix_req_scheme) pym" where
  "pop_committed_kv_cache cf r =
     bindM (assertM (\<not> rq_kv_committed_freed r)) (\<lambda>_.
     retM (if rc_strip_thinking_cache cf \<and> rq_reasoning_tokens r > 0
           then min (kv_committed_len r) (length (rq_origin_input_ids r)) else kv_committed_len r,
           r\<lparr>rq_kv_committed_freed := True\<rparr>))"

definition radix_free :: "nat list \<Rightarrow> 's radix_scheme \<Rightarrow> 's radix_scheme" where
  "radix_free xs s = s\<lparr>rx_kv := token_free xs (rx_kv s)\<rparr>"

definition radix_row :: "'r radix_req_scheme \<Rightarrow> nat \<Rightarrow> ('s radix_scheme, nat list) pym" where
  "radix_row r n =
     bindM (optM TypeError (req_pool_idx r)) (\<lambda>idx.
     bindM (getsM (\<lambda>s. req_to_token (rx_pool s))) (\<lambda>rows.
     if length rows \<le> idx then raiseM IndexError else retM (take n (rows ! idx))))"

definition radix_cache_finished_req :: "radix_config \<Rightarrow> bool \<Rightarrow> 'r radix_req_scheme \<Rightarrow> ('s radix_scheme, 'r radix_req_scheme) pym" where
  "radix_cache_finished_req cf is_insert r =
     bindM (pop_committed_kv_cache cf r) (\<lambda>(committed, r').
     if rc_disable cf
     then bindM (radix_row r committed) (\<lambda>kv_indices. bindM (modifyM (radix_free kv_indices)) (\<lambda>_. retM r'))
     else let token_ids = take committed (rq_origin_input_ids r @ rq_output_ids r)
          in bindM (radix_row r (length token_ids)) (\<lambda>kv_indices.
             let key = page_aligned (rc_page_size cf) \<lparr>rk_token_ids = token_ids, rk_extra_key = rq_extra_key r,
                   rk_is_bigram = rc_is_eagle cf, rk_limit = None\<rparr>;
                 len = key_len key
             in bindM (if is_insert \<and> \<not> rc_disable_finished_insert cf
                       then radix_insert cf key (Some (take len kv_indices))
                              (Some (case rq_priority r of None \<Rightarrow> 0 | Some p \<Rightarrow> p)) False
                       else retM len) (\<lambda>upto.
                bindM (modifyM (radix_free (take (upto - rq_cache_protected_len r) (drop (rq_cache_protected_len r) kv_indices)))) (\<lambda>_.
                bindM (modifyM (radix_free (drop len kv_indices))) (\<lambda>_.
                bindM (if rq_last_node r \<noteq> None then bindM (radix_dec_lock_ref cf (rq_last_node r)) (\<lambda>_. retM ()) else retM ()) (\<lambda>_.
                retM r'))))))"

definition radix_cache_unfinished_req :: "radix_config \<Rightarrow> bool \<Rightarrow> 'r radix_req_scheme \<Rightarrow> ('s radix_scheme, 'r radix_req_scheme) pym" where
  "radix_cache_unfinished_req cf chunked r =
     (if rc_disable cf then retM r
      else let token_ids = take (rq_fill_len r) (rq_full_untruncated_fill_ids r)
           in bindM (radix_row r (length token_ids)) (\<lambda>kv_indices.
              let key = page_aligned (rc_page_size cf) \<lparr>rk_token_ids = token_ids, rk_extra_key = rq_extra_key r,
                    rk_is_bigram = rc_is_eagle cf, rk_limit = None\<rparr>;
                  pl = rq_cache_protected_len r
              in bindM (radix_insert cf key (Some (take (key_len key) kv_indices))
                          (Some (case rq_priority r of None \<Rightarrow> 0 | Some p \<Rightarrow> p)) chunked) (\<lambda>new_prefix_len.
                 bindM (modifyM (radix_free (take (new_prefix_len - pl) (drop pl kv_indices)))) (\<lambda>_.
                 bindM (radix_match_prefix cf key) (\<lambda>(new_indices, new_last_node).
                 bindM (assertM (length new_indices = key_len key)) (\<lambda>_.
                 bindM (optM TypeError (req_pool_idx r)) (\<lambda>idx.
                 bindM (\<lambda>s. case write_row idx pl (length new_indices) (drop pl new_indices) (rx_pool s) of (x, p) \<Rightarrow> (x, s\<lparr>rx_pool := p\<rparr>)) (\<lambda>_.
                 bindM (radix_dec_lock_ref cf (rq_last_node r)) (\<lambda>_.
                 bindM (radix_inc_lock_ref cf (Some new_last_node)) (\<lambda>_.
                 retM (r\<lparr>rq_cache_protected_len := length new_indices,
                         rq_prefix_indices := (if length new_indices < length kv_indices
                            then new_indices @ drop (length new_indices) kv_indices else new_indices),
                         rq_last_node := Some new_last_node\<rparr>)))))))))))"

end
