(* ===== verification/Radix_Tree.thy ===== *)
theory Radix_Tree
  imports Radix_Cache
begin

text \<open>
  The object graph of the radix tree and what it stores. \<open>desc cf s e p ws xs\<close>: below node \<open>p\<close>, in namespace \<open>e\<close>, the units \<open>ws\<close> (whole pages)
  are cached with slots \<open>xs\<close>; from the root this is the contents of the cache. \<open>tree_ok\<close> is the shape of the object graph. Refreshing access times and splitting
  nodes (\<open>reshape\<close>) keep the shape and are invisible in the contents.
\<close>

section \<open>Shape\<close>

abbreviation kids :: "'s radix_scheme \<Rightarrow> nat \<Rightarrow> nat set" where
  "kids s p \<equiv> snd ` set (n_children (nd s p))"

abbreviation units :: "'s radix_scheme \<Rightarrow> nat \<Rightarrow> logical_unit list" where
  "units s i \<equiv> key_iter (n_key (nd s i))"

abbreviation vals :: "'s radix_scheme \<Rightarrow> nat \<Rightarrow> nat list" where
  "vals s i \<equiv> n_value (nd s i)"

abbreviation ext :: "'s radix_scheme \<Rightarrow> nat \<Rightarrow> string option" where
  "ext s i \<equiv> rk_extra_key (n_key (nd s i))"

definition node_ok :: "radix_config \<Rightarrow> tree_node \<Rightarrow> bool" where
  "node_ok cf n \<longleftrightarrow> 0 < key_len (n_key n) \<and> rc_page_size cf dvd key_len (n_key n) \<and> length (n_value n) = key_len (n_key n) \<and>
     rk_is_bigram (n_key n) = rc_is_eagle cf"

definition children_ok :: "radix_config \<Rightarrow> nat set \<Rightarrow> 's radix_scheme \<Rightarrow> nat \<Rightarrow> bool" where
  "children_ok cf N s p \<longleftrightarrow> dict_ok (n_children (nd s p)) \<and>
     (\<forall>(ck, c)\<in>set (n_children (nd s p)). c \<in> N \<and> c \<noteq> rx_root s \<and> n_parent (nd s c) = Some p \<and>
        child_key (rc_page_size cf) (n_key (nd s c)) = Inr ck)"

definition tree_ok :: "radix_config \<Rightarrow> nat set \<Rightarrow> 's radix_scheme \<Rightarrow> bool" where
  "tree_ok cf N s \<longleftrightarrow> 0 < rc_page_size cf \<and> N \<subseteq> {..<rx_next s} \<and> rx_root s \<in> N \<and> (\<forall>p\<in>N. children_ok cf N s p) \<and>
     (\<forall>c\<in>N. c \<noteq> rx_root s \<longrightarrow> node_ok cf (nd s c) \<and> (\<exists>p\<in>N. n_parent (nd s c) = Some p \<and> c \<in> kids s p)) \<and>
     (\<exists>rank :: nat \<Rightarrow> nat. \<forall>c\<in>N. \<forall>p. c \<noteq> rx_root s \<and> n_parent (nd s c) = Some p \<longrightarrow> rank p < rank c)"

lemma child_key_iter:
  assumes "0 < ps" "ps \<le> key_len k"
  shows "child_key ps k = Inr (rk_extra_key k, take ps (key_iter k))"
proof -
  have len: "key_len k \<le> length (rk_token_ids k)" "rk_is_bigram k \<Longrightarrow> key_len k < length (rk_token_ids k)"
    using raw_len_le [of k] assms by (auto simp: key_len_def Let_def split: if_splits)
  show ?thesis
  proof (cases "rk_is_bigram k")
    case True
    then show ?thesis
      using assms len by (simp add: child_key_def key_iter_alt Let_def take_map)
  next
    case False
    have "rk_token_ids k \<noteq> []"
      using assms len by auto
    then show ?thesis
      using assms False by (cases "rk_token_ids k") (simp_all add: child_key_def key_iter_alt Let_def take_map min_def)
  qed
qed

lemma tree_okD:
  assumes "tree_ok cf N s"
  shows "0 < rc_page_size cf" "N \<subseteq> {..<rx_next s}" "rx_root s \<in> N" "finite N"
  using assms finite_subset [of N "{..<rx_next s}"] by (auto simp: tree_ok_def)

lemma node_okD:
  assumes "node_ok cf n" "0 < rc_page_size cf"
  shows "rc_page_size cf \<le> key_len (n_key n)" "length (n_value n) = key_len (n_key n)"
    "child_key (rc_page_size cf) (n_key n) = Inr (rk_extra_key (n_key n), take (rc_page_size cf) (key_iter (n_key n)))"
  using assms child_key_iter [of "rc_page_size cf" "n_key n"] by (auto simp: node_ok_def dest: dvd_imp_le)

lemma childD:
  assumes "tree_ok cf N s" "p \<in> N" "c \<in> kids s p"
  shows "c \<in> N" "c \<noteq> rx_root s" "n_parent (nd s c) = Some p" "node_ok cf (nd s c)"
    "map_of (n_children (nd s p)) (ext s c, take (rc_page_size cf) (units s c)) = Some c"
proof -
  obtain ck where ck: "(ck, c) \<in> set (n_children (nd s p))"
    using assms(3) by auto
  have co: "children_ok cf N s p"
    using assms(1,2) by (simp add: tree_ok_def)
  then show c: "c \<in> N" "c \<noteq> rx_root s" "n_parent (nd s c) = Some p"
    using ck by (auto simp: children_ok_def)
  then show n: "node_ok cf (nd s c)"
    using assms(1) by (auto simp: tree_ok_def)
  have "ck = (ext s c, take (rc_page_size cf) (units s c))"
    using co ck node_okD(3) [OF n tree_okD(1) [OF assms(1)]] by (auto simp: children_ok_def)
  then show "map_of (n_children (nd s p)) (ext s c, take (rc_page_size cf) (units s c)) = Some c"
    using co ck by (auto simp: children_ok_def)
qed

lemma lookupD:
  assumes "tree_ok cf N s" "p \<in> N" "map_of (n_children (nd s p)) ck = Some c"
  shows "c \<in> kids s p" "ck = (ext s c, take (rc_page_size cf) (units s c))"
proof -
  have "(ck, c) \<in> set (n_children (nd s p))"
    using assms(3) by (rule map_of_SomeD)
  then show c: "c \<in> kids s p"
    by force
  have "child_key (rc_page_size cf) (n_key (nd s c)) = Inr ck"
    using assms(1,2) \<open>(ck, c) \<in> set _\<close> by (auto simp: tree_ok_def children_ok_def)
  then show "ck = (ext s c, take (rc_page_size cf) (units s c))"
    using node_okD(3) [OF childD(4) [OF assms(1,2) c] tree_okD(1) [OF assms(1)]] by simp
qed

section \<open>Contents\<close>

inductive desc :: "radix_config \<Rightarrow> 's radix_scheme \<Rightarrow> string option \<Rightarrow> nat \<Rightarrow> logical_unit list \<Rightarrow> nat list \<Rightarrow> bool" for cf s e where
  desc_nil: "desc cf s e p [] []"
| desc_part: "c \<in> kids s p \<Longrightarrow> ext s c = e \<Longrightarrow> rc_page_size cf dvd n \<Longrightarrow> 0 < n \<Longrightarrow> n < key_len (n_key (nd s c)) \<Longrightarrow>
    desc cf s e p (take n (units s c)) (take n (vals s c))"
| desc_deep: "c \<in> kids s p \<Longrightarrow> ext s c = e \<Longrightarrow> desc cf s e c ws xs \<Longrightarrow> desc cf s e p (units s c @ ws) (vals s c @ xs)"

inductive down :: "'s radix_scheme \<Rightarrow> string option \<Rightarrow> nat \<Rightarrow> nat \<Rightarrow> logical_unit list \<Rightarrow> nat list \<Rightarrow> bool" for s e where
  down_refl: "down s e p p [] []"
| down_step: "c \<in> kids s p \<Longrightarrow> ext s c = e \<Longrightarrow> down s e c q ws xs \<Longrightarrow> down s e p q (units s c @ ws) (vals s c @ xs)"

lemma desc_length:
  assumes "desc cf s e p ws xs" "tree_ok cf N s" "p \<in> N"
  shows "length ws = length xs \<and> rc_page_size cf dvd length ws"
  using assms
proof (induction rule: desc.induct)
  case (desc_part c p n)
  then show ?case
    using childD(4) [of cf N s p c] by (simp add: node_ok_def)
next
  case (desc_deep c p ws xs)
  then show ?case
    using childD(1,4) [of cf N s p c] by (auto simp: node_ok_def)
qed simp

lemma desc_empty: "desc cf s e p [] xs \<Longrightarrow> tree_ok cf N s \<Longrightarrow> p \<in> N \<Longrightarrow> xs = []"
  using desc_length [of cf s e p "[]" xs N] by simp

lemma desc_cases:
  assumes "desc cf s e p ws xs" "ws \<noteq> []" "tree_ok cf N s" "p \<in> N"
  obtains (part) c n where "map_of (n_children (nd s p)) (e, take (rc_page_size cf) ws) = Some c" "c \<in> kids s p" "ext s c = e"
      "ws = take n (units s c)" "xs = take n (vals s c)" "rc_page_size cf dvd n" "0 < n" "n < key_len (n_key (nd s c))"
  | (deep) c ws' xs' where "map_of (n_children (nd s p)) (e, take (rc_page_size cf) ws) = Some c" "c \<in> kids s p" "ext s c = e"
      "ws = units s c @ ws'" "xs = vals s c @ xs'" "desc cf s e c ws' xs'"
  using assms(1)
proof cases
  case desc_nil
  then show ?thesis
    using assms(2) by simp
next
  case (desc_part c n)
  then have "take (rc_page_size cf) ws = take (rc_page_size cf) (units s c)"
    by (simp add: min_absorb1 dvd_imp_le)
  then have "map_of (n_children (nd s p)) (e, take (rc_page_size cf) ws) = Some c"
    using childD(5) [OF assms(3,4) desc_part(3)] desc_part(4) by simp
  then show ?thesis
    using part [of c n] desc_part by blast
next
  case (desc_deep c ws' xs')
  have "rc_page_size cf \<le> length (units s c)"
    using node_okD(1) [OF childD(4) [OF assms(3,4) desc_deep(3)] tree_okD(1) [OF assms(3)]] by simp
  then have "take (rc_page_size cf) ws = take (rc_page_size cf) (units s c)"
    using desc_deep(1) by simp
  then have "map_of (n_children (nd s p)) (e, take (rc_page_size cf) ws) = Some c"
    using childD(5) [OF assms(3,4) desc_deep(3)] desc_deep(4) by simp
  then show ?thesis
    using deep [of c ws' xs'] desc_deep by blast
qed

lemma desc_det:
  assumes "desc cf s e p ws xs" "desc cf s e p ws ys" "tree_ok cf N s" "p \<in> N"
  shows "xs = ys"
  using assms
proof (induction arbitrary: ys rule: desc.induct)
  case (desc_nil p)
  then show ?case
    using desc_empty by blast
next
  case (desc_part c p n)
  have ne: "take n (units s c) \<noteq> []" and len: "length (take n (units s c)) = n"
    using desc_part(4,5) by (auto simp flip: length_greater_0_conv)
  have c': "c' = c" if "map_of (n_children (nd s p)) (e, take (rc_page_size cf) (take n (units s c))) = Some c'" for c'
    using that childD(5) [OF desc_part(7,8,1)] desc_part(2,3,4) by (simp add: min_absorb1 dvd_imp_le)
  from desc_part(6) ne desc_part(7,8) show ?case
  proof (cases rule: desc_cases)
    case (part c2 m)
    then show ?thesis
      using c' [OF part(1)] len by simp
  next
    case (deep c2 ws' xs')
    have "length (take n (units s c)) = length (units s c2 @ ws')"
      by (simp only: deep(4))
    then show ?thesis
      using c' [OF deep(1)] desc_part(5) by simp
  qed
next
  case (desc_deep c p ws xs)
  have ok: "rc_page_size cf \<le> length (units s c)"
    using node_okD(1) [OF childD(4) [OF desc_deep(6,7,1)] tree_okD(1) [OF desc_deep(6)]] by simp
  then have ne: "units s c @ ws \<noteq> []"
    using tree_okD(1) [OF desc_deep(6)] by (metis append_is_Nil_conv le_zero_eq list.size(3) not_gr_zero)
  have c': "c' = c" if "map_of (n_children (nd s p)) (e, take (rc_page_size cf) (units s c @ ws)) = Some c'" for c'
    using that childD(5) [OF desc_deep(6,7,1)] desc_deep(2) ok by simp
  from desc_deep(5) ne desc_deep(6,7) show ?case
  proof (cases rule: desc_cases)
    case (part c2 m)
    have "length (units s c @ ws) = length (take m (units s c2))"
      by (simp only: part(4))
    then show ?thesis
      using c' [OF part(1)] part(8) by simp
  next
    case (deep c2 ws' xs')
    then show ?thesis
      using c' [OF deep(1)] desc_deep(4) [of xs'] childD(1) [OF desc_deep(6,7,1)] desc_deep(6) by auto
  qed
qed

section \<open>Walking down\<close>

lemma down_desc: "down s e p q us vs \<Longrightarrow> desc cf s e q ws xs \<Longrightarrow> desc cf s e p (us @ ws) (vs @ xs)"
  by (induction rule: down.induct) (auto intro: desc_deep)

lemma down_trans: "down s e p q us vs \<Longrightarrow> down s e q r ws xs \<Longrightarrow> down s e p r (us @ ws) (vs @ xs)"
  by (induction rule: down.induct) (auto intro: down_step)

lemma down_one: "c \<in> kids s p \<Longrightarrow> ext s c = e \<Longrightarrow> down s e p c (units s c) (vals s c)"
  using down_step [OF _ _ down_refl, of c s p e] by simp

lemma down_ok:
  assumes "down s e p q us vs" "tree_ok cf N s" "p \<in> N"
  shows "q \<in> N \<and> length us = length vs \<and> rc_page_size cf dvd length us \<and> (us \<noteq> [] \<longrightarrow> ext s q = e)"
  using assms
proof (induction rule: down.induct)
  case (down_step c p q ws xs)
  then have c: "c \<in> N" "node_ok cf (nd s c)"
    using childD(1,4) by blast+
  have "ext s q = e" if "ws = []"
    using down_step(3) that
  proof cases
    case (down_step c2 ws2 xs2)
    then show ?thesis
      using childD(4) [OF \<open>tree_ok cf N s\<close> c(1), of c2] that by (auto simp: node_ok_def simp flip: length_0_conv)
  qed (use down_step.hyps in simp)
  then show ?case
    using down_step c by (auto simp: node_ok_def)
qed simp

text \<open>Nothing longer than a walk is cached along the same units when the walk's last node has no child for what follows.\<close>

lemma desc_le_walk:
  assumes "down s e p q us vs" "tree_ok cf N s" "p \<in> N"
    and "rest = [] \<or> map_of (n_children (nd s q)) (e, take (rc_page_size cf) rest) = None"
    and "desc cf s e p ws xs" "prefix ws (us @ rest)"
  shows "length ws \<le> length us"
  using assms
proof (induction arbitrary: ws xs rule: down.induct)
  case (down_refl p)
  show ?case
  proof (rule ccontr)
    assume "\<not> ?thesis"
    then have ne: "ws \<noteq> []" "rest \<noteq> []"
      using down_refl.prems(5) by auto
    then have "rc_page_size cf \<le> length ws"
      using desc_length [OF down_refl.prems(4,1,2)] by (auto intro: dvd_imp_le)
    then have "take (rc_page_size cf) ws = take (rc_page_size cf) rest"
      using down_refl.prems(5) by (auto simp: prefix_def)
    moreover have "map_of (n_children (nd s p)) (e, take (rc_page_size cf) ws) \<noteq> None"
      by (rule desc_cases [OF down_refl.prems(4) ne(1) down_refl.prems(1,2)]) simp_all
    ultimately show False
      using down_refl.prems(3) ne by simp
  qed
next
  case (down_step c p q us vs)
  note c = childD [OF down_step.prems(1,2) down_step.hyps(1)]
  have ps: "rc_page_size cf \<le> length (units s c)"
    using node_okD(1) [OF c(4) tree_okD(1) [OF down_step.prems(1)]] by simp
  show ?case
  proof (cases "length ws \<le> length (units s c)")
    case False
    then have ne: "ws \<noteq> []"
      by auto
    have "take (rc_page_size cf) ws = take (rc_page_size cf) (units s c)"
      using down_step.prems(5) False ps by (auto simp: prefix_def append_eq_append_conv2)
    then have c2: "c2 = c" if "map_of (n_children (nd s p)) (e, take (rc_page_size cf) ws) = Some c2" for c2
      using that c(5) down_step.hyps(2) by simp
    from down_step.prems(4) ne down_step.prems(1,2) show ?thesis
    proof (cases rule: desc_cases)
      case (part c2 n)
      then show ?thesis
        using c2 [OF part(1)] by simp
    next
      case (deep c2 ws' xs')
      then have "length ws' \<le> length us"
        using down_step.IH [OF down_step.prems(1) c(1) down_step.prems(3), of ws' xs'] c2 [OF deep(1)] down_step.prems(5) by simp
      then show ?thesis
        using deep(4) c2 [OF deep(1)] by simp
    qed
  qed simp
qed

section \<open>Changes that leave the shape\<close>

definition same_shape :: "'s radix_scheme \<Rightarrow> 's radix_scheme \<Rightarrow> bool" where
  "same_shape s s' \<longleftrightarrow> rx_root s' = rx_root s \<and> rx_next s' = rx_next s \<and>
     (\<forall>i. n_children (nd s' i) = n_children (nd s i) \<and> n_parent (nd s' i) = n_parent (nd s i) \<and>
          n_key (nd s' i) = n_key (nd s i) \<and> n_value (nd s' i) = n_value (nd s i))"

lemma same_shape_refl [simp]: "same_shape s s"
  by (simp add: same_shape_def)

lemma same_shape_sym: "same_shape s s' \<Longrightarrow> same_shape s' s"
  by (simp add: same_shape_def)

lemma same_shape_trans [trans]: "same_shape s s' \<Longrightarrow> same_shape s' s'' \<Longrightarrow> same_shape s s''"
  by (simp add: same_shape_def)

lemma tree_ok_shape: "same_shape s s' \<Longrightarrow> tree_ok cf N s \<Longrightarrow> tree_ok cf N s'"
  by (simp add: same_shape_def tree_ok_def children_ok_def node_ok_def)

lemma desc_shape: "desc cf s e p ws xs \<Longrightarrow> same_shape s s' \<Longrightarrow> desc cf s' e p ws xs"
proof (induction rule: desc.induct)
  case (desc_part c p n)
  then show ?case
    using desc.desc_part [of c s' p e cf n] by (simp add: same_shape_def)
next
  case (desc_deep c p ws xs)
  then show ?case
    using desc.desc_deep [of c s' p e cf ws xs] by (simp add: same_shape_def)
qed (rule desc.desc_nil)

lemma down_shape: "down s e p q ws xs \<Longrightarrow> same_shape s s' \<Longrightarrow> down s' e p q ws xs"
proof (induction rule: down.induct)
  case (down_step c p q ws xs)
  then show ?case
    using down.down_step [of c s' p e q ws xs] by (simp add: same_shape_def)
qed (rule down.down_refl)

lemma desc_shape_iff: "same_shape s s' \<Longrightarrow> desc cf s' e p ws xs \<longleftrightarrow> desc cf s e p ws xs"
  using desc_shape same_shape_sym by blast

lemma same_shape_touch [simp]:
  "same_shape s (touch_node i t s)" "same_shape s (raise_priority i pr s)" "same_shape s (inc_hit_count ch i s)"
  "same_shape s (s\<lparr>rx_ticks := n\<rparr>)" "same_shape s (update_leaf_status i s)"
  by (simp_all add: same_shape_def touch_node_def raise_priority_def inc_hit_count_def upd_node_def update_leaf_status_def)

section \<open>Splitting a node\<close>

text \<open>\<open>split_of cf s p c l s'\<close>: the child \<open>c\<close> of \<open>p\<close> was split after \<open>l\<close> units and nothing else of the tree changed.\<close>

definition split_of :: "radix_config \<Rightarrow> 's radix_scheme \<Rightarrow> nat \<Rightarrow> nat \<Rightarrow> nat \<Rightarrow> 's radix_scheme \<Rightarrow> bool" where
  "split_of cf s p c l s' \<longleftrightarrow>
     (let new = rx_next s in
      rx_root s' = rx_root s \<and> rx_next s' = rx_next s + 1 \<and> rx_evictable_size s' = rx_evictable_size s \<and>
      rx_protected_size s' = rx_protected_size s \<and> rx_leaves s' = rx_leaves s \<and> rx_kv s' = rx_kv s \<and> rx_pool s' = rx_pool s \<and>
      n_children (nd s' new) = [((ext s c, take (rc_page_size cf) (drop l (units s c))), c)] \<and> n_parent (nd s' new) = Some p \<and>
      n_lock_ref (nd s' new) = n_lock_ref (nd s c) \<and> n_key (nd s' new) = key_take l (n_key (nd s c)) \<and> n_value (nd s' new) = take l (vals s c) \<and>
      n_parent (nd s' c) = Some new \<and> n_key (nd s' c) = key_drop l (n_key (nd s c)) \<and> n_value (nd s' c) = drop l (vals s c) \<and>
      n_children (nd s' c) = n_children (nd s c) \<and> n_lock_ref (nd s' c) = n_lock_ref (nd s c) \<and>
      n_children (nd s' p) = AList.update (ext s c, take (rc_page_size cf) (units s c)) new (n_children (nd s p)) \<and>
      n_parent (nd s' p) = n_parent (nd s p) \<and> n_key (nd s' p) = n_key (nd s p) \<and> n_value (nd s' p) = n_value (nd s p) \<and>
      n_lock_ref (nd s' p) = n_lock_ref (nd s p) \<and>
      (\<forall>i. i \<noteq> new \<and> i \<noteq> c \<and> i \<noteq> p \<longrightarrow> nd s' i = nd s i))"

abbreviation splittable :: "radix_config \<Rightarrow> nat set \<Rightarrow> 's radix_scheme \<Rightarrow> nat \<Rightarrow> nat \<Rightarrow> nat \<Rightarrow> bool" where
  "splittable cf N s p c l \<equiv> tree_ok cf N s \<and> p \<in> N \<and> c \<in> kids s p \<and> 0 < l \<and> l < key_len (n_key (nd s c)) \<and> rc_page_size cf dvd l"

lemma set_AList_update:
  "distinct (map fst al) \<Longrightarrow> set (AList.update k v al) = insert (k, v) {x \<in> set al. fst x \<noteq> k}"
  by (induction al) (auto simp: image_iff)

lemma rank_ne:
  assumes "tree_ok cf N s" "c \<in> N" "c \<noteq> rx_root s"
  shows "n_parent (nd s c) \<noteq> Some c"
  using assms by (auto simp: tree_ok_def)

lemma split_node_run:
  assumes "splittable cf N s p c l"
  shows "\<exists>s'. split_node cf (n_key (nd s c)) c l s = (Inr (rx_next s), s') \<and> split_of cf s p c l s'"
proof -
  have ok: "tree_ok cf N s" "p \<in> N" "c \<in> kids s p" "0 < l" "l < key_len (n_key (nd s c))" "rc_page_size cf dvd l"
    using assms by auto
  note c = childD [OF ok(1-3)]
  have ps: "0 < rc_page_size cf" "rc_page_size cf \<le> l"
    using tree_okD(1) [OF ok(1)] ok by (auto intro: dvd_imp_le)
  have "rc_page_size cf dvd key_len (n_key (nd s c)) - l"
    using c(4) ok(6) by (simp add: node_ok_def)
  then have "rc_page_size cf \<le> key_len (n_key (nd s c)) - l"
    using ok(5) by (intro dvd_imp_le) auto
  then have ck: "child_key (rc_page_size cf) (key_drop l (n_key (nd s c))) = Inr (ext s c, take (rc_page_size cf) (drop l (units s c)))"
    using child_key_iter [of "rc_page_size cf" "key_drop l (n_key (nd s c))"] ps by simp
  have pk: "child_key (rc_page_size cf) (n_key (nd s c)) = Inr (ext s c, take (rc_page_size cf) (units s c))"
    using child_key_iter [of "rc_page_size cf" "n_key (nd s c)"] ps ok(5) by simp
  have ne: "p \<noteq> c" "p \<noteq> rx_next s" "c \<noteq> rx_next s"
    using rank_ne [OF ok(1) c(1,2)] c(1,3) ok(2) tree_okD(2) [OF ok(1)] by auto
  show ?thesis
    using ne by (simp add: split_node_def new_tree_node_def bindM_app ck pk c(3) upd_node_def split_of_def Let_def)
qed

lemma split_kids:
  assumes "splittable cf N s p c l" "split_of cf s p c l s'"
  shows "kids s' p = insert (rx_next s) (kids s p - {c})" "kids s' (rx_next s) = {c}"
    "q \<in> N \<Longrightarrow> q \<noteq> p \<Longrightarrow> n_children (nd s' q) = n_children (nd s q)"
    "x \<in> N \<Longrightarrow> x \<noteq> c \<Longrightarrow> n_key (nd s' x) = n_key (nd s x) \<and> n_value (nd s' x) = n_value (nd s x) \<and> n_parent (nd s' x) = n_parent (nd s x)"
    "rx_next s \<notin> N" "p \<noteq> c" "c \<in> N"
proof -
  have ok: "tree_ok cf N s" "p \<in> N" "c \<in> kids s p"
    using assms by auto
  note c = childD [OF ok]
  note sp = assms(2) [unfolded split_of_def Let_def]
  show new: "rx_next s \<notin> N" and "c \<in> N"
    using tree_okD(2) [OF ok(1)] c(1) by auto
  show pc: "p \<noteq> c"
    using rank_ne [OF ok(1) c(1,2)] c(3) by auto
  show "kids s' (rx_next s) = {c}"
    using sp by simp
  have other: "nd s' q = nd s q" if "q \<in> N" "q \<noteq> c" "q \<noteq> p" for q
  proof -
    have "q \<noteq> rx_next s"
      using that(1) new by auto
    then show ?thesis
      using sp that by blast
  qed
  show "n_children (nd s' q) = n_children (nd s q)" if "q \<in> N" "q \<noteq> p"
    using sp other that by (cases "q = c") simp_all
  show "n_key (nd s' x) = n_key (nd s x) \<and> n_value (nd s' x) = n_value (nd s x) \<and> n_parent (nd s' x) = n_parent (nd s x)" if "x \<in> N" "x \<noteq> c"
    using sp other that by (cases "x = p") simp_all
  let ?pk = "(ext s c, take (rc_page_size cf) (units s c))"
  have d: "distinct (map fst (n_children (nd s p)))"
    using ok(1,2) by (simp add: tree_ok_def children_ok_def)
  have "snd ` {x \<in> set (n_children (nd s p)). fst x \<noteq> ?pk} = kids s p - {c}"
  proof (intro equalityI subsetI)
    fix x
    assume "x \<in> snd ` {y \<in> set (n_children (nd s p)). fst y \<noteq> ?pk}"
    then obtain ck where ck: "(ck, x) \<in> set (n_children (nd s p))" "ck \<noteq> ?pk"
      by auto
    have "map_of (n_children (nd s p)) ck = Some x"
      using d ck(1) by simp
    then have "x \<noteq> c"
      using lookupD(2) [OF ok(1,2)] ck(2) by blast
    then show "x \<in> kids s p - {c}"
      using ck(1) by force
  next
    fix x
    assume "x \<in> kids s p - {c}"
    then obtain ck where ck: "(ck, x) \<in> set (n_children (nd s p))" "x \<noteq> c"
      by auto
    then have "map_of (n_children (nd s p)) ck = Some x"
      using d by simp
    then have "ck \<noteq> ?pk"
      using c(5) ck(2) by auto
    then show "x \<in> snd ` {y \<in> set (n_children (nd s p)). fst y \<noteq> ?pk}"
      using ck(1) by force
  qed
  then show "kids s' p = insert (rx_next s) (kids s p - {c})"
    using sp d by (simp add: set_AList_update)
qed

lemma tree_ok_parent:
  assumes "tree_ok cf N s" "x \<in> N" "x \<noteq> rx_root s"
  obtains q where "q \<in> N" "n_parent (nd s x) = Some q" "x \<in> kids s q" "node_ok cf (nd s x)"
  using assms unfolding tree_ok_def by blast

lemma tree_ok_entry:
  assumes "tree_ok cf N s" "q \<in> N" "(ck, x) \<in> set (n_children (nd s q))"
  shows "n_parent (nd s x) = Some q" "x \<noteq> rx_root s" "x \<in> N" "child_key (rc_page_size cf) (n_key (nd s x)) = Inr ck"
    "map_of (n_children (nd s q)) ck = Some x"
  using assms by (auto simp: tree_ok_def children_ok_def)

lemma tree_ok_distinct: "tree_ok cf N s \<Longrightarrow> q \<in> N \<Longrightarrow> distinct (map fst (n_children (nd s q)))"
  by (simp add: tree_ok_def children_ok_def)

lemma split_nodes:
  assumes "splittable cf N s p c l" "split_of cf s p c l s'"
  shows "node_ok cf (nd s' (rx_next s))" "node_ok cf (nd s' c)"
    "child_key (rc_page_size cf) (n_key (nd s' (rx_next s))) = Inr (ext s c, take (rc_page_size cf) (units s c))"
    "child_key (rc_page_size cf) (n_key (nd s' c)) = Inr (ext s c, take (rc_page_size cf) (drop l (units s c)))"
proof -
  have ok: "tree_ok cf N s" "p \<in> N" "c \<in> kids s p" "0 < l" "l < key_len (n_key (nd s c))" "rc_page_size cf dvd l"
    using assms(1) by auto
  note c = childD [OF ok(1-3)] and sp = assms(2) [unfolded split_of_def Let_def]
  let ?ps = "rc_page_size cf"
  have ps: "0 < ?ps" "?ps \<le> l" "?ps dvd key_len (n_key (nd s c)) - l" "?ps \<le> key_len (n_key (nd s c)) - l"
    using tree_okD(1) [OF ok(1)] ok c(4) by (auto simp: node_ok_def intro: dvd_imp_le)
  then show "child_key ?ps (n_key (nd s' (rx_next s))) = Inr (ext s c, take ?ps (units s c))"
    "child_key ?ps (n_key (nd s' c)) = Inr (ext s c, take ?ps (drop l (units s c)))"
    using child_key_iter [of ?ps "key_take l (n_key (nd s c))"] child_key_iter [of ?ps "key_drop l (n_key (nd s c))"] ok(5) sp
    by (simp_all add: min_absorb1 min_absorb2)
  show "node_ok cf (nd s' (rx_next s))" "node_ok cf (nd s' c)"
    using c(4) ps ok sp by (simp_all add: node_ok_def)
qed

lemma split_children_ok:
  assumes "splittable cf N s p c l" "split_of cf s p c l s'" "q \<in> insert (rx_next s) N"
  shows "children_ok cf (insert (rx_next s) N) s' q"
proof -
  let ?new = "rx_next s" and ?pk = "(ext s c, take (rc_page_size cf) (units s c))"
  have ok: "tree_ok cf N s" "p \<in> N" "c \<in> kids s p"
    using assms(1) by auto
  note c = childD [OF ok] and k = split_kids [OF assms(1,2)] and keys = split_nodes [OF assms(1,2)]
  note sp = assms(2) [unfolded split_of_def Let_def]
  have root: "rx_root s \<noteq> ?new"
    using tree_okD(3) [OF ok(1)] k(5) by auto
  have entry: "y \<in> insert ?new N \<and> y \<noteq> rx_root s' \<and> n_parent (nd s' y) = Some r \<and> child_key (rc_page_size cf) (n_key (nd s' y)) = Inr ck"
    if "r \<in> N" "(ck, y) \<in> set (n_children (nd s r))" "y \<noteq> c" for r ck y
    using tree_ok_entry [OF ok(1) that(1,2)] k(4) [of y] that(3) sp by simp
  consider "q = ?new" | "q = p" | "q \<in> N" "q \<noteq> p"
    using assms(3) by auto
  then show ?thesis
  proof cases
    case 1
    then show ?thesis
      using sp keys(4) c(1,2) by (simp add: children_ok_def)
  next
    case 2
    have d: "distinct (map fst (n_children (nd s p)))"
      using tree_ok_distinct [OF ok(1,2)] .
    have "y \<in> insert ?new N \<and> y \<noteq> rx_root s' \<and> n_parent (nd s' y) = Some p \<and> child_key (rc_page_size cf) (n_key (nd s' y)) = Inr ck"
      if y: "(ck, y) \<in> set (n_children (nd s' p))" for ck y
    proof (cases "(ck, y) = (?pk, ?new)")
      case True
      then show ?thesis
        using sp keys(3) root by simp
    next
      case False
      then have old: "(ck, y) \<in> set (n_children (nd s p))" "ck \<noteq> ?pk"
        using y sp d by (auto simp: set_AList_update)
      then have "y \<noteq> c"
        using lookupD(2) [OF ok(1,2)] tree_ok_entry(5) [OF ok(1,2) old(1)] by blast
      then show ?thesis
        using entry [OF ok(2) old(1)] by simp
    qed
    then show ?thesis
      using 2 sp d by (auto simp: children_ok_def distinct_update)
  next
    case 3
    have "y \<noteq> c" if "(ck, y) \<in> set (n_children (nd s q))" for ck y
      using tree_ok_entry(1) [OF ok(1) 3(1) that] c(3) 3(2) by auto
    then have "\<forall>(ck, y)\<in>set (n_children (nd s q)). y \<in> insert ?new N \<and> y \<noteq> rx_root s' \<and> n_parent (nd s' y) = Some q \<and>
        child_key (rc_page_size cf) (n_key (nd s' y)) = Inr ck"
      using entry [OF 3(1)] by blast
    then show ?thesis
      using k(3) [OF 3] tree_ok_distinct [OF ok(1) 3(1)] by (simp add: children_ok_def)
  qed
qed

lemma split_rank:
  assumes "splittable cf N s p c l" "split_of cf s p c l s'"
  shows "\<exists>rank :: nat \<Rightarrow> nat. \<forall>x\<in>insert (rx_next s) N. \<forall>q. x \<noteq> rx_root s' \<and> n_parent (nd s' x) = Some q \<longrightarrow> rank q < rank x"
proof -
  let ?new = "rx_next s"
  have ok: "tree_ok cf N s" "p \<in> N" "c \<in> kids s p"
    using assms(1) by auto
  note c = childD [OF ok] and k = split_kids [OF assms]
  note sp = assms(2) [unfolded split_of_def Let_def]
  obtain rank :: "nat \<Rightarrow> nat" where rank: "\<And>x q. x \<in> N \<Longrightarrow> x \<noteq> rx_root s \<Longrightarrow> n_parent (nd s x) = Some q \<Longrightarrow> rank q < rank x"
    using ok(1) unfolding tree_ok_def by blast
  define rank' where "rank' = (\<lambda>i. if i = ?new then 2 * rank c - 1 else 2 * rank i)"
  have pc: "rank p < rank c"
    using rank [OF c(1,2,3)] .
  have "rank' q < rank' x" if h: "x \<in> insert ?new N" "x \<noteq> rx_root s'" "n_parent (nd s' x) = Some q" for x q
  proof -
    consider "x = ?new" | "x = c" | "x \<in> N" "x \<noteq> c" "x \<noteq> ?new"
      using h(1) by auto
    then show ?thesis
    proof cases
      case 3
      then have x: "n_parent (nd s x) = Some q" "x \<noteq> rx_root s"
        using k(4) h sp by auto
      moreover have "q \<in> N"
        using tree_ok_parent [OF ok(1) 3(1) x(2)] x(1) by auto
      ultimately show ?thesis
        using rank [OF 3(1)] 3(3) k(5) by (auto simp: rank'_def)
    qed (use h(3) sp pc ok(2) k(5,7) in \<open>auto simp: rank'_def\<close>)
  qed
  then show ?thesis
    by blast
qed

lemma split_tree_ok:
  assumes "splittable cf N s p c l" "split_of cf s p c l s'"
  shows "tree_ok cf (insert (rx_next s) N) s'"
proof -
  let ?new = "rx_next s"
  have ok: "tree_ok cf N s" "p \<in> N" "c \<in> kids s p"
    using assms(1) by auto
  note k = split_kids [OF assms] and sp = assms(2) [unfolded split_of_def Let_def]
  have "node_ok cf (nd s' x) \<and> (\<exists>q\<in>insert ?new N. n_parent (nd s' x) = Some q \<and> x \<in> kids s' q)"
    if "x \<in> insert ?new N" "x \<noteq> rx_root s'" for x
  proof (cases "x = ?new \<or> x = c")
    case True
    then show ?thesis
      using split_nodes(1,2) [OF assms] sp k(1,2) ok(2) by auto
  next
    case False
    then have x: "x \<in> N" "x \<noteq> c" "x \<noteq> rx_root s"
      using that sp by auto
    obtain q where q: "q \<in> N" "n_parent (nd s x) = Some q" "x \<in> kids s q" "node_ok cf (nd s x)"
      using tree_ok_parent [OF ok(1) x(1,3)] .
    then have "x \<in> kids s' q"
      using k(1) k(3) [of q] x(2) by (cases "q = p") auto
    then show ?thesis
      using k(4) [OF x(1,2)] q by (auto simp: node_ok_def)
  qed
  moreover have "insert ?new N \<subseteq> {..<rx_next s'}" "rx_root s' \<in> insert ?new N"
    using tree_okD(2,3) [OF ok(1)] sp by auto
  ultimately show ?thesis
    using split_children_ok [OF assms] split_rank [OF assms] tree_okD(1) [OF ok(1)] unfolding tree_ok_def by blast
qed

lemma split_parts:
  assumes "splittable cf N s p c l" "split_of cf s p c l s'"
  shows "units s' (rx_next s) = take l (units s c)" "vals s' (rx_next s) = take l (vals s c)" "ext s' (rx_next s) = ext s c"
    "units s' c = drop l (units s c)" "vals s' c = drop l (vals s c)" "ext s' c = ext s c"
    "units s' (rx_next s) @ units s' c = units s c" "vals s' (rx_next s) @ vals s' c = vals s c"
  using assms(2) by (simp_all add: split_of_def Let_def)

lemma take_split: "l < n \<Longrightarrow> take n xs = take l xs @ take (n - l) (drop l xs)"
  using take_add [of l "n - l" xs] by simp

lemma split_desc_part:
  assumes "splittable cf N s p c l" "split_of cf s p c l s'" "ext s c = e" "rc_page_size cf dvd n" "0 < n" "n < key_len (n_key (nd s c))"
  shows "desc cf s' e p (take n (units s c)) (take n (vals s c))"
proof -
  note k = split_kids [OF assms(1,2)] and sp = split_parts [OF assms(1,2)]
  have new: "rx_next s \<in> kids s' p" "c \<in> kids s' (rx_next s)"
    using k(1,2) by auto
  have len: "length (vals s c) = key_len (n_key (nd s c))" "l < key_len (n_key (nd s c))" "rc_page_size cf dvd l"
    using assms(1) childD(4) [of cf N s p c] by (auto simp: node_ok_def)
  have keylen: "key_len (n_key (nd s' (rx_next s))) = l" "key_len (n_key (nd s' c)) = key_len (n_key (nd s c)) - l"
    using assms(2) len(2) by (simp_all add: split_of_def Let_def)
  consider "n < l" | "n = l" | "n > l"
    by linarith
  then show ?thesis
  proof cases
    case 1
    then show ?thesis
      using desc_part [OF new(1), of e cf n] assms(3-5) keylen(1) len(2) by (simp add: sp min_absorb1)
  next
    case 2
    then show ?thesis
      using desc_deep [OF new(1) _ desc_nil, of e cf] assms(3) by (simp add: sp)
  next
    case 3
    have "rc_page_size cf dvd n - l"
      using assms(4) len(3) by simp
    then have "desc cf s' e (rx_next s) (take (n - l) (units s' c)) (take (n - l) (vals s' c))"
      using desc_part [OF new(2), of e cf "n - l"] assms(3,6) 3 keylen(2) by (simp add: sp)
    then have "desc cf s' e p (units s' (rx_next s) @ take (n - l) (units s' c)) (vals s' (rx_next s) @ take (n - l) (vals s' c))"
      using desc_deep [OF new(1)] assms(3) by (simp add: sp)
    then show ?thesis
      using 3 by (simp add: sp take_split [of l n])
  qed
qed

lemma split_desc_mono:
  assumes "desc cf s e q ws xs" "splittable cf N s p c l" "split_of cf s p c l s'" "q \<in> N"
  shows "desc cf s' e q ws xs"
  using assms
proof (induction rule: desc.induct)
  case (desc_part x q n)
  note k = split_kids [OF desc_part.prems(1,2)]
  have ok: "tree_ok cf N s" "c \<in> kids s p" "p \<in> N"
    using desc_part.prems(1) by auto
  have x: "x \<in> N" "n_parent (nd s x) = Some q"
    using childD [OF ok(1) desc_part.prems(3) desc_part.hyps(1)] by auto
  show ?case
  proof (cases "x = c")
    case True
    then have "q = p"
      using childD(3) [OF ok(1,3,2)] x(2) by simp
    then show ?thesis
      using split_desc_part [OF desc_part.prems(1,2)] desc_part.hyps True by simp
  next
    case False
    then have "x \<in> kids s' q"
      using desc_part.hyps(1) k(1) k(3) [OF desc_part.prems(3)] by (cases "q = p") auto
    then show ?thesis
      using desc.desc_part [of x s' q e cf n] k(4) [OF x(1) False] desc_part.hyps by simp
  qed
next
  case (desc_deep x q ws xs)
  note k = split_kids [OF desc_deep.prems(1,2)] and sp = split_parts [OF desc_deep.prems(1,2)]
  have ok: "tree_ok cf N s" "c \<in> kids s p" "p \<in> N"
    using desc_deep.prems(1) by auto
  have x: "x \<in> N" "n_parent (nd s x) = Some q"
    using childD [OF ok(1) desc_deep.prems(3) desc_deep.hyps(1)] by auto
  have IH: "desc cf s' e x ws xs"
    using desc_deep.IH [OF desc_deep.prems(1,2) x(1)] .
  show ?case
  proof (cases "x = c")
    case True
    then have q: "q = p"
      using childD(3) [OF ok(1,3,2)] x(2) by simp
    have "desc cf s' e (rx_next s) (units s' c @ ws) (vals s' c @ xs)"
      using desc.desc_deep [of c s' "rx_next s" e cf ws xs] IH True k(2) desc_deep.hyps(2) by (simp add: sp)
    then have "desc cf s' e p (units s' (rx_next s) @ units s' c @ ws) (vals s' (rx_next s) @ vals s' c @ xs)"
      using desc.desc_deep [of "rx_next s" s' p e cf] k(1) desc_deep.hyps(2) True by (simp add: sp)
    then show ?thesis
      using True q sp(7,8) by (metis append.assoc)
  next
    case False
    then have "x \<in> kids s' q"
      using desc_deep.hyps(1) k(1) k(3) [OF desc_deep.prems(3)] by (cases "q = p") auto
    then show ?thesis
      using desc.desc_deep [of x s' q e cf ws xs] k(4) [OF x(1) False] desc_deep.hyps IH by simp
  qed
qed (rule desc.desc_nil)

lemma split_old_kid:
  assumes "splittable cf N s p c l" "split_of cf s p c l s'" "q \<in> N" "x \<in> kids s' q" "\<not> (q = p \<and> x = rx_next s)"
  shows "x \<in> kids s q" "x \<in> N" "x \<noteq> c" "n_key (nd s' x) = n_key (nd s x)" "vals s' x = vals s x"
proof -
  note k = split_kids [OF assms(1,2)]
  have ok: "tree_ok cf N s" "c \<in> kids s p" "p \<in> N"
    using assms(1) by auto
  show x: "x \<in> kids s q"
    using assms(4,5) k(1) k(3) [OF assms(3)] by (cases "q = p") auto
  then show "x \<in> N"
    using childD(1) [OF ok(1) assms(3)] by blast
  moreover show "x \<noteq> c"
    using assms(4,5) k(1,5,7) childD(3) [OF ok(1,3,2)] childD(3) [OF ok(1) assms(3) x] by (cases "q = p") auto
  ultimately show "n_key (nd s' x) = n_key (nd s x)" "vals s' x = vals s x"
    using k(4) by auto
qed

lemma split_desc_conv:
  assumes "desc cf s' e q ws xs" "splittable cf N s p c l" "split_of cf s p c l s'"
  shows "(q \<in> N \<longrightarrow> desc cf s e q ws xs) \<and>
    (q = rx_next s \<and> ext s c = e \<longrightarrow> desc cf s e p (take l (units s c) @ ws) (take l (vals s c) @ xs))"
  using assms
proof (induction rule: desc.induct)
  case (desc_nil q)
  then show ?case
    using desc_part [of c s p e cf l] by (auto intro: desc.desc_nil)
next
  case (desc_part x q n)
  note k = split_kids [OF desc_part.prems] and sp = split_parts [OF desc_part.prems]
  have ok: "tree_ok cf N s" "c \<in> kids s p" "p \<in> N" "l < key_len (n_key (nd s c))" "rc_page_size cf dvd l"
    using desc_part.prems(1) by auto
  have keylen: "key_len (n_key (nd s' (rx_next s))) = l" "key_len (n_key (nd s' c)) = key_len (n_key (nd s c)) - l"
    using desc_part.prems(2) ok(4) by (simp_all add: split_of_def Let_def)
  have "desc cf s e q (take n (units s' x)) (take n (vals s' x))" if q: "q \<in> N"
  proof (cases "q = p \<and> x = rx_next s")
    case True
    then show ?thesis
      using desc.desc_part [of c s p e cf n] desc_part.hyps ok keylen(1) by (simp add: sp min_absorb1)
  next
    case False
    then show ?thesis
      using split_old_kid [OF desc_part.prems q desc_part.hyps(1) False] desc.desc_part [of x s q e cf n] desc_part.hyps by simp
  qed
  moreover have "desc cf s e p (take l (units s c) @ take n (units s' x)) (take l (vals s c) @ take n (vals s' x))"
    if "q = rx_next s" "ext s c = e"
  proof -
    have "x = c" "l + n < key_len (n_key (nd s c))"
      using desc_part.hyps(1,5) k(2) that(1) keylen(2) by auto
    then show ?thesis
      using desc.desc_part [of c s p e cf "l + n"] ok that(2) desc_part.hyps(3,4) by (simp add: sp take_add)
  qed
  ultimately show ?case
    by blast
next
  case (desc_deep x q ws xs)
  note k = split_kids [OF desc_deep.prems] and sp = split_parts [OF desc_deep.prems]
  have ok: "c \<in> kids s p" "p \<in> N" "c \<in> N"
    using desc_deep.prems(1) k(7) by auto
  have "desc cf s e q (units s' x @ ws) (vals s' x @ xs)" if q: "q \<in> N"
  proof (cases "q = p \<and> x = rx_next s")
    case True
    then show ?thesis
      using desc_deep.IH [OF desc_deep.prems] desc_deep.hyps(2) by (simp add: sp)
  next
    case False
    then show ?thesis
      using split_old_kid [OF desc_deep.prems q desc_deep.hyps(1) False] desc.desc_deep [of x s q e cf ws xs] desc_deep.hyps(2)
        desc_deep.IH [OF desc_deep.prems] by simp
  qed
  moreover have "desc cf s e p (take l (units s c) @ units s' x @ ws) (take l (vals s c) @ vals s' x @ xs)"
    if "q = rx_next s" "ext s c = e"
  proof -
    have "x = c"
      using desc_deep.hyps(1) k(2) that(1) by auto
    then show ?thesis
      using desc.desc_deep [OF ok(1) that(2), of cf ws xs] desc_deep.IH [OF desc_deep.prems] ok(3)
      by (simp add: sp flip: append_assoc)
  qed
  ultimately show ?case
    by blast
qed

lemma split_desc:
  assumes "splittable cf N s p c l" "split_of cf s p c l s'" "q \<in> N"
  shows "desc cf s' e q ws xs \<longleftrightarrow> desc cf s e q ws xs"
  using split_desc_mono [OF _ assms] split_desc_conv [OF _ assms(1,2)] assms(3) by blast

lemma split_down:
  assumes "down s e q r ws xs" "splittable cf N s p c l" "split_of cf s p c l s'" "q \<in> N"
  shows "down s' e q r ws xs"
  using assms
proof (induction rule: down.induct)
  case (down_step x q r ws xs)
  note k = split_kids [OF down_step.prems(1,2)] and sp = split_parts [OF down_step.prems(1,2)]
  have ok: "tree_ok cf N s" "c \<in> kids s p" "p \<in> N"
    using down_step.prems(1) by auto
  have x: "x \<in> N" "n_parent (nd s x) = Some q"
    using childD [OF ok(1) down_step.prems(3) down_step.hyps(1)] by auto
  have IH: "down s' e x r ws xs"
    using down_step.IH [OF down_step.prems(1,2) x(1)] .
  show ?case
  proof (cases "x = c")
    case True
    then have q: "q = p"
      using childD(3) [OF ok(1,3,2)] x(2) by simp
    have "down s' e (rx_next s) r (units s' c @ ws) (vals s' c @ xs)"
      using down.down_step [of c s' "rx_next s" e r ws xs] IH True k(2) down_step.hyps(2) by (simp add: sp)
    then have "down s' e p r (units s' (rx_next s) @ units s' c @ ws) (vals s' (rx_next s) @ vals s' c @ xs)"
      using down.down_step [of "rx_next s" s' p e r] k(1) down_step.hyps(2) True by (simp add: sp)
    then show ?thesis
      using True q sp(7,8) by (metis append.assoc)
  next
    case False
    then have "x \<in> kids s' q"
      using down_step.hyps(1) k(1) k(3) [OF down_step.prems(3)] by (cases "q = p") auto
    then show ?thesis
      using down.down_step [of x s' q e r ws xs] k(4) [OF x(1) False] down_step.hyps IH by simp
  qed
qed (rule down.down_refl)

lemma split_down_new:
  assumes "splittable cf N s p c l" "split_of cf s p c l s'"
  shows "down s' (ext s c) p (rx_next s) (take l (units s c)) (take l (vals s c))"
  using down_one [of "rx_next s" s' p "ext s c"] split_kids(1) [OF assms] split_parts [OF assms] by simp

section \<open>Reshaping: touches and splits\<close>

definition quiet :: "'s radix_scheme \<Rightarrow> 's radix_scheme \<Rightarrow> bool" where
  "quiet s s' \<longleftrightarrow> same_shape s s' \<and> (\<forall>i. n_lock_ref (nd s' i) = n_lock_ref (nd s i)) \<and> rx_evictable_size s' = rx_evictable_size s \<and>
     rx_protected_size s' = rx_protected_size s \<and> rx_leaves s' = rx_leaves s \<and> rx_kv s' = rx_kv s \<and> rx_pool s' = rx_pool s"

lemma quiet_touch [simp]:
  "quiet s (touch_node i t s)" "quiet s (raise_priority i pr s)" "quiet s (inc_hit_count ch i s)" "quiet s (s\<lparr>rx_ticks := n\<rparr>)" "quiet s s"
  by (simp_all add: quiet_def same_shape_def touch_node_def raise_priority_def inc_hit_count_def upd_node_def)

lemma quiet_trans [trans]: "quiet s s' \<Longrightarrow> quiet s' s'' \<Longrightarrow> quiet s s''"
  by (simp add: quiet_def same_shape_def)

lemma quiet_shape: "quiet s s' \<Longrightarrow> same_shape s s'"
  by (simp add: quiet_def)

inductive reshape :: "radix_config \<Rightarrow> nat set \<Rightarrow> 's radix_scheme \<Rightarrow> nat set \<Rightarrow> 's radix_scheme \<Rightarrow> bool" for cf where
  reshape_quiet: "quiet s s' \<Longrightarrow> reshape cf N s N s'"
| reshape_split: "splittable cf N s p c l \<Longrightarrow> split_of cf s p c l s' \<Longrightarrow> reshape cf N s (insert (rx_next s) N) s'"
| reshape_trans: "reshape cf N s N' s' \<Longrightarrow> reshape cf N' s' N'' s'' \<Longrightarrow> reshape cf N s N'' s''"

lemma reshape_ok:
  assumes "reshape cf N s N' s'" "tree_ok cf N s"
  shows "tree_ok cf N' s' \<and> N \<subseteq> N' \<and> rx_root s' = rx_root s \<and>
    (\<forall>q\<in>N. \<forall>e ws xs. desc cf s' e q ws xs \<longleftrightarrow> desc cf s e q ws xs) \<and> (\<forall>q\<in>N. \<forall>e r ws xs. down s e q r ws xs \<longrightarrow> down s' e q r ws xs)"
  using assms
proof (induction rule: reshape.induct)
  case (reshape_quiet s s' N)
  have sh: "same_shape s s'" "rx_root s' = rx_root s"
    using quiet_shape [OF reshape_quiet(1)] by (simp_all add: same_shape_def)
  then show ?case
    using tree_ok_shape [OF sh(1) reshape_quiet(2)] desc_shape_iff [OF sh(1)] down_shape [OF _ sh(1)] by simp
next
  case (reshape_split N s p c l s')
  have "rx_root s' = rx_root s"
    using reshape_split(2) by (simp add: split_of_def Let_def)
  then show ?case
    using split_tree_ok [OF reshape_split(1,2)] split_desc [OF reshape_split(1,2)] split_down [OF _ reshape_split(1,2)] by auto
next
  case (reshape_trans N s N' s' N'' s'')
  then show ?case
    by (metis subset_iff)
qed

end
