(* ===== verification/Radix_Refine.thy ===== *)
theory Radix_Refine
  imports Radix_Tree
begin

text \<open>
  The radix cache as a map from prefixes to slots: per namespace, every cached prefix of whole pages is mapped to the KV slots of
  its units. Lookup and insertion of the object graph refine the two operations of this map: a lookup returns the longest cached
  prefix and leaves the map alone, an insertion adds the longer prefixes of its key. Both return in every well-formed tree, so the bounds of their loops are
  enough.
\<close>

section \<open>Lookup\<close>

lemma lcp_take: "take (lcp_len xs ys) xs = take (lcp_len xs ys) ys"
  by (induction xs ys rule: longest_common_prefix.induct) auto

lemma lcp_le: "lcp_len xs ys \<le> length xs" "lcp_len xs ys \<le> length ys"
  by (induction xs ys rule: longest_common_prefix.induct) auto

lemma lcp_greatest: "take m xs = take m ys \<Longrightarrow> m \<le> length xs \<Longrightarrow> m \<le> length ys \<Longrightarrow> m \<le> lcp_len xs ys"
proof (induction xs ys arbitrary: m rule: longest_common_prefix.induct)
  case (1 x xs y ys)
  then show ?case
    by (cases m) auto
qed auto

text \<open>One comparison on the way down: with a common first page, the matched length is a positive number of pages, the units agree so
  far, and if neither side ends there the next pages differ.\<close>

lemma page_match:
  assumes "0 < ps" "ps \<le> length xs" "ps \<le> length ys" "take ps xs = take ps ys" "ps dvd length xs" "ps dvd length ys"
  defines "m \<equiv> lcp_len xs ys div ps * ps"
  shows "0 < m" "ps dvd m" "m \<le> length xs" "m \<le> length ys" "take m xs = take m ys"
    "m < length xs \<Longrightarrow> m < length ys \<Longrightarrow> take ps (drop m xs) \<noteq> take ps (drop m ys)"
proof -
  have "ps \<le> lcp_len xs ys"
    using lcp_greatest [OF assms(4,2,3)] .
  then show "0 < m" "ps dvd m"
    using assms(1) by (auto simp: m_def div_greater_zero_iff)
  have m: "m \<le> lcp_len xs ys" "lcp_len xs ys < m + ps"
    using assms(1) by (auto simp: m_def) (metis add.commute dividend_less_div_times)
  then show "m \<le> length xs" "m \<le> length ys"
    using lcp_le [of xs ys] by simp_all
  show eq: "take m xs = take m ys"
    using lcp_take [of xs ys] m(1) by (metis min.absorb1 take_take)
  show "take ps (drop m xs) \<noteq> take ps (drop m ys)" if "m < length xs" "m < length ys"
  proof
    assume "take ps (drop m xs) = take ps (drop m ys)"
    then have "take (m + ps) xs = take (m + ps) ys"
      using eq by (simp add: take_add)
    moreover have "m + ps \<le> length xs" "m + ps \<le> length ys"
      using that assms(5,6) \<open>ps dvd m\<close> assms(1) by (auto simp: dvd_def) (metis Suc_leI add.commute mult_Suc_right mult_le_mono2 nat_mult_less_cancel1)+
    ultimately show False
      using lcp_greatest [of "m + ps" xs ys] m(2) by simp
  qed
qed

definition key_ok :: "radix_config \<Rightarrow> radix_key \<Rightarrow> bool" where
  "key_ok cf k \<longleftrightarrow> rk_is_bigram k = rc_is_eagle cf \<and> rc_page_size cf dvd key_len k"

abbreviation first_page :: "radix_config \<Rightarrow> radix_key \<Rightarrow> child_id" where
  "first_page cf k \<equiv> (rk_extra_key k, take (rc_page_size cf) (key_iter k))"

lemma key_ok_drop: "key_ok cf k \<Longrightarrow> rc_page_size cf dvd n \<Longrightarrow> key_ok cf (key_drop n k)"
  by (simp add: key_ok_def)

lemma child_key_ok:
  assumes "key_ok cf k" "0 < key_len k" "0 < rc_page_size cf"
  shows "child_key (rc_page_size cf) k = Inr (first_page cf k)" "rc_page_size cf \<le> key_len k"
  using assms child_key_iter [of "rc_page_size cf" k] by (auto simp: key_ok_def dest: dvd_imp_le)

text \<open>One step down: the child is there, its key is compared.\<close>

lemma step_down:
  assumes "tree_ok cf N s" "p \<in> N" "key_ok cf k" "0 < key_len k" "map_of (n_children (nd s p)) (first_page cf k) = Some c"
  defines "m \<equiv> lcp_len (units s c) (key_iter k) div rc_page_size cf * rc_page_size cf"
  shows "c \<in> kids s p" "ext s c = rk_extra_key k" "key_match (n_key (nd s c)) k (rc_page_size cf) = Inr m"
    "0 < m" "rc_page_size cf dvd m" "m \<le> key_len (n_key (nd s c))" "m \<le> key_len k" "take m (units s c) = take m (key_iter k)"
    "m < key_len (n_key (nd s c)) \<Longrightarrow> m < key_len k \<Longrightarrow>
       take (rc_page_size cf) (drop m (units s c)) \<noteq> take (rc_page_size cf) (drop m (key_iter k))"
proof -
  show c: "c \<in> kids s p"
    using lookupD(1) [OF assms(1,2,5)] .
  have fp: "ext s c = rk_extra_key k" "take (rc_page_size cf) (units s c) = take (rc_page_size cf) (key_iter k)"
    using lookupD(2) [OF assms(1,2,5)] by simp_all
  show "ext s c = rk_extra_key k"
    by (fact fp(1))
  have ps: "0 < rc_page_size cf"
    using tree_okD(1) [OF assms(1)] .
  have n: "node_ok cf (nd s c)"
    using childD(4) [OF assms(1,2) c] .
  then show "key_match (n_key (nd s c)) k (rc_page_size cf) = Inr m"
    using key_match_common [of "n_key (nd s c)" k "rc_page_size cf"] fp(1) ps assms(3) by (simp add: m_def node_ok_def key_ok_def)
  have len: "rc_page_size cf \<le> length (units s c)" "rc_page_size cf \<le> length (key_iter k)"
    "rc_page_size cf dvd length (units s c)" "rc_page_size cf dvd length (key_iter k)"
    using node_okD(1) [OF n ps] child_key_ok(2) [OF assms(3,4) ps] n assms(3) by (simp_all add: node_ok_def key_ok_def)
  note pm = page_match [OF ps len(1,2) fp(2) len(3,4), folded m_def]
  then show "0 < m" "rc_page_size cf dvd m" "m \<le> key_len (n_key (nd s c))" "m \<le> key_len k" "take m (units s c) = take m (key_iter k)"
    "m < key_len (n_key (nd s c)) \<Longrightarrow> m < key_len k \<Longrightarrow>
       take (rc_page_size cf) (drop m (units s c)) \<noteq> take (rc_page_size cf) (drop m (key_iter k))"
    by simp_all
qed

text \<open>What a walk along a key ends with: a node reached along the first \<open>n\<close> units, as many pages as possible.\<close>

definition walked :: "radix_config \<Rightarrow> 's radix_scheme \<Rightarrow> radix_key \<Rightarrow> nat \<Rightarrow> nat \<Rightarrow> nat \<Rightarrow> nat list \<Rightarrow> bool" where
  "walked cf s k p q n vs \<longleftrightarrow> n \<le> key_len k \<and> rc_page_size cf dvd n \<and> down s (rk_extra_key k) p q (take n (key_iter k)) vs \<and>
     (n < key_len k \<longrightarrow> map_of (n_children (nd s q)) (rk_extra_key k, take (rc_page_size cf) (drop n (key_iter k))) = None)"

lemma walked_stop:
  assumes "key_len k = 0 \<or> map_of (n_children (nd s p)) (first_page cf k) = None"
  shows "walked cf s k p p 0 []"
  using assms by (auto simp: walked_def intro: down_refl)

lemma walked_step:
  assumes "walked cf s (key_drop m k) q r n vs" "down s (rk_extra_key k) p q (take m (key_iter k)) us" "m \<le> key_len k" "rc_page_size cf dvd m"
  shows "walked cf s k p r (m + n) (us @ vs)"
  using assms down_trans [of s "rk_extra_key k" p q "take m (key_iter k)" us r "take n (drop m (key_iter k))" vs]
  by (auto simp: walked_def take_add add.commute)

text \<open>Entering the child of a walk: after the access time is refreshed, the child is split where the key leaves it.\<close>

definition entered :: "radix_config \<Rightarrow> nat set \<Rightarrow> 's radix_scheme \<Rightarrow> nat \<Rightarrow> radix_key \<Rightarrow> nat \<Rightarrow> 's radix_scheme \<Rightarrow>
    nat \<Rightarrow> nat \<Rightarrow> 's radix_scheme \<Rightarrow> nat set \<Rightarrow> bool" where
  "entered cf N s p k c s1 m q s2 N' \<longleftrightarrow> key_match (n_key (nd s1 c)) k (rc_page_size cf) = Inr m \<and>
     (if m < key_len (n_key (nd s1 c)) then split_node cf (n_key (nd s1 c)) c m else retM c) s1 = (Inr q, s2) \<and>
     reshape cf N s N' s2 \<and> q \<in> N' \<and> 0 < m \<and> m \<le> key_len k \<and> rc_page_size cf dvd m \<and>
     down s2 (rk_extra_key k) p q (take m (key_iter k)) (vals s2 q) \<and>
     (m < key_len (n_key (nd s1 c)) \<longrightarrow> walked cf s2 k p q m (vals s2 q)) \<and> (\<not> m < key_len (n_key (nd s1 c)) \<longrightarrow> q = c \<and> s2 = s1)"

lemma enter_child:
  fixes now :: int
  assumes "tree_ok cf N s" "p \<in> N" "key_ok cf k" "0 < key_len k" "map_of (n_children (nd s p)) (first_page cf k) = Some c"
  defines "s1 \<equiv> touch_node c now s"
  shows "\<exists>m q s2 N'. entered cf N s p k c s1 m q s2 N'"
proof -
  have q1: "quiet s s1"
    by (simp add: s1_def)
  have ok1: "tree_ok cf N s1"
    using tree_ok_shape [OF quiet_shape [OF q1] assms(1)] .
  have c1: "map_of (n_children (nd s1 p)) (first_page cf k) = Some c"
    using assms(5) quiet_shape [OF q1] by (simp add: same_shape_def)
  define m where "m = lcp_len (units s1 c) (key_iter k) div rc_page_size cf * rc_page_size cf"
  note st = step_down [OF ok1 assms(2-4) c1, folded m_def]
  show ?thesis
  proof (cases "m < key_len (n_key (nd s1 c))")
    case True
    then have spl: "splittable cf N s1 p c m"
      using ok1 assms(2) st by simp
    obtain s2 where s2: "split_node cf (n_key (nd s1 c)) c m s1 = (Inr (rx_next s1), s2)" "split_of cf s1 p c m s2"
      using split_node_run [OF spl] by blast
    have down: "down s2 (rk_extra_key k) p (rx_next s1) (take m (key_iter k)) (vals s2 (rx_next s1))"
      using split_down_new [OF spl s2(2)] st(2,8) split_parts(2) [OF spl s2(2)] by simp
    moreover have "map_of (n_children (nd s2 (rx_next s1))) (rk_extra_key k, take (rc_page_size cf) (drop m (key_iter k))) = None"
      if "m < key_len k"
      using st(9) [OF True that] s2(2) by (auto simp: split_of_def Let_def)
    ultimately have "walked cf s2 k p (rx_next s1) m (vals s2 (rx_next s1))"
      using st(5,7) by (simp add: walked_def)
    then have "entered cf N s p k c s1 m (rx_next s1) s2 (insert (rx_next s1) N)"
      using st s2(1) True down reshape_trans [OF reshape_quiet [OF q1] reshape_split [OF spl s2(2)]] by (simp add: entered_def)
    then show ?thesis
      by blast
  next
    case False
    then have "down s1 (rk_extra_key k) p c (take m (key_iter k)) (vals s1 c)"
      using down_one [OF st(1,2)] st(6,8) by simp
    then have "entered cf N s p k c s1 m c s1 N"
      using st False reshape_quiet [OF q1] childD(1) [OF ok1 assms(2) st(1)] by (simp add: entered_def)
    then show ?thesis
      by blast
  qed
qed

lemma enteredD:
  assumes "entered cf N s p k c s1 m q s2 N'"
  shows "key_match (n_key (nd s1 c)) k (rc_page_size cf) = Inr m"
    "(if m < key_len (n_key (nd s1 c)) then split_node cf (n_key (nd s1 c)) c m else retM c) s1 = (Inr q, s2)"
    "reshape cf N s N' s2" "q \<in> N'" "0 < m" "m \<le> key_len k" "rc_page_size cf dvd m"
    "down s2 (rk_extra_key k) p q (take m (key_iter k)) (vals s2 q)"
    "m < key_len (n_key (nd s1 c)) \<Longrightarrow> walked cf s2 k p q m (vals s2 q)" "\<not> m < key_len (n_key (nd s1 c)) \<Longrightarrow> q = c \<and> s2 = s1"
  using assms unfolding entered_def by blast+

lemma match_walk_spec:
  assumes "tree_ok cf N s" "p \<in> N" "key_ok cf k" "key_len k < fuel" "0 < key_len k \<Longrightarrow> ck = first_page cf k"
  shows "\<exists>vss q n N' s'. match_walk cf now fuel p k ck acc s = (Inr (acc @ vss, q), s') \<and> reshape cf N s N' s' \<and>
    walked cf s' k p q n (concat vss)"
  using assms
proof (induction fuel arbitrary: p k ck acc s N)
  case (Suc fuel)
  show ?case
  proof (cases "key_len k > 0 \<and> map_of (n_children (nd s p)) ck \<noteq> None")
    case False
    then have "match_walk cf now (Suc fuel) p k ck acc s = (Inr (acc @ [], p), s)" "walked cf s k p p 0 (concat [])"
      using Suc.prems(5) walked_stop [of k s p cf] by auto
    then show ?thesis
      using reshape_quiet [of s s cf N] by (metis quiet_touch(5))
  next
    case True
    then obtain c where c: "0 < key_len k" "map_of (n_children (nd s p)) (first_page cf k) = Some c" "ck = first_page cf k"
      using Suc.prems(5) by auto
    define s1 where "s1 = touch_node c now s"
    obtain m q s2 N' where ent: "entered cf N s p k c s1 m q s2 N'"
      using enter_child [OF Suc.prems(1-3) c(1,2), of now] s1_def by blast
    note e = enteredD [OF ent]
    have ok2: "tree_ok cf N' s2" "p \<in> N'"
      using reshape_ok [OF e(3) Suc.prems(1)] Suc.prems(2) by auto
    show ?thesis
    proof (cases "m < key_len (n_key (nd s1 c))")
      case True
      have "match_walk cf now (Suc fuel) p k ck acc s = (Inr (acc @ [vals s2 q], q), s2)"
        using c e(1,2) True by (simp add: bindM_app flip: s1_def)
      then show ?thesis
        using e(3) e(9) [OF True] by (metis concat.simps append_Nil2)
    next
      case False
      then have q: "q = c" "s2 = s1"
        using e(10) by auto
      define ck' where "ck' = (if m < key_len k then first_page cf (key_drop m k) else ck)"
      have ck': "m < key_len k \<Longrightarrow> child_key (rc_page_size cf) (key_drop m k) = Inr ck'" "\<not> m < key_len k \<Longrightarrow> ck' = ck"
        using child_key_ok(1) [OF key_ok_drop [OF Suc.prems(3) e(7)]] tree_okD(1) [OF ok2(1)] by (simp_all add: ck'_def)
      have less: "key_len (key_drop m k) < fuel"
        using e(5,6) Suc.prems(4) by simp
      obtain vss r n N2 s' where r: "match_walk cf now fuel c (key_drop m k) ck' (acc @ [vals s1 c]) s1 = (Inr ((acc @ [vals s1 c]) @ vss, r), s')"
        "reshape cf N' s1 N2 s'" "walked cf s' (key_drop m k) c r n (concat vss)"
        using Suc.IH [OF ok2(1) e(4) key_ok_drop [OF Suc.prems(3) e(7)] less, of ck' "acc @ [vals s1 c]"] unfolding ck'_def q by auto
      have run: "match_walk cf now (Suc fuel) p k ck acc s = (Inr (acc @ vals s1 c # vss, r), s')"
        using c r(1) e(1) False ck' by (cases "m < key_len k") (simp_all add: bindM_app Let_def flip: s1_def)
      have "down s' (rk_extra_key k) p c (take m (key_iter k)) (vals s1 c)"
        using reshape_ok [OF r(2)] ok2 e(8) q by simp
      then have "walked cf s' k p r (m + n) (concat (vals s1 c # vss))"
        using walked_step [OF r(3) _ e(6,7)] by simp
      then show ?thesis
        using run reshape_trans [OF e(3)] r(2) q by blast
    qed
  qed
qed simp

section \<open>Insertion\<close>

lemma walked_shape:
  assumes "walked cf s k p q n vs" "same_shape s s'"
  shows "walked cf s' k p q n vs"
  using assms down_shape [OF _ assms(2)] by (simp add: walked_def same_shape_def)

lemma insert_walk_spec:
  assumes "tree_ok cf N s" "p \<in> N" "key_ok cf k" "key_len k < fuel" "0 < key_len k \<Longrightarrow> ck = first_page cf k"
  shows "\<exists>q k' ck' n vs N' s'. insert_walk cf now prio chunked fuel p k xs ck tot s = (Inr (q, k', drop n xs, ck', tot + n), s') \<and>
    reshape cf N s N' s' \<and> walked cf s' k p q n vs \<and> key_iter k' = drop n (key_iter k) \<and> rk_extra_key k' = rk_extra_key k \<and>
    key_ok cf k' \<and> (0 < key_len k' \<longrightarrow> ck' = first_page cf k')"
  using assms
proof (induction fuel arbitrary: p k ck xs tot s N)
  case (Suc fuel)
  show ?case
  proof (cases "key_len k > 0 \<and> map_of (n_children (nd s p)) ck \<noteq> None")
    case False
    then have "insert_walk cf now prio chunked (Suc fuel) p k xs ck tot s = (Inr (p, k, drop 0 xs, ck, tot + 0), s)" "walked cf s k p p 0 []"
      using Suc.prems(5) walked_stop [of k s p cf] by auto
    then show ?thesis
      using reshape_quiet [of s s cf N] Suc.prems(3,5) by (metis drop0 quiet_touch(5))
  next
    case True
    then obtain c where c: "0 < key_len k" "map_of (n_children (nd s p)) (first_page cf k) = Some c" "ck = first_page cf k"
      using Suc.prems(5) by auto
    define s1 where "s1 = touch_node c now s"
    obtain m q s2 N' where ent: "entered cf N s p k c s1 m q s2 N'"
      using enter_child [OF Suc.prems(1-3) c(1,2), of now] s1_def by blast
    note e = enteredD [OF ent]
    define s3 where "s3 = inc_hit_count chunked q (raise_priority q prio s2)"
    have q3: "quiet s2 s3"
      unfolding s3_def using quiet_trans quiet_touch(2,3) by blast
    have ok3: "tree_ok cf N' s3" "p \<in> N'"
      using reshape_ok [OF e(3) Suc.prems(1)] Suc.prems(2) tree_ok_shape [OF quiet_shape [OF q3]] by auto
    define ck' where "ck' = (if m < key_len k then first_page cf (key_drop m k) else ck)"
    have ck': "m < key_len k \<Longrightarrow> child_key (rc_page_size cf) (key_drop m k) = Inr ck'" "\<not> m < key_len k \<Longrightarrow> ck' = ck"
      using child_key_ok(1) [OF key_ok_drop [OF Suc.prems(3) e(7)]] tree_okD(1) [OF ok3(1)] by (simp_all add: ck'_def)
    have less: "key_len (key_drop m k) < fuel"
      using e(5,6) Suc.prems(4) by simp
    obtain r k' ck2 n vs N2 s' where r: "insert_walk cf now prio chunked fuel q (key_drop m k) (drop m xs) ck' (tot + m) s3 =
          (Inr (r, k', drop n (drop m xs), ck2, tot + m + n), s')"
        "reshape cf N' s3 N2 s'" "walked cf s' (key_drop m k) q r n vs" "key_iter k' = drop n (key_iter (key_drop m k))"
        "rk_extra_key k' = rk_extra_key k" "key_ok cf k'" "0 < key_len k' \<longrightarrow> ck2 = first_page cf k'"
      using Suc.IH [OF ok3(1) e(4) key_ok_drop [OF Suc.prems(3) e(7)] less, of ck' "drop m xs" "tot + m"] unfolding ck'_def by auto
    let ?enter = "if m < key_len (n_key (nd s1 c)) then split_node cf (n_key (nd s1 c)) c m else retM c"
    have run: "insert_walk cf now prio chunked (Suc fuel) p k xs ck tot s = (Inr (r, k', drop (m + n) xs, ck2, tot + (m + n)), s')"
      using c r(1) e(1) ck' by (cases "m < key_len k")
        (simp_all add: bindM_InrI [of ?enter s1 q s2, OF e(2)] Let_def add.commute add.left_commute flip: s1_def s3_def split del: if_split)
    have "down s' (rk_extra_key k) p q (take m (key_iter k)) (vals s2 q)"
      using reshape_ok [OF r(2) ok3(1)] ok3(2) down_shape [OF e(8) quiet_shape [OF q3]] by simp
    then have w: "walked cf s' k p r (m + n) (vals s2 q @ vs)"
      using walked_step [OF r(3) _ e(6,7)] by simp
    have rs: "reshape cf N s N2 s'"
      using reshape_trans [OF reshape_trans [OF e(3) reshape_quiet [OF q3]] r(2)] .
    have it: "key_iter k' = drop (m + n) (key_iter k)"
      using r(4) by (simp add: add.commute)
    show ?thesis
      by (intro exI conjI, rule run) (fact rs w it r(5-7))+
  qed
qed simp

text \<open>\<open>leaf_of cf s p k xs s'\<close>: a new child of \<open>p\<close> with key \<open>k\<close> and slots \<open>xs\<close>.\<close>

definition leaf_of :: "radix_config \<Rightarrow> 's radix_scheme \<Rightarrow> nat \<Rightarrow> radix_key \<Rightarrow> nat list \<Rightarrow> 's radix_scheme \<Rightarrow> bool" where
  "leaf_of cf s p k xs s' \<longleftrightarrow>
     (let new = rx_next s in
      rx_root s' = rx_root s \<and> rx_next s' = rx_next s + 1 \<and> rx_evictable_size s' = rx_evictable_size s + int (key_len k) \<and>
      rx_protected_size s' = rx_protected_size s \<and> rx_leaves s' = insert new (rx_leaves s - {p}) \<and> rx_kv s' = rx_kv s \<and> rx_pool s' = rx_pool s \<and>
      n_children (nd s' new) = [] \<and> n_parent (nd s' new) = Some p \<and> n_lock_ref (nd s' new) = 0 \<and> n_key (nd s' new) = k \<and> n_value (nd s' new) = xs \<and>
      n_children (nd s' p) = AList.update (first_page cf k) new (n_children (nd s p)) \<and>
      n_parent (nd s' p) = n_parent (nd s p) \<and> n_key (nd s' p) = n_key (nd s p) \<and> n_value (nd s' p) = n_value (nd s p) \<and>
      n_lock_ref (nd s' p) = n_lock_ref (nd s p) \<and> (\<forall>i. i \<noteq> new \<and> i \<noteq> p \<longrightarrow> nd s' i = nd s i))"

lemma leaf_status_inner: "n_children (nd s i) \<noteq> [] \<Longrightarrow> update_leaf_status i s = s\<lparr>rx_leaves := rx_leaves s - {i}\<rparr>"
  by (simp add: update_leaf_status_def)

lemma leaf_status_leaf: "n_lock_ref (nd s i) = 0 \<Longrightarrow> n_children (nd s i) = [] \<Longrightarrow> update_leaf_status i s = s\<lparr>rx_leaves := insert i (rx_leaves s)\<rparr>"
  by (simp add: update_leaf_status_def)

lemma update_not_Nil [simp]: "AList.update k v al \<noteq> []"
  by (cases al) auto

lemma add_leaf_run:
  assumes "p \<noteq> rx_next s"
  shows "\<exists>s'. add_leaf cf prio chunked p k xs (first_page cf k) s = (Inr (), s') \<and> leaf_of cf s p k xs s'"
proof -
  let ?new = "rx_next s"
  define h where "h = (if chunked then 0 else 1 :: int)"
  define n0 where "n0 = \<lparr>last_access_time = rc_clock cf (rx_ticks s), creation_time = rc_clock cf (rx_ticks s + 1), hit_count = h,
     priority = prio, n_children = [], n_parent = Some p, n_key = k, n_value = xs, n_lock_ref = 0\<rparr>"
  define s1 where "s1 = s\<lparr>rx_next := ?new + 1, rx_ticks := rx_ticks s + 2,
     rx_heap := (rx_heap s)(?new := n0, p := (nd s p)\<lparr>n_children := AList.update (first_page cf k) ?new (n_children (nd s p))\<rparr>),
     rx_evictable_size := rx_evictable_size s + int (key_len k)\<rparr>"
  have "add_leaf cf prio chunked p k xs (first_page cf k) s = (Inr (), update_leaf_status ?new (update_leaf_status p s1))"
    using assms by (cases chunked) (simp_all add: add_leaf_def new_tree_node_def bindM_app upd_node_def inc_hit_count_def s1_def n0_def h_def fun_upd_twist)
  moreover have "update_leaf_status ?new (update_leaf_status p s1) = s1\<lparr>rx_leaves := insert ?new (rx_leaves s - {p})\<rparr>"
    using assms by (simp add: leaf_status_inner leaf_status_leaf s1_def n0_def)
  moreover have "leaf_of cf s p k xs (s1\<lparr>rx_leaves := insert ?new (rx_leaves s - {p})\<rparr>)"
    using assms by (simp add: leaf_of_def s1_def n0_def Let_def)
  ultimately show ?thesis
    by simp
qed

abbreviation leafable :: "radix_config \<Rightarrow> nat set \<Rightarrow> 's radix_scheme \<Rightarrow> nat \<Rightarrow> radix_key \<Rightarrow> nat list \<Rightarrow> bool" where
  "leafable cf N s p k xs \<equiv> tree_ok cf N s \<and> p \<in> N \<and> key_ok cf k \<and> 0 < key_len k \<and> length xs = key_len k \<and>
     map_of (n_children (nd s p)) (first_page cf k) = None"

lemma leaf_kids:
  assumes "leafable cf N s p k xs" "leaf_of cf s p k xs s'"
  shows "rx_next s \<notin> N" "kids s' p = insert (rx_next s) (kids s p)" "kids s' (rx_next s) = {}"
    "q \<in> N \<Longrightarrow> q \<noteq> p \<Longrightarrow> n_children (nd s' q) = n_children (nd s q)"
    "x \<in> N \<Longrightarrow> n_key (nd s' x) = n_key (nd s x) \<and> n_value (nd s' x) = n_value (nd s x) \<and> n_parent (nd s' x) = n_parent (nd s x) \<and>
       n_lock_ref (nd s' x) = n_lock_ref (nd s x)"
    "set (n_children (nd s' p)) = insert (first_page cf k, rx_next s) (set (n_children (nd s p)))"
proof -
  have ok: "tree_ok cf N s" "p \<in> N" "map_of (n_children (nd s p)) (first_page cf k) = None"
    using assms(1) by auto
  note lf = assms(2) [unfolded leaf_of_def Let_def]
  show new: "rx_next s \<notin> N"
    using tree_okD(2) [OF ok(1)] by auto
  show "kids s' (rx_next s) = {}"
    using lf by simp
  have other: "nd s' q = nd s q" if "q \<in> N" "q \<noteq> p" for q
  proof -
    have "q \<noteq> rx_next s"
      using that(1) new by auto
    then show ?thesis
      using lf that(2) by blast
  qed
  then show "n_children (nd s' q) = n_children (nd s q)" if "q \<in> N" "q \<noteq> p"
    using that by simp
  show "n_key (nd s' x) = n_key (nd s x) \<and> n_value (nd s' x) = n_value (nd s x) \<and> n_parent (nd s' x) = n_parent (nd s x) \<and>
      n_lock_ref (nd s' x) = n_lock_ref (nd s x)" if "x \<in> N"
    using lf other that by (cases "x = p") simp_all
  have "first_page cf k \<notin> fst ` set (n_children (nd s p))"
    using ok(3) by (simp add: map_of_eq_None_iff)
  then show "set (n_children (nd s' p)) = insert (first_page cf k, rx_next s) (set (n_children (nd s p)))"
    using lf tree_ok_distinct [OF ok(1,2)] by (auto simp: set_AList_update image_iff)
  then show "kids s' p = insert (rx_next s) (kids s p)"
    by simp
qed

lemma leaf_old_kid:
  assumes "leafable cf N s p k xs" "leaf_of cf s p k xs s'" "q \<in> N"
  shows "x \<in> kids s' q \<longleftrightarrow> x \<in> kids s q \<or> (q = p \<and> x = rx_next s)"
  using leaf_kids(2) [OF assms(1,2)] leaf_kids(4) [OF assms] by (cases "q = p") auto

lemma leaf_tree_ok:
  assumes "leafable cf N s p k xs" "leaf_of cf s p k xs s'"
  shows "tree_ok cf (insert (rx_next s) N) s'"
proof -
  let ?new = "rx_next s"
  have ok: "tree_ok cf N s" "p \<in> N" "key_ok cf k" "0 < key_len k" "length xs = key_len k"
    using assms(1) by auto
  note lk = leaf_kids [OF assms] and lf = assms(2) [unfolded leaf_of_def Let_def]
  have root: "rx_root s \<noteq> ?new" "rx_root s' = rx_root s" "rx_root s \<in> N"
    using tree_okD(3) [OF ok(1)] lk(1) lf by auto
  have entry: "y \<in> insert ?new N \<and> y \<noteq> rx_root s' \<and> n_parent (nd s' y) = Some q \<and> child_key (rc_page_size cf) (n_key (nd s' y)) = Inr ck"
    if "q \<in> N" "(ck, y) \<in> set (n_children (nd s q))" for q ck y
    using tree_ok_entry [OF ok(1) that] lk(5) [of y] root by simp
  have newkey: "child_key (rc_page_size cf) (n_key (nd s' ?new)) = Inr (first_page cf k)" "node_ok cf (nd s' ?new)"
    using child_key_ok(1) [OF ok(3,4) tree_okD(1) [OF ok(1)]] lf ok by (simp_all add: node_ok_def key_ok_def)
  have "children_ok cf (insert ?new N) s' q" if q: "q \<in> insert ?new N" for q
  proof (cases "q = ?new")
    case True
    then show ?thesis
      using lf by (simp add: children_ok_def)
  next
    case False
    then have qN: "q \<in> N"
      using q by simp
    have "distinct (map fst (n_children (nd s' q)))"
      using tree_ok_distinct [OF ok(1) qN] lf lk(4) [OF qN] by (cases "q = p") (simp_all add: distinct_update)
    moreover have "\<forall>(ck, y)\<in>set (n_children (nd s' q)). y \<in> insert ?new N \<and> y \<noteq> rx_root s' \<and> n_parent (nd s' y) = Some q \<and>
        child_key (rc_page_size cf) (n_key (nd s' y)) = Inr ck"
      using entry [OF qN] lk(4) [OF qN] lk(6) newkey(1) lf root by (cases "q = p") auto
    ultimately show ?thesis
      by (simp add: children_ok_def)
  qed
  moreover have "node_ok cf (nd s' x) \<and> (\<exists>q\<in>insert ?new N. n_parent (nd s' x) = Some q \<and> x \<in> kids s' q)"
    if x: "x \<in> insert ?new N" "x \<noteq> rx_root s'" for x
  proof (cases "x = ?new")
    case True
    then show ?thesis
      using newkey(2) lf lk(2) ok(2) by auto
  next
    case False
    then have xN: "x \<in> N" "x \<noteq> rx_root s"
      using x root by auto
    obtain q where q: "q \<in> N" "n_parent (nd s x) = Some q" "x \<in> kids s q" "node_ok cf (nd s x)"
      using tree_ok_parent [OF ok(1) xN] .
    then show ?thesis
      using lk(5) [OF xN(1)] leaf_old_kid [OF assms q(1)] by (auto simp: node_ok_def)
  qed
  moreover have "\<exists>rank :: nat \<Rightarrow> nat. \<forall>x\<in>insert ?new N. \<forall>q. x \<noteq> rx_root s' \<and> n_parent (nd s' x) = Some q \<longrightarrow> rank q < rank x"
  proof -
    obtain rank :: "nat \<Rightarrow> nat" where rank: "\<And>x q. x \<in> N \<Longrightarrow> x \<noteq> rx_root s \<Longrightarrow> n_parent (nd s x) = Some q \<Longrightarrow> rank q < rank x"
      using ok(1) unfolding tree_ok_def by blast
    have par: "q \<in> N" if "x \<in> N" "x \<noteq> rx_root s" "n_parent (nd s x) = Some q" for x q
      using tree_ok_parent [OF ok(1) that(1,2)] that(3) by auto
    show ?thesis
      using rank par lk(1,5) lf ok(2) root by (intro exI [of _ "rank(?new := Suc (rank p))"]) auto
  qed
  moreover have "insert ?new N \<subseteq> {..<rx_next s'}"
    using tree_okD(2) [OF ok(1)] lf by auto
  ultimately show ?thesis
    using tree_okD(1) [OF ok(1)] root unfolding tree_ok_def by auto
qed

lemma leaf_desc_mono:
  assumes "desc cf s e q ws vs" "leafable cf N s p k xs" "leaf_of cf s p k xs s'" "q \<in> N"
  shows "desc cf s' e q ws vs"
  using assms
proof (induction rule: desc.induct)
  case (desc_part x q n)
  have x: "x \<in> N" "x \<in> kids s' q"
    using childD(1) [of cf N s q x] leaf_old_kid [OF desc_part.prems, of x] desc_part.prems(1,3) desc_part.hyps(1) by blast+
  then show ?case
    using desc.desc_part [of x s' q e cf n] leaf_kids(5) [OF desc_part.prems(1,2) x(1)] desc_part.hyps by simp
next
  case (desc_deep x q ws vs)
  have x: "x \<in> N" "x \<in> kids s' q"
    using childD(1) [of cf N s q x] leaf_old_kid [OF desc_deep.prems, of x] desc_deep.prems(1,3) desc_deep.hyps(1) by blast+
  then show ?case
    using desc.desc_deep [of x s' q e cf ws vs] leaf_kids(5) [OF desc_deep.prems(1,2) x(1)] desc_deep.hyps
      desc_deep.IH [OF desc_deep.prems(1,2) x(1)] by simp
qed (rule desc.desc_nil)

lemma leaf_down:
  assumes "down s e q r ws vs" "leafable cf N s p k xs" "leaf_of cf s p k xs s'" "q \<in> N"
  shows "down s' e q r ws vs"
  using assms
proof (induction rule: down.induct)
  case (down_step x q r ws vs)
  have x: "x \<in> N" "x \<in> kids s' q"
    using childD(1) [of cf N s q x] leaf_old_kid [OF down_step.prems, of x] down_step.prems(1,3) down_step.hyps(1) by blast+
  then show ?case
    using down.down_step [of x s' q e r ws vs] leaf_kids(5) [OF down_step.prems(1,2) x(1)] down_step.hyps
      down_step.IH [OF down_step.prems(1,2) x(1)] by simp
qed (rule down.down_refl)

lemma leaf_desc_conv:
  assumes "desc cf s' e q ws vs" "leafable cf N s p k xs" "leaf_of cf s p k xs s'" "q \<in> N"
  shows "desc cf s e q ws vs \<or> (rk_extra_key k = e \<and> (\<exists>us us' n. down s e q p us us' \<and> 0 < n \<and> n \<le> key_len k \<and> rc_page_size cf dvd n \<and>
    ws = us @ take n (key_iter k) \<and> vs = us' @ take n xs))"
  using assms
proof (induction rule: desc.induct)
  case (desc_part x q n)
  note lk = leaf_kids [OF desc_part.prems(1,2)] and lf = desc_part.prems(2) [unfolded leaf_of_def Let_def]
  show ?case
  proof (cases "q = p \<and> x = rx_next s")
    case True
    then show ?thesis
      using desc_part.hyps lf by (intro disjI2 conjI exI [of _ "[]"] exI [of _ n]) (auto intro: down_refl)
  next
    case False
    then have x: "x \<in> kids s q" "x \<in> N"
      using leaf_old_kid [OF desc_part.prems] desc_part.hyps(1) childD(1) [of cf N s q x] desc_part.prems(1,3) by auto
    then show ?thesis
      using desc.desc_part [of x s q e cf n] lk(5) [OF x(2)] desc_part.hyps by simp
  qed
next
  case (desc_deep x q ws vs)
  note lk = leaf_kids [OF desc_deep.prems(1,2)] and lf = desc_deep.prems(2) [unfolded leaf_of_def Let_def]
  show ?case
  proof (cases "q = p \<and> x = rx_next s")
    case True
    from desc_deep.hyps(3) have "ws = [] \<and> vs = []"
      using True lk(3) by cases auto
    then show ?thesis
      using True desc_deep.hyps(2) desc_deep.prems(1) lf
      by (intro disjI2 conjI exI [of _ "[]"] exI [of _ "key_len k"]) (auto intro: down_refl simp: key_ok_def)
  next
    case False
    then have x: "x \<in> kids s q" "x \<in> N"
      using leaf_old_kid [OF desc_deep.prems] desc_deep.hyps(1) childD(1) [of cf N s q x] desc_deep.prems(1,3) by auto
    have e: "ext s x = e" "units s' x = units s x" "vals s' x = vals s x"
      using lk(5) [OF x(2)] desc_deep.hyps(2) by simp_all
    from desc_deep.IH [OF desc_deep.prems(1,2) x(2)] show ?thesis
    proof
      assume "desc cf s e x ws vs"
      then show ?thesis
        using desc.desc_deep [OF x(1) e(1)] e by simp
    next
      assume "rk_extra_key k = e \<and> (\<exists>us us' n. down s e x p us us' \<and> 0 < n \<and> n \<le> key_len k \<and> rc_page_size cf dvd n \<and>
        ws = us @ take n (key_iter k) \<and> vs = us' @ take n xs)"
      then obtain us us' n where u: "rk_extra_key k = e" "down s e x p us us'" "0 < n" "n \<le> key_len k" "rc_page_size cf dvd n"
        "ws = us @ take n (key_iter k)" "vs = us' @ take n xs"
        by blast
      then show ?thesis
        using down_step [OF x(1) e(1) u(2)] e
        by (intro disjI2 conjI exI [of _ "units s x @ us"] exI [of _ "vals s x @ us'"] exI [of _ n]) simp_all
    qed
  qed
qed (simp add: desc.desc_nil)

section \<open>The cache as a map from prefixes to slots\<close>

text \<open>The abstract cache maps, per namespace, the cached prefixes (whole pages) to their slots. A lookup takes the longest cached
  prefix; an insertion adds the longer prefixes of its key.\<close>

type_synonym prefix_map = "logical_unit list \<Rightarrow> nat list option"

definition contents :: "radix_config \<Rightarrow> 's radix_scheme \<Rightarrow> string option \<Rightarrow> prefix_map" where
  "contents cf s e ws = (if \<exists>vs. desc cf s e (rx_root s) ws vs then Some (THE vs. desc cf s e (rx_root s) ws vs) else None)"

definition longest :: "prefix_map \<Rightarrow> logical_unit list \<Rightarrow> nat" where
  "longest A us = Max {n. n \<le> length us \<and> A (take n us) \<noteq> None}"

definition extend_map :: "nat \<Rightarrow> logical_unit list \<Rightarrow> nat list \<Rightarrow> prefix_map \<Rightarrow> prefix_map" where
  "extend_map ps us xs A ws =
     (let n = longest A us; m = length ws
      in if n < m \<and> m \<le> length us \<and> ps dvd m \<and> ws = take m us then Some (the (A (take n us)) @ take (m - n) (drop n xs)) else A ws)"

lemma contents_iff:
  assumes "tree_ok cf N s"
  shows "contents cf s e ws = Some vs \<longleftrightarrow> desc cf s e (rx_root s) ws vs"
proof -
  have "(THE ys. desc cf s e (rx_root s) ws ys) = xs" if "desc cf s e (rx_root s) ws xs" for xs
    by (rule the_equality) (fact that, erule desc_det [OF _ that assms tree_okD(3) [OF assms]])
  then show ?thesis
    unfolding contents_def by (metis option.distinct(1) option.inject)
qed

lemma contents_eqI:
  assumes "\<And>vs. desc cf s' e (rx_root s') ws vs \<longleftrightarrow> desc cf s e (rx_root s) ws vs"
  shows "contents cf s' e ws = contents cf s e ws"
proof -
  have eq: "desc cf s' e (rx_root s') ws = desc cf s e (rx_root s) ws"
    using assms by (simp add: fun_eq_iff)
  show ?thesis
    unfolding contents_def eq ..
qed

lemma reshape_contents:
  assumes "reshape cf N s N' s'" "tree_ok cf N s"
  shows "contents cf s' = contents cf s"
proof (intro ext)
  fix e ws
  show "contents cf s' e ws = contents cf s e ws"
    using reshape_ok [OF assms] tree_okD(3) [OF assms(2)] by (intro contents_eqI) simp
qed

lemma walked_longest:
  assumes "tree_ok cf N s" "walked cf s k (rx_root s) q n vs"
  shows "contents cf s (rk_extra_key k) (take n (key_iter k)) = Some vs" "longest (contents cf s (rk_extra_key k)) (key_iter k) = n" "length vs = n"
proof -
  let ?e = "rk_extra_key k" and ?r = "rx_root s"
  have w: "n \<le> key_len k" "down s ?e ?r q (take n (key_iter k)) vs"
    "n < key_len k \<Longrightarrow> map_of (n_children (nd s q)) (?e, take (rc_page_size cf) (drop n (key_iter k))) = None"
    using assms(2) by (auto simp: walked_def)
  have "desc cf s ?e ?r (take n (key_iter k)) vs"
    using down_desc [OF w(2) desc_nil] by simp
  then show *: "contents cf s ?e (take n (key_iter k)) = Some vs"
    by (simp add: contents_iff [OF assms(1)])
  show "length vs = n"
    using down_ok [OF w(2) assms(1) tree_okD(3) [OF assms(1)]] w(1) by simp
  have "m \<le> n" if h: "m \<le> key_len k" "contents cf s ?e (take m (key_iter k)) \<noteq> None" for m
  proof -
    obtain xs where xs: "desc cf s ?e ?r (take m (key_iter k)) xs"
      using h(2) contents_iff [OF assms(1)] by auto
    have "length (take m (key_iter k)) \<le> length (take n (key_iter k))"
    proof (rule desc_le_walk [OF w(2) assms(1) tree_okD(3) [OF assms(1)] _ xs])
      show "drop n (key_iter k) = [] \<or> map_of (n_children (nd s q)) (?e, take (rc_page_size cf) (drop n (key_iter k))) = None"
        using w(1,3) by (cases "n < key_len k") simp_all
      show "prefix (take m (key_iter k)) (take n (key_iter k) @ drop n (key_iter k))"
        by (simp add: take_is_prefix)
    qed
    then show ?thesis
      using h(1) w(1) by simp
  qed
  then show "longest (contents cf s ?e) (key_iter k) = n"
    unfolding longest_def using * w(1) by (intro Max_eqI) (auto intro: finite_subset [of _ "{..key_len k}"])
qed

text \<open>The key an operation works with: the bigram view for EAGLE, cut to whole pages.\<close>

definition view_key :: "radix_config \<Rightarrow> radix_key \<Rightarrow> radix_key" where
  "view_key cf k = page_aligned (rc_page_size cf) (if rc_is_eagle cf then k\<lparr>rk_is_bigram := True\<rparr> else k)"

lemma bigram_view: "fst (maybe_to_bigram_view b k v) = (if b then k\<lparr>rk_is_bigram := True\<rparr> else k)"
  by (cases k) (auto simp: maybe_to_bigram_view_def Let_def)

lemma view_key_ok:
  assumes "rk_is_bigram k \<longrightarrow> rc_is_eagle cf" "0 < rc_page_size cf"
  shows "key_ok cf (view_key cf k)" "rk_extra_key (view_key cf k) = rk_extra_key k"
  using assms by (auto simp: view_key_def key_ok_def page_aligned_def min_def)

text \<open>Well-formed caches: the cache is in use and its object graph has the shape of a tree.\<close>

definition radix_ok :: "radix_config \<Rightarrow> 's radix_scheme \<Rightarrow> bool" where
  "radix_ok cf s \<longleftrightarrow> \<not> rc_disable cf \<and> (\<exists>N. tree_ok cf N s)"

lemma match_prefix_run:
  assumes "tree_ok cf N s" "\<not> rc_disable cf" "rk_is_bigram k \<longrightarrow> rc_is_eagle cf"
  shows "\<exists>vs q n N' s'. radix_match_prefix cf k s = (Inr (vs, q), s') \<and> reshape cf N s N' s' \<and>
    walked cf s' (view_key cf k) (rx_root s) q n vs"
proof -
  let ?k = "view_key cf k"
  note k = view_key_ok [OF assms(3) tree_okD(1) [OF assms(1)]]
  have view: "radix_match_prefix cf k s = (if key_len ?k = 0 then (Inr ([], rx_root s), s)
      else bindM (match_prefix_helper cf (rx_root s) ?k) (\<lambda>(value, last_node). retM (concat value, last_node)) s)"
    using assms(2) by (auto simp: radix_match_prefix_def Let_def bigram_view view_key_def page_aligned_def)
  show ?thesis
  proof (cases "key_len ?k = 0")
    case True
    then have "walked cf s ?k (rx_root s) (rx_root s) 0 []" "reshape cf N s N s"
      using walked_stop [of ?k s "rx_root s" cf] reshape_quiet [of s s cf N] by simp_all
    then show ?thesis
      using view True by auto
  next
    case False
    define s1 where "s1 = touch_node (rx_root s) (rc_clock cf (rx_ticks s)) (s\<lparr>rx_ticks := rx_ticks s + 1\<rparr>)"
    have q: "quiet s s1"
      unfolding s1_def using quiet_trans quiet_touch(1,4) by blast
    have ok1: "tree_ok cf N s1" "rx_root s \<in> N"
      using tree_ok_shape [OF quiet_shape [OF q] assms(1)] tree_okD(3) [OF assms(1)] by auto
    obtain vss q n N' s' where r: "match_walk cf (rc_clock cf (rx_ticks s)) (key_len ?k + 1) (rx_root s) ?k (first_page cf ?k) [] s1 = (Inr ([] @ vss, q), s')"
      "reshape cf N s1 N' s'" "walked cf s' ?k (rx_root s) q n (concat vss)"
      using match_walk_spec [OF ok1 k(1)] by (metis less_add_one)
    have "radix_match_prefix cf k s = (Inr (concat vss, q), s')"
      using view False r(1) child_key_ok(1) [OF k(1) _ tree_okD(1) [OF assms(1)]]
      by (simp add: match_prefix_helper_def radix_now_def bindM_app s1_def del: match_walk.simps)
    then show ?thesis
      using reshape_trans [OF reshape_quiet [OF q] r(2)] r(3) by blast
  qed
qed

lemma down_last:
  "down s e q p us vs \<Longrightarrow> (q = p \<and> us = [] \<and> vs = []) \<or>
     (\<exists>x us' vs'. down s e q x us' vs' \<and> p \<in> kids s x \<and> us = us' @ units s p \<and> vs = vs' @ vals s p)"
proof (induction rule: down.induct)
  case (down_step c q p us vs)
  then show ?case
    using down.down_step [OF down_step.hyps(1,2)] down_refl [of s e q] by (metis append.assoc append_Nil append_Nil2)
qed simp

lemma down_unique:
  assumes "down s e (rx_root s) p us vs" "down s e (rx_root s) p ws xs" "tree_ok cf N s"
  shows "us = ws"
proof -
  obtain rank :: "nat \<Rightarrow> nat" where rank: "\<And>x q. x \<in> N \<Longrightarrow> x \<noteq> rx_root s \<Longrightarrow> n_parent (nd s x) = Some q \<Longrightarrow> rank q < rank x"
    using assms(3) unfolding tree_ok_def by blast
  from assms(1,2) show ?thesis
  proof (induction "rank p" arbitrary: p us vs ws xs rule: less_induct)
    case less
    have last: "(p = rx_root s \<and> ys = []) \<or> (p \<noteq> rx_root s \<and> (\<exists>x us' vs'. down s e (rx_root s) x us' vs' \<and> p \<in> N \<and>
        n_parent (nd s p) = Some x \<and> ys = us' @ units s p))" if d: "down s e (rx_root s) p ys zs" for ys zs
    proof -
      have "x \<in> N" if "down s e (rx_root s) x us' vs'" for x us' vs'
        using down_ok [OF that assms(3) tree_okD(3) [OF assms(3)]] by simp
      then show ?thesis
        using down_last [OF d] childD(1-3) [OF assms(3)] by (metis (no_types, lifting))
    qed
    show ?case
      using last [OF less.prems(1)] last [OF less.prems(2)] less.hyps rank by (metis option.inject)
  qed
qed

lemma leaf_contents:
  assumes "leafable cf N s p k' ys" "leaf_of cf s p k' ys s'" "walked cf s k (rx_root s) p n vs"
    "key_iter k' = drop n (key_iter k)" "rk_extra_key k' = rk_extra_key k" "ys = drop n xs" "length xs = key_len k"
  shows "contents cf s' = (contents cf s)(rk_extra_key k := extend_map (rc_page_size cf) (key_iter k) xs (contents cf s (rk_extra_key k)))"
proof (intro ext)
  fix e ws
  let ?e = "rk_extra_key k" and ?ps = "rc_page_size cf" and ?r = "rx_root s"
  have ok: "tree_ok cf N s" "tree_ok cf (insert (rx_next s) N) s'" "rx_root s' = ?r" "?r \<in> N"
    using assms(1) leaf_tree_ok [OF assms(1,2)] assms(2) tree_okD(3) by (auto simp: leaf_of_def Let_def)
  note wl = walked_longest [OF ok(1) assms(3)]
  have w: "n \<le> key_len k" "?ps dvd n" "down s ?e ?r p (take n (key_iter k)) vs"
    using assms(3) by (auto simp: walked_def)
  have klen: "key_len k' = key_len k - n"
    using arg_cong [OF assms(4), of length] by simp
  have new: "desc cf s' ?e ?r (take (n + m) (key_iter k)) (vs @ take m ys)" if "0 < m" "m \<le> key_len k'" "?ps dvd m" for m
  proof -
    have kid: "rx_next s \<in> kids s' p"
      using leaf_kids(2) [OF assms(1,2)] by simp
    have nk: "n_key (nd s' (rx_next s)) = k'" "vals s' (rx_next s) = ys"
      using assms(2) by (simp_all add: leaf_of_def Let_def)
    have "desc cf s' ?e p (take m (key_iter k')) (take m ys)"
    proof (cases "m < key_len k'")
      case True
      then show ?thesis
        using desc_part [OF kid, of ?e cf m] that nk assms(5) by simp
    next
      case False
      then show ?thesis
        using desc_deep [OF kid _ desc_nil, of ?e cf] that nk assms(1,5) by simp
    qed
    then show ?thesis
      using down_desc [OF leaf_down [OF w(3) assms(1,2) ok(4)]] assms(4) by (simp add: take_add)
  qed
  show "contents cf s' e ws = ((contents cf s)(?e := extend_map ?ps (key_iter k) xs (contents cf s ?e))) e ws"
  proof (cases "e = ?e \<and> n < length ws \<and> length ws \<le> key_len k \<and> ?ps dvd length ws \<and> ws = take (length ws) (key_iter k)")
    case True
    have "?ps dvd length ws - n"
      using True w(2) by simp
    then have "desc cf s' e ?r ws (vs @ take (length ws - n) ys)"
      using new [of "length ws - n"] True klen diff_le_mono [of "length ws" "key_len k" n] by simp
    then have "contents cf s' e ws = Some (vs @ take (length ws - n) ys)"
      using contents_iff [OF ok(2)] ok(3) by simp
    then show ?thesis
      using True wl assms(6) by (simp add: extend_map_def Let_def)
  next
    case False
    have "desc cf s' e ?r ws zs \<longleftrightarrow> desc cf s e ?r ws zs" for zs
    proof
      assume "desc cf s' e ?r ws zs"
      from leaf_desc_conv [OF this assms(1,2) ok(4)] show "desc cf s e ?r ws zs"
      proof
        assume "rk_extra_key k' = e \<and> (\<exists>us us' m. down s e ?r p us us' \<and> 0 < m \<and> m \<le> key_len k' \<and> ?ps dvd m \<and>
          ws = us @ take m (key_iter k') \<and> zs = us' @ take m ys)"
        then obtain us us' m where u: "e = ?e" "down s e ?r p us us'" "0 < m" "m \<le> key_len k'" "?ps dvd m" "ws = us @ take m (key_iter k')"
          using assms(5) by auto
        have "us = take n (key_iter k)"
          using down_unique [OF u(2) [unfolded u(1)] w(3) ok(1)] by simp
        then have "e = ?e \<and> n < length ws \<and> length ws \<le> key_len k \<and> ?ps dvd length ws \<and> ws = take (length ws) (key_iter k)"
          using u klen w(1,2) assms(4) by (auto simp: take_add)
        then show ?thesis
          using False by simp
      qed
    qed (rule leaf_desc_mono [OF _ assms(1,2) ok(4)])
    then have "contents cf s' e ws = contents cf s e ws"
      using ok(3) by (intro contents_eqI) simp
    then show ?thesis
      using False wl(2) by (auto simp: extend_map_def Let_def)
  qed
qed

end
