(* ===== verification/Radix_Insert.thy ===== *)
theory Radix_Insert
  imports Radix_Refine
begin

text \<open>The insertion of \<open>RadixCache\<close> (\<open>insert\<close>, \<open>_insert_helper\<close>) against the map of cached prefixes of \<open>Radix_Refine\<close>.\<close>

text \<open>What an insertion of key \<open>k\<close> with slots \<open>xs\<close> does: a walk over \<open>n\<close> units, then a leaf for the rest if there is one.\<close>

definition inserted :: "radix_config \<Rightarrow> nat set \<Rightarrow> 's radix_scheme \<Rightarrow> radix_key \<Rightarrow> nat list \<Rightarrow> nat \<Rightarrow> nat set \<Rightarrow> 's radix_scheme \<Rightarrow> bool" where
  "inserted cf N s k xs n N' s' \<longleftrightarrow> (\<exists>q k' vs N1 s1. reshape cf N s N1 s1 \<and> walked cf s1 k (rx_root s) q n vs \<and>
     (if n = key_len k then N' = N1 \<and> s' = s1
      else leafable cf N1 s1 q k' (drop n xs) \<and> leaf_of cf s1 q k' (drop n xs) s' \<and> N' = insert (rx_next s1) N1 \<and>
           key_iter k' = drop n (key_iter k) \<and> rk_extra_key k' = rk_extra_key k))"

lemma insert_helper_run:
  assumes "tree_ok cf N s" "key_ok cf k" "length xs = key_len k"
  shows "\<exists>n N' s'. insert_helper cf (rx_root s) k xs prio chunked s = (Inr n, s') \<and> inserted cf N s k xs n N' s'"
proof -
  let ?now = "rc_clock cf (rx_ticks s)" and ?r = "rx_root s"
  define s0 where "s0 = raise_priority ?r prio (touch_node ?r ?now (s\<lparr>rx_ticks := rx_ticks s + 1\<rparr>))"
  have q0: "quiet s s0"
    unfolding s0_def by (rule quiet_trans [OF quiet_trans [OF quiet_touch(4) quiet_touch(1)] quiet_touch(2)])
  have ok0: "tree_ok cf N s0" "?r \<in> N"
    using tree_ok_shape [OF quiet_shape [OF q0] assms(1)] tree_okD(3) [OF assms(1)] by auto
  have pre: "insert_helper cf ?r k xs prio chunked s = (if key_len k = 0 then retM 0
      else bindM (liftM (child_key (rc_page_size cf) k)) (\<lambda>ck.
          bindM (insert_walk cf ?now prio chunked (key_len k + 1) ?r k xs ck 0) (\<lambda>(node', key', value', ck', total_prefix).
          bindM (if key_len key' > 0 then add_leaf cf prio chunked node' key' value' ck' else retM ()) (\<lambda>_. retM total_prefix)))) s0"
    by (simp add: insert_helper_def radix_now_def bindM_app s0_def)
  show ?thesis
  proof (cases "key_len k = 0")
    case True
    then have "inserted cf N s k xs 0 N s0"
      using reshape_quiet [OF q0, of cf N] walked_stop [of k s0 ?r cf] by (auto simp: inserted_def)
    then show ?thesis
      using pre True by auto
  next
    case False
    have pos: "0 < key_len k"
      using False by simp
    obtain q k' ck' n vs N1 s1 where r: "insert_walk cf ?now prio chunked (key_len k + 1) ?r k xs (first_page cf k) 0 s0 = (Inr (q, k', drop n xs, ck', 0 + n), s1)"
      "reshape cf N s0 N1 s1" "walked cf s1 k ?r q n vs" "key_iter k' = drop n (key_iter k)" "rk_extra_key k' = rk_extra_key k" "key_ok cf k'"
      "0 < key_len k' \<longrightarrow> ck' = first_page cf k'"
      using insert_walk_spec [OF ok0 assms(2) less_add_one refl, of ?now prio chunked xs 0] by (elim exE conjE) (rule that)
    have rs: "reshape cf N s N1 s1"
      using reshape_trans [OF reshape_quiet [OF q0] r(2)] .
    have n: "n \<le> key_len k" "key_len k' = key_len k - n"
      using r(3) arg_cong [OF r(4), of length] by (simp_all add: walked_def)
    have run: "insert_helper cf ?r k xs prio chunked s =
        bindM (if key_len k' > 0 then add_leaf cf prio chunked q k' (drop n xs) ck' else retM ()) (\<lambda>_. retM n) s1"
      using pre False r(1) child_key_ok(1) [OF assms(2) pos tree_okD(1) [OF assms(1)]] by (simp add: bindM_app del: insert_walk.simps)
    show ?thesis
    proof (cases "n = key_len k")
      case True
      then have "inserted cf N s k xs n N1 s1"
        using rs r(3) by (auto simp: inserted_def)
      then show ?thesis
        using run True n(2) by auto
    next
      case False
      then have k': "0 < key_len k'" "n < key_len k"
        using n by simp_all
      have ok1: "tree_ok cf N1 s1" "?r \<in> N1"
        using reshape_ok [OF rs assms(1)] tree_okD(3) [OF assms(1)] by auto
      have qN: "q \<in> N1"
        using r(3) down_ok [OF _ ok1] by (auto simp: walked_def)
      have lf: "leafable cf N1 s1 q k' (drop n xs)"
        using ok1(1) qN r(3-6) k' assms(3) n by (simp add: walked_def)
      have ne: "q \<noteq> rx_next s1"
        using qN tree_okD(2) [OF ok1(1)] by auto
      obtain s' where s': "add_leaf cf prio chunked q k' (drop n xs) (first_page cf k') s1 = (Inr (), s')" "leaf_of cf s1 q k' (drop n xs) s'"
        using add_leaf_run [OF ne] by blast
      have "inserted cf N s k xs n (insert (rx_next s1) N1) s'"
        unfolding inserted_def using rs r(3-5) lf s'(2) False by (intro exI [of _ q] exI [of _ k'] exI [of _ vs] exI [of _ N1] exI [of _ s1]) simp
      moreover have "insert_helper cf ?r k xs prio chunked s = (Inr n, s')"
        using run k'(1) r(7) s'(1) by (simp add: bindM_app)
      ultimately show ?thesis
        by blast
    qed
  qed
qed

lemma inserted_contents:
  assumes "inserted cf N s k xs n N' s'" "tree_ok cf N s" "length xs = key_len k"
  defines "A \<equiv> contents cf s (rk_extra_key k)"
  shows "tree_ok cf N' s'" "n = longest A (key_iter k)"
    "contents cf s' = (contents cf s)(rk_extra_key k := extend_map (rc_page_size cf) (key_iter k) xs A)"
proof -
  obtain q k' vs N1 s1 where i: "reshape cf N s N1 s1" "walked cf s1 k (rx_root s) q n vs"
     "if n = key_len k then N' = N1 \<and> s' = s1
      else leafable cf N1 s1 q k' (drop n xs) \<and> leaf_of cf s1 q k' (drop n xs) s' \<and> N' = insert (rx_next s1) N1 \<and>
           key_iter k' = drop n (key_iter k) \<and> rk_extra_key k' = rk_extra_key k"
    using assms(1) unfolding inserted_def by blast
  have ok1: "tree_ok cf N1 s1" "rx_root s1 = rx_root s" "contents cf s1 = contents cf s"
    using reshape_ok [OF i(1) assms(2)] reshape_contents [OF i(1) assms(2)] by auto
  have w: "walked cf s1 k (rx_root s1) q n vs"
    using i(2) ok1(2) by simp
  show n: "n = longest A (key_iter k)"
    using walked_longest(2) [OF ok1(1) w] ok1(3) by (simp add: A_def)
  show "tree_ok cf N' s'"
    using i(3) ok1(1) leaf_tree_ok [of cf N1 s1 q k' "drop n xs" s'] by (cases "n = key_len k") (simp, metis)
  show "contents cf s' = (contents cf s)(rk_extra_key k := extend_map (rc_page_size cf) (key_iter k) xs A)"
  proof (cases "n = key_len k")
    case True
    then have "extend_map (rc_page_size cf) (key_iter k) xs A = A"
      using n by (auto simp: extend_map_def Let_def fun_eq_iff)
    then show ?thesis
      using i(3) True ok1(3) by (simp add: A_def)
  next
    case False
    then have lf: "leafable cf N1 s1 q k' (drop n xs)" "leaf_of cf s1 q k' (drop n xs) s'" "key_iter k' = drop n (key_iter k)"
        "rk_extra_key k' = rk_extra_key k"
      using i(3) by auto
    show ?thesis
      using leaf_contents [OF lf(1,2) w lf(3,4) refl assms(3)] ok1(3) by (simp add: A_def)
  qed
qed

lemma insert_run:
  assumes "tree_ok cf N s" "\<not> rc_disable cf" "rk_is_bigram k \<longrightarrow> rc_is_eagle cf" "key_len (view_key cf k) \<le> length v"
  shows "\<exists>n N' s'. radix_insert cf k (Some v) prio chunked s = (Inr n, s') \<and>
    inserted cf N s (view_key cf k) (take (key_len (view_key cf k)) v) n N' s'"
proof -
  let ?k = "view_key cf k"
  have "key_len ?k \<le> key_len (if rc_is_eagle cf then k\<lparr>rk_is_bigram := True\<rparr> else k)"
    by (simp add: view_key_def page_aligned_def)
  then have "radix_insert cf k (Some v) prio chunked s =
      insert_helper cf (rx_root s) ?k (take (key_len ?k) v) (case prio of None \<Rightarrow> 0 | Some p \<Rightarrow> p) chunked s"
    using assms(2,3) by (cases k) (auto simp: radix_insert_def maybe_to_bigram_view_def Let_def view_key_def min_def)
  then show ?thesis
    using insert_helper_run [OF assms(1) view_key_ok(1) [OF assms(3) tree_okD(1) [OF assms(1)]]] assms(4) by simp
qed

section \<open>Reset\<close>

text \<open>The empty tree that \<open>reset\<close> leaves: only the empty prefix is cached.\<close>

lemma reset_ok:
  assumes "0 < rc_page_size cf" "\<not> rc_disable cf" "radix_reset cf maxsize s = (x, s')"
  shows "x = Inr ()" "tree_ok cf {rx_root s'} s'" "contents cf s' e ws = (if ws = [] then Some [] else None)"
proof -
  have r: "x = Inr ()" "rx_root s' = rx_next s" "rx_next s' = rx_next s + 1" "n_children (nd s' (rx_next s)) = []"
    using assms(3) by (auto simp: radix_reset_def new_tree_node_def bindM_app upd_node_def)
  show "x = Inr ()"
    by (fact r(1))
  show ok: "tree_ok cf {rx_root s'} s'"
    using assms(1) r(2-4) by (simp add: tree_ok_def children_ok_def)
  have "ws = [] \<and> vs = []" if "desc cf s' e (rx_root s') ws vs" for vs
    using that r by cases auto
  then show "contents cf s' e ws = (if ws = [] then Some [] else None)"
    using contents_iff [OF ok, of e ws] desc_nil [of cf s' e "rx_root s'"] by (cases "contents cf s' e ws") auto
qed

section \<open>A concrete tree\<close>

definition ex_radix_cf :: radix_config where
  "ex_radix_cf = \<lparr>rc_disable = False, rc_page_size = 1, rc_is_eagle = False, rc_disable_finished_insert = False, rc_strategy = LRUStrategy,
     rc_strip_thinking_cache = False, rc_clock = int, rc_order = (\<lambda>A. if 1 \<in> A then [1] else [])\<rparr>"

definition ex_key :: "int list \<Rightarrow> radix_key" where
  "ex_key ts = \<lparr>rk_token_ids = ts, rk_extra_key = None, rk_is_bigram = False, rk_limit = None\<rparr>"

definition ex_tree :: radix where
  "ex_tree = \<lparr>rx_heap = (\<lambda>i. if i = 1
       then \<lparr>last_access_time = 1, creation_time = 1, hit_count = 0, priority = 0, n_children = [], n_parent = Some 0,
             n_key = ex_key [5, 6, 7], n_value = [10, 11, 12], n_lock_ref = 0\<rparr>
       else \<lparr>last_access_time = 0, creation_time = 0, hit_count = 0, priority = 0, n_children = [((None, [Token 5]), 1)], n_parent = None,
             n_key = empty_key, n_value = [], n_lock_ref = 1\<rparr>),
     rx_next = 2, rx_root = 0, rx_evictable_size = 3, rx_protected_size = 0, rx_leaves = {1},
     rx_kv = (token_init 12 True)\<lparr>free_pages := [1..<10]\<rparr>, rx_pool = \<lparr>rp_size = 0, max_context_len = 0, req_to_token = [], rp_free_slots = []\<rparr>, rx_ticks = 2\<rparr>"

lemma ex_tree_ok: "tree_ok ex_radix_cf {0, 1} ex_tree" "radix_ok ex_radix_cf ex_tree"
proof -
  show "tree_ok ex_radix_cf {0, 1} ex_tree"
    unfolding tree_ok_def by (intro conjI exI [of _ id])
      (auto simp: ex_tree_def ex_radix_cf_def ex_key_def children_ok_def node_ok_def child_key_iter key_iter_def key_len_def raw_len_def)
  then show "radix_ok ex_radix_cf ex_tree"
    by (auto simp: radix_ok_def ex_radix_cf_def)
qed

lemma ex_keys:
  "key_match (ex_key [5, 6, 7]) (ex_key [5, 6, 9]) 1 = Inr 2" "key_len (ex_key [5, 6, 9]) = 3" "key_len (ex_key [5, 6, 7]) = 3"
  "child_key 1 (ex_key [5, 6, 9]) = Inr (None, [Token 5])" "child_key 1 (ex_key [5, 6, 7]) = Inr (None, [Token 5])"
  "child_key 1 (ex_key [9]) = Inr (None, [Token 9])" "child_key 1 (ex_key [7]) = Inr (None, [Token 7])"
  "key_drop 2 (ex_key [5, 6, 9]) = ex_key [9]" "key_drop 2 (ex_key [5, 6, 7]) = ex_key [7]" "key_take 2 (ex_key [5, 6, 7]) = ex_key [5, 6]"
  "maybe_to_bigram_view False k v = (k, v)" "page_aligned 1 k = k" "key_len (ex_key [9]) = 1"
  by (code_simp, code_simp, code_simp, code_simp, code_simp, code_simp, code_simp, code_simp, code_simp, code_simp, simp_all add: maybe_to_bigram_view_def page_aligned_def key_len_def raw_len_def ex_key_def)

lemma ex_nodes: "nd ex_tree 0 = \<lparr>last_access_time = 0, creation_time = 0, hit_count = 0, priority = 0, n_children = [((None, [Token 5]), 1)], n_parent = None,
             n_key = empty_key, n_value = [], n_lock_ref = 1\<rparr>"
  "nd ex_tree (Suc 0) = \<lparr>last_access_time = 1, creation_time = 1, hit_count = 0, priority = 0, n_children = [], n_parent = Some 0,
             n_key = ex_key [5, 6, 7], n_value = [10, 11, 12], n_lock_ref = 0\<rparr>"
 "rx_root ex_tree = 0" "rx_next ex_tree = 2"
 by (simp_all add: ex_tree_def)

lemma ex_config: "rc_disable ex_radix_cf = False" "rc_page_size ex_radix_cf = 1" "rc_is_eagle ex_radix_cf = False"
  by (simp_all add: ex_radix_cf_def)

lemmas ex_run = bindM_app ex_keys [simplified] ex_nodes ex_config radix_now_def touch_node_def raise_priority_def upd_node_def split_node_def new_tree_node_def


lemma ex_fuel: "Suc 3 = 4" "Suc 2 = 3"
  by simp_all

lemmas ex_walk = match_walk.simps(2) [where fuel = 3, unfolded ex_fuel] insert_walk.simps(2) [where fuel = 3, unfolded ex_fuel]
  insert_walk.simps(2) [where fuel = 2, unfolded ex_fuel]

lemma ex_match: "fst (radix_match_prefix ex_radix_cf (ex_key [5, 6, 9]) ex_tree) = Inr ([10, 11], 2)"
  by (simp add: radix_match_prefix_def match_prefix_helper_def ex_walk ex_run Let_def)

lemma ex_insert: "fst (radix_insert ex_radix_cf (ex_key [5, 6, 9]) (Some [1, 2, 3]) None False ex_tree) = Inr 2"
  by (simp add: radix_insert_def insert_helper_def add_leaf_def inc_hit_count_def ex_walk ex_run Let_def)

section \<open>The cache refines the map\<close>

text \<open>C37. A lookup refines the lookup of the map: it returns, gives the slots of the longest cached prefix of the page-aligned key in the
  key's namespace, and changes nothing of the contents in any namespace.\<close>

theorem radix_match_refines:
  assumes "radix_ok cf s" "rk_is_bigram k \<longrightarrow> rc_is_eagle cf"
  shows "\<exists>vs q s'. radix_match_prefix cf k s = (Inr (vs, q), s') \<and> radix_ok cf s' \<and> contents cf s' = contents cf s \<and>
    (let A = contents cf s (rk_extra_key k); us = key_iter (view_key cf k)
     in length vs = longest A us \<and> A (take (longest A us) us) = Some vs)"
proof -
  obtain N where N: "tree_ok cf N s" "\<not> rc_disable cf"
    using assms(1) by (auto simp: radix_ok_def)
  obtain vs q n N' s' where r: "radix_match_prefix cf k s = (Inr (vs, q), s')" "reshape cf N s N' s'"
      "walked cf s' (view_key cf k) (rx_root s) q n vs"
    using match_prefix_run [OF N assms(2)] by blast
  have ok: "tree_ok cf N' s'" "rx_root s' = rx_root s"
    using reshape_ok [OF r(2) N(1)] by auto
  have c: "contents cf s' = contents cf s"
    using reshape_contents [OF r(2) N(1)] .
  have w: "walked cf s' (view_key cf k) (rx_root s') q n vs"
    using r(3) ok(2) by simp
  show ?thesis
    using r(1) c walked_longest [OF ok(1) w] view_key_ok(2) [OF assms(2) tree_okD(1) [OF N(1)]] ok(1) N(2)
    by (intro exI [of _ vs] exI [of _ q] exI [of _ s']) (auto simp: radix_ok_def Let_def)
qed

theorem radix_match_refines_witness:
  "(\<exists>s'. radix_match_prefix ex_radix_cf (ex_key [5, 6, 9]) ex_tree = (Inr ([10, 11], 2), s') \<and> contents ex_radix_cf s' = contents ex_radix_cf ex_tree) \<and>
   contents ex_radix_cf ex_tree None [Token 5, Token 6] = Some [10, 11]"
proof -
  let ?A = "contents ex_radix_cf ex_tree None" and ?us = "[Token 5, Token 6, Token 9]"
  have k: "key_iter (view_key ex_radix_cf (ex_key [5, 6, 9])) = ?us" "rk_extra_key (ex_key [5, 6, 9]) = None" "\<not> rk_is_bigram (ex_key [5, 6, 9])"
    by code_simp+
  obtain s' where s': "radix_match_prefix ex_radix_cf (ex_key [5, 6, 9]) ex_tree = (Inr ([10, 11], 2), s')"
      "contents ex_radix_cf s' = contents ex_radix_cf ex_tree" "length [10 :: nat, 11] = longest ?A ?us" "?A (take (longest ?A ?us) ?us) = Some [10, 11]"
    using radix_match_refines [OF ex_tree_ok(2), of "ex_key [5, 6, 9]"] ex_match k by (auto simp: Let_def)
  then show ?thesis
    by (simp flip: s'(3))
qed

text \<open>C38. An insertion refines the insertion into the map: it returns the length of the prefix that was cached already, keeps the slots of
  every prefix that was there, adds the longer page-aligned prefixes of the key with the caller's slots, and changes no other namespace.\<close>

theorem radix_insert_refines:
  assumes "radix_ok cf s" "rk_is_bigram k \<longrightarrow> rc_is_eagle cf" "key_len (view_key cf k) \<le> length v"
  shows "\<exists>s'. (let e = rk_extra_key k; A = contents cf s e; us = key_iter (view_key cf k)
     in radix_insert cf k (Some v) prio chunked s = (Inr (longest A us), s') \<and> radix_ok cf s' \<and>
        contents cf s' = (contents cf s)(e := extend_map (rc_page_size cf) us (take (length us) v) A))"
proof -
  obtain N where N: "tree_ok cf N s" "\<not> rc_disable cf"
    using assms(1) by (auto simp: radix_ok_def)
  obtain n N' s' where r: "radix_insert cf k (Some v) prio chunked s = (Inr n, s')"
      "inserted cf N s (view_key cf k) (take (key_len (view_key cf k)) v) n N' s'"
    using insert_run [OF N assms(2,3)] by blast
  have e: "rk_extra_key (view_key cf k) = rk_extra_key k"
    using view_key_ok(2) [OF assms(2) tree_okD(1) [OF N(1)]] .
  have len: "length (take (key_len (view_key cf k)) v) = key_len (view_key cf k)"
    using assms(3) by simp
  note ic = inserted_contents [OF r(2) N(1) len, unfolded e]
  show ?thesis
    using r(1) ic N(2) by (intro exI [of _ s']) (auto simp: radix_ok_def Let_def)
qed

theorem radix_insert_refines_witness:
  "\<exists>s'. radix_insert ex_radix_cf (ex_key [5, 6, 9]) (Some [1, 2, 3]) None False ex_tree = (Inr 2, s') \<and> radix_ok ex_radix_cf s' \<and>
     contents ex_radix_cf s' = (contents ex_radix_cf ex_tree)
       (None := extend_map 1 [Token 5, Token 6, Token 9] [1, 2, 3] (contents ex_radix_cf ex_tree None))"
proof -
  have "fst (radix_insert ex_radix_cf (ex_key [5, 6, 9]) (Some [1, 2, 3]) None False ex_tree) = Inr 2"
    by (fact ex_insert)
  moreover have "key_iter (view_key ex_radix_cf (ex_key [5, 6, 9])) = [Token 5, Token 6, Token 9]" "key_len (view_key ex_radix_cf (ex_key [5, 6, 9])) = 3"
    by code_simp+
  ultimately show ?thesis
    using radix_insert_refines [OF ex_tree_ok(2), of "ex_key [5, 6, 9]" "[1, 2, 3]" None False] by (auto simp: ex_key_def ex_radix_cf_def Let_def)
qed

end
