(* ===== verification/Radix_Lock.thy ===== *)
theory Radix_Lock
  imports Radix_Insert
begin

text \<open>
  Locks and eviction of \<open>RadixCache\<close> (\<open>inc_lock_ref\<close>, \<open>dec_lock_ref\<close>, \<open>evict\<close>) on the object graph of \<open>Radix_Tree\<close>. A lock is
  taken on every node between a node and the root, so that the nodes a request reads form a path of locked nodes; eviction removes
  unlocked leaves. The walks towards the root return within the bound they carry.
\<close>

section \<open>Paths to the root\<close>

inductive path_up :: "'s radix_scheme \<Rightarrow> nat \<Rightarrow> nat list \<Rightarrow> bool" for s where
  path_root: "path_up s (rx_root s) []"
| path_step: "i \<noteq> rx_root s \<Longrightarrow> n_parent (nd s i) = Some p \<Longrightarrow> path_up s p xs \<Longrightarrow> path_up s i (i # xs)"

inductive_cases path_upE: "path_up s i xs"

lemma path_up_exists:
  assumes "tree_ok cf N s" "i \<in> N"
  shows "\<exists>xs. path_up s i xs \<and> set xs \<subseteq> N - {rx_root s} \<and> distinct xs"
proof -
  obtain rank :: "nat \<Rightarrow> nat" where rank: "\<And>c p. c \<in> N \<Longrightarrow> c \<noteq> rx_root s \<Longrightarrow> n_parent (nd s c) = Some p \<Longrightarrow> rank p < rank c"
    using assms(1) unfolding tree_ok_def by blast
  have "\<exists>xs. path_up s i xs \<and> set xs \<subseteq> N - {rx_root s} \<and> distinct xs \<and> (\<forall>x\<in>set xs. rank x \<le> rank i)"
    using assms(2)
  proof (induction "rank i" arbitrary: i rule: less_induct)
    case less
    show ?case
    proof (cases "i = rx_root s")
      case True
      then show ?thesis
        using path_root by (intro exI [of _ "[]"]) simp
    next
      case False
      then obtain p where p: "p \<in> N" "n_parent (nd s i) = Some p"
        using assms(1) less.prems by (auto simp: tree_ok_def)
      then obtain xs where "path_up s p xs" "set xs \<subseteq> N - {rx_root s}" "distinct xs" "\<forall>x\<in>set xs. rank x \<le> rank p"
        using less.hyps [OF rank [OF less.prems False p(2)] p(1)] by blast
      then show ?thesis
        using False p less.prems rank [OF less.prems False p(2)] path_step [OF False p(2)] by (intro exI [of _ "i # xs"]) fastforce
    qed
  qed
  then show ?thesis
    by blast
qed

lemma path_up_length:
  assumes "tree_ok cf N s" "set xs \<subseteq> N - {rx_root s}" "distinct xs"
  shows "length xs < rx_next s"
proof -
  have "length xs = card (set xs)"
    using assms(3) by (simp add: distinct_card)
  also have "\<dots> \<le> card (N - {rx_root s})"
    using assms(2) tree_okD(4) [OF assms(1)] by (intro card_mono) auto
  also have "\<dots> < card N"
    using tree_okD(3,4) [OF assms(1)] by (intro psubset_card_mono) auto
  also have "\<dots> \<le> rx_next s"
    using card_mono [OF _ tree_okD(2) [OF assms(1)]] by simp
  finally show ?thesis .
qed

section \<open>Locking a path\<close>

text \<open>The lock counts of the nodes of a path changed by \<open>d\<close>.\<close>

definition add_locks :: "int \<Rightarrow> nat list \<Rightarrow> (nat \<Rightarrow> tree_node) \<Rightarrow> nat \<Rightarrow> tree_node" where
  "add_locks d xs H = (\<lambda>i. if i \<in> set xs then (H i)\<lparr>n_lock_ref := n_lock_ref (H i) + d\<rparr> else H i)"

text \<open>The tokens of the nodes of a path whose lock count is \<open>k\<close>.\<close>

definition path_tokens :: "(nat \<Rightarrow> tree_node) \<Rightarrow> int \<Rightarrow> nat list \<Rightarrow> int" where
  "path_tokens H k xs = sum_list (map (\<lambda>i. if n_lock_ref (H i) = k then int (key_len (n_key (H i))) else 0) xs)"

definition unlocked_leaf :: "tree_node \<Rightarrow> bool" where
  "unlocked_leaf n \<longleftrightarrow> n_lock_ref n \<le> 0 \<and> n_children n = []"

definition leaves_after :: "(nat \<Rightarrow> tree_node) \<Rightarrow> nat list \<Rightarrow> nat set \<Rightarrow> nat set" where
  "leaves_after H xs L = (L - set xs) \<union> {i \<in> set xs. unlocked_leaf (H i)}"

lemma update_leaf_status_eq: "update_leaf_status i s = s\<lparr>rx_leaves := leaves_after (rx_heap s) [i] (rx_leaves s)\<rparr>"
proof -
  have "leaves_after (rx_heap s) [i] (rx_leaves s) = (if unlocked_leaf (nd s i) then insert i (rx_leaves s) else rx_leaves s - {i})"
    by (auto simp: leaves_after_def)
  then show ?thesis
    by (simp add: update_leaf_status_def unlocked_leaf_def)
qed

lemma path_up_cong:
  assumes "path_up s i xs" "rx_root s' = rx_root s" "\<And>j. j \<in> set xs \<Longrightarrow> n_parent (nd s' j) = n_parent (nd s j)"
  shows "path_up s' i xs"
  using assms(1,3)
proof induction
  case path_root
  then show ?case
    using path_up.path_root [of s'] assms(2) by simp
next
  case (path_step i p xs)
  then show ?case
    using assms(2) by (intro path_up.path_step [where p = p]) auto
qed

lemma path_facts:
  assumes "i \<notin> set xs" "H' = H(i := (H i)\<lparr>n_lock_ref := n_lock_ref (H i) + d\<rparr>)"
  shows "add_locks d xs H' = add_locks d (i # xs) H" "path_tokens H' k xs = path_tokens H k xs"
    "leaves_after (add_locks d (i # xs) H) xs (leaves_after H' [i] L) = leaves_after (add_locks d (i # xs) H) (i # xs) L"
proof -
  show "add_locks d xs H' = add_locks d (i # xs) H"
    using assms by (auto simp: add_locks_def fun_eq_iff)
  show "path_tokens H' k xs = path_tokens H k xs"
    unfolding path_tokens_def using assms by (intro arg_cong [of _ _ sum_list] map_cong) auto
  show "leaves_after (add_locks d (i # xs) H) xs (leaves_after H' [i] L) = leaves_after (add_locks d (i # xs) H) (i # xs) L"
    using assms by (auto simp: leaves_after_def add_locks_def)
qed

lemma path_up_Cons:
  assumes "path_up s i (x # xs)"
  obtains p where "x = i" "i \<noteq> rx_root s" "n_parent (nd s i) = Some p" "path_up s p xs"
  using assms by (auto elim: path_upE)

lemma inc_walk_run:
  assumes "path_up s i xs" "distinct xs" "length xs < fuel"
  shows "inc_walk fuel (Some i) d s = (Inr (d - path_tokens (rx_heap s) 0 xs),
    s\<lparr>rx_heap := add_locks 1 xs (rx_heap s), rx_evictable_size := rx_evictable_size s - path_tokens (rx_heap s) 0 xs,
      rx_protected_size := rx_protected_size s + path_tokens (rx_heap s) 0 xs, rx_leaves := leaves_after (add_locks 1 xs (rx_heap s)) xs (rx_leaves s)\<rparr>)"
  using assms
proof (induction xs arbitrary: s i d fuel rule: list.induct)
  case Nil
  then show ?case
    by (cases fuel; cases rule: path_upE [OF Nil.prems(1)]) (simp_all add: bindM_app path_tokens_def add_locks_def leaves_after_def)
next
  case (Cons x xs)
  then obtain p f where p: "x = i" "i \<noteq> rx_root s" "n_parent (nd s i) = Some p" "path_up s p xs" "fuel = Suc f" "length xs < f" "i \<notin> set xs" "distinct xs"
    by (cases fuel) (auto elim: path_up_Cons)
  let ?t = "if n_lock_ref (nd s i) = 0 then int (key_len (n_key (nd s i))) else 0"
  define H' where "H' = (rx_heap s)(i := (rx_heap s i)\<lparr>n_lock_ref := n_lock_ref (rx_heap s i) + 1\<rparr>)"
  define s1 where "s1 = s\<lparr>rx_evictable_size := rx_evictable_size s - ?t, rx_protected_size := rx_protected_size s + ?t, rx_heap := H',
    rx_leaves := leaves_after H' [i] (rx_leaves s)\<rparr>"
  have step: "inc_walk fuel (Some i) d s = inc_walk f (Some p) (d - ?t) s1"
    using p(2,3,5) by (simp add: bindM_app update_leaf_status_eq upd_node_def s1_def H'_def Let_def)
  have "path_up s1 p xs"
    using p(7) by (intro path_up_cong [OF p(4)]) (auto simp: s1_def H'_def)
  note IH = Cons.IH [OF this p(8,6), of "d - ?t"]
  have s1: "rx_heap s1 = H'" "rx_evictable_size s1 = rx_evictable_size s - ?t" "rx_protected_size s1 = rx_protected_size s + ?t"
      "rx_leaves s1 = leaves_after H' [i] (rx_leaves s)"
    by (simp_all add: s1_def)
  show ?case
    unfolding step IH s1 path_facts [OF p(7) H'_def] by (cases s) (simp add: s1_def p(1) path_tokens_def)
qed

lemma dec_walk_run:
  assumes "path_up s i xs" "distinct xs" "length xs < fuel"
  shows "dec_walk fuel (Some i) d s = (Inr (d + path_tokens (rx_heap s) 1 xs),
    s\<lparr>rx_heap := add_locks (-1) xs (rx_heap s), rx_evictable_size := rx_evictable_size s + path_tokens (rx_heap s) 1 xs,
      rx_protected_size := rx_protected_size s - path_tokens (rx_heap s) 1 xs, rx_leaves := leaves_after (add_locks (-1) xs (rx_heap s)) xs (rx_leaves s)\<rparr>)"
  using assms
proof (induction xs arbitrary: s i d fuel rule: list.induct)
  case Nil
  then show ?case
    by (cases fuel; cases rule: path_upE [OF Nil.prems(1)]) (simp_all add: bindM_app path_tokens_def add_locks_def leaves_after_def)
next
  case (Cons x xs)
  then obtain p f where p: "x = i" "i \<noteq> rx_root s" "n_parent (nd s i) = Some p" "path_up s p xs" "fuel = Suc f" "length xs < f" "i \<notin> set xs" "distinct xs"
    by (cases fuel) (auto elim: path_up_Cons)
  let ?t = "if n_lock_ref (nd s i) = 1 then int (key_len (n_key (nd s i))) else 0"
  define H' where "H' = (rx_heap s)(i := (rx_heap s i)\<lparr>n_lock_ref := n_lock_ref (rx_heap s i) + -1\<rparr>)"
  define s1 where "s1 = s\<lparr>rx_evictable_size := rx_evictable_size s + ?t, rx_protected_size := rx_protected_size s - ?t, rx_heap := H',
    rx_leaves := leaves_after H' [i] (rx_leaves s)\<rparr>"
  have step: "dec_walk fuel (Some i) d s = dec_walk f (Some p) (d + ?t) s1"
    using p(2,3,5) by (simp add: bindM_app update_leaf_status_eq upd_node_def s1_def H'_def Let_def)
  have "path_up s1 p xs"
    using p(7) by (intro path_up_cong [OF p(4)]) (auto simp: s1_def H'_def)
  note IH = Cons.IH [OF this p(8,6), of "d + ?t"]
  have s1: "rx_heap s1 = H'" "rx_evictable_size s1 = rx_evictable_size s + ?t" "rx_protected_size s1 = rx_protected_size s - ?t"
      "rx_leaves s1 = leaves_after H' [i] (rx_leaves s)"
    by (simp_all add: s1_def)
  show ?case
    unfolding step IH s1 path_facts [OF p(7) H'_def] by (cases s) (simp add: s1_def p(1) path_tokens_def)
qed

text \<open>Lock counts are not negative, the root stays locked, and the leaf set holds exactly the unlocked nodes without children.\<close>

definition locks_ok :: "nat set \<Rightarrow> 's radix_scheme \<Rightarrow> bool" where
  "locks_ok N s \<longleftrightarrow> (\<forall>i\<in>N. 0 \<le> n_lock_ref (nd s i)) \<and> 0 < n_lock_ref (nd s (rx_root s)) \<and> rx_leaves s = {i \<in> N. unlocked_leaf (nd s i)}"

lemma locks_undone:
  assumes "locks_ok N s" "set xs \<subseteq> N"
  shows "add_locks (-1) xs (add_locks 1 xs H) = H" "path_tokens (add_locks 1 xs H) 1 xs = path_tokens H 0 xs"
    "leaves_after (rx_heap s) xs (leaves_after H' xs (rx_leaves s)) = rx_leaves s"
proof -
  show "add_locks (-1) xs (add_locks 1 xs H) = H"
    by (auto simp: add_locks_def)
  show "path_tokens (add_locks 1 xs H) 1 xs = path_tokens H 0 xs"
    unfolding path_tokens_def by (intro arg_cong [of _ _ sum_list] map_cong) (auto simp: add_locks_def)
  show "leaves_after (rx_heap s) xs (leaves_after H' xs (rx_leaves s)) = rx_leaves s"
    using assms by (auto simp: leaves_after_def locks_ok_def)
qed

lemma lock_run:
  assumes "path_up s i xs" "distinct xs" "length xs \<le> rx_next s" "\<not> rc_disable cf"
  shows "radix_inc_lock_ref cf (Some i) s = (Inr (- path_tokens (rx_heap s) 0 xs),
    s\<lparr>rx_heap := add_locks 1 xs (rx_heap s), rx_evictable_size := rx_evictable_size s - path_tokens (rx_heap s) 0 xs,
      rx_protected_size := rx_protected_size s + path_tokens (rx_heap s) 0 xs, rx_leaves := leaves_after (add_locks 1 xs (rx_heap s)) xs (rx_leaves s)\<rparr>)"
  using inc_walk_run [OF assms(1,2), of "Suc (rx_next s)" 0] assms(3,4) by (simp add: radix_inc_lock_ref_def bindM_app del: inc_walk.simps)

lemma unlock_run:
  assumes "path_up s i xs" "distinct xs" "length xs \<le> rx_next s" "\<not> rc_disable cf"
  shows "radix_dec_lock_ref cf (Some i) s = (Inr (path_tokens (rx_heap s) 1 xs),
    s\<lparr>rx_heap := add_locks (-1) xs (rx_heap s), rx_evictable_size := rx_evictable_size s + path_tokens (rx_heap s) 1 xs,
      rx_protected_size := rx_protected_size s - path_tokens (rx_heap s) 1 xs, rx_leaves := leaves_after (add_locks (-1) xs (rx_heap s)) xs (rx_leaves s)\<rparr>)"
  using dec_walk_run [OF assms(1,2), of "Suc (rx_next s)" 0] assms(3,4) by (simp add: radix_dec_lock_ref_def bindM_app del: dec_walk.simps)

lemma tree_ok_locks:
  assumes "tree_ok cf N s"
  shows "tree_ok cf N (s\<lparr>rx_heap := add_locks d xs (rx_heap s), rx_evictable_size := a, rx_protected_size := b, rx_leaves := L\<rparr>)"
proof -
  let ?s = "s\<lparr>rx_heap := add_locks d xs (rx_heap s), rx_evictable_size := a, rx_protected_size := b, rx_leaves := L\<rparr>"
  have f: "n_children (nd ?s i) = n_children (nd s i)" "n_parent (nd ?s i) = n_parent (nd s i)" "n_key (nd ?s i) = n_key (nd s i)"
      "n_value (nd ?s i) = n_value (nd s i)" for i
    by (simp_all add: add_locks_def)
  show ?thesis
    using assms unfolding tree_ok_def children_ok_def node_ok_def f by simp
qed

text \<open>C40. A lock on a node of the radix tree is exact: taking it returns minus the tokens that become protected and moves them from the
  evictable to the protected size; every node on the way to the root is then locked and no candidate for eviction; the tree stays well
  formed; and releasing it returns the same number of tokens and restores the whole cache.\<close>

theorem radix_lock_roundtrip:
  assumes "tree_ok cf N s" "locks_ok N s" "i \<in> N" "\<not> rc_disable cf"
  shows "\<exists>d s' xs. path_up s i xs \<and> radix_inc_lock_ref cf (Some i) s = (Inr (- d), s') \<and>
    rx_evictable_size s' = rx_evictable_size s - d \<and> rx_protected_size s' = rx_protected_size s + d \<and>
    d = sum_list (map (\<lambda>x. if n_lock_ref (nd s x) = 0 then int (key_len (n_key (nd s x))) else 0) xs) \<and>
    (\<forall>x\<in>set xs. 0 < n_lock_ref (nd s' x) \<and> x \<notin> rx_leaves s') \<and> tree_ok cf N s' \<and> locks_ok N s' \<and>
    radix_dec_lock_ref cf (Some i) s' = (Inr d, s)"
proof -
  obtain xs where xs: "path_up s i xs" "set xs \<subseteq> N - {rx_root s}" "distinct xs"
    using path_up_exists [OF assms(1,3)] by blast
  have sub: "set xs \<subseteq> N"
    using xs(2) by auto
  have len: "length xs \<le> rx_next s"
    using path_up_length [OF assms(1) xs(2,3)] by simp
  define d where "d = path_tokens (rx_heap s) 0 xs"
  define s' where "s' = s\<lparr>rx_heap := add_locks 1 xs (rx_heap s), rx_evictable_size := rx_evictable_size s - d,
      rx_protected_size := rx_protected_size s + d, rx_leaves := leaves_after (add_locks 1 xs (rx_heap s)) xs (rx_leaves s)\<rparr>"
  have inc: "radix_inc_lock_ref cf (Some i) s = (Inr (- d), s')"
    using lock_run [OF xs(1,3) len assms(4)] by (simp add: d_def s'_def)
  have up: "path_up s' i xs"
    by (rule path_up_cong [OF xs(1)]) (simp_all add: s'_def add_locks_def)
  have "radix_dec_lock_ref cf (Some i) s' = (Inr d, s)"
    using unlock_run [OF up xs(3) _ assms(4)] len locks_undone [OF assms(2) sub] by (cases s) (simp add: s'_def d_def)
  moreover have lk: "\<forall>x\<in>set xs. 0 < n_lock_ref (nd s' x) \<and> x \<notin> rx_leaves s'"
    using assms(2) xs(2) by (force simp: s'_def add_locks_def leaves_after_def unlocked_leaf_def locks_ok_def)
  moreover have "locks_ok N s'"
    using assms(2) xs(2) by (auto simp: s'_def add_locks_def leaves_after_def unlocked_leaf_def locks_ok_def)
  ultimately show ?thesis
    using inc xs(1) tree_ok_locks [OF assms(1)] by (intro exI [of _ d] exI [of _ s'] exI [of _ xs]) (simp add: s'_def d_def path_tokens_def)
qed

theorem radix_lock_roundtrip_witness:
  "\<exists>s'. radix_inc_lock_ref ex_radix_cf (Some 1) ex_tree = (Inr (- 3), s') \<and> rx_evictable_size s' = 0 \<and> rx_protected_size s' = 3 \<and>
     radix_dec_lock_ref ex_radix_cf (Some 1) s' = (Inr 3, ex_tree)"
proof -
  have path: "xs = [1]" if "path_up ex_tree 1 xs" for xs
    using that
  proof (cases rule: path_up.cases)
    case (path_step p ys)
    then have "path_up ex_tree (rx_root ex_tree) ys"
      by (simp add: ex_nodes)
    then have "ys = []"
      by (cases rule: path_up.cases) simp_all
    then show ?thesis
      using path_step by simp
  qed (simp add: ex_nodes)
  have "locks_ok {0, 1} ex_tree"
    by (auto simp: locks_ok_def unlocked_leaf_def ex_tree_def)
  then obtain d s' xs where l: "path_up ex_tree 1 xs" "radix_inc_lock_ref ex_radix_cf (Some 1) ex_tree = (Inr (- d), s')"
      "rx_evictable_size s' = rx_evictable_size ex_tree - d" "rx_protected_size s' = rx_protected_size ex_tree + d"
      "d = sum_list (map (\<lambda>x. if n_lock_ref (nd ex_tree x) = 0 then int (key_len (n_key (nd ex_tree x))) else 0) xs)"
      "radix_dec_lock_ref ex_radix_cf (Some 1) s' = (Inr d, ex_tree)"
    using radix_lock_roundtrip [OF ex_tree_ok(1), of 1] by (auto simp: ex_config)
  have "d = 3"
    using l(5) unfolding path [OF l(1)] by (simp add: ex_nodes ex_keys)
  then show ?thesis
    using l(2-4,6) by (simp add: ex_tree_def)
qed

section \<open>The size walk\<close>

text \<open>\<open>below s N i\<close>: the node \<open>i\<close> and the nodes under it.\<close>

definition kid_rel :: "'s radix_scheme \<Rightarrow> nat set \<Rightarrow> (nat \<times> nat) set" where
  "kid_rel s N = {(p, c). p \<in> N \<and> c \<in> kids s p}"

definition below :: "'s radix_scheme \<Rightarrow> nat set \<Rightarrow> nat \<Rightarrow> nat set" where
  "below s N i = (kid_rel s N)\<^sup>* `` {i}"

lemma below_subset:
  assumes "tree_ok cf N s" "i \<in> N"
  shows "below s N i \<subseteq> N"
proof
  fix j
  assume "j \<in> below s N i"
  then have "(i, j) \<in> (kid_rel s N)\<^sup>*"
    by (simp add: below_def)
  then show "j \<in> N"
    using assms(2) by induction (auto simp: kid_rel_def intro: childD(1) [OF assms(1)])
qed

lemma below_unfold: "i \<in> N \<Longrightarrow> below s N i = insert i (\<Union>c\<in>kids s i. below s N c)"
  unfolding below_def by (auto simp: kid_rel_def elim: converse_rtranclE intro: converse_rtrancl_into_rtrancl)

lemma below_rank:
  assumes "(i, j) \<in> (kid_rel s N)\<^sup>*" "tree_ok cf N s"
    and "\<forall>c\<in>N. \<forall>p. c \<noteq> rx_root s \<and> n_parent (nd s c) = Some p \<longrightarrow> rank p < (rank c :: nat)"
  shows "i = j \<or> rank i < rank j"
  using assms(1)
proof induction
  case (step j k)
  then have "j \<in> N" "k \<in> kids s j"
    by (auto simp: kid_rel_def)
  then have "rank j < rank k"
    using childD(1-3) [OF assms(2)] assms(3) by blast
  then show ?case
    using step.IH by auto
qed simp

text \<open>The children of a node have disjoint subtrees, none of which holds the node.\<close>

lemma below_parts:
  assumes ok: "tree_ok cf N s" and i: "i \<in> N"
  shows "c \<in> kids s i \<Longrightarrow> i \<notin> below s N c"
    "c \<in> kids s i \<Longrightarrow> d \<in> kids s i \<Longrightarrow> c \<noteq> d \<Longrightarrow> below s N c \<inter> below s N d = {}"
proof -
  obtain rank :: "nat \<Rightarrow> nat" where rank: "\<forall>c\<in>N. \<forall>p. c \<noteq> rx_root s \<and> n_parent (nd s c) = Some p \<longrightarrow> rank p < rank c"
    using ok unfolding tree_ok_def by blast
  have up: "rank i < rank c" if "c \<in> kids s i" for c
    using childD(1-3) [OF ok i that] rank by blast
  show out: "i \<notin> below s N c" if "c \<in> kids s i" for c
    using below_rank [OF _ ok rank, of c i] up [OF that] by (auto simp: below_def)
  have single: "single_valued ((kid_rel s N)\<inverse>)"
  proof (rule single_valuedI)
    fix c p q
    assume "(c, p) \<in> (kid_rel s N)\<inverse>" "(c, q) \<in> (kid_rel s N)\<inverse>"
    then have "p \<in> N" "c \<in> kids s p" "q \<in> N" "c \<in> kids s q"
      by (simp_all add: kid_rel_def)
    then show "p = q"
      using childD(3) [OF ok, of p c] childD(3) [OF ok, of q c] by simp
  qed
  have no: "(c, d) \<notin> (kid_rel s N)\<^sup>*" if cd: "c \<in> kids s i" "d \<in> kids s i" "c \<noteq> d" for c d
  proof
    assume "(c, d) \<in> (kid_rel s N)\<^sup>*"
    then obtain p where p: "(c, p) \<in> (kid_rel s N)\<^sup>*" "(p, d) \<in> kid_rel s N"
      using cd(3) by (auto elim: rtranclE)
    then have "p = i"
      using childD(3) [OF ok, of p d] childD(3) [OF ok i cd(2)] by (auto simp: kid_rel_def)
    then show False
      using out [OF cd(1)] p(1) by (simp add: below_def)
  qed
  show "below s N c \<inter> below s N d = {}" if cd: "c \<in> kids s i" "d \<in> kids s i" "c \<noteq> d" for c d
  proof (rule ccontr)
    assume "below s N c \<inter> below s N d \<noteq> {}"
    then obtain j where "(j, c) \<in> ((kid_rel s N)\<inverse>)\<^sup>*" "(j, d) \<in> ((kid_rel s N)\<inverse>)\<^sup>*"
      by (auto simp: below_def rtrancl_converse)
    then have "(c, d) \<in> ((kid_rel s N)\<inverse>)\<^sup>* \<or> (d, c) \<in> ((kid_rel s N)\<inverse>)\<^sup>*"
      by (rule single_valued_confluent [OF single])
    then show False
      using no [OF cd] no [of d c] cd by (auto simp: rtrancl_converse)
  qed
qed

lemma below_sum:
  fixes f :: "nat \<Rightarrow> nat"
  assumes ok: "tree_ok cf N s" and i: "i \<in> N"
  shows "sum f (below s N i) = f i + (\<Sum>c\<leftarrow>map snd (n_children (nd s i)). sum f (below s N c))"
proof -
  have fin: "finite (below s N c)" if "c \<in> N" for c
    using finite_subset [OF below_subset [OF ok that] tree_okD(4) [OF ok]] .
  have kN: "c \<in> N" if "c \<in> kids s i" for c
    using childD(1) [OF ok i that] .
  have "inj_on snd (set (n_children (nd s i)))"
  proof (rule inj_onI)
    fix a b
    assume ab: "a \<in> set (n_children (nd s i))" "b \<in> set (n_children (nd s i))" "snd a = snd b"
    then have "(fst a, snd a) \<in> set (n_children (nd s i))" "(fst b, snd a) \<in> set (n_children (nd s i))"
      by (metis prod.collapse)+
    then have "Inr (fst a) = (Inr (fst b) :: child_id result)"
      using tree_ok_entry(4) [OF ok i] by metis
    then show "a = b"
      using ab(3) by (simp add: prod_eq_iff)
  qed
  then have dist: "distinct (map snd (n_children (nd s i)))"
    using tree_ok_distinct [OF ok i] by (simp add: distinct_map)
  have "sum f (below s N i) = f i + sum f (\<Union>c\<in>kids s i. below s N c)"
    unfolding below_unfold [OF i] using below_parts(1) [OF ok i] fin kN by (subst sum.insert) auto
  also have "sum f (\<Union>c\<in>kids s i. below s N c) = (\<Sum>c\<in>kids s i. sum f (below s N c))"
    by (rule sum.UNION_disjoint) (use below_parts(2) [OF ok i] fin kN in auto)
  also have "\<dots> = (\<Sum>c\<leftarrow>map snd (n_children (nd s i)). sum f (below s N c))"
    using sum_list_distinct_conv_sum_set [OF dist, of "\<lambda>c. sum f (below s N c)"] by simp
  finally show ?thesis .
qed

lemma total_size_loop_run:
  assumes ok: "tree_ok cf N s"
  shows "set stack \<subseteq> N \<Longrightarrow> (\<Sum>i\<leftarrow>stack. card (below s N i)) \<le> fuel \<Longrightarrow>
    total_size_loop fuel stack acc s = (Inr (acc + (\<Sum>i\<leftarrow>stack. \<Sum>j\<in>below s N i. length (vals s j))), s)"
proof (induction fuel arbitrary: stack acc)
  case 0
  show ?case
  proof (cases stack)
    case (Cons i st)
    then have "i \<in> below s N i" "finite (below s N i)"
      using "0.prems"(1) finite_subset [OF below_subset [OF ok] tree_okD(4) [OF ok]] by (auto simp: below_def)
    then show ?thesis
      using "0.prems"(2) Cons by auto
  qed simp
next
  case (Suc fuel)
  show ?case
  proof (cases stack)
    case (Cons i st)
    let ?st = "rev (map snd (n_children (nd s i))) @ st"
    have i: "i \<in> N"
      using Suc.prems(1) Cons by simp
    have sub: "set ?st \<subseteq> N"
      using Suc.prems(1) Cons childD(1) [OF ok i] by auto
    have sums: "(\<Sum>x\<leftarrow>?st. g x) = (\<Sum>c\<leftarrow>map snd (n_children (nd s i)). g c) + (\<Sum>x\<leftarrow>st. g x)" for g :: "nat \<Rightarrow> nat"
      by (simp add: rev_map [symmetric] sum_list_rev)
    have "(\<Sum>x\<leftarrow>?st. card (below s N x)) \<le> fuel"
      using Suc.prems(2) below_sum [OF ok i, of "\<lambda>_. 1"] unfolding sums by (simp add: Cons)
    from Suc.IH [OF sub this] show ?thesis
      using below_sum [OF ok i, of "\<lambda>j. length (vals s j)"] unfolding sums Cons by (simp add: bindM_app)
  qed simp
qed

text \<open>\<open>total_size\<close> returns within its bound the number of tokens of all nodes.\<close>

lemma radix_total_size_exact:
  assumes ok: "tree_ok cf N s"
  shows "radix_total_size s = (Inr (\<Sum>i\<in>N. length (vals s i)), s)"
proof -
  obtain rank :: "nat \<Rightarrow> nat" where rank: "\<And>c p. c \<in> N \<Longrightarrow> c \<noteq> rx_root s \<Longrightarrow> n_parent (nd s c) = Some p \<Longrightarrow> rank p < rank c"
    using ok unfolding tree_ok_def by blast
  have "(rx_root s, i) \<in> (kid_rel s N)\<^sup>*" if "i \<in> N" for i
    using that
  proof (induction "rank i" arbitrary: i rule: less_induct)
    case less
    show ?case
    proof (cases "i = rx_root s")
      case False
      then obtain p where p: "p \<in> N" "n_parent (nd s i) = Some p" "i \<in> kids s p"
        using tree_ok_parent [OF ok less.prems] by blast
      then show ?thesis
        using less.hyps [OF rank [OF less.prems False p(2)] p(1)] by (auto simp: kid_rel_def intro: rtrancl_into_rtrancl)
    qed simp
  qed
  then have N: "below s N (rx_root s) = N"
    using below_subset [OF ok tree_okD(3) [OF ok]] by (auto simp: below_def)
  have "card N \<le> rx_next s"
    using card_mono [OF _ tree_okD(2) [OF ok]] by simp
  then show ?thesis
    using total_size_loop_run [OF ok, of "[rx_root s]" "rx_next s" 0] tree_okD(3) [OF ok] N
    by (simp add: radix_total_size_def bindM_app)
qed

section \<open>Evicting leaves\<close>

text \<open>What remains of a tree when leaves are taken away: every kept node has its kept children, and nothing else of a node changes.\<close>

definition trimmed :: "nat set \<Rightarrow> 's radix_scheme \<Rightarrow> 's radix_scheme \<Rightarrow> bool" where
  "trimmed N' s s' \<longleftrightarrow> rx_root s' = rx_root s \<and> rx_next s' = rx_next s \<and> (\<forall>i\<in>N'. kids s' i = kids s i \<inter> N') \<and>
     (\<forall>i. n_parent (nd s' i) = n_parent (nd s i) \<and> n_key (nd s' i) = n_key (nd s i) \<and> n_value (nd s' i) = n_value (nd s i) \<and>
          n_lock_ref (nd s' i) = n_lock_ref (nd s i))"

lemma trimmed_trans: "trimmed N1 s s1 \<Longrightarrow> trimmed N2 s1 s2 \<Longrightarrow> N2 \<subseteq> N1 \<Longrightarrow> trimmed N2 s s2"
  unfolding trimmed_def by (intro conjI) (auto simp: subset_iff)

text \<open>The state after \<open>_delete_leaf\<close>.\<close>

definition without_leaf :: "nat \<Rightarrow> child_id \<Rightarrow> nat \<Rightarrow> 's radix_scheme \<Rightarrow> 's radix_scheme" where
  "without_leaf p ck x s =
     (let H = (rx_heap s)(p := (nd s p)\<lparr>n_children := AList.delete ck (n_children (nd s p))\<rparr>)
      in s\<lparr>rx_heap := H, rx_evictable_size := rx_evictable_size s - int (key_len (n_key (nd s x))),
           rx_leaves := leaves_after H [p] (rx_leaves s - {x})\<rparr>)"

lemma delete_leaf_run:
  assumes "tree_ok cf N s" "p \<in> N" "(ck, x) \<in> set (n_children (nd s p))"
  shows "delete_leaf cf x s = (Inr (), without_leaf p ck x s)"
  using tree_ok_entry [OF assms]
  by (simp add: delete_leaf_def bindM_app update_leaf_status_eq upd_node_def without_leaf_def Let_def)

lemma without_leaf_kids:
  assumes "tree_ok cf N s" "p \<in> N" "(ck, x) \<in> set (n_children (nd s p))" "i \<in> N"
  shows "kids (without_leaf p ck x s) i = kids s i - {x}"
proof (cases "i = p")
  case True
  have "c = x \<longleftrightarrow> ck' = ck" if "(ck', c) \<in> set (n_children (nd s p))" for ck' c
    using tree_ok_entry(4,5) [OF assms(1,2) that] tree_ok_entry(4,5) [OF assms(1-3)] by auto
  then have "\<forall>e\<in>set (n_children (nd s p)). fst e \<noteq> ck \<longleftrightarrow> snd e \<noteq> x"
    by force
  then have "AList.delete ck (n_children (nd s p)) = filter (\<lambda>e. snd e \<noteq> x) (n_children (nd s p))"
    unfolding AList.delete_eq case_prod_unfold by (intro filter_cong refl) (metis)
  then show ?thesis
    unfolding True by (auto simp: without_leaf_def Let_def)
next
  case False
  have "x \<notin> kids s i"
    using tree_ok_entry(1) [OF assms(1-3)] tree_ok_entry(1) [OF assms(1,4)] False by fastforce
  then show ?thesis
    using False by (auto simp: without_leaf_def Let_def)
qed

lemma without_leaf_fields:
  "rx_root (without_leaf p ck x s) = rx_root s" "rx_next (without_leaf p ck x s) = rx_next s" "rx_kv (without_leaf p ck x s) = rx_kv s"
  "n_parent (nd (without_leaf p ck x s) i) = n_parent (nd s i)" "n_key (nd (without_leaf p ck x s) i) = n_key (nd s i)"
  "n_value (nd (without_leaf p ck x s) i) = n_value (nd s i)" "n_lock_ref (nd (without_leaf p ck x s) i) = n_lock_ref (nd s i)"
  "set (n_children (nd (without_leaf p ck x s) i)) \<subseteq> set (n_children (nd s i))"
  "dict_ok (n_children (nd s i)) \<Longrightarrow> dict_ok (n_children (nd (without_leaf p ck x s) i))"
  by (auto simp: without_leaf_def Let_def AList.delete_eq distinct_map_filter)

lemma without_leaf_ok:
  assumes ok: "tree_ok cf N s" and lk: "locks_ok N s" and p: "p \<in> N" "(ck, x) \<in> set (n_children (nd s p))" and x: "n_children (nd s x) = []"
  shows "tree_ok cf (N - {x}) (without_leaf p ck x s)" "locks_ok (N - {x}) (without_leaf p ck x s)"
    "trimmed (N - {x}) s (without_leaf p ck x s)"
proof -
  let ?s = "without_leaf p ck x s"
  note f = without_leaf_fields [where p = p and ck = ck and x = x and s = s] and kids = without_leaf_kids [OF ok p] and e = tree_ok_entry [OF ok p]
  have px: "p \<noteq> x"
    using x p(2) by auto
  have ch: "children_ok cf (N - {x}) ?s q" if "q \<in> N - {x}" for q
  proof -
    have old: "children_ok cf N s q" and q: "q \<in> N"
      using ok that by (auto simp: tree_ok_def)
    have "c \<in> N - {x} \<and> c \<noteq> rx_root s \<and> n_parent (nd s c) = Some q \<and> child_key (rc_page_size cf) (n_key (nd s c)) = Inr k"
      if kc: "(k, c) \<in> set (n_children (nd ?s q))" for k c
    proof -
      have "c \<in> kids ?s q" and kc': "(k, c) \<in> set (n_children (nd s q))"
        using kc f(8) by (force, blast)
      then have "c \<noteq> x"
        unfolding kids [OF q] by simp
      then show ?thesis
        using tree_ok_entry(1-4) [OF ok q kc'] by simp
    qed
    then have "\<forall>(k, c)\<in>set (n_children (nd ?s q)). c \<in> N - {x} \<and> c \<noteq> rx_root s \<and> n_parent (nd s c) = Some q \<and>
        child_key (rc_page_size cf) (n_key (nd s c)) = Inr k"
      by (intro ballI case_prodI2) simp
    then show ?thesis
      using old f(9) unfolding children_ok_def f(1,4,5) by simp
  qed
  have par: "node_ok cf (nd ?s c) \<and> (\<exists>q\<in>N - {x}. n_parent (nd ?s c) = Some q \<and> c \<in> kids ?s q)"
    if c: "c \<in> N - {x}" "c \<noteq> rx_root s" for c
  proof -
    obtain q where q: "q \<in> N" "n_parent (nd s c) = Some q" "c \<in> kids s q" "node_ok cf (nd s c)"
      using tree_ok_parent [OF ok, of c] c by blast
    moreover have "q \<noteq> x"
      using q(3) x by auto
    ultimately show ?thesis
      using kids [of q] c unfolding node_ok_def f(4-6) by blast
  qed
  show "tree_ok cf (N - {x}) ?s"
    using ok e(2) ch par unfolding tree_ok_def f(1,2,4) by blast
  have "rx_leaves ?s = {i \<in> N - {x}. unlocked_leaf (nd ?s i)}"
    using lk p(1) px by (auto simp: locks_ok_def without_leaf_def Let_def leaves_after_def)
  then show "locks_ok (N - {x}) ?s"
    using lk by (simp add: locks_ok_def f(1,7))
  show "trimmed (N - {x}) s ?s"
    unfolding trimmed_def
  proof (intro conjI ballI)
    fix i
    assume i: "i \<in> N - {x}"
    have "kids s i \<subseteq> N"
      using childD(1) [OF ok, of i] i by blast
    then show "kids ?s i = kids s i \<inter> (N - {x})"
      using kids [of i] i by blast
  qed (simp_all add: f)
qed

lemma trimmed_desc:
  assumes "desc cf s' e p ws xs" "p \<in> N'" "tree_ok cf N' s'" "trimmed N' s s'"
  shows "desc cf s e p ws xs"
  using assms
proof (induction rule: desc.induct)
  case (desc_part c p n)
  then have "c \<in> kids s p" "n_key (nd s' c) = n_key (nd s c)" "vals s' c = vals s c"
    by (auto simp: trimmed_def)
  then show ?case
    using desc_part.hyps desc.desc_part [of c s p e cf n] by simp
next
  case (desc_deep c p ws xs)
  then have "c \<in> kids s p" "n_key (nd s' c) = n_key (nd s c)" "vals s' c = vals s c" "c \<in> N'"
    using childD(1) [OF desc_deep.prems(2,1) desc_deep.hyps(1)] by (auto simp: trimmed_def)
  then show ?case
    using desc_deep desc.desc_deep [of c s p e cf ws xs] by simp
qed (rule desc.desc_nil)

text \<open>The path to a kept node is kept.\<close>

lemma trimmed_down:
  assumes "down s e p q ws xs" "p \<in> N" "q \<in> N'" "tree_ok cf N s" "tree_ok cf N' s'" "trimmed N' s s'"
  shows "p \<in> N' \<and> down s' e p q ws xs"
  using assms
proof (induction rule: down.induct)
  case (down_step c p q ws xs)
  note c = childD(1-3) [OF down_step.prems(3,1) down_step.hyps(1)]
  have IH: "c \<in> N'" "down s' e c q ws xs"
    using down_step.IH [OF c(1) down_step.prems(2-5)] by blast+
  have tr: "rx_root s' = rx_root s" "n_parent (nd s' c) = n_parent (nd s c)" "n_key (nd s' c) = n_key (nd s c)" "vals s' c = vals s c"
    using down_step.prems(5) by (simp_all add: trimmed_def)
  have p: "p \<in> N'"
    using tree_ok_parent [OF down_step.prems(4) IH(1)] c(2,3) tr(1,2) by (metis option.inject)
  then have "c \<in> kids s' p"
    using down_step.prems(5) down_step.hyps(1) IH(1) by (auto simp: trimmed_def)
  then show ?case
    using p down.down_step [of c s' p e q ws xs] IH(2) down_step.hyps(2) tr by simp
qed (simp add: down.down_refl)

section \<open>The eviction loop\<close>

text \<open>The heap lists the leaf set, each node once.\<close>

definition heap_ok :: "heap_entry list \<Rightarrow> 's radix_scheme \<Rightarrow> bool" where
  "heap_ok h s \<longleftrightarrow> distinct (map (snd \<circ> snd) h) \<and> set (map (snd \<circ> snd) h) = rx_leaves s"

lemma remove1_keys:
  "distinct (map f xs) \<Longrightarrow> t \<in> set xs \<Longrightarrow>
     set (map f (remove1 t xs)) = set (map f xs) - {f t} \<and> distinct (map f (remove1 t xs))"
  by (induction xs) auto

lemma min_entry_in: "min_entry x xs \<in> set (x # xs)"
  by (induction x xs rule: min_entry.induct) auto

lemma min_entry_least: "y \<in> set (x # xs) \<Longrightarrow> \<not> entry_less y (min_entry x xs)"
proof (induction x xs arbitrary: y rule: min_entry.induct)
  case (1 x)
  then show ?case
    by (simp add: entry_less_def)
next
  case (2 x z zs)
  let ?m = "if entry_less z x then z else x"
  have m: "\<not> entry_less ?m (min_entry ?m zs)"
    using "2.IH" [of ?m] by simp
  show ?case
  proof (cases "y \<in> set zs")
    case True
    then show ?thesis
      using "2.IH" [of y] by simp
  next
    case False
    then have "y = x \<or> y = z"
      using "2.prems" by simp
    then show ?thesis
      using m by (auto simp: entry_less_def split: if_splits)
  qed
qed

text \<open>One round: the victim is an unlocked leaf other than the root; its slots go back to the allocator, it leaves the tree, and its
  parent joins the heap when it has become an unlocked leaf itself.\<close>

lemma evict_round:
  assumes ok: "tree_ok cf N s" "locks_ok N s" "heap_ok (h # hs) s" and n: "k < n"
  defines "x \<equiv> snd (snd (min_entry h hs))"
  obtains s1 h1 where "radix_evict_loop cf (Suc fuel) n k (h # hs) s = radix_evict_loop cf fuel n (k + length (vals s x)) h1 s1"
    "x \<in> N" "x \<in> rx_leaves s" "n_lock_ref (nd s x) = 0" "x \<noteq> rx_root s" "tree_ok cf (N - {x}) s1" "locks_ok (N - {x}) s1"
    "heap_ok h1 s1" "trimmed (N - {x}) s s1" "rx_kv s1 = token_free (vals s x) (rx_kv s)"
    "rx_evictable_size s1 = rx_evictable_size s - int (length (vals s x))"
proof -
  let ?top = "min_entry h hs"
  have "?top \<in> set (h # hs)"
    by (rule min_entry_in)
  then have leaf: "x \<in> rx_leaves s"
    using ok(3) unfolding heap_ok_def x_def by (metis comp_apply image_eqI set_map)
  then have x: "x \<in> N" "n_lock_ref (nd s x) = 0" "n_children (nd s x) = []" "x \<noteq> rx_root s"
    using ok(2) by (auto simp: locks_ok_def unlocked_leaf_def)
  then obtain p where p: "p \<in> N" "n_parent (nd s x) = Some p" "x \<in> kids s p" "node_ok cf (nd s x)"
    using tree_ok_parent [OF ok(1)] by blast
  then obtain ck where ck: "(ck, x) \<in> set (n_children (nd s p))"
    by auto
  define s0 where "s0 = s\<lparr>rx_kv := token_free (vals s x) (rx_kv s)\<rparr>"
  have s0: "tree_ok cf N s0" "locks_ok N s0" "\<And>i. nd s0 i = nd s i"
    using ok(1,2) by (simp_all add: s0_def tree_ok_def children_ok_def locks_ok_def)
  define s1 where "s1 = without_leaf p ck x s0"
  define h1 where "h1 = (let h' = remove1 ?top (h # hs) in
    if n_children (nd s1 p) = [] \<and> n_lock_ref (nd s1 p) = 0 then h' @ [heap_entry_of cf s1 p] else h')"
  have run: "radix_evict_loop cf (Suc fuel) n k (h # hs) s = radix_evict_loop cf fuel n (k + length (vals s x)) h1 s1"
    using n p(2) delete_leaf_run [OF s0(1) p(1), of ck x] ck
    by (simp add: bindM_app h1_def s1_def s0_def Let_def flip: x_def)
  note wl = without_leaf_ok [OF s0(1,2) p(1), of ck x, unfolded s0(3), OF ck x(3), folded s1_def]
  have px: "p \<noteq> x" "p \<notin> rx_leaves s"
    using x(3) p(3) ok(2) by (auto simp: locks_ok_def unlocked_leaf_def)
  have heap1: "heap_ok h1 s1"
  proof -
    let ?h' = "remove1 ?top (h # hs)"
    have rem: "set (map (snd \<circ> snd) ?h') = rx_leaves s - {x}" "distinct (map (snd \<circ> snd) ?h')"
      using remove1_keys [of "snd \<circ> snd" "h # hs" ?top] ok(3) \<open>?top \<in> _\<close> by (simp_all add: heap_ok_def x_def del: remove1.simps)
    have lv: "rx_leaves s1 = (if n_children (nd s1 p) = [] \<and> n_lock_ref (nd s1 p) = 0 then insert p (rx_leaves s - {x}) else rx_leaves s - {x})"
      using wl(2) p(1) px ok(2) by (auto simp: s1_def s0_def without_leaf_def Let_def leaves_after_def unlocked_leaf_def locks_ok_def)
    show ?thesis
      using rem px(2) unfolding heap_ok_def lv h1_def Let_def by (auto simp: heap_entry_of_def)
  qed
  have "trimmed (N - {x}) s s1"
    using wl(3) by (simp add: trimmed_def s0_def)
  moreover have "rx_evictable_size s1 = rx_evictable_size s - int (length (vals s x))" "rx_kv s1 = token_free (vals s x) (rx_kv s)"
    using p(4) by (simp_all add: s1_def s0_def without_leaf_def Let_def node_ok_def)
  ultimately show thesis
    using that [OF run x(1) leaf x(2,4) wl(1,2) heap1] by blast
qed

text \<open>The outcome of a run that began with \<open>k\<close> tokens evicted and had the nodes \<open>D\<close> as victims.\<close>

definition tokens_of :: "'s radix_scheme \<Rightarrow> nat list \<Rightarrow> nat" where
  "tokens_of s D = (\<Sum>x\<leftarrow>D. length (vals s x))"

definition evicted :: "radix_config \<Rightarrow> nat set \<Rightarrow> 's radix_scheme \<Rightarrow> nat \<Rightarrow> nat \<Rightarrow> nat list \<Rightarrow> 's radix_scheme \<Rightarrow> bool" where
  "evicted cf N s n k D s' \<longleftrightarrow> distinct D \<and> set D \<subseteq> N - {rx_root s} \<and> (\<forall>x\<in>set D. n_lock_ref (nd s x) = 0) \<and>
     tree_ok cf (N - set D) s' \<and> locks_ok (N - set D) s' \<and> trimmed (N - set D) s s' \<and>
     token_owned (rx_kv s') = token_owned (rx_kv s) + (\<Sum>x\<leftarrow>D. mset (vals s x)) \<and>
     rx_evictable_size s' = rx_evictable_size s - int (tokens_of s D) \<and>
     (n \<le> k + tokens_of s D \<or> rx_leaves s' = {}) \<and> (D \<noteq> [] \<longrightarrow> k + tokens_of s (butlast D) < n)"

lemma evicted_nil:
  assumes "tree_ok cf N s" "locks_ok N s" "n \<le> k \<or> rx_leaves s = {}"
  shows "evicted cf N s n k [] s"
proof -
  have "kids s i \<subseteq> N" if "i \<in> N" for i
    using childD(1) [OF assms(1) that] by blast
  then have "trimmed N s s"
    by (auto simp: trimmed_def)
  then show ?thesis
    using assms by (simp add: evicted_def tokens_of_def)
qed

lemma evicted_cons:
  assumes ev: "evicted cf (N - {x}) s1 n (k + length (vals s x)) D s'" and tr: "trimmed (N - {x}) s s1"
    and x: "x \<in> N" "x \<noteq> rx_root s" "n_lock_ref (nd s x) = 0" "k < n"
    and kv: "token_owned (rx_kv s1) = token_owned (rx_kv s) + mset (vals s x)"
    and size: "rx_evictable_size s1 = rx_evictable_size s - int (length (vals s x))"
  shows "evicted cf N s n k (x # D) s'"
proof -
  have same: "rx_root s1 = rx_root s" "\<And>i. vals s1 i = vals s i" "\<And>i. n_lock_ref (nd s1 i) = n_lock_ref (nd s i)"
    using tr by (simp_all add: trimmed_def)
  have set: "N - {x} - set D = N - set (x # D)"
    by auto
  have "trimmed (N - set (x # D)) s s'"
    using ev trimmed_trans [OF tr] unfolding evicted_def set by auto
  then show ?thesis
    using ev x kv size unfolding evicted_def set same tokens_of_def
    by (cases "D = []") (auto simp: union_ac)
qed

lemma radix_evict_loop_spec:
  assumes "tree_ok cf N s" "locks_ok N s" "heap_ok h s" "card N \<le> fuel" "token_invar (rx_kv s)"
  shows "\<exists>D s'. radix_evict_loop cf fuel n k h s = (Inr (k + tokens_of s D), s') \<and> evicted cf N s n k D s'"
  using assms
proof (induction fuel arbitrary: N s h k)
  case 0
  then show ?case
    using tree_okD(3,4) [OF "0.prems"(1)] by auto
next
  case (Suc fuel)
  show ?case
  proof (cases "h = [] \<or> \<not> k < n")
    case True
    then have "radix_evict_loop cf (Suc fuel) n k h s = (Inr (k + tokens_of s []), s)" "n \<le> k \<or> rx_leaves s = {}"
      using Suc.prems(3) by (auto simp: tokens_of_def heap_ok_def split: list.split)
    then show ?thesis
      using evicted_nil [OF Suc.prems(1,2)] by blast
  next
    case False
    then obtain e es where h: "h = e # es" and k: "k < n"
      by (cases h) auto
    define x where "x = snd (snd (min_entry e es))"
    obtain s1 h1 where r: "radix_evict_loop cf (Suc fuel) n k h s = radix_evict_loop cf fuel n (k + length (vals s x)) h1 s1"
      "x \<in> N" "n_lock_ref (nd s x) = 0" "x \<noteq> rx_root s" "tree_ok cf (N - {x}) s1" "locks_ok (N - {x}) s1"
      "heap_ok h1 s1" "trimmed (N - {x}) s s1" "rx_kv s1 = token_free (vals s x) (rx_kv s)"
      "rx_evictable_size s1 = rx_evictable_size s - int (length (vals s x))"
      using evict_round [OF Suc.prems(1,2) Suc.prems(3) [unfolded h] k, of fuel, folded x_def h] by blast
    have kv: "token_owned (rx_kv s1) = token_owned (rx_kv s) + mset (vals s x)" "token_invar (rx_kv s1)"
      using token_free_owned [OF Suc.prems(5)] by (simp_all add: r(9))
    have "card (N - {x}) \<le> fuel"
      using Suc.prems(4) r(2) tree_okD(4) [OF Suc.prems(1)] by simp
    from Suc.IH [OF r(5-7) this kv(2), of "k + length (vals s x)"] obtain D s' where
      D: "radix_evict_loop cf fuel n (k + length (vals s x)) h1 s1 = (Inr (k + length (vals s x) + tokens_of s1 D), s')"
      "evicted cf (N - {x}) s1 n (k + length (vals s x)) D s'"
      by blast
    have "tokens_of s (x # D) = length (vals s x) + tokens_of s1 D"
      using r(8) by (simp add: tokens_of_def trimmed_def)
    then show ?thesis
      using evicted_cons [OF D(2) r(8,2,4,3) k kv(1) r(10)] D(1) r(1) by (metis add.assoc)
  qed
qed

text \<open>C39. Eviction from the radix tree is exact: it returns, and the count it returns is the number of tokens of the nodes it removed;
  these were unlocked, their slots went back to the allocator and no other did, and the evictable size shrank by the same count. It stops
  as soon as enough tokens are freed and stops short only when no unlocked leaf is left. What remains is a well-formed tree
  that knows nothing new and in which everything that led to a kept node, in particular to any locked one, is still found.\<close>

theorem radix_evict_exact:
  assumes ok: "tree_ok cf N s" "locks_ok N s" "\<not> rc_disable cf" "token_invar (rx_kv s)"
    and order: "distinct (rc_order cf (rx_leaves s))" "set (rc_order cf (rx_leaves s)) = rx_leaves s"
  shows "\<exists>D s'. radix_evict cf n s = (Inr (tokens_of s D), s') \<and> distinct D \<and> set D \<subseteq> N - {rx_root s} \<and>
    (\<forall>x\<in>set D. n_lock_ref (nd s x) = 0) \<and> tree_ok cf (N - set D) s' \<and> locks_ok (N - set D) s' \<and>
    token_owned (rx_kv s') = token_owned (rx_kv s) + (\<Sum>x\<leftarrow>D. mset (n_value (nd s x))) \<and>
    rx_evictable_size s' = rx_evictable_size s - int (tokens_of s D) \<and>
    (n \<le> tokens_of s D \<or> rx_leaves s' = {}) \<and> (D \<noteq> [] \<longrightarrow> tokens_of s (butlast D) < n) \<and>
    (\<forall>e ws vs. contents cf s' e ws = Some vs \<longrightarrow> contents cf s e ws = Some vs) \<and>
    (\<forall>i\<in>N - set D. \<forall>e ws vs. down s e (rx_root s) i ws vs \<longrightarrow> contents cf s' e ws = Some vs)"
proof -
  let ?h = "map (heap_entry_of cf s) (rc_order cf (rx_leaves s))"
  have "map (snd \<circ> snd) ?h = rc_order cf (rx_leaves s)"
    by (simp add: comp_def heap_entry_of_def)
  then have "heap_ok ?h s"
    using order by (simp only: heap_ok_def)
  moreover have "card N \<le> rx_next s + 1"
    using card_mono [OF _ tree_okD(2) [OF ok(1)]] by simp
  ultimately obtain D s' where D: "radix_evict_loop cf (rx_next s + 1) n 0 ?h s = (Inr (0 + tokens_of s D), s')" "evicted cf N s n 0 D s'"
    using radix_evict_loop_spec [OF ok(1,2) _ _ ok(4)] by blast
  have run: "radix_evict cf n s = (Inr (tokens_of s D), s')"
    using D(1) ok(3) by (simp add: radix_evict_def bindM_app del: radix_evict_loop.simps)
  have ok': "tree_ok cf (N - set D) s'" "trimmed (N - set D) s s'" "rx_root s' = rx_root s"
    using D(2) by (simp_all add: evicted_def trimmed_def)
  have less: "contents cf s e ws = Some vs" if "contents cf s' e ws = Some vs" for e ws vs
    using that trimmed_desc [OF _ tree_okD(3) [OF ok'(1)] ok'(1,2)] unfolding contents_iff [OF ok'(1)] contents_iff [OF ok(1)] ok'(3) by blast
  have keep: "contents cf s' e ws = Some vs" if "i \<in> N - set D" "down s e (rx_root s) i ws vs" for i e ws vs
    using trimmed_down [OF that(2) tree_okD(3) [OF ok(1)] that(1) ok(1) ok'(1,2)] down_desc [OF _ desc_nil, of s' e "rx_root s" i ws vs cf]
    unfolding contents_iff [OF ok'(1)] ok'(3) by simp
  show ?thesis
    using D(2) less keep unfolding evicted_def
    by (intro exI [of _ D] exI [of _ s'] conjI run allI impI ballI) (simp_all add: less keep)
qed

lemma ex_evict: "fst (radix_evict ex_radix_cf 2 ex_tree) = Inr 3"
  by code_simp

theorem radix_evict_exact_witness:
  "\<exists>s'. radix_evict ex_radix_cf 2 ex_tree = (Inr 3, s') \<and> rx_evictable_size s' = 0 \<and> tree_ok ex_radix_cf {0} s' \<and>
     token_owned (rx_kv s') = token_owned (rx_kv ex_tree) + {#10, 11, 12#}"
proof -
  have "locks_ok {0, 1} ex_tree" "token_invar (rx_kv ex_tree)" "distinct (rc_order ex_radix_cf (rx_leaves ex_tree))"
    "set (rc_order ex_radix_cf (rx_leaves ex_tree)) = rx_leaves ex_tree"
    by (auto simp: locks_ok_def unlocked_leaf_def ex_tree_def ex_radix_cf_def token_invar_def token_init_def token_clear_def)
  then obtain D s' where D: "radix_evict ex_radix_cf 2 ex_tree = (Inr (tokens_of ex_tree D), s')" "distinct D"
      "set D \<subseteq> {0, 1} - {rx_root ex_tree}" "tree_ok ex_radix_cf ({0, 1} - set D) s'"
      "token_owned (rx_kv s') = token_owned (rx_kv ex_tree) + (\<Sum>x\<leftarrow>D. mset (n_value (nd ex_tree x)))"
      "rx_evictable_size s' = rx_evictable_size ex_tree - int (tokens_of ex_tree D)"
    using radix_evict_exact [OF ex_tree_ok(1), of 2] ex_config(1) by auto
  have three: "tokens_of ex_tree D = 3"
    using ex_evict D(1) by simp
  then have "D \<noteq> []"
    by (auto simp: tokens_of_def)
  moreover have sub: "set D \<subseteq> {1}"
    using D(3) by (auto simp: ex_nodes)
  ultimately have "set D = {1}"
    by (cases D) auto
  then have d: "D = [1]"
    using D(2) distinct_card [OF D(2)] by (cases D; cases "tl D") auto
  have "{0, 1} - {1} = {0 :: nat}"
    by auto
  then show ?thesis
    using D(1,4-6) three by (simp add: d ex_nodes) (simp add: ex_tree_def)
qed

end
