(* ===== verification/Conv_Tails.thy ===== *)
theory Conv_Tails
  imports Prelude Pic_Policy
begin

text \<open>
  \<open>pic/conv_tails.py\<close>: the convolution history that a missed segment inherits from the segment before it. A segment that will be
  cached leaves its last \<open>K - 1\<close> input rows in the tail buffer under its mamba slot; before the convolution runs, the tail of the
  preceding segment is copied into the convolution state of the missed segment. Entries of the tensors are of an arbitrary type with a
  zero. A batch tensor is a list of matrices with its two inner dimensions.
\<close>

section \<open>Tensors\<close>

record 'a tensor3 =
  t_dim :: nat
  t_width :: nat
  t_data :: "'a list list list"

datatype conv_layout = GDN | KDA

text \<open>\<open>select_rows\<close> is \<open>index_select\<close> and \<open>put_rows\<close> the assignment through an index tensor, where negative indices count from the end
  and a later row overwrites an earlier one; an index out of range raises, and so do index and value tensors of different lengths (the
  broadcast of a single row is not used by the code).\<close>

fun map_result :: "('a \<Rightarrow> 'b result) \<Rightarrow> 'a list \<Rightarrow> 'b list result" where
  "map_result f [] = Inr []"
| "map_result f (x # xs) = (case f x of Inl e \<Rightarrow> Inl e | Inr y \<Rightarrow> (case map_result f xs of Inl e \<Rightarrow> Inl e | Inr ys \<Rightarrow> Inr (y # ys)))"

definition select_row :: "'a list \<Rightarrow> int \<Rightarrow> 'a result" where
  "select_row xs i = (if 0 \<le> i \<and> i < int (length xs) then Inr (xs ! nat i) else Inl IndexError)"

abbreviation select_rows :: "'a list \<Rightarrow> int list \<Rightarrow> 'a list result" where
  "select_rows xs \<equiv> map_result (select_row xs)"

definition norm_index :: "nat \<Rightarrow> int \<Rightarrow> nat result" where
  "norm_index n i = (if 0 \<le> i \<and> i < int n then Inr (nat i) else if i < 0 \<and> - int n \<le> i then Inr (nat (i + int n)) else Inl IndexError)"

definition write_rows :: "(nat \<times> 'a) list \<Rightarrow> 'a list \<Rightarrow> 'a list" where
  "write_rows ws xs = fold (\<lambda>(i, v) xs. xs[i := v]) ws xs"

definition put_rows :: "int list \<Rightarrow> 'a list \<Rightarrow> 'a list \<Rightarrow> 'a list result" where
  "put_rows is vs xs =
     (if length is \<noteq> length vs then Inl RuntimeError
      else case map_result (norm_index (length xs)) is of Inl e \<Rightarrow> Inl e | Inr js \<Rightarrow> Inr (write_rows (zip js vs) xs))"

definition transpose_rows :: "nat \<Rightarrow> 'a list list \<Rightarrow> 'a list list" where
  "transpose_rows d m = map (\<lambda>c. map (\<lambda>r. r ! c) m) [0..<d]"

section \<open>The preceding segment\<close>

fun prev_of :: "nat \<Rightarrow> int \<Rightarrow> (nat \<times> int) list \<Rightarrow> int" where
  "prev_of s prev [] = -1"
| "prev_of s prev ((ps, pslot) # rest) = (if ps = s then prev else prev_of s pslot rest)"

text \<open>An absent per-request list and an empty one both stand for no entry.\<close>

definition per_req :: "'a \<Rightarrow> 'a list \<Rightarrow> nat \<Rightarrow> 'a result" where
  "per_req d xs i = (if xs = [] then Inr d else if i < length xs then Inr (xs ! i) else Inl IndexError)"

definition prev_tail_positions ::
  "(nat \<times> nat \<times> bytes) list \<Rightarrow> (bytes, int) dict \<Rightarrow> segment list \<Rightarrow> (segment, int) dict \<Rightarrow> (nat \<times> int) list result" where
  "prev_tail_positions hit_segs hit_slots miss_segs miss_slots =
     (case map_result (\<lambda>(s, e, h). case map_of hit_slots h of None \<Rightarrow> Inl KeyError | Some x \<Rightarrow> Inr (s, x)) hit_segs of
        Inl er \<Rightarrow> Inl er
      | Inr hits \<Rightarrow> Inr (hits @ map (\<lambda>(s, e). (s, case map_of miss_slots (s, e) of None \<Rightarrow> -1 | Some x \<Rightarrow> x)) miss_segs))"

definition prev_tails_of_req ::
  "(nat \<times> nat \<times> bytes) list \<Rightarrow> (bytes, int) dict \<Rightarrow> segment list \<Rightarrow> (segment, int) dict \<Rightarrow> int list result" where
  "prev_tails_of_req hit_segs hit_slots miss_segs miss_slots =
     (case prev_tail_positions hit_segs hit_slots miss_segs miss_slots of
        Inl er \<Rightarrow> Inl er
      | Inr position \<Rightarrow> Inr (map (\<lambda>(s, e). prev_of s (-1) (sort_key fst position)) miss_segs))"

definition build_prev_tail_slots ::
  "nat \<Rightarrow> (nat \<times> nat \<times> bytes) list list \<Rightarrow> (bytes, int) dict list \<Rightarrow> segment list list \<Rightarrow> (segment, int) dict list \<Rightarrow> int list result" where
  "build_prev_tail_slots batch_size hit_segments hit_mamba_slots miss_segments miss_mamba_slots =
     (case map_result (\<lambda>i.
        case per_req [] hit_segments i of Inl e \<Rightarrow> Inl e | Inr hs \<Rightarrow>
        (case per_req [] hit_mamba_slots i of Inl e \<Rightarrow> Inl e | Inr hslots \<Rightarrow>
        (case (if i < length miss_segments then Inr (miss_segments ! i) else Inl IndexError) of Inl e \<Rightarrow> Inl e | Inr ms \<Rightarrow>
        (case per_req [] miss_mamba_slots i of Inl e \<Rightarrow> Inl e | Inr mslots \<Rightarrow> prev_tails_of_req hs hslots ms mslots)))) [0..<batch_size] of
        Inl e \<Rightarrow> Inl e
      | Inr ls \<Rightarrow> Inr (concat ls))"

section \<open>Capturing and loading\<close>

record 'a conv_bufs =
  conv_states :: "'a tensor3"
  conv_tails :: "'a tensor3 option"

text \<open>The window of one persisted segment with the given bounds: row \<open>r\<close> is input row \<open>end - (K - 1) + r\<close>, or zero when that lies before
  the segment.\<close>

definition capture_window :: "nat \<Rightarrow> nat \<Rightarrow> 'a::zero list list \<Rightarrow> int \<Rightarrow> int \<Rightarrow> 'a list list result" where
  "capture_window d k1 mixed start stop =
     (let takes = min (stop - start) (int k1) in
      map_result (\<lambda>r. let valid = int k1 - takes \<le> int r; safe = (if valid then stop - int k1 + int r else 0)
                      in case select_row mixed safe of Inl e \<Rightarrow> Inl e | Inr row \<Rightarrow> Inr (if valid then row else replicate d 0)) [0..<k1])"

definition capture_conv_tails ::
  "conv_layout \<Rightarrow> 'a::zero list list \<Rightarrow> int list \<Rightarrow> int list \<Rightarrow> int list \<Rightarrow> int list option \<Rightarrow> ('a conv_bufs, unit) pym" where
  "capture_conv_tails layout mixed cu src dst off =
     bindM (getsM conv_tails) (\<lambda>tails.
     case tails of
       None \<Rightarrow> retM ()
     | Some t \<Rightarrow>
         if src = [] then retM ()
         else bindM (liftM (select_rows cu src)) (\<lambda>starts.
              bindM (liftM (select_rows cu (map (\<lambda>i. i + 1) src))) (\<lambda>ends0.
              bindM (case off of None \<Rightarrow> retM ends0
                     | Some os \<Rightarrow> if length os = length ends0 then retM (map2 (-) ends0 os) else raiseM RuntimeError) (\<lambda>ends.
                 bindM (liftM (map_result (\<lambda>(st, en). capture_window (t_dim t) (t_width t) mixed st en) (zip starts ends))) (\<lambda>gathered.
                 bindM (liftM (put_rows dst (if layout = KDA then gathered else map (transpose_rows (t_dim t)) gathered) (t_data t))) (\<lambda>data.
                 modifyM (\<lambda>b. b\<lparr>conv_tails := Some (t\<lparr>t_data := data\<rparr>)\<rparr>)))))))"

definition load_conv_history ::
  "conv_layout \<Rightarrow> int list \<Rightarrow> int list \<Rightarrow> bool list \<Rightarrow> ('a conv_bufs, unit) pym" where
  "load_conv_history layout seg_conv_indices prev_tail_slots has_initial_state =
     bindM (getsM conv_tails) (\<lambda>tails.
     case tails of
       None \<Rightarrow> retM ()
     | Some t \<Rightarrow>
         if True \<notin> set has_initial_state then retM ()
         else if length seg_conv_indices \<noteq> length has_initial_state \<or> length prev_tail_slots \<noteq> length has_initial_state then raiseM IndexError
         else let pairs = map fst (filter snd (zip (zip seg_conv_indices prev_tail_slots) has_initial_state));
                  kept = filter (\<lambda>(d, s). s \<ge> 0) pairs
              in if kept = [] then retM ()
                 else bindM (liftM (select_rows (t_data t) (map snd kept))) (\<lambda>rows.
                      bindM (getsM conv_states) (\<lambda>cs.
                      bindM (liftM (put_rows (map fst kept) (if layout = KDA then map (transpose_rows (t_dim t)) rows else rows) (t_data cs))) (\<lambda>data.
                      modifyM (\<lambda>b. b\<lparr>conv_states := cs\<lparr>t_data := data\<rparr>\<rparr>)))))"

section \<open>Indexing\<close>

lemma map_result_Inr:
  assumes "\<And>x. x \<in> set xs \<Longrightarrow> f x = Inr (g x)"
  shows "map_result f xs = Inr (map g xs)"
  using assms by (induction xs) simp_all

lemma select_rows_ok:
  assumes "\<And>i. i \<in> set is \<Longrightarrow> 0 \<le> i \<and> i < int (length xs)"
  shows "select_rows xs is = Inr (map (\<lambda>i. xs ! nat i) is)"
  by (rule map_result_Inr) (simp add: select_row_def assms)

lemma length_write_rows [simp]: "length (write_rows ws xs) = length xs"
  by (induction ws arbitrary: xs) (auto simp: write_rows_def)

lemma write_rows_simps [simp]: "write_rows [] xs = xs" "write_rows ((i, v) # ws) xs = write_rows ws (xs[i := v])"
  by (simp_all add: write_rows_def)

lemma write_rows_other: "i \<notin> fst ` set ws \<Longrightarrow> write_rows ws xs ! i = xs ! i"
  by (induction ws arbitrary: xs) auto

lemma write_rows_nth:
  assumes "distinct js" "length js = length vs" "k < length js" "js ! k < length xs"
  shows "write_rows (zip js vs) xs ! (js ! k) = vs ! k"
  using assms
proof (induction js vs arbitrary: k xs rule: list_induct2')
  case (4 j js v vs)
  show ?case
  proof (cases k)
    case 0
    have "j \<notin> fst ` set (zip js vs)"
      using 4(2) by (auto dest: set_zip_leftD)
    then show ?thesis
      using 0 4 write_rows_other [of j "zip js vs" "xs[j := v]"] by simp
  next
    case (Suc m)
    then show ?thesis
      using 4 by simp
  qed
qed simp_all

lemma put_rows_ok:
  assumes "length is = length vs" "\<And>i. i \<in> set is \<Longrightarrow> 0 \<le> i \<and> i < int (length xs)"
  shows "put_rows is vs xs = Inr (write_rows (zip (map nat is) vs) xs)"
proof -
  have "map_result (norm_index (length xs)) is = Inr (map nat is)"
    by (rule map_result_Inr) (simp add: norm_index_def assms(2))
  then show ?thesis
    by (simp add: put_rows_def assms(1))
qed

section \<open>The tail of a segment\<close>

text \<open>The last \<open>k\<close> rows of a segment, with rows of zeros in front of a shorter one.\<close>

definition last_rows :: "nat \<Rightarrow> nat \<Rightarrow> 'a::zero list list \<Rightarrow> 'a list list" where
  "last_rows d k xs = drop (length xs) (replicate k (replicate d 0) @ xs)"

definition slice_rows :: "int \<Rightarrow> int \<Rightarrow> 'a list \<Rightarrow> 'a list" where
  "slice_rows start stop xs = take (nat (stop - start)) (drop (nat start) xs)"

lemma length_last_rows [simp]: "length (last_rows d k xs) = k"
  by (simp add: last_rows_def)

lemma last_rows_nth: "r < k \<Longrightarrow> last_rows d k xs ! r = (if r + length xs < k then replicate d 0 else xs ! (r + length xs - k))"
  unfolding last_rows_def by (subst nth_drop) (auto simp: nth_append add.commute)

lemma capture_window_exact:
  assumes "0 \<le> st" "st \<le> en" "en \<le> int (length mixed)" "mixed \<noteq> []"
  shows "capture_window d k1 mixed st en = Inr (last_rows d k1 (slice_rows st en mixed))"
proof -
  let ?n = "nat (en - st)" and ?g = "\<lambda>r. if int k1 - min (en - st) (int k1) \<le> int r then mixed ! nat (en - int k1 + int r) else replicate d 0"
  have len: "length (slice_rows st en mixed) = ?n"
    using assms by (simp add: slice_rows_def)
  have "capture_window d k1 mixed st en = Inr (map ?g [0..<k1])"
    unfolding capture_window_def Let_def using assms by (intro map_result_Inr) (auto simp: select_row_def min_def)
  also have "map ?g [0..<k1] = last_rows d k1 (slice_rows st en mixed)"
  proof (rule nth_equalityI)
    fix r
    assume "r < length (map ?g [0..<k1])"
    then have r: "r < k1"
      by simp
    show "map ?g [0..<k1] ! r = last_rows d k1 (slice_rows st en mixed) ! r"
    proof (cases "r + ?n < k1")
      case True
      then have "\<not> int k1 - min (en - st) (int k1) \<le> int r"
        using assms by linarith
      then show ?thesis
        using True r len by (simp add: last_rows_nth)
    next
      case False
      then have *: "int k1 - min (en - st) (int k1) \<le> int r"
        using assms r by linarith
      have "nat (en - int k1 + int r) = nat st + (r + ?n - k1)" "r + ?n - k1 < ?n"
        using False r assms by linarith+
      moreover have "drop (nat st) mixed ! (r + ?n - k1) = mixed ! (nat st + (r + ?n - k1))"
        using assms by (intro nth_drop) simp
      ultimately have "slice_rows st en mixed ! (r + ?n - k1) = mixed ! nat (en - int k1 + int r)"
        by (simp add: slice_rows_def)
      then show ?thesis
        using * False r len by (simp add: last_rows_nth)
    qed
  qed simp
  finally show ?thesis .
qed

lemma transpose_transpose:
  assumes "\<And>r. r \<in> set m \<Longrightarrow> length r = d"
  shows "map (\<lambda>j. map (\<lambda>r. r ! j) (transpose_rows d m)) [0..<length m] = m"
  using assms by (intro nth_equalityI) (auto simp: transpose_rows_def intro!: nth_equalityI)

section \<open>What the two operations do\<close>

abbreviation seg_stop :: "int list \<Rightarrow> int list option \<Rightarrow> int list \<Rightarrow> nat \<Rightarrow> int" where
  "seg_stop cu off src k \<equiv> cu ! nat (src ! k + 1) - (case off of None \<Rightarrow> 0 | Some os \<Rightarrow> os ! k)"

abbreviation seg_rows :: "'a list \<Rightarrow> int list \<Rightarrow> int list option \<Rightarrow> int list \<Rightarrow> nat \<Rightarrow> 'a list" where
  "seg_rows mixed cu off src k \<equiv> slice_rows (cu ! nat (src ! k)) (seg_stop cu off src k) mixed"

text \<open>Well-formed arguments of a capture: every persisted index names a segment, its (shortened) range lies in the batch, and every target
  is a slot.\<close>

definition capture_ok :: "'a list list \<Rightarrow> int list \<Rightarrow> int list \<Rightarrow> int list \<Rightarrow> int list option \<Rightarrow> nat \<Rightarrow> bool" where
  "capture_ok mixed cu src dst off n \<longleftrightarrow> mixed \<noteq> [] \<and> length dst = length src \<and> (\<forall>i\<in>set dst. 0 \<le> i \<and> i < int n) \<and>
     (case off of None \<Rightarrow> True | Some os \<Rightarrow> length os = length src) \<and>
     (\<forall>k<length src. 0 \<le> src ! k \<and> src ! k + 1 < int (length cu) \<and> 0 \<le> cu ! nat (src ! k) \<and>
        cu ! nat (src ! k) \<le> seg_stop cu off src k \<and> seg_stop cu off src k \<le> int (length mixed))"

definition load_ok :: "int list \<Rightarrow> int list \<Rightarrow> bool list \<Rightarrow> nat \<Rightarrow> nat \<Rightarrow> bool" where
  "load_ok idx prev has n m \<longleftrightarrow> length idx = length has \<and> length prev = length has \<and> distinct idx \<and> (\<forall>i\<in>set idx. 0 \<le> i \<and> i < int n) \<and>
     (\<forall>i\<in>set prev. i < int m)"

lemma capture_run:
  assumes "conv_tails b = Some t" "capture_ok mixed cu src dst off (length (t_data t))"
  shows "capture_conv_tails layout mixed cu src dst off b = (Inr (), b\<lparr>conv_tails := Some (t\<lparr>t_data := write_rows (zip (map nat dst)
     (map (\<lambda>k. (if layout = KDA then id else transpose_rows (t_dim t)) (last_rows (t_dim t) (t_width t) (seg_rows mixed cu off src k)))
        [0..<length src])) (t_data t)\<rparr>)\<rparr>)"
proof (cases "src = []")
  case True
  then show ?thesis
    using assms by (simp add: capture_conv_tails_def capture_ok_def)
next
  case False
  let ?n = "length src" and ?d = "t_dim t"
  have k: "0 \<le> src ! k" "src ! k + 1 < int (length cu)" "0 \<le> cu ! nat (src ! k)" "cu ! nat (src ! k) \<le> seg_stop cu off src k"
      "seg_stop cu off src k \<le> int (length mixed)" if "k < ?n" for k
    using assms(2) that by (auto simp: capture_ok_def)
  have starts: "select_rows cu src = Inr (map (\<lambda>k. cu ! nat (src ! k)) [0..<?n])"
    using k(1,2) by (subst select_rows_ok) (force simp: in_set_conv_nth, auto intro: nth_equalityI)
  have ends: "select_rows cu (map (\<lambda>i. i + 1) src) = Inr (map (\<lambda>k. cu ! nat (src ! k + 1)) [0..<?n])"
    using k(1,2) by (subst select_rows_ok) (force simp: in_set_conv_nth, auto intro: nth_equalityI)
  have stops: "(case off of None \<Rightarrow> retM (map (\<lambda>k. cu ! nat (src ! k + 1)) [0..<?n])
       | Some os \<Rightarrow> if length os = length (map (\<lambda>k. cu ! nat (src ! k + 1)) [0..<?n])
           then retM (map2 (-) (map (\<lambda>k. cu ! nat (src ! k + 1)) [0..<?n]) os) else raiseM RuntimeError) =
      retM (map (seg_stop cu off src) [0..<?n])"
    using assms(2) by (auto simp: capture_ok_def split: option.split intro!: nth_equalityI arg_cong [of _ _ retM])
  have win: "map_result (\<lambda>(st, en). capture_window ?d (t_width t) mixed st en) (zip (map (\<lambda>k. cu ! nat (src ! k)) [0..<?n]) (map (seg_stop cu off src) [0..<?n]))
      = Inr (map (\<lambda>k. last_rows ?d (t_width t) (seg_rows mixed cu off src k)) [0..<?n])"
    using assms(2) k by (subst map_result_Inr [where g = "\<lambda>(st, en). last_rows ?d (t_width t) (slice_rows st en mixed)"])
      (auto simp: zip_map_map zip_same_conv_map capture_window_exact capture_ok_def)
  show ?thesis
    using assms False by (simp add: capture_conv_tails_def starts ends stops win put_rows_ok capture_ok_def comp_def id_def)
qed

lemma write_rows_mem:
  assumes "distinct (map fst ws)" "(i, v) \<in> set ws" "i < length xs"
  shows "write_rows ws xs ! i = v"
proof -
  obtain k where k: "k < length ws" "ws ! k = (i, v)"
    using assms(2) by (auto simp: in_set_conv_nth)
  then show ?thesis
    using write_rows_nth [of "map fst ws" "map snd ws" k xs] assms(1,3) by (simp add: zip_map_fst_snd)
qed

lemma load_run:
  assumes "conv_tails b = Some t" "load_ok idx prev has (length (t_data (conv_states b))) (length (t_data t))"
  shows "\<exists>b'. load_conv_history layout idx prev has b = (Inr (), b') \<and> conv_tails b' = conv_tails b \<and>
    (\<forall>j<length has. t_data (conv_states b') ! nat (idx ! j) =
       (if has ! j \<and> 0 \<le> prev ! j then (if layout = KDA then transpose_rows (t_dim t) else id) (t_data t ! nat (prev ! j))
        else t_data (conv_states b) ! nat (idx ! j))) \<and>
    (\<forall>i. int i \<notin> set idx \<longrightarrow> t_data (conv_states b') ! i = t_data (conv_states b) ! i)"
proof -
  let ?f = "if layout = KDA then transpose_rows (t_dim t) else id" and ?xs = "t_data (conv_states b)"
  define kept where "kept = filter (\<lambda>(d, s). s \<ge> 0) (map fst (filter snd (zip (zip idx prev) has)))"
  define ws where "ws = map (\<lambda>(d, s). (nat d, ?f (t_data t ! nat s))) kept"
  have len: "length idx = length has" "length prev = length has"
    using assms(2) by (auto simp: load_ok_def)
  have kept: "(d, s) \<in> set kept \<longleftrightarrow> (\<exists>j<length has. has ! j \<and> 0 \<le> prev ! j \<and> d = idx ! j \<and> s = prev ! j)" for d s
    using len by (force simp: kept_def set_zip)
  have fst_kept: "distinct (map fst kept)"
  proof -
    have "distinct (map (fst \<circ> fst) (zip (zip idx prev) has))"
      using assms(2) len by (simp add: load_ok_def flip: map_map)
    then have "distinct (map fst (map fst (filter snd (zip (zip idx prev) has))))"
      using distinct_map_filter by force
    then show ?thesis
      unfolding kept_def by (rule distinct_map_filter)
  qed
  have rng: "0 \<le> d" "d < int (length ?xs)" "0 \<le> s" "s < int (length (t_data t))" if "(d, s) \<in> set kept" for d s
    using that assms(2) len unfolding kept by (auto simp: load_ok_def)
  have dist: "distinct (map fst ws)"
  proof -
    have "inj_on nat (set (map fst kept))"
      using rng(1) by (intro inj_on_inverseI [of _ int]) auto
    then have "distinct (map nat (map fst kept))"
      using fst_kept by (simp add: distinct_map comp_inj_on)
    then show ?thesis
      by (simp add: ws_def case_prod_beta' comp_def)
  qed
  have run: "load_conv_history layout idx prev has b =
      (Inr (), if kept = [] then b else b\<lparr>conv_states := (conv_states b)\<lparr>t_data := write_rows ws ?xs\<rparr>\<rparr>)"
  proof (cases "kept = []")
    case True
    then show ?thesis
      using assms(1) len by (auto simp: load_conv_history_def kept_def Let_def)
  next
    case False
    then obtain d s where "(d, s) \<in> set kept"
      by (cases kept) auto
    then obtain j where "j < length has" "has ! j"
      using kept by blast
    then have h: "True \<in> set has"
      by (metis (full_types) nth_mem)
    have sel: "select_rows (t_data t) (map snd kept) = Inr (map (\<lambda>i. t_data t ! nat i) (map snd kept))"
      using rng(3,4) by (intro select_rows_ok) auto
    have put: "put_rows (map fst kept) (map ?f (map (\<lambda>i. t_data t ! nat i) (map snd kept))) ?xs = Inr (write_rows ws ?xs)"
      using rng(1,2) by (subst put_rows_ok) (auto simp: ws_def zip_map_map zip_same_conv_map case_prod_beta' comp_def zip_map_fst_snd intro!: arg_cong2 [of _ _ _ _ write_rows])
    show ?thesis
      using assms(1) len h False sel put
      by (cases "layout = KDA") (simp_all add: load_conv_history_def kept_def [symmetric] Let_def del: map_map)
  qed
  define b' where "b' = (if kept = [] then b else b\<lparr>conv_states := (conv_states b)\<lparr>t_data := write_rows ws ?xs\<rparr>\<rparr>)"
  have data: "t_data (conv_states b') = write_rows ws ?xs" "conv_tails b' = conv_tails b"
    by (simp_all add: b'_def ws_def)
  have hit: "write_rows ws ?xs ! nat (idx ! j) = ?f (t_data t ! nat (prev ! j))" if "j < length has" "has ! j" "0 \<le> prev ! j" for j
  proof -
    have "(idx ! j, prev ! j) \<in> set kept"
      using that kept by blast
    then have "(nat (idx ! j), ?f (t_data t ! nat (prev ! j))) \<in> set ws" "nat (idx ! j) < length ?xs"
      using rng(1,2) [of "idx ! j" "prev ! j"] by (force simp: ws_def)+
    then show ?thesis
      using write_rows_mem [OF dist] by blast
  qed
  have miss: "write_rows ws ?xs ! i = ?xs ! i" if h: "\<And>j. j < length has \<Longrightarrow> has ! j \<Longrightarrow> 0 \<le> prev ! j \<Longrightarrow> idx ! j \<noteq> int i" for i
  proof (rule write_rows_other)
    have "nat d \<noteq> i" if m: "(d, s) \<in> set kept" for d s
    proof -
      obtain j where j: "j < length has" "has ! j" "0 \<le> prev ! j" "d = idx ! j"
        using kept [THEN iffD1, OF m] by auto
      then show ?thesis
        using h [OF j(1-3)] rng(1) [OF m] by auto
    qed
    then show "i \<notin> fst ` set ws"
      unfolding ws_def by (simp only: set_map image_image) fastforce
  qed
  have other: "write_rows ws ?xs ! nat (idx ! j) = ?xs ! nat (idx ! j)" if "j < length has" "\<not> (has ! j \<and> 0 \<le> prev ! j)" for j
  proof (rule miss)
    fix j'
    assume "j' < length has" "has ! j'" "0 \<le> prev ! j'"
    moreover have "0 \<le> idx ! j" "distinct idx"
      using assms(2) that len by (auto simp: load_ok_def)
    ultimately show "idx ! j' \<noteq> int (nat (idx ! j))"
      using that len by (auto simp: nth_eq_iff_index_eq)
  qed
  have "write_rows ws ?xs ! i = ?xs ! i" if "int i \<notin> set idx" for i
    using that len by (intro miss) (metis nth_mem)
  then show ?thesis
    using run [folded b'_def] data hit other by (intro exI [of _ b']) auto
qed

lemma conv_window:
  assumes "k \<le> length A" "i \<le> length B"
  shows "take (k + 1) (drop i (last_rows d k A @ B)) = take (k + 1) (drop (length A - k + i) (A @ B))"
proof -
  have "last_rows d k A = drop (length A - k) A"
    using assms(1) by (simp add: last_rows_def)
  then show ?thesis
    using assms by (simp add: add.commute)
qed

text \<open>The history a convolution state holds: its columns, oldest input first.\<close>

definition conv_history :: "nat \<Rightarrow> 'a list list \<Rightarrow> 'a list list" where
  "conv_history k m = map (\<lambda>j. map (\<lambda>r. r ! j) m) [0..<k]"

text \<open>A segment's tail survives the way through the buffers, in both layouts: once the tails of the persisted segments are captured
  and the histories loaded, the convolution state of every segment whose predecessor is the persisted segment \<open>k\<close> holds exactly the last
  \<open>K - 1\<close> input rows of that segment (zeros in front of a shorter one), and when the predecessor has \<open>K - 1\<close> rows every window
  of \<open>K\<close> inputs the convolution reads is the window of the unsplit sequence.\<close>

lemma conv_history_roundtrip:
  assumes "conv_tails b = Some t" "capture_ok mixed cu src dst off (length (t_data t))" "distinct dst"
    "load_ok idx prev has (length (t_data (conv_states b))) (length (t_data t))"
    "\<forall>r\<in>set mixed. length r = t_dim t"
    "k < length src" "j < length has" "has ! j" "prev ! j = dst ! k"
  defines "A \<equiv> seg_rows mixed cu off src k"
  shows "\<exists>b1 b2. capture_conv_tails layout mixed cu src dst off b = (Inr (), b1) \<and> load_conv_history layout idx prev has b1 = (Inr (), b2) \<and>
    conv_history (t_width t) (t_data (conv_states b2) ! nat (idx ! j)) = last_rows (t_dim t) (t_width t) A \<and>
    (t_width t \<le> length A \<longrightarrow> (\<forall>B i. i \<le> length B \<longrightarrow>
       take (t_width t + 1) (drop i (conv_history (t_width t) (t_data (conv_states b2) ! nat (idx ! j)) @ B)) =
       take (t_width t + 1) (drop (length A - t_width t + i) (A @ B))))"
proof -
  let ?d = "t_dim t" and ?k = "t_width t"
  let ?tails = "map (\<lambda>k. (if layout = KDA then id else transpose_rows ?d) (last_rows ?d ?k (seg_rows mixed cu off src k))) [0..<length src]"
  define t' where "t' = t\<lparr>t_data := write_rows (zip (map nat dst) ?tails) (t_data t)\<rparr>"
  define b1 where "b1 = b\<lparr>conv_tails := Some t'\<rparr>"
  have c: "capture_conv_tails layout mixed cu src dst off b = (Inr (), b1)"
    using capture_run [OF assms(1,2)] by (simp add: b1_def t'_def)
  have dst: "length dst = length src" "0 \<le> dst ! k" "dst ! k < int (length (t_data t))" "distinct (map nat dst)"
    using assms(2,3,6) by (auto simp: capture_ok_def distinct_map intro!: inj_on_inverseI [of _ int])
  have tail: "t_data t' ! nat (dst ! k) = (if layout = KDA then id else transpose_rows ?d) (last_rows ?d ?k A)"
    using write_rows_nth [OF dst(4), of ?tails k "t_data t"] dst(1-3) assms(6) by (simp add: t'_def A_def cong: option.case_cong)
  obtain b2 where l: "load_conv_history layout idx prev has b1 = (Inr (), b2)"
      "t_data (conv_states b2) ! nat (idx ! j) = (if layout = KDA then transpose_rows ?d else id) (t_data t' ! nat (dst ! k))"
    using load_run [of b1 t' idx prev has layout] assms(4,7-9) dst(2) by (auto simp: b1_def t'_def)
  have rows: "\<forall>r\<in>set (last_rows ?d ?k A). length r = ?d"
    using assms(5) by (auto simp: last_rows_def A_def slice_rows_def dest!: in_set_dropD in_set_takeD)
  have "t_data (conv_states b2) ! nat (idx ! j) = transpose_rows ?d (last_rows ?d ?k A)"
    using l(2) tail by (cases "layout = KDA") simp_all
  then have h: "conv_history ?k (t_data (conv_states b2) ! nat (idx ! j)) = last_rows ?d ?k A"
    using transpose_transpose [of "last_rows ?d ?k A" ?d] rows by (simp add: conv_history_def)
  then show ?thesis
    using c l(1) conv_window [of ?k A] by (intro exI [of _ b1] exI [of _ b2]) auto
qed

section \<open>Which segment precedes\<close>

text \<open>\<open>preceding_slot P s r\<close>: among the segments \<open>P\<close> (start and slot) the one that starts last before \<open>s\<close> has slot \<open>r\<close>; \<open>r\<close> is -1 if
  none starts before \<open>s\<close>.\<close>

definition preceding_slot :: "(nat \<times> int) set \<Rightarrow> nat \<Rightarrow> int \<Rightarrow> bool" where
  "preceding_slot P s r \<longleftrightarrow> ((\<forall>(p, x)\<in>P. s \<le> p) \<longrightarrow> r = -1) \<and>
     (\<forall>(p, x)\<in>P. p < s \<and> (\<forall>(p', x')\<in>P. p' < s \<longrightarrow> p' \<le> p) \<longrightarrow> r = x)"

definition seg_positions :: "(nat \<times> nat \<times> bytes) list \<Rightarrow> (bytes, int) dict \<Rightarrow> segment list \<Rightarrow> (segment, int) dict \<Rightarrow> (nat \<times> int) set" where
  "seg_positions hit_segs hit_slots miss_segs miss_slots =
     (\<lambda>(s, e, h). (s, the (map_of hit_slots h))) ` set hit_segs \<union>
     (\<lambda>(s, e). (s, case map_of miss_slots (s, e) of None \<Rightarrow> -1 | Some x \<Rightarrow> x)) ` set miss_segs"

lemma prev_of_sorted:
  assumes "sorted (map fst xs)" "distinct (map fst xs)" "s \<in> fst ` set xs"
  shows "prev_of s p xs = (case filter (\<lambda>x. fst x < s) xs of [] \<Rightarrow> p | ys \<Rightarrow> snd (last ys))"
  using assms
proof (induction xs arbitrary: p)
  case (Cons x xs)
  obtain q v where x: "x = (q, v)"
    by force
  show ?case
  proof (cases "q = s")
    case True
    then have "filter (\<lambda>x. fst x < s) xs = []"
      using Cons.prems(1) x by (auto simp: filter_empty_conv)
    then show ?thesis
      using True x by simp
  next
    case False
    then have "s \<in> fst ` set xs"
      using Cons.prems(3) x by auto
    moreover from this have "q < s"
      using Cons.prems(1) False x by fastforce
    ultimately show ?thesis
      using Cons x False by (auto split: list.split)
  qed
qed simp

lemma sorted_last: "sorted (map f xs) \<Longrightarrow> x \<in> set xs \<Longrightarrow> f x \<le> f (last xs)"
  by (induction xs) auto

lemma prev_of_preceding:
  assumes "distinct (map fst xs)" "s \<in> fst ` set xs"
  shows "preceding_slot (set xs) s (prev_of s (-1) (sort_key fst xs))"
proof -
  let ?ys = "sort_key fst xs"
  let ?below = "filter (\<lambda>x. fst x < s) ?ys"
  have ys: "sorted (map fst ?ys)" "distinct (map fst ?ys)" "set ?ys = set xs"
    using assms(1) by (simp_all add: distinct_map)
  have prev: "prev_of s (-1) ?ys = (case ?below of [] \<Rightarrow> -1 | zs \<Rightarrow> snd (last zs))"
    using prev_of_sorted [OF ys(1,2)] assms(2) ys(3) by simp
  have top: "snd (last ?below) = v \<and> ?below \<noteq> []" if h: "(q, v) \<in> set xs" "q < s" "\<And>q' v'. (q', v') \<in> set xs \<Longrightarrow> q' < s \<Longrightarrow> q' \<le> q" for q v
  proof -
    have m: "(q, v) \<in> set ?below"
      using h(1,2) by simp
    then have ne: "?below \<noteq> []"
      by (metis empty_iff empty_set)
    obtain q' v' where l: "last ?below = (q', v')"
      by force
    have q': "(q', v') \<in> set xs" "q' < s"
      using last_in_set [OF ne] l by auto
    have "q \<le> q'"
      using sorted_last [OF sorted_filter [OF ys(1)] m] l by simp
    then have "q' = q" "v' = v"
      using h(1) h(3) [OF q'] q'(1) assms(1) eq_key_imp_eq_value by fastforce+
    then show ?thesis
      using ne l by simp
  qed
  have "prev_of s (-1) ?ys = -1" if "\<forall>(q, v)\<in>set xs. s \<le> q"
  proof -
    have "?below = []"
      using that by (force simp: filter_empty_conv)
    then show ?thesis
      by (simp add: prev)
  qed
  moreover have "prev_of s (-1) ?ys = v" if "(q, v) \<in> set xs" "q < s" "\<forall>(q', v')\<in>set xs. q' < s \<longrightarrow> q' \<le> q" for q v
  proof -
    have "snd (last ?below) = v \<and> ?below \<noteq> []"
      using that by (intro top) auto
    then show ?thesis
      by (cases ?below) (simp_all add: prev)
  qed
  ultimately show ?thesis
    unfolding preceding_slot_def by blast
qed

lemma prev_tails_of_req_exact:
  assumes "\<forall>(s, e, h)\<in>set hs. h \<in> fst ` set hslots" "distinct (map fst hs @ map fst ms)"
  shows "\<exists>rs. prev_tails_of_req hs hslots ms mslots = Inr rs \<and> length rs = length ms \<and>
    (\<forall>j<length ms. preceding_slot (seg_positions hs hslots ms mslots) (fst (ms ! j)) (rs ! j))"
proof -
  let ?hit = "\<lambda>(s, e, h). (s, the (map_of hslots h))" and ?miss = "\<lambda>(s, e). (s, case map_of mslots (s, e) of None \<Rightarrow> -1 | Some x \<Rightarrow> x)"
  let ?pos = "map ?hit hs @ map ?miss ms"
  have "map_result (\<lambda>(s, e, h). case map_of hslots h of None \<Rightarrow> Inl KeyError | Some x \<Rightarrow> Inr (s, x)) hs = Inr (map ?hit hs)"
    using assms(1) by (intro map_result_Inr) (auto split: option.split dest: map_of_SomeD simp: map_of_eq_None_iff)
  then have run: "prev_tails_of_req hs hslots ms mslots = Inr (map (\<lambda>(s, e). prev_of s (-1) (sort_key fst ?pos)) ms)"
    by (simp add: prev_tails_of_req_def prev_tail_positions_def)
  have fst_pos: "map fst ?pos = map fst hs @ map fst ms"
    by (auto simp: comp_def case_prod_beta)
  have "preceding_slot (set ?pos) (fst (ms ! j)) (prev_of (fst (ms ! j)) (-1) (sort_key fst ?pos))" if "j < length ms" for j
  proof (rule prev_of_preceding)
    show "distinct (map fst ?pos)"
      unfolding fst_pos using assms(2) .
    have "fst (ms ! j) \<in> set (map fst ?pos)"
      unfolding fst_pos using that by simp
    then show "fst (ms ! j) \<in> fst ` set ?pos"
      by (simp only: set_map)
  qed
  then have "preceding_slot (seg_positions hs hslots ms mslots) (fst (ms ! j)) (map (\<lambda>(s, e). prev_of s (-1) (sort_key fst ?pos)) ms ! j)"
      if "j < length ms" for j
    using that by (simp add: seg_positions_def case_prod_beta)
  then show ?thesis
    unfolding run by (intro exI [of _ "map (\<lambda>(s, e). prev_of s (-1) (sort_key fst ?pos)) ms"]) simp
qed

text \<open>For every missed segment of every request the batch gets the slot of the segment immediately before it, hit or miss, in
  position order, or -1 for the first one.\<close>

lemma build_prev_tail_slots_exact:
  assumes "0 < n" "length hs = n" "length hslots = n" "length ms = n" "length mslots = n"
    "\<forall>i<n. (\<forall>(s, e, h)\<in>set (hs ! i). h \<in> fst ` set (hslots ! i)) \<and> distinct (map fst (hs ! i) @ map fst (ms ! i))"
  shows "\<exists>rs. build_prev_tail_slots n hs hslots ms mslots = Inr (concat rs) \<and> map length rs = map length ms \<and>
    (\<forall>i<n. \<forall>j<length (ms ! i). preceding_slot (seg_positions (hs ! i) (hslots ! i) (ms ! i) (mslots ! i)) (fst (ms ! i ! j)) (rs ! i ! j))"
proof -
  let ?f = "\<lambda>i. prev_tails_of_req (hs ! i) (hslots ! i) (ms ! i) (mslots ! i)"
  have "\<exists>rs. ?f i = Inr rs \<and> length rs = length (ms ! i) \<and>
      (\<forall>j<length (ms ! i). preceding_slot (seg_positions (hs ! i) (hslots ! i) (ms ! i) (mslots ! i)) (fst (ms ! i ! j)) (rs ! j))" if "i < n" for i
    using prev_tails_of_req_exact assms(6) that by blast
  then obtain g where g: "\<And>i. i < n \<Longrightarrow> ?f i = Inr (g i)" "\<And>i. i < n \<Longrightarrow> length (g i) = length (ms ! i)"
      "\<And>i j. i < n \<Longrightarrow> j < length (ms ! i) \<Longrightarrow>
         preceding_slot (seg_positions (hs ! i) (hslots ! i) (ms ! i) (mslots ! i)) (fst (ms ! i ! j)) (g i ! j)"
    by metis
  have ne: "hs \<noteq> []" "hslots \<noteq> []" "mslots \<noteq> []"
    using assms(1-5) by auto
  have "build_prev_tail_slots n hs hslots ms mslots = Inr (concat (map g [0..<n]))"
    unfolding build_prev_tail_slots_def using g(1) assms(2-5) ne
    by (subst map_result_Inr [where g = g]) (auto simp: per_req_def)
  moreover have "map length (map g [0..<n]) = map length ms"
    using g(2) assms(4) by (intro nth_equalityI) auto
  ultimately show ?thesis
    using g(3) by (intro exI [of _ "map g [0..<n]"]) simp
qed

end
