(* ===== verification/Gdn_Metadata.thy ===== *)
theory Gdn_Metadata
  imports Conv_Tails
begin

text \<open>
  The per-batch plan of the linear-attention layers (\<open>init_pic_metadata\<close> of \<open>layers/attention/linear/gdn_backend.py\<close>, the
  addition and transition modes): which rows of the batch form which segment, where each segment's convolution state and
  recurrent state are read and written, and in which order cached and computed segments are composed. Token counts and row numbers are
  Python integers; mamba slots are integers. Workspace allocation is left out.
\<close>

section \<open>The batch\<close>

text \<open>The fields of \<open>ForwardBatch\<close> the plan reads, one list entry per request; \<open>pb_cache_indices\<close> is the mamba slot of
  each request.\<close>

record pic_batch =
  pb_batch_size :: nat
  pb_hit_segments :: "(nat \<times> nat \<times> bytes) list list"
  pb_miss_segments :: "segment list list"
  pb_hit_mamba_slots :: "(bytes, int) dict list"
  pb_miss_mamba_slots :: "(segment, int) dict list"
  pb_cache_indices :: "int list"

abbreviation seg_len :: "segment \<Rightarrow> int" where
  "seg_len sg \<equiv> int (snd sg) - int (fst sg)"

fun start_monotonic :: "int \<Rightarrow> segment list \<Rightarrow> bool" where
  "start_monotonic prev [] = True"
| "start_monotonic prev ((s, e) # rest) = (prev < int s \<and> start_monotonic (int s) rest)"

definition seg_lengths_of :: "pic_batch \<Rightarrow> int list result" where
  "seg_lengths_of fb =
     (case map_result (\<lambda>i. if length (pb_miss_segments fb) \<le> i then Inl IndexError
                           else if start_monotonic (-1) (pb_miss_segments fb ! i) then Inr (map seg_len (pb_miss_segments fb ! i))
                           else Inl AssertionError) [0..<pb_batch_size fb] of
        Inl e \<Rightarrow> Inl e
      | Inr ls \<Rightarrow> Inr (concat ls))"

fun cu_seqlens :: "int \<Rightarrow> int list \<Rightarrow> int list" where
  "cu_seqlens a [] = [a]"
| "cu_seqlens a (x # xs) = a # cu_seqlens (a + x) xs"

section \<open>The plan of the addition and transition modes\<close>

record seg_plan =
  sp_cursor :: nat
  sp_offsets :: "nat list"
  sp_persist_src :: "nat list"
  sp_persist_dst :: "int list"
  sp_trans_src :: "nat list"
  sp_trans_dst :: "int list"
  sp_compose_order :: "(int \<times> nat option) list list"
  sp_conv_slots :: "int list"

definition empty_plan :: seg_plan where
  "empty_plan = \<lparr>sp_cursor = 0, sp_offsets = [0], sp_persist_src = [], sp_persist_dst = [], sp_trans_src = [], sp_trans_dst = [],
     sp_compose_order = [], sp_conv_slots = []\<rparr>"

text \<open>One missed segment: its state is persisted if it has a slot; its convolution tail too, unless it is the last of several. The last one
  convolves in the slot of the request.\<close>

definition plan_miss :: "bool \<Rightarrow> nat \<Rightarrow> int \<Rightarrow> (segment, int) dict \<Rightarrow> nat \<Rightarrow> segment \<Rightarrow> seg_plan \<Rightarrow> seg_plan" where
  "plan_miss is_single_seg req_seg_count req_dst_slot miss_slots local_i sg p =
     (let slot = map_of miss_slots sg; row = sp_cursor p + local_i;
          p1 = (case slot of None \<Rightarrow> p | Some x \<Rightarrow> p\<lparr>sp_trans_src := sp_trans_src p @ [row], sp_trans_dst := sp_trans_dst p @ [x]\<rparr>)
      in if local_i + 1 < req_seg_count \<or> is_single_seg
         then let p2 = (case slot of None \<Rightarrow> p1
                        | Some x \<Rightarrow> p1\<lparr>sp_persist_src := sp_persist_src p1 @ [row], sp_persist_dst := sp_persist_dst p1 @ [x]\<rparr>)
              in p2\<lparr>sp_conv_slots := sp_conv_slots p2 @ [case slot of None \<Rightarrow> req_dst_slot | Some x \<Rightarrow> x]\<rparr>
         else p1\<lparr>sp_conv_slots := sp_conv_slots p1 @ [req_dst_slot]\<rparr>)"

fun plan_misses :: "bool \<Rightarrow> nat \<Rightarrow> int \<Rightarrow> (segment, int) dict \<Rightarrow> nat \<Rightarrow> segment list \<Rightarrow> seg_plan \<Rightarrow> seg_plan" where
  "plan_misses single n dst slots i [] p = p"
| "plan_misses single n dst slots i (sg # rest) p = plan_misses single n dst slots (i + 1) rest (plan_miss single n dst slots i sg p)"

text \<open>The segments of a request in position order: the slot of each, and for a missed one the row of its states in the batch.\<close>

definition compose_order ::
  "(nat \<times> nat \<times> bytes) list \<Rightarrow> (bytes, int) dict \<Rightarrow> segment list \<Rightarrow> (segment, int) dict \<Rightarrow> nat \<Rightarrow> (int \<times> nat option) list result" where
  "compose_order hits hit_slots misses miss_slots cursor =
     (case map_result (\<lambda>(s, e, h). case map_of hit_slots h of None \<Rightarrow> Inl KeyError | Some x \<Rightarrow> Inr (s, x, None)) hits of
        Inl er \<Rightarrow> Inl er
      | Inr reuse \<Rightarrow>
          (case map_result (\<lambda>(i, s, e). case map_of miss_slots (s, e) of None \<Rightarrow> Inl KeyError | Some x \<Rightarrow> Inr (s, x, Some (cursor + i)))
                  (List.enumerate 0 misses) of
             Inl er \<Rightarrow> Inl er
           | Inr computed \<Rightarrow> Inr (map snd (sort_key fst (reuse @ computed)))))"

definition plan_req :: "bool \<Rightarrow> pic_batch \<Rightarrow> nat \<Rightarrow> seg_plan \<Rightarrow> seg_plan result" where
  "plan_req is_addition fb i p =
     (case per_req [] (pb_hit_mamba_slots fb) i of Inl e \<Rightarrow> Inl e | Inr hit_slots \<Rightarrow>
     (case select_row (pb_miss_segments fb) (int i) of Inl e \<Rightarrow> Inl e | Inr misses \<Rightarrow>
     (case per_req [] (pb_miss_mamba_slots fb) i of Inl e \<Rightarrow> Inl e | Inr miss_slots \<Rightarrow>
     (case (if is_addition then Inr [] else per_req [] (pb_hit_segments fb) i) of Inl e \<Rightarrow> Inl e | Inr reuse_segs \<Rightarrow>
     (case (if is_addition then Inr (sp_compose_order p)
            else case compose_order reuse_segs hit_slots misses miss_slots (sp_cursor p) of Inl e \<Rightarrow> Inl e
                 | Inr ord \<Rightarrow> Inr (sp_compose_order p @ [ord])) of Inl e \<Rightarrow> Inl e | Inr orders \<Rightarrow>
     (case select_row (pb_cache_indices fb) (int i) of Inl e \<Rightarrow> Inl e | Inr req_dst_slot \<Rightarrow>
        let n = length misses;
            p1 = p\<lparr>sp_offsets := sp_offsets p @ [sp_cursor p + n], sp_compose_order := orders\<rparr>;
            p2 = plan_misses (length reuse_segs + n = 1) n req_dst_slot miss_slots 0 misses p1
        in Inr (p2\<lparr>sp_cursor := sp_cursor p2 + n\<rparr>)))))))"

fun plan_reqs :: "bool \<Rightarrow> pic_batch \<Rightarrow> nat list \<Rightarrow> seg_plan \<Rightarrow> seg_plan result" where
  "plan_reqs is_addition fb [] p = Inr p"
| "plan_reqs is_addition fb (i # is) p = (case plan_req is_addition fb i p of Inl e \<Rightarrow> Inl e | Inr p' \<Rightarrow> plan_reqs is_addition fb is p')"

record seg_meta =
  sm_plan :: seg_plan
  sm_seg_lengths :: "int list"
  sm_cu_seqlens :: "int list"
  sm_seg_indices :: "nat list"
  sm_prev_tail_slot :: "int list"
  sm_has_initial_states :: "bool list"
  sm_req_last_miss_payload :: "int list"
  sm_req_dst_indices :: "int list"

definition init_pic_metadata :: "bool \<Rightarrow> pic_batch \<Rightarrow> seg_meta result" where
  "init_pic_metadata is_addition fb =
     (case seg_lengths_of fb of Inl e \<Rightarrow> Inl e | Inr lens \<Rightarrow>
     (case plan_reqs is_addition fb [0..<pb_batch_size fb] empty_plan of Inl e \<Rightarrow> Inl e | Inr p \<Rightarrow>
     (case build_prev_tail_slots (pb_batch_size fb) (pb_hit_segments fb) (pb_hit_mamba_slots fb) (pb_miss_segments fb) (pb_miss_mamba_slots fb) of
        Inl e \<Rightarrow> Inl e
      | Inr prev \<Rightarrow>
          Inr \<lparr>sm_plan = p, sm_seg_lengths = lens, sm_cu_seqlens = cu_seqlens 0 lens, sm_seg_indices = [0..<length lens],
               sm_prev_tail_slot = prev, sm_has_initial_states = map (\<lambda>s. s \<ge> 0) prev,
               sm_req_last_miss_payload = (if is_addition then map (\<lambda>x. int x - 1) (tl (sp_offsets p)) else []),
               sm_req_dst_indices = take (pb_batch_size fb) (pb_cache_indices fb)\<rparr>)))"

section \<open>The plan in closed form\<close>

definition slot_of :: "(segment, int) dict \<Rightarrow> segment \<Rightarrow> int" where
  "slot_of slots sg = the (map_of slots sg)"

text \<open>Well-formed batches: one entry per request everywhere, missed segments in text order with a slot each, cached segments with theirs,
  and no two segments of a request with the same start.\<close>

definition batch_ok :: "pic_batch \<Rightarrow> bool" where
  "batch_ok fb \<longleftrightarrow> (let n = pb_batch_size fb in 0 < n \<and> length (pb_hit_segments fb) = n \<and> length (pb_miss_segments fb) = n \<and>
     length (pb_hit_mamba_slots fb) = n \<and> length (pb_miss_mamba_slots fb) = n \<and> length (pb_cache_indices fb) = n \<and>
     (\<forall>i<n. start_monotonic (-1) (pb_miss_segments fb ! i) \<and>
        (\<forall>sg\<in>set (pb_miss_segments fb ! i). fst sg \<le> snd sg \<and> sg \<in> fst ` set (pb_miss_mamba_slots fb ! i)) \<and>
        (\<forall>(s, e, h)\<in>set (pb_hit_segments fb ! i). h \<in> fst ` set (pb_hit_mamba_slots fb ! i)) \<and>
        distinct (map fst (pb_hit_segments fb ! i) @ map fst (pb_miss_segments fb ! i))))"

lemma batch_okD:
  assumes "batch_ok fb"
  shows "0 < pb_batch_size fb" "length (pb_hit_segments fb) = pb_batch_size fb" "length (pb_miss_segments fb) = pb_batch_size fb"
    "length (pb_hit_mamba_slots fb) = pb_batch_size fb" "length (pb_miss_mamba_slots fb) = pb_batch_size fb"
    "length (pb_cache_indices fb) = pb_batch_size fb"
    "i < pb_batch_size fb \<Longrightarrow> start_monotonic (-1) (pb_miss_segments fb ! i)"
    "i < pb_batch_size fb \<Longrightarrow> sg \<in> set (pb_miss_segments fb ! i) \<Longrightarrow> fst sg \<le> snd sg \<and> sg \<in> fst ` set (pb_miss_mamba_slots fb ! i)"
    "i < pb_batch_size fb \<Longrightarrow> (s, e, h) \<in> set (pb_hit_segments fb ! i) \<Longrightarrow> h \<in> fst ` set (pb_hit_mamba_slots fb ! i)"
    "i < pb_batch_size fb \<Longrightarrow> distinct (map fst (pb_hit_segments fb ! i) @ map fst (pb_miss_segments fb ! i))"
  using assms unfolding batch_ok_def Let_def by (force, force, force, force, force, force, force, force, force, force)

lemma map_of_slot: "sg \<in> fst ` set slots \<Longrightarrow> map_of slots sg = Some (slot_of slots sg)"
  by (metis map_of_eq_None_iff option.exhaust_sel slot_of_def)

definition first_row :: "pic_batch \<Rightarrow> nat \<Rightarrow> nat" where
  "first_row fb i = length (concat (take i (pb_miss_segments fb)))"

lemma first_row_Suc: "i < length (pb_miss_segments fb) \<Longrightarrow> first_row fb (Suc i) = first_row fb i + length (pb_miss_segments fb ! i)"
  by (simp add: first_row_def take_Suc_conv_app_nth)

lemma first_row_0 [simp]: "first_row fb 0 = 0"
  by (simp add: first_row_def)

text \<open>\<open>tail_rows\<close> counts the missed segments of a request whose tail is kept: all but the last, or the only one.\<close>

definition tail_rows :: "bool \<Rightarrow> pic_batch \<Rightarrow> nat \<Rightarrow> nat" where
  "tail_rows is_addition fb i =
     (let n = length (pb_miss_segments fb ! i)
      in if (if is_addition then 0 else length (pb_hit_segments fb ! i)) + n = 1 then n else n - 1)"

definition conv_slots_of :: "bool \<Rightarrow> pic_batch \<Rightarrow> nat \<Rightarrow> int list" where
  "conv_slots_of is_addition fb i =
     map (\<lambda>j. if j < tail_rows is_addition fb i then slot_of (pb_miss_mamba_slots fb ! i) (pb_miss_segments fb ! i ! j) else pb_cache_indices fb ! i)
       [0..<length (pb_miss_segments fb ! i)]"

lemma plan_misses_closed:
  assumes "\<forall>sg\<in>set rest. sg \<in> fst ` set slots"
  shows "sp_cursor (plan_misses single n dst slots i rest p) = sp_cursor p"
    "sp_offsets (plan_misses single n dst slots i rest p) = sp_offsets p"
    "sp_compose_order (plan_misses single n dst slots i rest p) = sp_compose_order p"
    "sp_trans_src (plan_misses single n dst slots i rest p) = sp_trans_src p @ map (\<lambda>j. sp_cursor p + j) [i..<i + length rest]"
    "sp_trans_dst (plan_misses single n dst slots i rest p) = sp_trans_dst p @ map (slot_of slots) rest"
    "sp_persist_src (plan_misses single n dst slots i rest p) =
       sp_persist_src p @ map (\<lambda>j. sp_cursor p + j) (filter (\<lambda>j. j + 1 < n \<or> single) [i..<i + length rest])"
    "sp_persist_dst (plan_misses single n dst slots i rest p) =
       sp_persist_dst p @ map (\<lambda>j. slot_of slots (rest ! (j - i))) (filter (\<lambda>j. j + 1 < n \<or> single) [i..<i + length rest])"
    "sp_conv_slots (plan_misses single n dst slots i rest p) =
       sp_conv_slots p @ map (\<lambda>j. if j + 1 < n \<or> single then slot_of slots (rest ! (j - i)) else dst) [i..<i + length rest]"
proof -
  have st: "sp_cursor (plan_miss single n dst slots i sg p) = sp_cursor p"
    "sp_offsets (plan_miss single n dst slots i sg p) = sp_offsets p"
    "sp_compose_order (plan_miss single n dst slots i sg p) = sp_compose_order p"
    "sp_trans_src (plan_miss single n dst slots i sg p) = sp_trans_src p @ [sp_cursor p + i]"
    "sp_trans_dst (plan_miss single n dst slots i sg p) = sp_trans_dst p @ [slot_of slots sg]"
    "sp_persist_src (plan_miss single n dst slots i sg p) = sp_persist_src p @ (if i + 1 < n \<or> single then [sp_cursor p + i] else [])"
    "sp_persist_dst (plan_miss single n dst slots i sg p) = sp_persist_dst p @ (if i + 1 < n \<or> single then [slot_of slots sg] else [])"
    "sp_conv_slots (plan_miss single n dst slots i sg p) = sp_conv_slots p @ [if i + 1 < n \<or> single then slot_of slots sg else dst]"
    if "sg \<in> fst ` set slots" for i sg p
    using map_of_slot [OF that] by (auto simp: plan_miss_def Let_def)
  have idx: "[i..<Suc (i + length ys)] = i # [Suc i..<Suc i + length ys]" for i and ys :: "segment list"
    by (simp add: upt_rec)
  have shift: "(sg # ys) ! (j - i) = ys ! (j - Suc i)" if "j \<in> set [Suc i..<Suc i + length ys]" for i j and sg :: segment and ys
  proof -
    have "j - i = Suc (j - Suc i)"
      using that by (auto simp del: upt_Suc)
    then show ?thesis
      by simp
  qed
  show "sp_cursor (plan_misses single n dst slots i rest p) = sp_cursor p"
    "sp_offsets (plan_misses single n dst slots i rest p) = sp_offsets p"
    "sp_compose_order (plan_misses single n dst slots i rest p) = sp_compose_order p"
    "sp_trans_dst (plan_misses single n dst slots i rest p) = sp_trans_dst p @ map (slot_of slots) rest"
    using assms by (induction rest arbitrary: i p) (simp_all add: st)
  show "sp_trans_src (plan_misses single n dst slots i rest p) = sp_trans_src p @ map (\<lambda>j. sp_cursor p + j) [i..<i + length rest]"
    using assms by (induction rest arbitrary: i p) (simp_all add: st idx del: upt_Suc)
  show "sp_persist_src (plan_misses single n dst slots i rest p) =
       sp_persist_src p @ map (\<lambda>j. sp_cursor p + j) (filter (\<lambda>j. j + 1 < n \<or> single) [i..<i + length rest])"
    using assms by (induction rest arbitrary: i p) (simp_all add: st idx del: upt_Suc)
  show "sp_persist_dst (plan_misses single n dst slots i rest p) =
       sp_persist_dst p @ map (\<lambda>j. slot_of slots (rest ! (j - i))) (filter (\<lambda>j. j + 1 < n \<or> single) [i..<i + length rest])"
    using assms
  proof (induction rest arbitrary: i p)
    case (Cons sg rest)
    have "map (\<lambda>j. slot_of slots ((sg # rest) ! (j - i))) (filter P [Suc i..<Suc i + length rest]) =
        map (\<lambda>j. slot_of slots (rest ! (j - Suc i))) (filter P [Suc i..<Suc i + length rest])" for P
      by (intro map_cong refl arg_cong [of _ _ "slot_of slots"] shift) auto
    then show ?case
      using Cons by (simp add: st idx del: upt_Suc)
  qed simp
  show "sp_conv_slots (plan_misses single n dst slots i rest p) =
       sp_conv_slots p @ map (\<lambda>j. if j + 1 < n \<or> single then slot_of slots (rest ! (j - i)) else dst) [i..<i + length rest]"
    using assms
  proof (induction rest arbitrary: i p)
    case (Cons sg rest)
    have "map (\<lambda>j. if j + 1 < n \<or> single then slot_of slots ((sg # rest) ! (j - i)) else dst) [Suc i..<Suc i + length rest] =
        map (\<lambda>j. if j + 1 < n \<or> single then slot_of slots (rest ! (j - Suc i)) else dst) [Suc i..<Suc i + length rest]"
      using shift by (intro map_cong refl) (simp del: upt_Suc)
    then show ?case
      using Cons by (simp add: st idx del: upt_Suc)
  qed simp
qed

definition order_of :: "pic_batch \<Rightarrow> nat \<Rightarrow> (int \<times> nat option) list" where
  "order_of fb i =
     map snd (sort_key fst
       (map (\<lambda>(s, e, h). (s, the (map_of (pb_hit_mamba_slots fb ! i) h), None)) (pb_hit_segments fb ! i) @
        map (\<lambda>(j, s, e). (s, slot_of (pb_miss_mamba_slots fb ! i) (s, e), Some (first_row fb i + j))) (List.enumerate 0 (pb_miss_segments fb ! i))))"

definition plan_upto :: "bool \<Rightarrow> pic_batch \<Rightarrow> nat \<Rightarrow> seg_plan" where
  "plan_upto is_addition fb k = \<lparr>sp_cursor = first_row fb k, sp_offsets = map (first_row fb) [0..<Suc k],
     sp_persist_src = concat (map (\<lambda>i. map (\<lambda>j. first_row fb i + j) [0..<tail_rows is_addition fb i]) [0..<k]),
     sp_persist_dst = concat (map (\<lambda>i. map (\<lambda>j. slot_of (pb_miss_mamba_slots fb ! i) (pb_miss_segments fb ! i ! j)) [0..<tail_rows is_addition fb i]) [0..<k]),
     sp_trans_src = [0..<first_row fb k],
     sp_trans_dst = concat (map (\<lambda>i. map (slot_of (pb_miss_mamba_slots fb ! i)) (pb_miss_segments fb ! i)) [0..<k]),
     sp_compose_order = (if is_addition then [] else map (order_of fb) [0..<k]),
     sp_conv_slots = concat (map (conv_slots_of is_addition fb) [0..<k])\<rparr>"

lemma compose_order_closed:
  assumes "batch_ok fb" "i < pb_batch_size fb"
  shows "compose_order (pb_hit_segments fb ! i) (pb_hit_mamba_slots fb ! i) (pb_miss_segments fb ! i) (pb_miss_mamba_slots fb ! i) (first_row fb i) =
    Inr (order_of fb i)"
proof -
  have "map_result (\<lambda>(s, e, h). case map_of (pb_hit_mamba_slots fb ! i) h of None \<Rightarrow> Inl KeyError | Some x \<Rightarrow> Inr (s, x, None)) (pb_hit_segments fb ! i)
      = Inr (map (\<lambda>(s, e, h). (s, the (map_of (pb_hit_mamba_slots fb ! i) h), None :: nat option)) (pb_hit_segments fb ! i))"
    using batch_okD(9) [OF assms] by (intro map_result_Inr) (auto split: option.split dest!: map_of_SomeD simp: map_of_eq_None_iff)
  moreover have "map_result (\<lambda>(j, s, e). case map_of (pb_miss_mamba_slots fb ! i) (s, e) of None \<Rightarrow> Inl KeyError | Some x \<Rightarrow> Inr (s, x, Some (first_row fb i + j)))
      (List.enumerate 0 (pb_miss_segments fb ! i))
      = Inr (map (\<lambda>(j, s, e). (s, slot_of (pb_miss_mamba_slots fb ! i) (s, e), Some (first_row fb i + j))) (List.enumerate 0 (pb_miss_segments fb ! i)))"
  proof (rule map_result_Inr)
    fix x
    assume "x \<in> set (List.enumerate 0 (pb_miss_segments fb ! i))"
    then have "fst x < length (pb_miss_segments fb ! i)" "snd x = pb_miss_segments fb ! i ! fst x"
      by (simp_all add: in_set_enumerate_eq)
    then have "snd x \<in> set (pb_miss_segments fb ! i)"
      by simp
    then show "(case x of (j, s, e) \<Rightarrow> case map_of (pb_miss_mamba_slots fb ! i) (s, e) of None \<Rightarrow> Inl KeyError | Some x \<Rightarrow> Inr (s, x, Some (first_row fb i + j)))
        = Inr (case x of (j, s, e) \<Rightarrow> (s, slot_of (pb_miss_mamba_slots fb ! i) (s, e), Some (first_row fb i + j)))"
      using map_of_slot batch_okD(8) [OF assms, of "snd x"] by (cases x) auto
  qed
  ultimately show ?thesis
    by (simp add: compose_order_def order_of_def)
qed

lemma filter_tail: "filter (\<lambda>j. j + 1 < n \<or> single) [0..<n] = [0..<if single then n else n - 1]"
proof -
  have "filter (\<lambda>j. Suc j < n) [0..<n] = [0..<n - 1]"
    by (cases n) (auto intro!: filter_True)
  then show ?thesis
    by simp
qed

lemma plan_req_closed:
  assumes "batch_ok fb" "k < pb_batch_size fb"
  shows "plan_req is_addition fb k (plan_upto is_addition fb k) = Inr (plan_upto is_addition fb (Suc k))"
proof -
  let ?ms = "pb_miss_segments fb ! k" and ?sl = "pb_miss_mamba_slots fb ! k" and ?p = "plan_upto is_addition fb k"
  let ?rs = "if is_addition then [] else pb_hit_segments fb ! k"
  let ?single = "length ?rs + length ?ms = 1"
  define p1 where "p1 = ?p\<lparr>sp_offsets := sp_offsets ?p @ [sp_cursor ?p + length ?ms],
     sp_compose_order := if is_addition then [] else sp_compose_order ?p @ [order_of fb k]\<rparr>"
  note len = batch_okD(1-6) [OF assms(1)]
  have ne: "pb_hit_segments fb \<noteq> []" "pb_hit_mamba_slots fb \<noteq> []" "pb_miss_mamba_slots fb \<noteq> []"
    using len by auto
  have run: "plan_req is_addition fb k ?p =
      (let p2 = plan_misses ?single (length ?ms) (pb_cache_indices fb ! k) ?sl 0 ?ms p1 in Inr (p2\<lparr>sp_cursor := sp_cursor p2 + length ?ms\<rparr>))"
    using assms(2) len ne compose_order_closed [OF assms]
    by (cases is_addition) (simp_all add: plan_req_def per_req_def select_row_def p1_def plan_upto_def Let_def)
  have "\<forall>sg\<in>set ?ms. sg \<in> fst ` set ?sl"
    using batch_okD(8) [OF assms] by blast
  define p2 where "p2 = plan_misses ?single (length ?ms) (pb_cache_indices fb ! k) ?sl 0 ?ms p1"
  note cl = plan_misses_closed [OF \<open>\<forall>sg\<in>set ?ms. sg \<in> fst ` set ?sl\<close>, of ?single "length ?ms" "pb_cache_indices fb ! k" 0 p1, folded p2_def]
  have p1: "sp_cursor p1 = first_row fb k" "sp_offsets p1 = map (first_row fb) [0..<Suc k] @ [first_row fb k + length ?ms]"
     "sp_compose_order p1 = (if is_addition then [] else map (order_of fb) [0..<Suc k])" "sp_trans_src p1 = sp_trans_src ?p" "sp_trans_dst p1 = sp_trans_dst ?p"
     "sp_persist_src p1 = sp_persist_src ?p" "sp_persist_dst p1 = sp_persist_dst ?p" "sp_conv_slots p1 = sp_conv_slots ?p"
    by (simp_all add: p1_def plan_upto_def)
  have tail: "tail_rows is_addition fb k = (if ?single then length ?ms else length ?ms - 1)"
    by (simp add: tail_rows_def Let_def)
  have up: "[0..<first_row fb k] @ map (\<lambda>j. first_row fb k + j) [0..<length ?ms] = [0..<first_row fb (Suc k)]"
    using first_row_Suc [of k fb] assms(2) len(3) by (simp add: upt_add_eq_append [of 0] map_add_upt add.commute)
  have conv: "map (\<lambda>j. if j + 1 < length ?ms \<or> ?single then slot_of ?sl (?ms ! j) else pb_cache_indices fb ! k) [0..<length ?ms] = conv_slots_of is_addition fb k"
    unfolding conv_slots_of_def tail by (intro map_cong refl) auto
  show ?thesis
    unfolding run [folded p2_def] Let_def sum.inject using assms(2) len(3) up conv
    by (intro seg_plan.equality; cases is_addition) (simp_all add: cl filter_tail [simplified] p1 plan_upto_def first_row_Suc tail_rows_def Let_def cong: if_cong)
qed

lemma plan_reqs_append: "plan_reqs ad fb (is @ js) p = (case plan_reqs ad fb is p of Inl e \<Rightarrow> Inl e | Inr p' \<Rightarrow> plan_reqs ad fb js p')"
  by (induction "is" arbitrary: p) (simp_all split: sum.split)

lemma plan_reqs_closed:
  assumes "batch_ok fb" "k \<le> pb_batch_size fb"
  shows "plan_reqs is_addition fb [0..<k] empty_plan = Inr (plan_upto is_addition fb k)"
  using assms(2)
proof (induction k)
  case 0
  then show ?case
    by (simp add: plan_upto_def empty_plan_def)
next
  case (Suc k)
  then show ?case
    using plan_req_closed [OF assms(1)] by (simp add: plan_reqs_append)
qed

section \<open>Positions of segments in the batch\<close>

lemma concat_nth_row:
  assumes "i < length xss" "j < length (xss ! i)"
  shows "length (concat (take i xss)) + j < length (concat xss)" "concat xss ! (length (concat (take i xss)) + j) = xss ! i ! j"
proof -
  have *: "concat xss = concat (take i xss) @ xss ! i @ concat (drop (Suc i) xss)"
    using assms(1) by (metis append_take_drop_id concat.simps(2) concat_append Cons_nth_drop_Suc)
  show "length (concat (take i xss)) + j < length (concat xss)"
    using arg_cong [OF *, of length] assms(2) by simp
  show "concat xss ! (length (concat (take i xss)) + j) = xss ! i ! j"
    by (subst *) (simp add: nth_append assms(2))
qed

lemma first_row_lengths:
  assumes "map length xss = map length (pb_miss_segments fb)"
  shows "length (concat (take i xss)) = first_row fb i"
proof -
  have "map length (take i xss) = map length (take i (pb_miss_segments fb))"
    using assms by (simp flip: take_map)
  then show ?thesis
    by (simp add: first_row_def length_concat)
qed

lemma batch_nth:
  assumes "map length xss = map length (pb_miss_segments fb)" "i < length (pb_miss_segments fb)" "j < length (pb_miss_segments fb ! i)"
  shows "first_row fb i + j < length (concat xss)" "concat xss ! (first_row fb i + j) = xss ! i ! j"
proof -
  have "length xss = length (pb_miss_segments fb)"
    using assms(1) map_eq_imp_length_eq by blast
  moreover from this have "length (xss ! i) = length (pb_miss_segments fb ! i)"
    using assms(1,2) by (metis nth_map)
  ultimately show "first_row fb i + j < length (concat xss)" "concat xss ! (first_row fb i + j) = xss ! i ! j"
    using concat_nth_row [of i xss j] assms first_row_lengths [OF assms(1)] by simp_all
qed

lemma cu_seqlens_nth: "r \<le> length xs \<Longrightarrow> cu_seqlens a xs ! r = a + sum_list (take r xs)"
  by (induction a xs arbitrary: r rule: cu_seqlens.induct) (auto simp: take_Cons nth_Cons split: nat.split)

lemma length_cu_seqlens [simp]: "length (cu_seqlens a xs) = Suc (length xs)"
  by (induction a xs rule: cu_seqlens.induct) simp_all

lemma seg_lengths_closed:
  assumes "batch_ok fb"
  shows "seg_lengths_of fb = Inr (map seg_len (concat (pb_miss_segments fb)))"
proof -
  note len = batch_okD(1-6) [OF assms]
  have "map_result (\<lambda>i. if length (pb_miss_segments fb) \<le> i then Inl IndexError
                       else if start_monotonic (-1) (pb_miss_segments fb ! i) then Inr (map seg_len (pb_miss_segments fb ! i))
                       else Inl AssertionError) [0..<pb_batch_size fb] = Inr (map (\<lambda>i. map seg_len (pb_miss_segments fb ! i)) [0..<pb_batch_size fb])"
    using batch_okD(7) [OF assms] len by (intro map_result_Inr) auto
  moreover have "map (\<lambda>i. map seg_len (pb_miss_segments fb ! i)) [0..<pb_batch_size fb] = map (map seg_len) (pb_miss_segments fb)"
    using len(3) by (intro nth_equalityI) auto
  ultimately show ?thesis
    by (simp add: seg_lengths_of_def map_concat)
qed

lemma concat_rows: "length (pb_miss_segments fb) = n \<Longrightarrow> concat (map (\<lambda>i. f (pb_miss_segments fb ! i)) [0..<n]) = concat (map f (pb_miss_segments fb))"
  by (intro arg_cong [of _ _ concat] nth_equalityI) auto

text \<open>The metadata of a well-formed batch.\<close>

lemma init_pic_metadata_ok:
  assumes "batch_ok fb"
  shows "\<exists>m prevs. init_pic_metadata is_addition fb = Inr m \<and> sm_plan m = plan_upto is_addition fb (pb_batch_size fb) \<and>
    sm_seg_lengths m = map seg_len (concat (pb_miss_segments fb)) \<and> sm_cu_seqlens m = cu_seqlens 0 (map seg_len (concat (pb_miss_segments fb))) \<and>
    sm_seg_indices m = [0..<length (concat (pb_miss_segments fb))] \<and> sm_prev_tail_slot m = concat prevs \<and>
    sm_has_initial_states m = map (\<lambda>s. s \<ge> 0) (concat prevs) \<and>
    sm_req_last_miss_payload m = (if is_addition then map (\<lambda>i. int (first_row fb (Suc i)) - 1) [0..<pb_batch_size fb] else []) \<and>
    sm_req_dst_indices m = pb_cache_indices fb \<and> map length prevs = map length (pb_miss_segments fb) \<and>
    (\<forall>i<pb_batch_size fb. \<forall>j<length (pb_miss_segments fb ! i).
       preceding_slot (seg_positions (pb_hit_segments fb ! i) (pb_hit_mamba_slots fb ! i) (pb_miss_segments fb ! i) (pb_miss_mamba_slots fb ! i))
         (fst (pb_miss_segments fb ! i ! j)) (prevs ! i ! j))"
proof -
  note len = batch_okD(1-6) [OF assms]
  have "\<forall>i<pb_batch_size fb. (\<forall>(s, e, h)\<in>set (pb_hit_segments fb ! i). h \<in> fst ` set (pb_hit_mamba_slots fb ! i)) \<and>
      distinct (map fst (pb_hit_segments fb ! i) @ map fst (pb_miss_segments fb ! i))"
    using batch_okD(9,10) [OF assms] by blast
  from build_prev_tail_slots_exact [OF len(1,2,4,3,5) this]
  obtain prevs where pv: "build_prev_tail_slots (pb_batch_size fb) (pb_hit_segments fb) (pb_hit_mamba_slots fb) (pb_miss_segments fb) (pb_miss_mamba_slots fb)
      = Inr (concat prevs)" "map length prevs = map length (pb_miss_segments fb)"
      "\<forall>i<pb_batch_size fb. \<forall>j<length (pb_miss_segments fb ! i).
       preceding_slot (seg_positions (pb_hit_segments fb ! i) (pb_hit_mamba_slots fb ! i) (pb_miss_segments fb ! i) (pb_miss_mamba_slots fb ! i))
         (fst (pb_miss_segments fb ! i ! j)) (prevs ! i ! j)"
    by blast
  have offs: "tl (sp_offsets (plan_upto ad fb (pb_batch_size fb))) = map (\<lambda>i. first_row fb (Suc i)) [0..<pb_batch_size fb]" for ad
    by (simp add: plan_upto_def upt_conv_Cons map_Suc_upt [symmetric] comp_def del: upt_Suc map_Suc_upt)
  show ?thesis
    using pv(2,3) len(6) unfolding init_pic_metadata_def seg_lengths_closed [OF assms] plan_reqs_closed [OF assms order_refl] pv(1)
    by (intro exI [of _ "\<lparr>sm_plan = plan_upto is_addition fb (pb_batch_size fb), sm_seg_lengths = map seg_len (concat (pb_miss_segments fb)),
          sm_cu_seqlens = cu_seqlens 0 (map seg_len (concat (pb_miss_segments fb))), sm_seg_indices = [0..<length (concat (pb_miss_segments fb))],
          sm_prev_tail_slot = concat prevs, sm_has_initial_states = map (\<lambda>s. s \<ge> 0) (concat prevs),
          sm_req_last_miss_payload = (if is_addition then map (\<lambda>i. int (first_row fb (Suc i)) - 1) [0..<pb_batch_size fb] else []),
          sm_req_dst_indices = pb_cache_indices fb\<rparr>"] exI [of _ prevs]) (simp add: offs comp_def)
qed

section \<open>Convolution histories of a batch\<close>

abbreviation row_slice :: "int list \<Rightarrow> 'x list \<Rightarrow> nat \<Rightarrow> 'x list" where
  "row_slice cu xs r \<equiv> slice_rows (cu ! r) (cu ! Suc r) xs"

abbreviation miss_slots_of :: "pic_batch \<Rightarrow> nat \<Rightarrow> int list" where
  "miss_slots_of fb i \<equiv> map (slot_of (pb_miss_mamba_slots fb ! i)) (pb_miss_segments fb ! i)"

abbreviation all_miss_slots :: "pic_batch \<Rightarrow> int list" where
  "all_miss_slots fb \<equiv> concat (map (miss_slots_of fb) [0..<pb_batch_size fb])"

text \<open>The slots of a batch: missed segments and requests own pairwise different slots, cached segments none of the missed ones.\<close>

definition slots_ok :: "pic_batch \<Rightarrow> nat \<Rightarrow> bool" where
  "slots_ok fb n \<longleftrightarrow> distinct (all_miss_slots fb @ pb_cache_indices fb) \<and> (\<forall>x\<in>set (all_miss_slots fb @ pb_cache_indices fb). 0 \<le> x \<and> x < int n) \<and>
     (\<forall>i<pb_batch_size fb. \<forall>(s, e, h)\<in>set (pb_hit_segments fb ! i).
        let x = the (map_of (pb_hit_mamba_slots fb ! i) h) in 0 \<le> x \<and> x < int n \<and> x \<notin> set (all_miss_slots fb))"

lemma slots_okD:
  assumes "slots_ok fb n"
  shows "distinct (all_miss_slots fb @ pb_cache_indices fb)" "x \<in> set (all_miss_slots fb) \<Longrightarrow> 0 \<le> x \<and> x < int n"
    "x \<in> set (pb_cache_indices fb) \<Longrightarrow> 0 \<le> x \<and> x < int n"
    "i < pb_batch_size fb \<Longrightarrow> (s, e, h) \<in> set (pb_hit_segments fb ! i) \<Longrightarrow> 0 \<le> the (map_of (pb_hit_mamba_slots fb ! i) h) \<and>
       the (map_of (pb_hit_mamba_slots fb ! i) h) < int n \<and> the (map_of (pb_hit_mamba_slots fb ! i) h) \<notin> set (all_miss_slots fb)"
proof -
  note ok = assms [unfolded slots_ok_def Let_def]
  show "distinct (all_miss_slots fb @ pb_cache_indices fb)"
    using ok by blast
  show "x \<in> set (all_miss_slots fb) \<Longrightarrow> 0 \<le> x \<and> x < int n" "x \<in> set (pb_cache_indices fb) \<Longrightarrow> 0 \<le> x \<and> x < int n"
    using ok by (simp_all only: set_append) blast+
  show "0 \<le> the (map_of (pb_hit_mamba_slots fb ! i) h) \<and>
       the (map_of (pb_hit_mamba_slots fb ! i) h) < int n \<and> the (map_of (pb_hit_mamba_slots fb ! i) h) \<notin> set (all_miss_slots fb)"
    if "i < pb_batch_size fb" "(s, e, h) \<in> set (pb_hit_segments fb ! i)"
    using ok [THEN conjunct2, THEN conjunct2, rule_format, OF that] by simp
qed

lemma distinct_interleave:
  assumes "distinct (concat (map f [0..<k]) @ map c [0..<k])" "\<forall>i<k. g i = take (t i) (f i) @ (if b i then [c i] else [])"
  shows "distinct (concat (map g [0..<k])) \<and> set (concat (map g [0..<k])) \<subseteq> set (concat (map f [0..<k]) @ map c [0..<k])"
  using assms
proof (induction k)
  case (Suc k)
  have "distinct (concat (map f [0..<k]) @ map c [0..<k])" "\<forall>i<k. g i = take (t i) (f i) @ (if b i then [c i] else [])"
    using Suc.prems by auto
  then have IH: "distinct (concat (map g [0..<k]))" "set (concat (map g [0..<k])) \<subseteq> set (concat (map f [0..<k]) @ map c [0..<k])"
    using Suc.IH by blast+
  have gk: "set (g k) \<subseteq> insert (c k) (set (f k))" "distinct (g k)"
    using Suc.prems by (auto dest: in_set_takeD)
  have dj: "set (concat (map f [0..<k]) @ map c [0..<k]) \<inter> insert (c k) (set (f k)) = {}"
    using Suc.prems(1) by auto
  have "set (concat (map g [0..<k])) \<inter> set (g k) = {}"
    using IH(2) gk(1) dj by blast
  moreover have "concat (map g [0..<Suc k]) = concat (map g [0..<k]) @ g k"
    by simp
  moreover have "set (concat (map f [0..<Suc k]) @ map c [0..<Suc k]) = set (concat (map f [0..<k]) @ map c [0..<k]) \<union> insert (c k) (set (f k))"
    by auto
  ultimately show ?case
    using IH gk by (metis Un_mono distinct_append set_append)
qed simp

lemma tail_rows_le: "tail_rows ad fb i \<le> length (pb_miss_segments fb ! i)" "length (pb_miss_segments fb ! i) \<le> tail_rows ad fb i + 1"
  by (auto simp: tail_rows_def Let_def)

lemma conv_slots_of_split:
  "conv_slots_of ad fb i = take (tail_rows ad fb i) (miss_slots_of fb i) @ (if tail_rows ad fb i < length (pb_miss_segments fb ! i) then [pb_cache_indices fb ! i] else [])"
proof -
  have "length (pb_miss_segments fb ! i) = tail_rows ad fb i \<or> length (pb_miss_segments fb ! i) = Suc (tail_rows ad fb i)"
    using tail_rows_le [where ad = ad and fb = fb and i = i] by linarith
  then show ?thesis
    by (elim disjE) (auto simp: conv_slots_of_def intro!: nth_equalityI simp: nth_append less_Suc_eq)
qed

lemma plan_slots:
  fixes ad :: bool
  assumes "batch_ok fb" "slots_ok fb n"
  defines "p \<equiv> plan_upto ad fb (pb_batch_size fb)"
  shows "distinct (sp_conv_slots p)" "\<forall>x\<in>set (sp_conv_slots p). 0 \<le> x \<and> x < int n"
    "distinct (sp_persist_dst p)" "set (sp_persist_dst p) \<subseteq> set (all_miss_slots fb)"
proof -
  let ?k = "pb_batch_size fb"
  have c: "pb_cache_indices fb = map (\<lambda>i. pb_cache_indices fb ! i) [0..<?k]"
    using batch_okD(6) [OF assms(1)] by (metis map_nth)
  have d: "distinct (concat (map (miss_slots_of fb) [0..<?k]) @ map (\<lambda>i. pb_cache_indices fb ! i) [0..<?k])"
    using assms(2) c unfolding slots_ok_def by simp
  have "distinct (sp_conv_slots p) \<and> set (sp_conv_slots p) \<subseteq> set (all_miss_slots fb @ map (\<lambda>i. pb_cache_indices fb ! i) [0..<?k])"
    unfolding p_def plan_upto_def seg_plan.simps by (rule distinct_interleave [OF d]) (intro allI impI, rule conv_slots_of_split)
  then show "distinct (sp_conv_slots p)" "\<forall>x\<in>set (sp_conv_slots p). 0 \<le> x \<and> x < int n"
    using assms(2) c unfolding slots_ok_def by fastforce+
  have pd: "sp_persist_dst p = concat (map (\<lambda>i. take (tail_rows ad fb i) (miss_slots_of fb i)) [0..<?k])"
    unfolding p_def plan_upto_def seg_plan.simps using tail_rows_le(1) [where ad = ad and fb = fb]
    by (intro arg_cong [of _ _ concat] map_cong refl nth_equalityI) (auto intro!: nth_map [symmetric] intro: order.strict_trans2)
  have "distinct (sp_persist_dst p) \<and> set (sp_persist_dst p) \<subseteq> set (concat (map (miss_slots_of fb) [0..<?k]) @ map (\<lambda>i. pb_cache_indices fb ! i) [0..<?k])"
    unfolding pd by (rule distinct_interleave [OF d, where b = "\<lambda>_. False" and t = "tail_rows ad fb"]) simp
  then show "distinct (sp_persist_dst p)"
    by blast
  show "set (sp_persist_dst p) \<subseteq> set (all_miss_slots fb)"
    unfolding pd by (fastforce dest: in_set_takeD)
qed

lemma batch_rows:
  assumes "batch_ok fb" "r < length (concat (pb_miss_segments fb))"
  defines "cu \<equiv> cu_seqlens 0 (map seg_len (concat (pb_miss_segments fb)))"
  shows "0 \<le> cu ! r" "cu ! r \<le> cu ! Suc r" "cu ! Suc r \<le> sum_list (map seg_len (concat (pb_miss_segments fb)))"
proof -
  let ?xs = "map seg_len (concat (pb_miss_segments fb))"
  have nn: "0 \<le> x" if x: "x \<in> set ?xs" for x
  proof -
    obtain sg ss where sg: "ss \<in> set (pb_miss_segments fb)" "sg \<in> set ss" "x = seg_len sg"
      using x by auto
    then obtain i where "i < pb_batch_size fb" "ss = pb_miss_segments fb ! i"
      using batch_okD(3) [OF assms(1)] by (metis in_set_conv_nth)
    then show ?thesis
      using batch_okD(8) [OF assms(1)] sg by auto
  qed
  have cu: "cu ! k = sum_list (take k ?xs)" if "k \<le> length ?xs" for k
    using that by (simp add: cu_def cu_seqlens_nth)
  have pos: "0 \<le> sum_list ys" if "set ys \<subseteq> set ?xs" for ys
    using that nn by (intro sum_list_nonneg) blast
  show "0 \<le> cu ! r"
    using assms(2) cu [of r] pos [OF set_take_subset, of r] by simp
  have "0 \<le> ?xs ! r"
    using assms(2) by (intro nn nth_mem) simp
  then show "cu ! r \<le> cu ! Suc r"
    using assms(2) cu take_Suc_conv_app_nth [of r ?xs] by simp
  have "sum_list ?xs = sum_list (take (Suc r) ?xs) + sum_list (drop (Suc r) ?xs)"
    by (simp only: append_take_drop_id flip: sum_list_append)
  moreover have "0 \<le> sum_list (drop (Suc r) ?xs)"
    by (rule pos) (rule set_drop_subset)
  moreover have "cu ! Suc r = sum_list (take (Suc r) ?xs)"
    using assms(2) by (intro cu) simp
  ultimately show "cu ! Suc r \<le> sum_list ?xs"
    by linarith
qed

lemma plan_pairs:
  fixes ad :: bool
  assumes "i < pb_batch_size fb" "j < tail_rows ad fb i"
  defines "p \<equiv> plan_upto ad fb (pb_batch_size fb)"
  shows "(first_row fb i + j, slot_of (pb_miss_mamba_slots fb ! i) (pb_miss_segments fb ! i ! j)) \<in> set (zip (sp_persist_src p) (sp_persist_dst p))"
proof -
  have zip: "zip (concat (map f ks)) (concat (map g ks)) = concat (map (\<lambda>k. zip (f k) (g k)) ks)"
    if "\<And>k. k \<in> set ks \<Longrightarrow> length (f k) = length (g k)" for f :: "nat \<Rightarrow> nat list" and g :: "nat \<Rightarrow> int list" and ks
    using that by (induction ks) auto
  show ?thesis
    unfolding p_def plan_upto_def seg_plan.simps using assms(1,2)
    by (subst zip) (auto simp: zip_map_map zip_same_conv_map intro!: bexI [of _ i] image_eqI [of _ _ j])
qed

lemma plan_rows:
  fixes ad :: bool
  assumes "batch_ok fb"
  defines "p \<equiv> plan_upto ad fb (pb_batch_size fb)"
  shows "length (sp_persist_src p) = length (sp_persist_dst p)" "r \<in> set (sp_persist_src p) \<Longrightarrow> r < length (concat (pb_miss_segments fb))"
    "map length (map (conv_slots_of ad fb) [0..<pb_batch_size fb]) = map length (pb_miss_segments fb)"
proof -
  show "length (sp_persist_src p) = length (sp_persist_dst p)"
    by (simp add: p_def plan_upto_def length_concat comp_def)
  show "map length (map (conv_slots_of ad fb) [0..<pb_batch_size fb]) = map length (pb_miss_segments fb)"
    using batch_okD(3) [OF assms(1)] by (intro nth_equalityI) (auto simp: conv_slots_of_def)
  assume "r \<in> set (sp_persist_src p)"
  then obtain i where "i < pb_batch_size fb" "first_row fb i \<le> r" "r < tail_rows ad fb i + first_row fb i"
    by (auto simp: p_def plan_upto_def)
  then show "r < length (concat (pb_miss_segments fb))"
    using batch_nth(1) [of "pb_miss_segments fb" fb i "r - first_row fb i"] batch_okD(3) [OF assms(1)] tail_rows_le(1) [where ad = ad and fb = fb and i = i] by simp
qed

lemma batch_capture:
  fixes ad :: bool
  assumes "batch_ok fb" "slots_ok fb (length (t_data t))" "conv_tails b = Some t" "mixed \<noteq> []"
    "int (length mixed) = sum_list (map seg_len (concat (pb_miss_segments fb)))"
  defines "p \<equiv> plan_upto ad fb (pb_batch_size fb)" and "cu \<equiv> cu_seqlens 0 (map seg_len (concat (pb_miss_segments fb)))"
  shows "\<exists>data. capture_conv_tails GDN mixed cu (map int (sp_persist_src p)) (sp_persist_dst p) None b = (Inr (), b\<lparr>conv_tails := Some (t\<lparr>t_data := data\<rparr>)\<rparr>) \<and>
    length data = length (t_data t) \<and>
    (\<forall>i<pb_batch_size fb. \<forall>j<tail_rows ad fb i. data ! nat (slot_of (pb_miss_mamba_slots fb ! i) (pb_miss_segments fb ! i ! j)) =
       transpose_rows (t_dim t) (last_rows (t_dim t) (t_width t) (row_slice cu mixed (first_row fb i + j)))) \<and>
    (\<forall>x. 0 \<le> x \<and> x \<notin> set (all_miss_slots fb) \<longrightarrow> data ! nat x = t_data t ! nat x)"
proof -
  let ?src = "map int (sp_persist_src p)" and ?dst = "sp_persist_dst p"
  note ps = plan_slots [OF assms(1,2), where ad = ad, folded p_def] and pr = plan_rows [OF assms(1), where ad = ad, folded p_def]
  have rng: "0 \<le> x \<and> x < int (length (t_data t))" if "x \<in> set ?dst" for x
    using that ps(4) assms(2) by (auto simp: slots_ok_def)
  have ok: "capture_ok mixed cu ?src ?dst None (length (t_data t))"
    unfolding capture_ok_def using assms(4,5) pr(1) rng
  proof (intro conjI allI impI)
    fix k
    assume "k < length ?src"
    then have r: "sp_persist_src p ! k < length (concat (pb_miss_segments fb))" "?src ! k = int (sp_persist_src p ! k)"
      using pr(2) by simp_all
    show "0 \<le> ?src ! k" "?src ! k + 1 < int (length cu)" "0 \<le> cu ! nat (?src ! k)"
        "cu ! nat (?src ! k) \<le> seg_stop cu None ?src k" "seg_stop cu None ?src k \<le> int (length mixed)"
      using r batch_rows [OF assms(1) r(1), folded cu_def] assms(5) by (simp_all add: cu_def nat_add_distrib)
  qed simp_all
  define vs where "vs = map (\<lambda>k. transpose_rows (t_dim t) (last_rows (t_dim t) (t_width t) (seg_rows mixed cu None ?src k))) [0..<length ?src]"
  define data where "data = write_rows (zip (map nat ?dst) vs) (t_data t)"
  have run: "capture_conv_tails GDN mixed cu ?src ?dst None b = (Inr (), b\<lparr>conv_tails := Some (t\<lparr>t_data := data\<rparr>)\<rparr>)"
    using capture_run [OF assms(3) ok, of GDN] by (simp add: data_def vs_def)
  have dn: "distinct (map nat ?dst)"
    using ps(3) rng by (auto simp: distinct_map intro!: inj_on_inverseI [of _ int])
  have "data ! nat (slot_of (pb_miss_mamba_slots fb ! i) (pb_miss_segments fb ! i ! j)) =
       transpose_rows (t_dim t) (last_rows (t_dim t) (t_width t) (row_slice cu mixed (first_row fb i + j)))"
    if ij: "i < pb_batch_size fb" "j < tail_rows ad fb i" for i j
  proof -
    obtain k where k: "k < length (sp_persist_src p)" "sp_persist_src p ! k = first_row fb i + j"
        "?dst ! k = slot_of (pb_miss_mamba_slots fb ! i) (pb_miss_segments fb ! i ! j)"
      using plan_pairs [OF ij, folded p_def] pr(1) by (auto simp: set_zip)
    have "data ! (map nat ?dst ! k) = vs ! k"
      unfolding data_def using dn pr(1) k(1) rng [of "?dst ! k"] by (intro write_rows_nth) (simp_all add: vs_def nat_less_iff)
    then show ?thesis
      using k pr(1) by (simp add: vs_def nat_add_distrib)
  qed
  moreover have "data ! nat x = t_data t ! nat x" if "0 \<le> x" "x \<notin> set (all_miss_slots fb)" for x
    unfolding data_def using that ps(4) rng by (intro write_rows_other) (force dest: set_zip_leftD)
  ultimately show ?thesis
    using run by (intro exI [of _ data]) (simp add: data_def)
qed

lemma preceding_slotD:
  assumes "preceding_slot P s r"
  shows "(p, x) \<in> P \<Longrightarrow> p < s \<Longrightarrow> (\<And>p' x'. (p', x') \<in> P \<Longrightarrow> p' < s \<Longrightarrow> p' \<le> p) \<Longrightarrow> r = x"
    "(\<And>p x. (p, x) \<in> P \<Longrightarrow> s \<le> p) \<Longrightarrow> r = -1"
  using assms unfolding preceding_slot_def by fastforce+

lemma preceding_slot_in:
  assumes "preceding_slot P s r" "finite P"
  shows "r = -1 \<or> (\<exists>p. (p, r) \<in> P)"
proof (cases "\<forall>(p, x)\<in>P. s \<le> p")
  case True
  then show ?thesis
    using assms(1) by (simp add: preceding_slot_def)
next
  case False
  let ?B = "{p. \<exists>x. (p, x) \<in> P \<and> p < s}"
  have fin: "finite ?B" "?B \<noteq> {}"
    using False finite_subset [of ?B "fst ` P"] assms(2) by force+
  then obtain x where x: "(Max ?B, x) \<in> P" "Max ?B < s"
    using Max_in by blast
  have "r = x"
    by (rule preceding_slotD(1) [OF assms(1) x]) (use Max_ge [OF fin(1)] in blast)
  then show ?thesis
    using x by blast
qed

text \<open>Segment start \<open>p\<close> of request \<open>i\<close> is the last one before \<open>s\<close>, among cached and missed segments.\<close>

definition next_below :: "pic_batch \<Rightarrow> nat \<Rightarrow> nat \<Rightarrow> nat \<Rightarrow> bool" where
  "next_below fb i p s \<longleftrightarrow> p < s \<and> (\<forall>p'\<in>fst ` set (pb_hit_segments fb ! i) \<union> fst ` set (pb_miss_segments fb ! i). p' < s \<longrightarrow> p' \<le> p)"

lemma preceding_next_below:
  assumes "batch_ok fb" "i < pb_batch_size fb"
    "preceding_slot (seg_positions (pb_hit_segments fb ! i) (pb_hit_mamba_slots fb ! i) (pb_miss_segments fb ! i) (pb_miss_mamba_slots fb ! i)) s r"
  shows "sg \<in> set (pb_miss_segments fb ! i) \<Longrightarrow> next_below fb i (fst sg) s \<Longrightarrow> r = slot_of (pb_miss_mamba_slots fb ! i) sg"
    "(q, e, h) \<in> set (pb_hit_segments fb ! i) \<Longrightarrow> next_below fb i q s \<Longrightarrow> r = the (map_of (pb_hit_mamba_slots fb ! i) h)"
proof -
  let ?P = "seg_positions (pb_hit_segments fb ! i) (pb_hit_mamba_slots fb ! i) (pb_miss_segments fb ! i) (pb_miss_mamba_slots fb ! i)"
  have starts: "fst ` ?P \<subseteq> fst ` set (pb_hit_segments fb ! i) \<union> fst ` set (pb_miss_segments fb ! i)"
    by (force simp: seg_positions_def)
  have top: "r = x" if px: "(p, x) \<in> ?P" and nb: "next_below fb i p s" for p x
  proof -
    have *: "p' \<le> p" if p': "(p', x') \<in> ?P" "p' < s" for p' x'
    proof -
      have "p' \<in> fst ` ?P"
        using p'(1) by (force simp: image_iff)
      then show ?thesis
        using starts p'(2) nb unfolding next_below_def by blast
    qed
    show ?thesis
      by (rule preceding_slotD(1) [OF assms(3) px _ *]) (use nb in \<open>simp_all add: next_below_def\<close>)
  qed
  show "r = slot_of (pb_miss_mamba_slots fb ! i) sg" if "sg \<in> set (pb_miss_segments fb ! i)" "next_below fb i (fst sg) s"
  proof (rule top [OF _ that(2)])
    show "(fst sg, slot_of (pb_miss_mamba_slots fb ! i) sg) \<in> ?P"
      using that(1) map_of_slot batch_okD(8) [OF assms(1,2) that(1)] by (force simp: seg_positions_def)
  qed
  show "r = the (map_of (pb_hit_mamba_slots fb ! i) h)" if "(q, e, h) \<in> set (pb_hit_segments fb ! i)" "next_below fb i q s"
    by (rule top [OF _ that(2)]) (use that(1) in \<open>force simp: seg_positions_def\<close>)
qed

lemma prev_slots_bounded:
  assumes "batch_ok fb" "slots_ok fb n" "i < pb_batch_size fb"
    "preceding_slot (seg_positions (pb_hit_segments fb ! i) (pb_hit_mamba_slots fb ! i) (pb_miss_segments fb ! i) (pb_miss_mamba_slots fb ! i)) s r"
  shows "r < int n"
proof -
  let ?P = "seg_positions (pb_hit_segments fb ! i) (pb_hit_mamba_slots fb ! i) (pb_miss_segments fb ! i) (pb_miss_mamba_slots fb ! i)"
  have n: "0 < n"
    using assms(3) batch_okD(6) [OF assms(1)] slots_okD(3) [OF assms(2), of "pb_cache_indices fb ! i"] by simp
  have "x < int n" if "(p, x) \<in> ?P" for p x
    using that unfolding seg_positions_def
  proof (elim UnE imageE, goal_cases)
    case (1 y)
    then show ?thesis
      using slots_okD(4) [OF assms(2,3)] by (cases y) auto
  next
    case (2 sg)
    then have "x = slot_of (pb_miss_mamba_slots fb ! i) sg"
      using map_of_slot batch_okD(8) [OF assms(1,3), of sg] by (cases sg) auto
    then have "x \<in> set (all_miss_slots fb)"
      using 2(2) assms(3) by auto
    then show ?thesis
      using slots_okD(2) [OF assms(2)] by blast
  qed
  moreover have "finite ?P"
    by (simp add: seg_positions_def)
  ultimately show ?thesis
    using preceding_slot_in [OF assms(4)] n by fastforce
qed

lemma history_transpose:
  assumes "\<forall>r\<in>set mixed. length r = d"
  shows "conv_history k (transpose_rows d (last_rows d k (slice_rows st en mixed))) = last_rows d k (slice_rows st en mixed)"
proof -
  have "length r = d" if "r \<in> set (last_rows d k (slice_rows st en mixed))" for r
    using that assms by (auto simp: last_rows_def slice_rows_def dest!: in_set_dropD in_set_takeD)
  then show ?thesis
    using transpose_transpose [of "last_rows d k (slice_rows st en mixed)" d] by (simp add: conv_history_def)
qed

text \<open>C32. In every batch of the addition and transition plans the convolution of a missed segment starts from the right history: when the segment directly before it is another
  missed segment of the batch whose tail is kept, its convolution state holds the last rows of that segment; when it is a cached
  segment, the state holds the tail stored with it.\<close>

theorem batch_conv_history:
  assumes "batch_ok fb" "slots_ok fb (length (t_data t))" "conv_tails b = Some t" "length (t_data (conv_states b)) = length (t_data t)"
    "mixed \<noteq> []" "int (length mixed) = sum_list (map seg_len (concat (pb_miss_segments fb)))" "\<forall>r\<in>set mixed. length r = t_dim t"
  shows "\<exists>m b1 b2. init_pic_metadata is_addition fb = Inr m \<and>
    capture_conv_tails GDN mixed (sm_cu_seqlens m) (map int (sp_persist_src (sm_plan m))) (sp_persist_dst (sm_plan m)) None b = (Inr (), b1) \<and>
    load_conv_history GDN (sp_conv_slots (sm_plan m)) (sm_prev_tail_slot m) (sm_has_initial_states m) b1 = (Inr (), b2) \<and>
    (\<forall>i<pb_batch_size fb. \<forall>j<length (pb_miss_segments fb ! i).
       let s = fst (pb_miss_segments fb ! i ! j); c = t_data (conv_states b2) ! nat (conv_slots_of is_addition fb i ! j)
       in (\<forall>k<tail_rows is_addition fb i. next_below fb i (fst (pb_miss_segments fb ! i ! k)) s \<longrightarrow>
             conv_history (t_width t) c = last_rows (t_dim t) (t_width t) (row_slice (sm_cu_seqlens m) mixed (first_row fb i + k))) \<and>
          (\<forall>q e h. (q, e, h) \<in> set (pb_hit_segments fb ! i) \<and> next_below fb i q s \<longrightarrow>
             c = t_data t ! nat (the (map_of (pb_hit_mamba_slots fb ! i) h))))"
proof -
  let ?ms = "pb_miss_segments fb" and ?n = "pb_batch_size fb" and ?p = "plan_upto is_addition fb (pb_batch_size fb)"
  obtain m prevs where m: "init_pic_metadata is_addition fb = Inr m" "sm_plan m = ?p" "sm_cu_seqlens m = cu_seqlens 0 (map seg_len (concat ?ms))"
      "sm_prev_tail_slot m = concat prevs" "sm_has_initial_states m = map (\<lambda>s. s \<ge> 0) (concat prevs)" "map length prevs = map length ?ms"
      "\<forall>i<?n. \<forall>j<length (?ms ! i). preceding_slot (seg_positions (pb_hit_segments fb ! i) (pb_hit_mamba_slots fb ! i) (?ms ! i) (pb_miss_mamba_slots fb ! i))
         (fst (?ms ! i ! j)) (prevs ! i ! j)"
    using init_pic_metadata_ok [OF assms(1), of is_addition] by blast
  obtain data where cap: "capture_conv_tails GDN mixed (sm_cu_seqlens m) (map int (sp_persist_src ?p)) (sp_persist_dst ?p) None b = (Inr (), b\<lparr>conv_tails := Some (t\<lparr>t_data := data\<rparr>)\<rparr>)"
      "length data = length (t_data t)"
      "\<And>i j. i < ?n \<Longrightarrow> j < tail_rows is_addition fb i \<Longrightarrow> data ! nat (slot_of (pb_miss_mamba_slots fb ! i) (?ms ! i ! j)) =
         transpose_rows (t_dim t) (last_rows (t_dim t) (t_width t) (row_slice (sm_cu_seqlens m) mixed (first_row fb i + j)))"
      "\<And>x. 0 \<le> x \<Longrightarrow> x \<notin> set (all_miss_slots fb) \<Longrightarrow> data ! nat x = t_data t ! nat x"
    using batch_capture [OF assms(1-3,5,6), of is_addition] unfolding m(3) by blast
  define b1 where "b1 = b\<lparr>conv_tails := Some (t\<lparr>t_data := data\<rparr>)\<rparr>"
  let ?cs = "map (conv_slots_of is_addition fb) [0..<?n]"
  note cl = plan_rows(3) [OF assms(1), of is_addition] and ps = plan_slots(1,2) [OF assms(1,2), of is_addition]
  have cs: "sp_conv_slots ?p = concat ?cs"
    by (simp add: plan_upto_def)
  have lens: "length (concat ?cs) = length (concat prevs)" "length prevs = length ?ms" "length ?ms = ?n"
    using cl m(6) batch_okD(3) [OF assms(1)] by (auto simp: length_concat map_eq_conv dest: map_eq_imp_length_eq)
  have bound: "x < int (length (t_data t))" if "x \<in> set (concat prevs)" for x
  proof -
    obtain i j where "i < ?n" "j < length (prevs ! i)" "x = prevs ! i ! j"
      using \<open>x \<in> set (concat prevs)\<close> lens(2,3) by (auto simp: in_set_conv_nth)
    moreover from this have "j < length (?ms ! i)"
      using m(6) lens(2,3) by (metis nth_map)
    ultimately show ?thesis
      using prev_slots_bounded [OF assms(1,2)] m(7) by blast
  qed
  have lok: "load_ok (concat ?cs) (concat prevs) (map (\<lambda>s. s \<ge> 0) (concat prevs)) (length (t_data (conv_states b1))) (length (t_data (t\<lparr>t_data := data\<rparr>)))"
    using lens(1) ps bound assms(4) cap(2) unfolding load_ok_def cs b1_def by (simp del: set_concat)
  obtain b2 where ld: "load_conv_history GDN (concat ?cs) (concat prevs) (map (\<lambda>s. s \<ge> 0) (concat prevs)) b1 = (Inr (), b2)"
      "\<And>r. r < length (concat prevs) \<Longrightarrow> 0 \<le> concat prevs ! r \<Longrightarrow> t_data (conv_states b2) ! nat (concat ?cs ! r) = data ! nat (concat prevs ! r)"
    using load_run [OF _ lok, of GDN] by (auto simp: b1_def)
  have main: "t_data (conv_states b2) ! nat (conv_slots_of is_addition fb i ! j) = data ! nat (prevs ! i ! j)"
    if "i < ?n" "j < length (?ms ! i)" "0 \<le> prevs ! i ! j" for i j
    using ld(2) [of "first_row fb i + j"] batch_nth [OF m(6), of i j] batch_nth(2) [OF cl, of i j] that lens(3) by simp
  have miss: "conv_history (t_width t) (t_data (conv_states b2) ! nat (conv_slots_of is_addition fb i ! j)) =
      last_rows (t_dim t) (t_width t) (row_slice (sm_cu_seqlens m) mixed (first_row fb i + k))"
    if h: "i < ?n" "j < length (?ms ! i)" "k < tail_rows is_addition fb i" "next_below fb i (fst (?ms ! i ! k)) (fst (?ms ! i ! j))" for i j k
  proof -
    have "k < length (?ms ! i)"
      using h(3) tail_rows_le(1) order.strict_trans2 by blast
    then have k: "?ms ! i ! k \<in> set (?ms ! i)" "slot_of (pb_miss_mamba_slots fb ! i) (?ms ! i ! k) \<in> set (all_miss_slots fb)"
      using h(1) by (auto intro!: bexI [of _ i] imageI)
    have pv: "prevs ! i ! j = slot_of (pb_miss_mamba_slots fb ! i) (?ms ! i ! k)"
      by (rule preceding_next_below(1) [OF assms(1) h(1) _ k(1) h(4)]) (use m(7) h(1,2) in blast)
    have "t_data (conv_states b2) ! nat (conv_slots_of is_addition fb i ! j) =
        transpose_rows (t_dim t) (last_rows (t_dim t) (t_width t) (row_slice (sm_cu_seqlens m) mixed (first_row fb i + k)))"
      using main [OF h(1,2)] cap(3) [OF h(1,3)] pv slots_okD(2) [OF assms(2) k(2)] by simp
    then show ?thesis
      using assms(7) by (simp add: history_transpose)
  qed
  have hit: "t_data (conv_states b2) ! nat (conv_slots_of is_addition fb i ! j) = t_data t ! nat (the (map_of (pb_hit_mamba_slots fb ! i) h))"
    if g: "i < ?n" "j < length (?ms ! i)" "(q, e, h) \<in> set (pb_hit_segments fb ! i)" "next_below fb i q (fst (?ms ! i ! j))" for i j q e h
  proof -
    have pv: "prevs ! i ! j = the (map_of (pb_hit_mamba_slots fb ! i) h)"
      by (rule preceding_next_below(2) [OF assms(1) g(1) _ g(3,4)]) (use m(7) g(1,2) in blast)
    show ?thesis
      using main [OF g(1,2)] pv slots_okD(4) [OF assms(2) g(1,3)] cap(4) by simp
  qed
  show ?thesis
  proof (intro exI conjI)
    show "init_pic_metadata is_addition fb = Inr m"
      by (fact m(1))
    show "capture_conv_tails GDN mixed (sm_cu_seqlens m) (map int (sp_persist_src (sm_plan m))) (sp_persist_dst (sm_plan m)) None b = (Inr (), b1)"
      using cap(1) m(2) by (simp add: b1_def)
    show "load_conv_history GDN (sp_conv_slots (sm_plan m)) (sm_prev_tail_slot m) (sm_has_initial_states m) b1 = (Inr (), b2)"
      using ld(1) m(2,4,5) cs by simp
  qed (unfold Let_def, use miss hit in blast)
qed

text \<open>One request with segments 0-2 (missed), 2-3 (missed), 3-5 (cached) and 5-6 (missed, the question).\<close>

definition ex_batch :: pic_batch where
  "ex_batch = \<lparr>pb_batch_size = 1, pb_hit_segments = [[(3, 5, [7])]], pb_miss_segments = [[(0, 2), (2, 3), (5, 6)]],
     pb_hit_mamba_slots = [[([7], 0)]], pb_miss_mamba_slots = [[((0, 2), 1), ((2, 3), 2), ((5, 6), 3)]], pb_cache_indices = [4]\<rparr>"

definition ex_conv_tails :: "int tensor3" where
  "ex_conv_tails = \<lparr>t_dim = 1, t_width = 1, t_data = [[[90]], [[0]], [[0]], [[0]], [[0]]]\<rparr>"

lemma ex_batch_ok: "batch_ok ex_batch" "slots_ok ex_batch (length (t_data ex_conv_tails))"
  by (simp_all add: batch_ok_def slots_ok_def ex_batch_def ex_conv_tails_def slot_of_def Let_def)

theorem batch_conv_history_witness:
  "\<exists>m b1 b2. init_pic_metadata False ex_batch = Inr m \<and>
     capture_conv_tails GDN [[50], [51], [52], [55]] (sm_cu_seqlens m) (map int (sp_persist_src (sm_plan m))) (sp_persist_dst (sm_plan m)) None
       \<lparr>conv_states = ex_conv_tails, conv_tails = Some ex_conv_tails\<rparr> = (Inr (), b1) \<and>
     load_conv_history GDN (sp_conv_slots (sm_plan m)) (sm_prev_tail_slot m) (sm_has_initial_states m) b1 = (Inr (), b2) \<and>
     conv_history 1 (t_data (conv_states b2) ! 2) = [[51]] \<and> t_data (conv_states b2) ! 4 = [[90]]"
proof -
  let ?b = "\<lparr>conv_states = ex_conv_tails, conv_tails = Some ex_conv_tails\<rparr>"
  have n: "slots_ok ex_batch (length (t_data ex_conv_tails))" "t_width ex_conv_tails = 1" "t_dim ex_conv_tails = 1" "t_data ex_conv_tails ! 0 = [[90]]"
    using ex_batch_ok(2) by (simp, simp_all add: ex_conv_tails_def)
  have s: "conv_slots_of False ex_batch 0 ! 1 = 2" "conv_slots_of False ex_batch 0 ! 2 = 4" "0 < tail_rows False ex_batch 0" "0 < pb_batch_size ex_batch"
      "1 < length (pb_miss_segments ex_batch ! 0)" "2 < length (pb_miss_segments ex_batch ! 0)" "next_below ex_batch 0 0 2" "next_below ex_batch 0 3 5"
      "(3, 5, [7]) \<in> set (pb_hit_segments ex_batch ! 0)" "the (map_of (pb_hit_mamba_slots ex_batch ! 0) [7]) = 0"
      "fst (pb_miss_segments ex_batch ! 0 ! 0) = 0" "fst (pb_miss_segments ex_batch ! 0 ! 1) = 2" "fst (pb_miss_segments ex_batch ! 0 ! 2) = 5"
    by (simp_all add: ex_batch_def conv_slots_of_def tail_rows_def next_below_def slot_of_def numeral_3_eq_3 numeral_2_eq_2)
  obtain m b1 b2 where h: "init_pic_metadata False ex_batch = Inr m"
     "capture_conv_tails GDN [[50], [51], [52], [55]] (sm_cu_seqlens m) (map int (sp_persist_src (sm_plan m))) (sp_persist_dst (sm_plan m)) None ?b = (Inr (), b1)"
     "load_conv_history GDN (sp_conv_slots (sm_plan m)) (sm_prev_tail_slot m) (sm_has_initial_states m) b1 = (Inr (), b2)"
     "\<forall>i<pb_batch_size ex_batch. \<forall>j<length (pb_miss_segments ex_batch ! i).
       let s = fst (pb_miss_segments ex_batch ! i ! j); c = t_data (conv_states b2) ! nat (conv_slots_of False ex_batch i ! j)
       in (\<forall>k<tail_rows False ex_batch i. next_below ex_batch i (fst (pb_miss_segments ex_batch ! i ! k)) s \<longrightarrow>
             conv_history 1 c = last_rows 1 1 (row_slice (sm_cu_seqlens m) [[50], [51], [52], [55]] (first_row ex_batch i + k))) \<and>
          (\<forall>q e h. (q, e, h) \<in> set (pb_hit_segments ex_batch ! i) \<and> next_below ex_batch i q s \<longrightarrow>
             c = t_data ex_conv_tails ! nat (the (map_of (pb_hit_mamba_slots ex_batch ! i) h)))"
    using batch_conv_history [OF ex_batch_ok(1) n(1), of ?b "[[50], [51], [52], [55]]" False] n(2,3)
    by (auto simp: ex_batch_def ex_conv_tails_def)
  have cu: "sm_cu_seqlens m = [0, 2, 3, 4]"
  proof -
    have "map_sum id sm_cu_seqlens (init_pic_metadata False ex_batch) = Inr [0, 2, 3, 4]"
      by code_simp
    then show ?thesis
      using h(1) by simp
  qed
  have 1: "conv_history 1 (t_data (conv_states b2) ! 2) = last_rows 1 1 (row_slice (sm_cu_seqlens m) [[50], [51], [52], [55]] (first_row ex_batch 0 + 0))"
    using h(4) [rule_format, OF s(4,5), unfolded Let_def, THEN conjunct1, rule_format, OF s(3)] s by simp
  have 2: "t_data (conv_states b2) ! 4 = [[90]]"
    using h(4) [rule_format, OF s(4,6), unfolded Let_def, THEN conjunct2, rule_format, of 3 5 "[7]"] s n(4) by simp
  show ?thesis
    using h(1-3) 1 2 by (intro exI [of _ m] exI [of _ b1] exI [of _ b2]) (simp add: cu last_rows_def slice_rows_def)
qed

section \<open>Where the last convolution state of a request goes\<close>

lemma plan_conv_slot:
  assumes "batch_ok fb" "i < pb_batch_size fb" "j < length (pb_miss_segments fb ! i)"
  shows "sp_conv_slots (plan_upto ad fb (pb_batch_size fb)) ! (first_row fb i + j) = conv_slots_of ad fb i ! j"
  using batch_nth(2) [OF plan_rows(3) [OF assms(1), where ad = ad], of i j] assms batch_okD(3) [OF assms(1)] by (simp add: plan_upto_def)

text \<open>C33. A request with a cached segment and the question as its only missed segment: the transition plan lets the question convolve in the
  slot of the request, from which decoding continues. The addition plan counts no cached segments, takes the request for one with a single
  segment, and lets the question convolve in its segment slot; no segment of the batch writes the convolution state of the request.\<close>

theorem addition_misplaces_conv_state:
  assumes "batch_ok fb" "slots_ok fb n" "i < pb_batch_size fb" "length (pb_miss_segments fb ! i) = 1" "pb_hit_segments fb ! i \<noteq> []"
  shows "\<exists>mt ma. init_pic_metadata False fb = Inr mt \<and> init_pic_metadata True fb = Inr ma \<and>
    sp_conv_slots (sm_plan mt) ! first_row fb i = pb_cache_indices fb ! i \<and>
    sp_conv_slots (sm_plan ma) ! first_row fb i = slot_of (pb_miss_mamba_slots fb ! i) (hd (pb_miss_segments fb ! i)) \<and>
    pb_cache_indices fb ! i \<notin> set (sp_conv_slots (sm_plan ma))"
proof -
  let ?k = "pb_batch_size fb"
  obtain mt ma where m: "init_pic_metadata False fb = Inr mt" "sm_plan mt = plan_upto False fb ?k" "init_pic_metadata True fb = Inr ma" "sm_plan ma = plan_upto True fb ?k"
    using init_pic_metadata_ok [OF assms(1), of False] init_pic_metadata_ok [OF assms(1), of True] by blast
  obtain sg where sg: "pb_miss_segments fb ! i = [sg]"
    using assms(4) by (cases "pb_miss_segments fb ! i") auto
  have t: "tail_rows False fb i = 0" "tail_rows True fb i = 1"
    using assms(5) sg by (auto simp: tail_rows_def)
  have c: "conv_slots_of False fb i = [pb_cache_indices fb ! i]" "conv_slots_of True fb i = [slot_of (pb_miss_mamba_slots fb ! i) sg]"
    using sg t by (simp_all add: conv_slots_of_def)
  have cd: "distinct (pb_cache_indices fb)" "pb_cache_indices fb ! i \<in> set (pb_cache_indices fb)"
      "set (all_miss_slots fb) \<inter> set (pb_cache_indices fb) = {}" "length (pb_cache_indices fb) = ?k"
    using slots_okD(1) [OF assms(2)] batch_okD(6) [OF assms(1)] assms(3) by (simp_all only: distinct_append) auto
  have nd: "pb_cache_indices fb ! i \<notin> set (all_miss_slots fb)"
    using cd(2,3) by (metis disjoint_iff)
  have "pb_cache_indices fb ! i \<notin> set (conv_slots_of True fb k)" if k: "k < ?k" for k
  proof (cases "k = i")
    case True
    have "slot_of (pb_miss_mamba_slots fb ! i) sg \<in> set (all_miss_slots fb)"
      using sg assms(3) by (auto intro!: bexI [of _ i])
    then have "slot_of (pb_miss_mamba_slots fb ! i) sg \<noteq> pb_cache_indices fb ! i"
      using cd(2,3) by (metis disjoint_iff)
    then show ?thesis
      using True c(2) by simp
  next
    case False
    have sub: "set (conv_slots_of True fb k) \<subseteq> set (all_miss_slots fb) \<union> {pb_cache_indices fb ! k}"
      unfolding conv_slots_of_split using k by (auto dest!: in_set_takeD intro!: bexI [of _ k])
    have ne: "pb_cache_indices fb ! i \<noteq> pb_cache_indices fb ! k"
      using cd(1,4) k assms(3) False by (simp add: nth_eq_iff_index_eq)
    show ?thesis
    proof
      assume "pb_cache_indices fb ! i \<in> set (conv_slots_of True fb k)"
      with sub have "pb_cache_indices fb ! i \<in> set (all_miss_slots fb) \<union> {pb_cache_indices fb ! k}"
        by (rule subsetD)
      then show False
        by (elim UnE singletonE notE [OF nd] notE [OF ne])
    qed
  qed
  then have "pb_cache_indices fb ! i \<notin> set (sp_conv_slots (sm_plan ma))"
    unfolding m(4) by (auto simp: plan_upto_def)
  moreover have "sp_conv_slots (sm_plan mt) ! first_row fb i = pb_cache_indices fb ! i"
      "sp_conv_slots (sm_plan ma) ! first_row fb i = slot_of (pb_miss_mamba_slots fb ! i) (hd (pb_miss_segments fb ! i))"
    using plan_conv_slot [OF assms(1,3), of 0] sg c by (simp_all add: m(2,4))
  ultimately show ?thesis
    using m(1,3) by blast
qed

theorem addition_misplaces_conv_state_witness:
  "\<exists>ma. init_pic_metadata True (ex_batch\<lparr>pb_miss_segments := [[(5, 6)]]\<rparr>) = Inr ma \<and> sp_conv_slots (sm_plan ma) = [3] \<and>
     pb_cache_indices ex_batch ! 0 = 4 \<and> 4 \<notin> set (sp_conv_slots (sm_plan ma))"
proof -
  let ?fb = "ex_batch\<lparr>pb_miss_segments := [[(5, 6)]]\<rparr>"
  have ok: "batch_ok ?fb" "slots_ok ?fb 5"
    by (simp_all add: batch_ok_def slots_ok_def ex_batch_def slot_of_def Let_def)
  have "map_sum id (sp_conv_slots \<circ> sm_plan) (init_pic_metadata True ?fb) = Inr [3]"
    by code_simp
  then show ?thesis
    using addition_misplaces_conv_state [OF ok, of 0] by (auto simp: ex_batch_def)
qed

end
