(* ===== verification/Gdn_Compose.thy ===== *)
theory Gdn_Compose
  imports Gdn_Metadata
begin

text \<open>
  The recurrent state of the linear-attention layers under PIC (\<open>forward_extend_pic_addition\<close> and \<open>forward_extend_pic_transition\<close>
  of \<open>layers/attention/linear/gdn_backend.py\<close>): the states of missed segments are computed by the kernels, stored under the
  segments' slots, and composed with the states of cached segments in position order. Matrix arithmetic (\<open>torch.bmm\<close>) and the chunked
  kernels are parameters; rounding is not modelled.
\<close>

section \<open>Parameters and pools\<close>

text \<open>\<open>k_fwd_h\<close> advances a state over the rows of a segment, \<open>k_fwd_t\<close> is the same kernel with \<open>u = 0\<close> on a transition matrix,
  \<open>k_fwd_o\<close> gives the outputs of a segment entered with a state, and \<open>k_eye\<close> is the identity matrix.\<close>

record ('x, 'h, 't, 'o) gdn_kernels =
  k_bmm :: "'h \<Rightarrow> 't \<Rightarrow> 'h"
  k_fwd_h :: "'x list \<Rightarrow> 'h \<Rightarrow> 'h"
  k_fwd_t :: "'x list \<Rightarrow> 't \<Rightarrow> 't"
  k_fwd_o :: "'x list \<Rightarrow> 'h \<Rightarrow> 'o"
  k_eye :: 't

record ('h, 't) state_pool =
  ssm_states :: "'h list"
  transition_pool :: "'t list"

definition pool_row :: "'a list \<Rightarrow> int \<Rightarrow> 'a result" where
  "pool_row xs i = (case norm_index (length xs) i of Inl e \<Rightarrow> Inl e | Inr j \<Rightarrow> Inr (xs ! j))"

definition persist_ssm :: "nat list \<Rightarrow> int list \<Rightarrow> 'h list \<Rightarrow> (('h, 't) state_pool, unit) pym" where
  "persist_ssm src dst temp_states =
     (if src = [] then retM ()
      else bindM (liftM (map_result (\<lambda>r. pool_row temp_states (int r)) src)) (\<lambda>vs.
           bindM (getsM ssm_states) (\<lambda>ss.
           bindM (liftM (put_rows dst vs ss)) (\<lambda>ss'. modifyM (\<lambda>p. p\<lparr>ssm_states := ss'\<rparr>)))))"

definition persist_transitions :: "nat list \<Rightarrow> int list \<Rightarrow> 't list \<Rightarrow> (('h, 't) state_pool, unit) pym" where
  "persist_transitions src dst temp_transitions =
     (if src = [] then retM ()
      else bindM (liftM (map_result (\<lambda>r. pool_row temp_transitions (int r)) src)) (\<lambda>vs.
           bindM (getsM transition_pool) (\<lambda>ts.
           bindM (liftM (put_rows dst vs ts)) (\<lambda>ts'. modifyM (\<lambda>p. p\<lparr>transition_pool := ts'\<rparr>)))))"

definition write_finals :: "int list \<Rightarrow> 'h list \<Rightarrow> (('h, 't) state_pool, unit) pym" where
  "write_finals dst hs =
     bindM (getsM ssm_states) (\<lambda>ss. bindM (liftM (put_rows dst hs ss)) (\<lambda>ss'. modifyM (\<lambda>p. p\<lparr>ssm_states := ss'\<rparr>)))"

section \<open>Addition\<close>

text \<open>The first missed segment of a request starts from the sum of the states of its cached segments, the others from zero.\<close>

fun seed_states :: "('h, 't) state_pool \<Rightarrow> pic_batch \<Rightarrow> nat list \<Rightarrow> nat \<Rightarrow> 'h::{zero, plus} list \<Rightarrow> 'h list result" where
  "seed_states p fb [] cursor temp = Inr temp"
| "seed_states p fb (i # is) cursor temp =
     (case per_req [] (pb_hit_mamba_slots fb) i of Inl e \<Rightarrow> Inl e | Inr hit_slots \<Rightarrow>
     (case select_row (pb_miss_segments fb) (int i) of Inl e \<Rightarrow> Inl e | Inr misses \<Rightarrow>
      let n = length misses
      in if 0 < n \<and> hit_slots \<noteq> []
         then (case select_rows (ssm_states p) (map snd hit_slots) of Inl e \<Rightarrow> Inl e
               | Inr hs \<Rightarrow> if length temp \<le> cursor then Inl IndexError
                           else seed_states p fb is (cursor + n) (temp[cursor := foldl (+) 0 hs]))
         else seed_states p fb is (cursor + n) temp))"

definition forward_extend_pic_addition ::
  "('x, 'h::{zero, plus}, 't, 'o) gdn_kernels \<Rightarrow> 'x list \<Rightarrow> pic_batch \<Rightarrow> seg_meta \<Rightarrow> (('h, 't) state_pool, 'o list) pym" where
  "forward_extend_pic_addition K xs fb m =
     bindM (getsM (\<lambda>p. seed_states p fb [0..<pb_batch_size fb] 0 (replicate (length (sm_seg_indices m)) 0))) (\<lambda>seeded.
     bindM (liftM seeded) (\<lambda>temp0.
     let seg = row_slice (sm_cu_seqlens m) xs;
         outs = map (\<lambda>r. k_fwd_o K (seg r) (temp0 ! r)) (sm_seg_indices m);
         temp = map (\<lambda>r. k_fwd_h K (seg r) (temp0 ! r)) (sm_seg_indices m)
     in bindM (persist_ssm (sp_trans_src (sm_plan m)) (sp_trans_dst (sm_plan m)) temp) (\<lambda>_.
        bindM (liftM (map_result (pool_row temp) (sm_req_last_miss_payload m))) (\<lambda>finals.
        bindM (write_finals (sm_req_dst_indices m) finals) (\<lambda>_. retM outs)))))"

section \<open>Transition\<close>

fun compose_req :: "('x, 'h::plus, 't, 'o) gdn_kernels \<Rightarrow> ('h, 't) state_pool \<Rightarrow> (int \<times> nat option) list \<Rightarrow> 'h list \<Rightarrow> 'h \<Rightarrow> ('h list \<times> 'h) result" where
  "compose_req K p [] h0s h = Inr (h0s, h)"
| "compose_req K p ((slot, payload) # rest) h0s h =
     (case (case payload of None \<Rightarrow> Inr h0s | Some r \<Rightarrow> if r < length h0s then Inr (h0s[r := h]) else Inl IndexError) of
        Inl e \<Rightarrow> Inl e
      | Inr h0s' \<Rightarrow>
          (case pool_row (transition_pool p) slot of Inl e \<Rightarrow> Inl e | Inr T \<Rightarrow>
          (case pool_row (ssm_states p) slot of Inl e \<Rightarrow> Inl e | Inr S \<Rightarrow> compose_req K p rest h0s' (k_bmm K h T + S))))"

fun compose_reqs ::
  "('x, 'h::{zero, plus}, 't, 'o) gdn_kernels \<Rightarrow> ('h, 't) state_pool \<Rightarrow> (int \<times> nat option) list list \<Rightarrow> 'h list \<Rightarrow> ('h list \<times> 'h list) result" where
  "compose_reqs K p [] h0s = Inr (h0s, [])"
| "compose_reqs K p (ord # ords) h0s =
     (case compose_req K p ord h0s 0 of Inl e \<Rightarrow> Inl e | Inr (h0s', h) \<Rightarrow>
     (case compose_reqs K p ords h0s' of Inl e \<Rightarrow> Inl e | Inr (h0s'', hs) \<Rightarrow> Inr (h0s'', h # hs)))"

text \<open>Returns the states the segments of the batch are entered with in the last pass, and their outputs.\<close>

definition forward_extend_pic_transition ::
  "('x, 'h::{zero, plus}, 't, 'o) gdn_kernels \<Rightarrow> 'x list \<Rightarrow> seg_meta \<Rightarrow> (('h, 't) state_pool, 'h list \<times> 'o list) pym" where
  "forward_extend_pic_transition K xs m =
     (let seg = row_slice (sm_cu_seqlens m) xs;
          temp_states = map (\<lambda>r. k_fwd_h K (seg r) 0) (sm_seg_indices m);
          temp_transitions = map (\<lambda>r. k_fwd_t K (seg r) (k_eye K)) (sm_seg_indices m);
          src = sp_trans_src (sm_plan m); dst = sp_trans_dst (sm_plan m)
      in bindM (persist_ssm src dst temp_states) (\<lambda>_.
         bindM (persist_transitions src dst temp_transitions) (\<lambda>_.
         bindM (getsM (\<lambda>p. compose_reqs K p (sp_compose_order (sm_plan m)) (replicate (length (sm_seg_indices m)) 0))) (\<lambda>composed.
         bindM (liftM composed) (\<lambda>(kernel_h0, h_accum).
         bindM (write_finals (sm_req_dst_indices m) h_accum) (\<lambda>_.
         retM (kernel_h0, map (\<lambda>r. k_fwd_o K (seg r) (kernel_h0 ! r)) (sm_seg_indices m))))))))"

section \<open>The recurrence\<close>

text \<open>What is used of the kernels and of matrix arithmetic: a segment is a sequence of affine steps \<open>h @ gate x + upd x\<close>, the kernel with
  \<open>u = 0\<close> multiplies the gates, and \<open>bmm\<close> is a right action of the gates that distributes over sums of states.\<close>

definition recur :: "('x, 'h::plus, 't, 'o) gdn_kernels \<Rightarrow> ('x \<Rightarrow> 't) \<Rightarrow> ('x \<Rightarrow> 'h) \<Rightarrow> 'x list \<Rightarrow> 'h \<Rightarrow> 'h" where
  "recur K gate upd xs h = fold (\<lambda>x h. k_bmm K h (gate x) + upd x) xs h"

definition kernels_ok ::
  "('x, 'h::comm_monoid_add, 't::monoid_mult, 'o) gdn_kernels \<Rightarrow> ('x \<Rightarrow> 't) \<Rightarrow> ('x \<Rightarrow> 'h) \<Rightarrow> bool" where
  "kernels_ok K gate upd \<longleftrightarrow> k_eye K = 1 \<and>
     (\<forall>xs h. k_fwd_h K xs h = recur K gate upd xs h) \<and> (\<forall>xs M. k_fwd_t K xs M = fold (\<lambda>x M. M * gate x) xs M) \<and>
     (\<forall>h M N. k_bmm K h (M * N) = k_bmm K (k_bmm K h M) N) \<and> (\<forall>h. k_bmm K h 1 = h) \<and> (\<forall>M. k_bmm K 0 M = 0) \<and>
     (\<forall>h h' M. k_bmm K (h + h') M = k_bmm K h M + k_bmm K h' M)"

lemma kernels_okD:
  assumes "kernels_ok K gate upd"
  shows "k_eye K = 1" "k_fwd_h K xs h = recur K gate upd xs h" "k_fwd_t K xs M = fold (\<lambda>x M. M * gate x) xs M"
    "k_bmm K h (M * N) = k_bmm K (k_bmm K h M) N" "k_bmm K h 1 = h" "k_bmm K 0 M = 0" "k_bmm K (h + h') M = k_bmm K h M + k_bmm K h' M"
  using assms unfolding kernels_ok_def by blast+

lemma recur_append: "recur K gate upd (xs @ ys) h = recur K gate upd ys (recur K gate upd xs h)"
  by (simp add: recur_def)

lemma segment_affine:
  assumes "kernels_ok K gate upd"
  shows "recur K gate upd xs h = k_bmm K h (k_fwd_t K xs (k_eye K)) + k_fwd_h K xs 0"
proof -
  note K = kernels_okD [OF assms]
  have "recur K gate upd xs h = k_bmm K h (fold (\<lambda>x M. M * gate x) xs 1) + recur K gate upd xs 0"
  proof (induction xs rule: rev_induct)
    case Nil
    then show ?case
      by (simp add: recur_def K(5))
  next
    case (snoc x xs)
    have "recur K gate upd (xs @ [x]) h = k_bmm K (recur K gate upd xs h) (gate x) + upd x"
      by (simp add: recur_def)
    also have "\<dots> = k_bmm K h (fold (\<lambda>x M. M * gate x) xs 1 * gate x) + (k_bmm K (recur K gate upd xs 0) (gate x) + upd x)"
      by (simp add: snoc K(4,7) add.assoc)
    finally show ?case
      by (simp add: recur_def)
  qed
  then show ?thesis
    by (simp add: K(1-3))
qed

section \<open>The composition loop\<close>

text \<open>A segment of a composition order together with the rows whose state and transition its slot holds.\<close>

definition holds_segment :: "('x, 'h::zero, 't, 'o) gdn_kernels \<Rightarrow> ('h, 't) state_pool \<Rightarrow> int \<Rightarrow> 'x list \<Rightarrow> bool" where
  "holds_segment K p slot F \<longleftrightarrow> pool_row (ssm_states p) slot = Inr (k_fwd_h K F 0) \<and> pool_row (transition_pool p) slot = Inr (k_fwd_t K F (k_eye K))"

lemma compose_req_exact:
  assumes "kernels_ok K gate upd" "\<forall>((slot, r), F)\<in>set es. holds_segment K p slot F"
    "\<forall>r\<in>set (List.map_filter (\<lambda>e. snd (fst e)) es). r < length h0s" "distinct (List.map_filter (\<lambda>e. snd (fst e)) es)"
  shows "\<exists>h0s'. compose_req K p (map fst es) h0s h = Inr (h0s', recur K gate upd (concat (map snd es)) h) \<and> length h0s' = length h0s \<and>
    (\<forall>k<length es. \<forall>r. snd (fst (es ! k)) = Some r \<longrightarrow> h0s' ! r = recur K gate upd (concat (map snd (take k es))) h) \<and>
    (\<forall>r. r \<notin> set (List.map_filter (\<lambda>e. snd (fst e)) es) \<longrightarrow> h0s' ! r = h0s ! r)"
  using assms(2-4)
proof (induction es arbitrary: h0s h)
  case Nil
  then show ?case
    by (simp add: recur_def)
next
  case (Cons e es)
  obtain slot r F where e: "e = ((slot, r), F)"
    by (metis prod.collapse)
  define h1 where "h1 = recur K gate upd F h"
  define h0s1 where "h0s1 = (case r of None \<Rightarrow> h0s | Some r \<Rightarrow> h0s[r := h])"
  have hold: "holds_segment K p slot F"
    using Cons.prems(1) e by simp
  have r: "\<And>x. r = Some x \<Longrightarrow> x < length h0s \<and> x \<notin> set (List.map_filter (\<lambda>e. snd (fst e)) es)"
    using Cons.prems(2,3) e by (auto simp: List.map_filter_simps)
  have "\<forall>((slot, r), F)\<in>set es. holds_segment K p slot F" "\<forall>x\<in>set (List.map_filter (\<lambda>e. snd (fst e)) es). x < length h0s1"
      "distinct (List.map_filter (\<lambda>e. snd (fst e)) es)"
    using Cons.prems e by (auto simp: List.map_filter_simps h0s1_def split: option.splits)
  from Cons.IH [OF this, of h1] obtain h0s' where IH: "compose_req K p (map fst es) h0s1 h1 = Inr (h0s', recur K gate upd (concat (map snd es)) h1)"
      "length h0s' = length h0s1" "\<And>k x. k < length es \<Longrightarrow> snd (fst (es ! k)) = Some x \<Longrightarrow> h0s' ! x = recur K gate upd (concat (map snd (take k es))) h1"
      "\<And>x. x \<notin> set (List.map_filter (\<lambda>e. snd (fst e)) es) \<Longrightarrow> h0s' ! x = h0s1 ! x"
    by blast
  have step: "compose_req K p (map fst (e # es)) h0s h = compose_req K p (map fst es) h0s1 h1"
    using hold r segment_affine [OF assms(1), of F h] by (auto simp: e holds_segment_def h0s1_def h1_def split: option.split)
  have len: "length h0s1 = length h0s"
    by (simp add: h0s1_def split: option.split)
  have keep: "h0s' ! x = h0s ! x" if "x \<notin> set (List.map_filter (\<lambda>e. snd (fst e)) (e # es))" for x
    using that IH(4) [of x] by (cases r) (auto simp: e List.map_filter_simps h0s1_def)
  have seed: "h0s' ! x = recur K gate upd (concat (map snd (take k (e # es)))) h" if "k < length (e # es)" "snd (fst ((e # es) ! k)) = Some x" for k x
  proof (cases k)
    case 0
    then have "r = Some x"
      using that(2) e by simp
    then show ?thesis
      using 0 r IH(4) [of x] by (simp add: h0s1_def recur_def)
  next
    case (Suc k')
    then show ?thesis
      using IH(3) [of k' x] that by (simp add: e h1_def recur_append)
  qed
  show ?case
    using IH(1,2) step len keep seed by (intro exI [of _ h0s']) (simp add: e h1_def recur_append)
qed

abbreviation payloads :: "((int \<times> nat option) \<times> 'x list) list \<Rightarrow> nat list" where
  "payloads es \<equiv> List.map_filter (\<lambda>e. snd (fst e)) es"

definition seeds_ok :: "('x, 'h::{zero, plus}, 't, 'o) gdn_kernels \<Rightarrow> ('x \<Rightarrow> 't) \<Rightarrow> ('x \<Rightarrow> 'h) \<Rightarrow> ((int \<times> nat option) \<times> 'x list) list \<Rightarrow> 'h list \<Rightarrow> bool" where
  "seeds_ok K gate upd es h0s \<longleftrightarrow>
     (\<forall>k<length es. \<forall>r. snd (fst (es ! k)) = Some r \<longrightarrow> h0s ! r = recur K gate upd (concat (map snd (take k es))) 0)"

lemma seeds_ok_cong: "seeds_ok K gate upd es h0s \<Longrightarrow> (\<And>r. r \<in> set (payloads es) \<Longrightarrow> h0s' ! r = h0s ! r) \<Longrightarrow> seeds_ok K gate upd es h0s'"
  unfolding seeds_ok_def
proof (intro allI impI)
  fix k r
  assume h: "\<forall>k<length es. \<forall>r. snd (fst (es ! k)) = Some r \<longrightarrow> h0s ! r = recur K gate upd (concat (map snd (take k es))) 0"
    "\<And>r. r \<in> set (payloads es) \<Longrightarrow> h0s' ! r = h0s ! r" "k < length es" "snd (fst (es ! k)) = Some r"
  have "r \<in> set (payloads es)"
    using h(3,4) nth_mem [OF h(3)] by (force simp: List.map_filter_def)
  then show "h0s' ! r = recur K gate upd (concat (map snd (take k es))) 0"
    using h by simp
qed

lemma compose_reqs_exact:
  assumes "kernels_ok K gate upd" "\<forall>es\<in>set ess. \<forall>((slot, r), F)\<in>set es. holds_segment K p slot F"
    "\<forall>r\<in>set (concat (map payloads ess)). r < length h0s" "distinct (concat (map payloads ess))"
  shows "\<exists>h0s'. compose_reqs K p (map (map fst) ess) h0s = Inr (h0s', map (\<lambda>es. recur K gate upd (concat (map snd es)) 0) ess) \<and>
    length h0s' = length h0s \<and> (\<forall>es\<in>set ess. seeds_ok K gate upd es h0s') \<and> (\<forall>r. r \<notin> set (concat (map payloads ess)) \<longrightarrow> h0s' ! r = h0s ! r)"
  using assms(2-4)
proof (induction ess arbitrary: h0s)
  case (Cons es ess)
  obtain h1 where h1: "compose_req K p (map fst es) h0s 0 = Inr (h1, recur K gate upd (concat (map snd es)) 0)" "length h1 = length h0s"
      "seeds_ok K gate upd es h1" "\<And>r. r \<notin> set (payloads es) \<Longrightarrow> h1 ! r = h0s ! r"
    using compose_req_exact [OF assms(1), of es p h0s 0] Cons.prems unfolding seeds_ok_def by auto
  have prem: "\<forall>es\<in>set ess. \<forall>((slot, r), F)\<in>set es. holds_segment K p slot F" "\<forall>r\<in>set (concat (map payloads ess)). r < length h1"
      "distinct (concat (map payloads ess))"
    using Cons.prems h1(2) by auto
  obtain h2 where h2: "compose_reqs K p (map (map fst) ess) h1 = Inr (h2, map (\<lambda>es. recur K gate upd (concat (map snd es)) 0) ess)" "length h2 = length h1"
      "\<forall>es\<in>set ess. seeds_ok K gate upd es h2" "\<And>r. r \<notin> set (concat (map payloads ess)) \<Longrightarrow> h2 ! r = h1 ! r"
    using Cons.IH [OF prem] by blast
  have dj: "r \<notin> set (concat (map payloads ess))" if "r \<in> set (payloads es)" for r
    using Cons.prems(3) that by auto
  have "seeds_ok K gate upd es h2"
    by (rule seeds_ok_cong [OF h1(3)]) (use h2(4) dj in blast)
  moreover have "h2 ! r = h0s ! r" if "r \<notin> set (concat (map payloads (es # ess)))" for r
    using that h1(4) [of r] h2(4) [of r] by simp
  ultimately show ?case
    using h1(1,2) h2(1-3) by (intro exI [of _ h2]) simp
qed simp

section \<open>The segments of a request\<close>

text \<open>The segments of request \<open>i\<close> in text order: slot, row of the batch if computed, and the rows of the segment, where \<open>HF\<close> gives the
  rows a cached segment was computed from.\<close>

definition req_segments :: "pic_batch \<Rightarrow> (bytes \<Rightarrow> 'x list) \<Rightarrow> (nat \<Rightarrow> 'x list) \<Rightarrow> nat \<Rightarrow> ((int \<times> nat option) \<times> 'x list) list" where
  "req_segments fb HF F i = map snd (sort_key fst
     (map (\<lambda>(s, e, h). (s, (the (map_of (pb_hit_mamba_slots fb ! i) h), None), HF h)) (pb_hit_segments fb ! i) @
      map (\<lambda>(j, s, e). (s, (slot_of (pb_miss_mamba_slots fb ! i) (s, e), Some (first_row fb i + j)), F (first_row fb i + j)))
        (List.enumerate 0 (pb_miss_segments fb ! i))))"

lemma sort_key_map: "sort_key f (map g xs) = map g (sort_key (f \<circ> g) xs)"
proof -
  have "insort_key f (g x) (map g ys) = map g (insort_key (f \<circ> g) x ys)" for x ys
    by (induction ys) simp_all
  then show ?thesis
    by (induction xs) simp_all
qed

lemma req_segments_order: "map fst (req_segments fb HF F i) = order_of fb i"
proof -
  let ?zs = "map (\<lambda>(s, e, h). (s, (the (map_of (pb_hit_mamba_slots fb ! i) h), None), HF h)) (pb_hit_segments fb ! i) @
      map (\<lambda>(j, s, e). (s, (slot_of (pb_miss_mamba_slots fb ! i) (s, e), Some (first_row fb i + j)), F (first_row fb i + j)))
        (List.enumerate 0 (pb_miss_segments fb ! i))"
  let ?g = "\<lambda>z. (fst z, fst (snd z))"
  have "order_of fb i = map snd (sort_key fst (map ?g ?zs))"
    unfolding order_of_def by (intro arg_cong [of _ _ "\<lambda>x. map snd (sort_key fst x)"]) (auto simp: case_prod_beta)
  also have "\<dots> = map fst (req_segments fb HF F i)"
    unfolding req_segments_def sort_key_map by (simp add: comp_def)
  finally show ?thesis ..
qed

lemma enumerate_upt: "List.enumerate 0 xs = map (\<lambda>j. (j, xs ! j)) [0..<length xs]"
  by (intro nth_equalityI) (simp_all add: nth_enumerate_eq)

lemma req_segments_set:
  "set (req_segments fb HF F i) =
     (\<lambda>(s, t, h). ((the (map_of (pb_hit_mamba_slots fb ! i) h), None), HF h)) ` set (pb_hit_segments fb ! i) \<union>
     (\<lambda>j. ((slot_of (pb_miss_mamba_slots fb ! i) (pb_miss_segments fb ! i ! j), Some (first_row fb i + j)), F (first_row fb i + j))) `
       {..<length (pb_miss_segments fb ! i)}"
  by (simp add: req_segments_def enumerate_upt image_Un image_image case_prod_beta atLeast0LessThan)

lemma req_segments_payloads: "mset (payloads (req_segments fb HF F i)) = mset [first_row fb i..<first_row fb i + length (pb_miss_segments fb ! i)]"
proof -
  let ?hits = "map (\<lambda>(s, e, h). (s, (the (map_of (pb_hit_mamba_slots fb ! i) h), None :: nat option), HF h)) (pb_hit_segments fb ! i)"
  let ?miss = "map (\<lambda>(j, s, e). (s, (slot_of (pb_miss_mamba_slots fb ! i) (s, e), Some (first_row fb i + j)), F (first_row fb i + j)))
        (List.enumerate 0 (pb_miss_segments fb ! i))"
  have "mset (List.map_filter f (map snd (sort_key k zs))) = mset (List.map_filter (f \<circ> snd) zs)" for f :: "'b \<Rightarrow> nat option" and k :: "'c \<times> 'b \<Rightarrow> nat" and zs
    by (simp add: List.map_filter_def filter_map comp_def)
  then have "mset (payloads (req_segments fb HF F i)) = mset (List.map_filter ((\<lambda>e. snd (fst e)) \<circ> snd) (?hits @ ?miss))"
    unfolding req_segments_def by blast
  also have "List.map_filter ((\<lambda>e. snd (fst e)) \<circ> snd) (?hits @ ?miss) = map (\<lambda>x. first_row fb i + fst x) (List.enumerate 0 (pb_miss_segments fb ! i))"
    by (simp add: List.map_filter_def filter_map comp_def case_prod_beta)
  also have "\<dots> = [first_row fb i..<first_row fb i + length (pb_miss_segments fb ! i)]"
    by (intro nth_equalityI) (simp_all add: nth_enumerate_eq)
  finally show ?thesis .
qed

section \<open>Storing states\<close>

lemma pool_row_in: "0 \<le> x \<Longrightarrow> x < int (length xs) \<Longrightarrow> pool_row xs x = Inr (xs ! nat x)"
  by (simp add: pool_row_def norm_index_def)

lemma gather_all: "map_result (\<lambda>r. pool_row xs (int r)) [0..<length xs] = Inr xs"
  by (subst map_result_Inr [where g = "\<lambda>r. xs ! r"]) (simp_all add: pool_row_in map_nth)

lemma map_result_map: "map_result f (map g xs) = map_result (f \<circ> g) xs"
  by (induction xs) (auto split: sum.splits)

lemma persist_ssm_run:
  assumes "length dst = length temp" "\<forall>x\<in>set dst. 0 \<le> x \<and> x < int (length (ssm_states p))"
  shows "persist_ssm [0..<length temp] dst temp p = (Inr (), p\<lparr>ssm_states := write_rows (zip (map nat dst) temp) (ssm_states p)\<rparr>)"
  using assms gather_all [of temp] by (cases "temp = []"; simp add: persist_ssm_def put_rows_ok)

lemma persist_transitions_run:
  assumes "length dst = length temp" "\<forall>x\<in>set dst. 0 \<le> x \<and> x < int (length (transition_pool p))"
  shows "persist_transitions [0..<length temp] dst temp p = (Inr (), p\<lparr>transition_pool := write_rows (zip (map nat dst) temp) (transition_pool p)\<rparr>)"
  using assms gather_all [of temp] by (cases "temp = []"; simp add: persist_transitions_def put_rows_ok)

lemma write_finals_run:
  assumes "length dst = length hs" "\<forall>x\<in>set dst. 0 \<le> x \<and> x < int (length (ssm_states p))"
  shows "write_finals dst hs p = (Inr (), p\<lparr>ssm_states := write_rows (zip (map nat dst) hs) (ssm_states p)\<rparr>)"
  using assms by (simp add: write_finals_def put_rows_ok)

lemma miss_slot_nth:
  assumes "batch_ok fb" "i < pb_batch_size fb" "j < length (pb_miss_segments fb ! i)"
  shows "first_row fb i + j < length (all_miss_slots fb)" "all_miss_slots fb ! (first_row fb i + j) = slot_of (pb_miss_mamba_slots fb ! i) (pb_miss_segments fb ! i ! j)"
    "slot_of (pb_miss_mamba_slots fb ! i) (pb_miss_segments fb ! i ! j) \<in> set (all_miss_slots fb)"
proof -
  have l: "map length (map (miss_slots_of fb) [0..<pb_batch_size fb]) = map length (pb_miss_segments fb)"
    using batch_okD(3) [OF assms(1)] by (intro nth_equalityI) auto
  show 1: "first_row fb i + j < length (all_miss_slots fb)" "all_miss_slots fb ! (first_row fb i + j) = slot_of (pb_miss_mamba_slots fb ! i) (pb_miss_segments fb ! i ! j)"
    using batch_nth [OF l, of i j] assms batch_okD(3) [OF assms(1)] by simp_all
  show "slot_of (pb_miss_mamba_slots fb ! i) (pb_miss_segments fb ! i ! j) \<in> set (all_miss_slots fb)"
    using nth_mem [OF 1(1)] 1(2) by simp
qed

lemma write_slots:
  assumes "slots_ok fb n" "length xs = n"
  defines "d \<equiv> all_miss_slots fb"
  shows "r < length d \<Longrightarrow> write_rows (zip (map nat d) (map f [0..<length d])) xs ! nat (d ! r) = f r"
    "0 \<le> x \<Longrightarrow> x \<notin> set d \<Longrightarrow> write_rows (zip (map nat d) vs) xs ! nat x = xs ! nat x"
proof -
  have rng: "0 \<le> x \<and> x < int n" if "x \<in> set d" for x
    using slots_okD(2) [OF assms(1)] that by (simp add: d_def)
  have "inj_on nat (set d)"
    by (rule inj_on_inverseI [of _ int]) (use rng in simp)
  moreover have "distinct d"
    using slots_okD(1) [OF assms(1)] unfolding d_def by (simp only: distinct_append)
  ultimately have dn: "distinct (map nat d)"
    by (simp add: distinct_map)
  show "write_rows (zip (map nat d) (map f [0..<length d])) xs ! nat (d ! r) = f r" if "r < length d"
    using write_rows_nth [OF dn, of "map f [0..<length d]" r xs] that rng [OF nth_mem [OF that]] assms(2) by (simp add: nat_less_iff)
  show "write_rows (zip (map nat d) vs) xs ! nat x = xs ! nat x" if x: "0 \<le> x" "x \<notin> set d"
  proof (rule write_rows_other)
    have "nat x \<noteq> nat y" if "y \<in> set d" for y
      using x that rng [OF that] by (metis nat_eq_iff2 int_nat_eq)
    then have "nat x \<notin> set (map nat d)"
      by auto
    then show "nat x \<notin> fst ` set (zip (map nat d) vs)"
      using set_zip_leftD [of _ _ "map nat d" vs] by (auto simp del: set_map)
  qed
qed

text \<open>After storing, the slot of every missed segment holds the states of its rows, and no other slot has changed.\<close>

definition store_segments :: "('x, 'h::zero, 't, 'o) gdn_kernels \<Rightarrow> pic_batch \<Rightarrow> (nat \<Rightarrow> 'x list) \<Rightarrow> ('h, 't) state_pool \<Rightarrow> ('h, 't) state_pool" where
  "store_segments K fb F p = (let d = all_miss_slots fb in
     p\<lparr>ssm_states := write_rows (zip (map nat d) (map (\<lambda>r. k_fwd_h K (F r) 0) [0..<length d])) (ssm_states p),
       transition_pool := write_rows (zip (map nat d) (map (\<lambda>r. k_fwd_t K (F r) (k_eye K)) [0..<length d])) (transition_pool p)\<rparr>)"

lemma stored_segments:
  assumes "batch_ok fb" "slots_ok fb n" "length (ssm_states p) = n" "length (transition_pool p) = n"
  shows "i < pb_batch_size fb \<Longrightarrow> j < length (pb_miss_segments fb ! i) \<Longrightarrow>
      holds_segment K (store_segments K fb F p) (slot_of (pb_miss_mamba_slots fb ! i) (pb_miss_segments fb ! i ! j)) (F (first_row fb i + j))"
    "0 \<le> x \<Longrightarrow> x < int n \<Longrightarrow> x \<notin> set (all_miss_slots fb) \<Longrightarrow> holds_segment K p x G \<Longrightarrow> holds_segment K (store_segments K fb F p) x G"
    "length (ssm_states (store_segments K fb F p)) = n" "length (transition_pool (store_segments K fb F p)) = n"
proof -
  show len: "length (ssm_states (store_segments K fb F p)) = n" "length (transition_pool (store_segments K fb F p)) = n"
    using assms(3,4) by (simp_all add: store_segments_def Let_def)
  note ws = write_slots [OF assms(2,3)] and wt = write_slots [OF assms(2,4)]
  show "holds_segment K (store_segments K fb F p) (slot_of (pb_miss_mamba_slots fb ! i) (pb_miss_segments fb ! i ! j)) (F (first_row fb i + j))"
    if h: "i < pb_batch_size fb" "j < length (pb_miss_segments fb ! i)"
  proof -
    note m = miss_slot_nth [OF assms(1) h]
    have r: "0 \<le> slot_of (pb_miss_mamba_slots fb ! i) (pb_miss_segments fb ! i ! j)" "slot_of (pb_miss_mamba_slots fb ! i) (pb_miss_segments fb ! i ! j) < int n"
      using slots_okD(2) [OF assms(2) m(3)] by simp_all
    show ?thesis
      using r len ws(1) [OF m(1), unfolded m(2)] wt(1) [OF m(1), unfolded m(2)]
      unfolding holds_segment_def by (simp add: pool_row_in) (simp add: store_segments_def Let_def)
  qed
  show "holds_segment K (store_segments K fb F p) x G" if x: "0 \<le> x" "x < int n" "x \<notin> set (all_miss_slots fb)" "holds_segment K p x G"
  proof -
    have "ssm_states (store_segments K fb F p) ! nat x = ssm_states p ! nat x" "transition_pool (store_segments K fb F p) ! nat x = transition_pool p ! nat x"
      using ws(2) [OF x(1,3)] wt(2) [OF x(1,3)] unfolding store_segments_def Let_def by simp_all
    then show ?thesis
      using x(1,2,4) len assms(3,4) unfolding holds_segment_def by (simp add: pool_row_in)
  qed
qed

section \<open>The transition mode is exact\<close>

lemma first_row_mono: "i \<le> j \<Longrightarrow> first_row fb i \<le> first_row fb j"
  using append_take_drop_id [of i "take j (pb_miss_segments fb)"] by (metis concat_append first_row_def le_add1 length_append min.absorb1 take_take)

lemma row_count:
  assumes "batch_ok fb"
  shows "length (all_miss_slots fb) = length (concat (pb_miss_segments fb))" "first_row fb (pb_batch_size fb) = length (concat (pb_miss_segments fb))"
proof -
  have "map length (map (miss_slots_of fb) [0..<pb_batch_size fb]) = map length (pb_miss_segments fb)"
    using batch_okD(3) [OF assms] by (intro nth_equalityI) auto
  then show "length (all_miss_slots fb) = length (concat (pb_miss_segments fb))"
    by (simp only: length_concat)
  show "first_row fb (pb_batch_size fb) = length (concat (pb_miss_segments fb))"
    using batch_okD(3) [OF assms] by (simp add: first_row_def)
qed

lemma batch_payloads:
  assumes "batch_ok fb" "k \<le> pb_batch_size fb"
  shows "mset (concat (map (\<lambda>i. payloads (req_segments fb HF F i)) [0..<k])) = mset [0..<first_row fb k]"
  using assms(2)
proof (induction k)
  case (Suc k)
  then have "first_row fb (Suc k) = first_row fb k + length (pb_miss_segments fb ! k)"
    using batch_okD(3) [OF assms(1)] by (intro first_row_Suc) simp
  then have "[0..<first_row fb (Suc k)] = [0..<first_row fb k] @ [first_row fb k..<first_row fb k + length (pb_miss_segments fb ! k)]"
    using upt_add_eq_append [of 0 "first_row fb k"] by simp
  then show ?case
    using Suc req_segments_payloads [of fb HF F k] by simp
qed simp

definition cached_ok :: "('x, 'h::zero, 't, 'o) gdn_kernels \<Rightarrow> pic_batch \<Rightarrow> (bytes \<Rightarrow> 'x list) \<Rightarrow> ('h, 't) state_pool \<Rightarrow> bool" where
  "cached_ok K fb HF p \<longleftrightarrow> (\<forall>i<pb_batch_size fb. \<forall>(s, e, h)\<in>set (pb_hit_segments fb ! i). holds_segment K p (the (map_of (pb_hit_mamba_slots fb ! i) h)) (HF h))"

lemma stored_batch:
  assumes "batch_ok fb" "slots_ok fb n" "length (ssm_states p) = n" "length (transition_pool p) = n" "cached_ok K fb HF p" "i < pb_batch_size fb"
  shows "\<forall>((slot, r), G)\<in>set (req_segments fb HF F i). holds_segment K (store_segments K fb F p) slot G"
proof -
  have "holds_segment K (store_segments K fb F p) (the (map_of (pb_hit_mamba_slots fb ! i) h)) (HF h)" if h: "(s, e, h) \<in> set (pb_hit_segments fb ! i)" for s e h
  proof (rule stored_segments(2) [OF assms(1-4)])
    show "holds_segment K p (the (map_of (pb_hit_mamba_slots fb ! i) h)) (HF h)"
      using assms(5,6) h by (auto simp: cached_ok_def)
  qed (use slots_okD(4) [OF assms(2,6) h] in blast)+
  then show ?thesis
    unfolding req_segments_set using stored_segments(1) [OF assms(1-4,6)] by auto
qed

lemma transition_run:
  fixes K :: "('x, 'h::comm_monoid_add, 't::monoid_mult, 'o) gdn_kernels" and xs :: "'x list"
  assumes "kernels_ok K gate upd" "batch_ok fb" "slots_ok fb n" "length (ssm_states p) = n" "length (transition_pool p) = n" "cached_ok K fb HF p"
    "sm_plan m = plan_upto False fb (pb_batch_size fb)" "sm_seg_indices m = [0..<length (concat (pb_miss_segments fb))]" "sm_req_dst_indices m = pb_cache_indices fb"
  defines "F \<equiv> row_slice (sm_cu_seqlens m) xs"
  shows "\<exists>h0. forward_extend_pic_transition K xs m p =
      (Inr (h0, map (\<lambda>r. k_fwd_o K (F r) (h0 ! r)) (sm_seg_indices m)),
       (store_segments K fb F p)\<lparr>ssm_states := write_rows (zip (map nat (pb_cache_indices fb))
          (map (\<lambda>i. recur K gate upd (concat (map snd (req_segments fb HF F i))) 0) [0..<pb_batch_size fb])) (ssm_states (store_segments K fb F p))\<rparr>) \<and>
    (\<forall>i<pb_batch_size fb. seeds_ok K gate upd (req_segments fb HF F i) h0)"
proof -
  let ?d = "all_miss_slots fb" and ?k = "pb_batch_size fb" and ?N = "length (all_miss_slots fb)" and ?q = "store_segments K fb F p"
  let ?ess = "map (req_segments fb HF F) [0..<?k]"
  let ?S = "map (\<lambda>r. k_fwd_h K (F r) 0) [0..<?N]" and ?T = "map (\<lambda>r. k_fwd_t K (F r) (k_eye K)) [0..<?N]"
  note N = row_count [OF assms(2)]
  have plan: "sp_trans_src (sm_plan m) = [0..<length ?S]" "sp_trans_dst (sm_plan m) = ?d" "sp_compose_order (sm_plan m) = map (map fst) ?ess" "sm_seg_indices m = [0..<?N]"
    using N by (simp_all add: assms(7,8) plan_upto_def req_segments_order)
  have rng: "\<forall>x\<in>set ?d. 0 \<le> x \<and> x < int (length (ssm_states p))" "\<forall>x\<in>set ?d. 0 \<le> x \<and> x < int (length (transition_pool p))"
    unfolding assms(4,5) by (intro ballI, erule slots_okD(2) [OF assms(3)])+
  define p1 where "p1 = p\<lparr>ssm_states := write_rows (zip (map nat ?d) ?S) (ssm_states p)\<rparr>"
  have per: "persist_ssm [0..<length ?S] ?d ?S p = (Inr (), p1)" "persist_transitions [0..<length ?S] ?d ?T p1 = (Inr (), ?q)"
    using persist_ssm_run [of ?d ?S p] persist_transitions_run [of ?d ?T p1] rng by (simp_all add: p1_def store_segments_def Let_def)
  have ms: "mset (concat (map payloads ?ess)) = mset [0..<?N]"
    using batch_payloads [OF assms(2) order_refl, of HF F] N by (simp add: comp_def)
  have "\<forall>es\<in>set ?ess. \<forall>((slot, r), G)\<in>set es. holds_segment K ?q slot G"
    using stored_batch [OF assms(2-6)] by simp
  moreover have "\<forall>r\<in>set (concat (map payloads ?ess)). r < length (replicate ?N (0 :: 'h))"
    using mset_eq_setD [OF ms] by (simp only: length_replicate set_upt) auto
  moreover have "distinct (concat (map payloads ?ess))"
    using mset_eq_imp_distinct_iff [OF ms] by simp
  ultimately obtain h0 where h0: "compose_reqs K ?q (map (map fst) ?ess) (replicate ?N 0) = Inr (h0, map (\<lambda>es. recur K gate upd (concat (map snd es)) 0) ?ess)"
      "\<forall>es\<in>set ?ess. seeds_ok K gate upd es h0"
    using compose_reqs_exact [OF assms(1)] by blast
  have fin: "write_finals (pb_cache_indices fb) (map (\<lambda>es. recur K gate upd (concat (map snd es)) 0) ?ess) ?q =
      (Inr (), ?q\<lparr>ssm_states := write_rows (zip (map nat (pb_cache_indices fb)) (map (\<lambda>es. recur K gate upd (concat (map snd es)) 0) ?ess)) (ssm_states ?q)\<rparr>)"
    using slots_okD(3) [OF assms(3)] stored_segments(3) [OF assms(2-5), of K F] batch_okD(6) [OF assms(2)] by (intro write_finals_run) auto
  have "forward_extend_pic_transition K xs m p = (Inr (h0, map (\<lambda>r. k_fwd_o K (F r) (h0 ! r)) (sm_seg_indices m)),
       ?q\<lparr>ssm_states := write_rows (zip (map nat (pb_cache_indices fb)) (map (\<lambda>es. recur K gate upd (concat (map snd es)) 0) ?ess)) (ssm_states ?q)\<rparr>)"
    unfolding forward_extend_pic_transition_def Let_def plan assms(9) F_def [symmetric]
    by (simp add: bindM_app per fin h0(1) del: map_map length_map)
  then show ?thesis
    using h0(2) by (intro exI [of _ h0]) (simp add: comp_def)
qed

lemma final_states:
  assumes "batch_ok fb" "slots_ok fb n" "length (ssm_states q) = n" "length hs = pb_batch_size fb"
  defines "q' \<equiv> q\<lparr>ssm_states := write_rows (zip (map nat (pb_cache_indices fb)) hs) (ssm_states q)\<rparr>"
  shows "i < pb_batch_size fb \<Longrightarrow> ssm_states q' ! nat (pb_cache_indices fb ! i) = hs ! i"
    "x \<in> set (all_miss_slots fb) \<Longrightarrow> holds_segment K q x G \<Longrightarrow> holds_segment K q' x G"
proof -
  let ?c = "pb_cache_indices fb"
  have rng: "0 \<le> x \<and> x < int n" if "x \<in> set ?c" for x
    using slots_okD(3) [OF assms(2) that] .
  have "distinct ?c" and dj: "set (all_miss_slots fb) \<inter> set ?c = {}"
    using slots_okD(1) [OF assms(2)] by (simp_all only: distinct_append)
  moreover have "inj_on nat (set ?c)"
    by (rule inj_on_inverseI [of _ int]) (use rng in simp)
  ultimately have dn: "distinct (map nat ?c)"
    by (simp add: distinct_map)
  show "ssm_states q' ! nat (?c ! i) = hs ! i" if "i < pb_batch_size fb"
    using write_rows_nth [OF dn, of hs i "ssm_states q"] that assms(3,4) batch_okD(6) [OF assms(1)] rng [of "?c ! i"] by (simp add: q'_def nat_less_iff)
  show "holds_segment K q' x G" if x: "x \<in> set (all_miss_slots fb)" "holds_segment K q x G"
  proof -
    have xr: "0 \<le> x" "x < int n"
      using slots_okD(2) [OF assms(2) x(1)] by simp_all
    have "nat x \<notin> set (map nat ?c)"
    proof
      assume "nat x \<in> set (map nat ?c)"
      then obtain y where y: "y \<in> set ?c" "nat x = nat y"
        by auto
      have "x = y"
        using y(2) xr rng [OF y(1)] by (simp add: eq_nat_nat_iff)
      then have "x \<in> set (all_miss_slots fb) \<inter> set ?c"
        using x(1) y(1) by (intro IntI) simp_all
      then show False
        by (simp only: dj empty_iff)
    qed
    then have "write_rows (zip (map nat ?c) hs) (ssm_states q) ! nat x = ssm_states q ! nat x"
      using set_zip_leftD [of _ _ "map nat ?c" hs] by (intro write_rows_other) (auto simp del: set_map)
    then show ?thesis
      using x(2) xr assms(3) by (simp add: holds_segment_def q'_def pool_row_in)
  qed
qed

section \<open>Runs of the addition mode\<close>

definition hit_sum :: "('h::{zero, plus}, 't) state_pool \<Rightarrow> pic_batch \<Rightarrow> nat \<Rightarrow> 'h" where
  "hit_sum p fb i = foldl (+) 0 (map (\<lambda>x. ssm_states p ! nat (snd x)) (pb_hit_mamba_slots fb ! i))"

lemma seed_states_run:
  assumes "batch_ok fb" "\<forall>i<pb_batch_size fb. \<forall>x\<in>set (pb_hit_mamba_slots fb ! i). 0 \<le> snd x \<and> snd x < int (length (ssm_states p))"
    "k \<le> pb_batch_size fb" "length temp = length (concat (pb_miss_segments fb))"
  shows "\<exists>t. seed_states p fb [k..<pb_batch_size fb] (first_row fb k) temp = Inr t \<and> length t = length temp \<and> (\<forall>r<first_row fb k. t ! r = temp ! r) \<and>
    (\<forall>i j. k \<le> i \<and> i < pb_batch_size fb \<and> j < length (pb_miss_segments fb ! i) \<longrightarrow>
       t ! (first_row fb i + j) = (if j = 0 \<and> pb_hit_mamba_slots fb ! i \<noteq> [] then hit_sum p fb i else temp ! (first_row fb i + j)))"
  using assms(3,4)
proof (induction k arbitrary: temp rule: inc_induct)
  case base
  then show ?case
    by (intro exI [of _ temp]) auto
next
  case (step k)
  note len = batch_okD(3,4) [OF assms(1)]
  let ?m = "pb_miss_segments fb ! k" and ?h = "pb_hit_mamba_slots fb ! k" and ?f = "first_row fb k"
  define temp' where "temp' = (if ?m \<noteq> [] \<and> ?h \<noteq> [] then temp[?f := hit_sum p fb k] else temp)"
  have S: "first_row fb (Suc k) = ?f + length ?m"
    using step len by (simp add: first_row_Suc)
  have mono: "first_row fb (Suc k) \<le> first_row fb i" if "Suc k \<le> i" for i
    using that by (intro first_row_mono)
  have "first_row fb (Suc k) \<le> length temp"
    using step row_count(2) [OF assms(1)] first_row_mono [of "Suc k" "pb_batch_size fb" fb] by simp
  then have f: "?f < length temp" if "?m \<noteq> []"
    using that S by (cases ?m) simp_all
  have "select_rows (ssm_states p) (map snd ?h) = Inr (map (\<lambda>i. ssm_states p ! nat i) (map snd ?h))"
    using assms(2) step by (intro select_rows_ok) auto
  then have "seed_states p fb [k..<pb_batch_size fb] ?f temp = seed_states p fb [Suc k..<pb_batch_size fb] (first_row fb (Suc k)) temp'"
    using step f len by (auto simp: upt_conv_Cons per_req_def select_row_def Let_def S temp'_def hit_sum_def comp_def)
  moreover have "length temp' = length (concat (pb_miss_segments fb))"
    using step by (simp add: temp'_def)
  ultimately obtain t where t: "seed_states p fb [k..<pb_batch_size fb] ?f temp = Inr t" "length t = length temp'" "\<forall>r<first_row fb (Suc k). t ! r = temp' ! r"
      "\<And>i j. Suc k \<le> i \<and> i < pb_batch_size fb \<and> j < length (pb_miss_segments fb ! i) \<Longrightarrow>
       t ! (first_row fb i + j) = (if j = 0 \<and> pb_hit_mamba_slots fb ! i \<noteq> [] then hit_sum p fb i else temp' ! (first_row fb i + j))"
    using step.IH [of temp'] by auto
  have "t ! (first_row fb i + j) = (if j = 0 \<and> pb_hit_mamba_slots fb ! i \<noteq> [] then hit_sum p fb i else temp ! (first_row fb i + j))"
    if ij: "k \<le> i" "i < pb_batch_size fb" "j < length (pb_miss_segments fb ! i)" for i j
  proof (cases "i = k")
    case True
    then show ?thesis
      using t(3) ij f S by (auto simp: temp'_def)
  next
    case False
    then have i: "Suc k \<le> i"
      using ij(1) by simp
    then have "?f \<noteq> first_row fb i + j" if "?m \<noteq> []"
      using mono [OF i] S that by (cases ?m) simp_all
    then have "temp' ! (first_row fb i + j) = temp ! (first_row fb i + j)"
      by (simp add: temp'_def)
    then show ?thesis
      using t(4) [of i j] i ij by simp
  qed
  moreover have "\<forall>r<?f. t ! r = temp ! r"
    using t(3) S by (auto simp: temp'_def)
  ultimately show ?case
    using t(1,2) by (intro exI [of _ t]) (simp add: temp'_def)
qed

lemma last_miss_row:
  assumes "batch_ok fb" "i < pb_batch_size fb" "pb_miss_segments fb ! i \<noteq> []"
  shows "\<exists>d. length (pb_miss_segments fb ! i) = Suc d \<and> first_row fb (Suc i) = Suc (first_row fb i + d) \<and>
    first_row fb i + d < length (concat (pb_miss_segments fb))"
proof -
  obtain d where d: "length (pb_miss_segments fb ! i) = Suc d"
    using assms(3) by (cases "pb_miss_segments fb ! i") simp_all
  then have "first_row fb (Suc i) = Suc (first_row fb i + d)"
    using assms(2) first_row_Suc [of i fb] batch_okD(3) [OF assms(1)] by simp
  then show ?thesis
    using d first_row_mono [of "Suc i" "pb_batch_size fb" fb] row_count(2) [OF assms(1)] assms(2) by simp
qed

text \<open>The addition mode on a batch where every request computes at least one segment: the state left for a request is the state of its last
  computed segment, entered with zero or, if it is the only one, with the sum of the states of the cached segments.\<close>

definition entry_state :: "('h::{zero, plus}, 't) state_pool \<Rightarrow> pic_batch \<Rightarrow> nat \<Rightarrow> 'h" where
  "entry_state p fb i = (if length (pb_miss_segments fb ! i) = 1 then hit_sum p fb i else 0)"

lemma addition_run:
  fixes K :: "('x, 'h::comm_monoid_add, 't, 'o) gdn_kernels" and xs :: "'x list"
  assumes "batch_ok fb" "slots_ok fb n" "length (ssm_states p) = n" "\<forall>i<pb_batch_size fb. pb_miss_segments fb ! i \<noteq> []"
    "\<forall>i<pb_batch_size fb. \<forall>x\<in>set (pb_hit_mamba_slots fb ! i). 0 \<le> snd x \<and> snd x < int n"
  shows "\<exists>m outs p'. init_pic_metadata True fb = Inr m \<and> forward_extend_pic_addition K xs fb m p = (Inr outs, p') \<and>
    (\<forall>i<pb_batch_size fb. ssm_states p' ! nat (pb_cache_indices fb ! i) =
       k_fwd_h K (row_slice (sm_cu_seqlens m) xs (first_row fb (Suc i) - 1)) (entry_state p fb i))"
proof -
  obtain m where m: "init_pic_metadata True fb = Inr m" "sm_plan m = plan_upto True fb (pb_batch_size fb)"
      "sm_seg_indices m = [0..<length (concat (pb_miss_segments fb))]" "sm_req_dst_indices m = pb_cache_indices fb"
      "sm_req_last_miss_payload m = map (\<lambda>i. int (first_row fb (Suc i)) - 1) [0..<pb_batch_size fb]"
    using init_pic_metadata_ok [OF assms(1), of True] by auto
  let ?N = "length (concat (pb_miss_segments fb))" and ?d = "all_miss_slots fb"
  define F where "F = row_slice (sm_cu_seqlens m) xs"
  obtain t where t: "seed_states p fb [0..<pb_batch_size fb] 0 (replicate ?N 0) = Inr t" "length t = ?N"
      "\<And>i j. i < pb_batch_size fb \<Longrightarrow> j < length (pb_miss_segments fb ! i) \<Longrightarrow>
         t ! (first_row fb i + j) = (if j = 0 \<and> pb_hit_mamba_slots fb ! i \<noteq> [] then hit_sum p fb i else replicate ?N 0 ! (first_row fb i + j))"
    using seed_states_run [OF assms(1), of p 0 "replicate ?N 0"] assms(3,5) by auto
  have last: "t ! (first_row fb (Suc i) - 1) = entry_state p fb i" if i: "i < pb_batch_size fb" for i
  proof -
    obtain d where d: "length (pb_miss_segments fb ! i) = Suc d" "first_row fb (Suc i) = Suc (first_row fb i + d)" "first_row fb i + d < ?N"
      using last_miss_row [OF assms(1) i] assms(4) i by blast
    then show ?thesis
      using t(3) [OF i, of d] by (auto simp: entry_state_def hit_sum_def)
  qed
  define temp where "temp = map (\<lambda>r. k_fwd_h K (F r) (t ! r)) [0..<?N]"
  define q where "q = p\<lparr>ssm_states := write_rows (zip (map nat ?d) temp) (ssm_states p)\<rparr>"
  define hs where "hs = map (\<lambda>i. k_fwd_h K (F (first_row fb (Suc i) - 1)) (entry_state p fb i)) [0..<pb_batch_size fb]"
  have fin: "map_result (pool_row temp) (sm_req_last_miss_payload m) = Inr hs"
    unfolding m(5) hs_def map_result_map
  proof (rule map_result_Inr, unfold comp_def)
    fix i assume "i \<in> set [0..<pb_batch_size fb]"
    then have i: "i < pb_batch_size fb"
      by simp
    then obtain d where d: "first_row fb (Suc i) = Suc d" "d < ?N"
      using last_miss_row [OF assms(1) i] assms(4) by blast
    then have "t ! d = entry_state p fb i"
      using last [OF i] by simp
    then show "pool_row temp (int (first_row fb (Suc i)) - 1) = Inr (k_fwd_h K (F (first_row fb (Suc i) - 1)) (entry_state p fb i))"
      using d by (simp add: pool_row_in temp_def)
  qed
  have per: "persist_ssm [0..<?N] ?d temp p = (Inr (), q)"
    using persist_ssm_run [of ?d temp p] row_count(1) [OF assms(1)] slots_okD(2) [OF assms(2)] assms(3) by (simp add: q_def temp_def)
  have "length (ssm_states q) = n" "length hs = pb_batch_size fb"
    using assms(3) by (simp_all add: q_def hs_def)
  note rest = final_states(1) [OF assms(1,2) this]
  have "write_finals (pb_cache_indices fb) hs q = (Inr (), q\<lparr>ssm_states := write_rows (zip (map nat (pb_cache_indices fb)) hs) (ssm_states q)\<rparr>)"
    using slots_okD(3) [OF assms(2)] batch_okD(6) [OF assms(1)] assms(3) by (intro write_finals_run) (auto simp: q_def hs_def)
  then have "forward_extend_pic_addition K xs fb m p =
      (Inr (map (\<lambda>r. k_fwd_o K (F r) (t ! r)) [0..<?N]), q\<lparr>ssm_states := write_rows (zip (map nat (pb_cache_indices fb)) hs) (ssm_states q)\<rparr>)"
    using per fin row_count(2) [OF assms(1)]
    by (simp add: forward_extend_pic_addition_def m(2-4) bindM_app t(1) Let_def plan_upto_def F_def [symmetric] temp_def [symmetric])
  then show ?thesis
    using m(1) rest by (intro exI [of _ m]) (simp add: hs_def F_def)
qed

text \<open>C34. In exact arithmetic the transition mode is exact: when the cached segments' slots hold the states of the rows they were computed from, the state left
  in the slot of every request is the state of the recurrence over all its segments in text order, cached and computed; every computed
  segment is entered with the state of the recurrence over the segments before it; and afterwards the slot of every computed segment
  holds the states of its own rows, so that it can serve as a cached segment later.\<close>

theorem transition_composes_exactly:
  assumes "kernels_ok K gate upd" "batch_ok fb" "slots_ok fb n" "length (ssm_states p) = n" "length (transition_pool p) = n" "cached_ok K fb HF p"
  shows "\<exists>m h0 p'. let F = row_slice (sm_cu_seqlens m) xs in
    init_pic_metadata False fb = Inr m \<and>
    forward_extend_pic_transition K xs m p = (Inr (h0, map (\<lambda>r. k_fwd_o K (F r) (h0 ! r)) (sm_seg_indices m)), p') \<and>
    (\<forall>i<pb_batch_size fb.
       ssm_states p' ! nat (pb_cache_indices fb ! i) = recur K gate upd (concat (map snd (req_segments fb HF F i))) 0 \<and>
       seeds_ok K gate upd (req_segments fb HF F i) h0 \<and>
       (\<forall>j<length (pb_miss_segments fb ! i).
          holds_segment K p' (slot_of (pb_miss_mamba_slots fb ! i) (pb_miss_segments fb ! i ! j)) (F (first_row fb i + j))))"
proof -
  obtain m where m: "init_pic_metadata False fb = Inr m" "sm_plan m = plan_upto False fb (pb_batch_size fb)"
      "sm_seg_indices m = [0..<length (concat (pb_miss_segments fb))]" "sm_req_dst_indices m = pb_cache_indices fb"
    using init_pic_metadata_ok [OF assms(2), of False] by blast
  define F where "F = row_slice (sm_cu_seqlens m) xs"
  define q where "q = store_segments K fb F p"
  define hs where "hs = map (\<lambda>i. recur K gate upd (concat (map snd (req_segments fb HF F i))) 0) [0..<pb_batch_size fb]"
  define p' where "p' = q\<lparr>ssm_states := write_rows (zip (map nat (pb_cache_indices fb)) hs) (ssm_states q)\<rparr>"
  obtain h0 where run: "forward_extend_pic_transition K xs m p = (Inr (h0, map (\<lambda>r. k_fwd_o K (F r) (h0 ! r)) (sm_seg_indices m)), p')"
      "\<forall>i<pb_batch_size fb. seeds_ok K gate upd (req_segments fb HF F i) h0"
    using transition_run [OF assms m(2-4), of xs] unfolding F_def [symmetric] q_def [symmetric] hs_def [symmetric] p'_def [symmetric]
    unfolding fun_cong [OF F_def, symmetric] by blast
  note st = stored_segments [OF assms(2-5), where K = K and F = F, folded q_def]
  have "length hs = pb_batch_size fb"
    by (simp add: hs_def)
  note fin = final_states [OF assms(2,3) st(3) this, folded p'_def]
  have "ssm_states p' ! nat (pb_cache_indices fb ! i) = recur K gate upd (concat (map snd (req_segments fb HF F i))) 0" if "i < pb_batch_size fb" for i
    using fin(1) [OF that] that by (simp add: hs_def)
  moreover have "holds_segment K p' (slot_of (pb_miss_mamba_slots fb ! i) (pb_miss_segments fb ! i ! j)) (F (first_row fb i + j))"
    if "i < pb_batch_size fb" "j < length (pb_miss_segments fb ! i)" for i j
    by (rule fin(2) [OF miss_slot_nth(3) [OF assms(2) that] st(1) [OF that]])
  ultimately show ?thesis
    using m(1) run unfolding F_def by (intro exI [of _ m] exI [of _ h0] exI [of _ p']) (simp add: Let_def)
qed

definition ex_kernels :: "(int, int, int, int) gdn_kernels" where
  "ex_kernels = \<lparr>k_bmm = (*), k_fwd_h = fold (\<lambda>x h. h * 2 + x), k_fwd_t = fold (\<lambda>x M. M * 2), k_fwd_o = (\<lambda>xs h. h), k_eye = 1\<rparr>"

lemma ex_kernels_ok: "kernels_ok ex_kernels (\<lambda>_. 2) (\<lambda>x. x)"
  by (simp add: kernels_ok_def ex_kernels_def recur_def algebra_simps)

definition ex_states :: "(int, int) state_pool" where
  "ex_states = \<lparr>ssm_states = [10, 0, 0, 0, 0], transition_pool = [4, 1, 1, 1, 1]\<rparr>"

theorem transition_composes_exactly_witness:
  "\<exists>m h0 p'. init_pic_metadata False ex_batch = Inr m \<and>
     forward_extend_pic_transition ex_kernels [1, 2, 3, 6] m ex_states = (Inr (h0, map (\<lambda>r. h0 ! r) (sm_seg_indices m)), p') \<and>
     ssm_states p' ! 4 = recur ex_kernels (\<lambda>_. 2) (\<lambda>x. x) [1, 2, 3, 4, 2, 6] 0"
proof -
  let ?HF = "\<lambda>_. [4, 2::int]" and ?F = "row_slice [0, 2, 3, 4] [1, 2, 3, 6::int]"
  have pre: "slots_ok ex_batch 5" "length (ssm_states ex_states) = 5" "length (transition_pool ex_states) = 5"
    using ex_batch_ok(2) by (simp add: ex_conv_tails_def eval_nat_numeral, simp_all add: ex_states_def)
  have "cached_ok ex_kernels ex_batch ?HF ex_states"
    by (simp add: cached_ok_def holds_segment_def ex_batch_def ex_states_def ex_kernels_def pool_row_def norm_index_def)
  note ex = transition_composes_exactly [OF ex_kernels_ok ex_batch_ok(1) pre this, of "[1, 2, 3, 6]", unfolded Let_def]
  have cu: "map_sum id sm_cu_seqlens (init_pic_metadata False ex_batch) = Inr [0, 2, 3, 4]"
    by code_simp
  have seq: "concat (map snd (req_segments ex_batch ?HF ?F 0)) = [1, 2, 3, 4, 2, 6]"
    by code_simp
  have b: "pb_batch_size ex_batch = 1" "pb_cache_indices ex_batch ! 0 = 4" "k_fwd_o ex_kernels = (\<lambda>xs h. h)"
    by (simp_all add: ex_batch_def ex_kernels_def)
  show ?thesis
    using ex cu seq unfolding b by (auto simp: b)
qed

end
