(* ===== verification/Gdn_Recompute.thy ===== *)
theory Gdn_Recompute
  imports Gdn_Compose
begin

text \<open>
  The recompute mode of the linear-attention layers (\<open>_build_pic_recompute_metadata\<close> and
  \<open>forward_extend_pic_transition_recompute\<close> of \<open>layers/attention/linear/gdn_backend.py\<close>): a batch holds the missed segments of its
  requests and the sink tokens of their cached segments; the plan divides these tokens into compute rows and convolution segments and
  lists, per request, how rows and cached states are composed. Kernels and matrix arithmetic are the parameters of the transition
  mode. Dumps and workspace allocation are left out, as is the list of sub-segment lengths, which nothing reads.
\<close>

section \<open>The layout of the batch\<close>

text \<open>The seam of a request (\<open>pic_rope_meta\<close>) maps the range of a cached segment to the positions of its sink tokens in the batch.\<close>

type_synonym seam = "(segment, nat list) dict"
type_synonym merged_segment = "nat \<times> nat \<times> bytes option"

definition merged_segments :: "(nat \<times> nat \<times> bytes) list \<Rightarrow> segment list \<Rightarrow> merged_segment list" where
  "merged_segments hit_segs miss_segs = sort_key fst (map (\<lambda>(s, e, h). (s, e, Some h)) hit_segs @ map (\<lambda>(s, e). (s, e, None)) miss_segs)"

definition abs_positions :: "segment list \<Rightarrow> seam \<Rightarrow> nat list" where
  "abs_positions miss_segs hit_seam = sort (concat (map (\<lambda>(s, e). [s..<e]) miss_segs) @ concat (map snd hit_seam))"

fun layout_reqs :: "pic_batch \<Rightarrow> seam list \<Rightarrow> nat list \<Rightarrow> nat \<Rightarrow> (merged_segment list \<times> nat list \<times> nat) list result" where
  "layout_reqs fb seams [] running_offset = Inr []"
| "layout_reqs fb seams (i # is) running_offset =
     (case per_req [] (pb_hit_segments fb) i of Inl e \<Rightarrow> Inl e | Inr hit_segs \<Rightarrow>
     (case per_req [] (pb_miss_segments fb) i of Inl e \<Rightarrow> Inl e | Inr miss_segs \<Rightarrow>
     (case per_req [] seams i of Inl e \<Rightarrow> Inl e | Inr hit_seam \<Rightarrow>
      let abs_pos = abs_positions miss_segs hit_seam
      in (case layout_reqs fb seams is (running_offset + length abs_pos) of Inl e \<Rightarrow> Inl e
          | Inr rest \<Rightarrow> Inr ((merged_segments hit_segs miss_segs, abs_pos, running_offset) # rest)))))"

section \<open>The plan\<close>

datatype entry_kind = Sys | Query | Mid_hit | Mid_miss

record compose_entry =
  ce_kind :: entry_kind
  ce_mamba_slot :: int
  ce_sink_row :: "nat option"
  ce_interior_row :: "nat option"
  ce_use_pool :: bool

record rc_plan =
  rc_phys_lengths :: "int list"
  rc_phys_conv :: "int list"
  rc_phys_prev :: "int list"
  rc_phys_src :: "nat list"
  rc_phys_dst :: "int list"
  rc_phys_end_offset :: "int list"
  rc_lengths :: "int list"
  rc_indices :: "nat list"
  rc_persist_src :: "nat list"
  rc_persist_dst :: "int list"
  rc_compose :: "compose_entry list list"

definition rc_empty :: rc_plan where
  "rc_empty = \<lparr>rc_phys_lengths = [], rc_phys_conv = [], rc_phys_prev = [], rc_phys_src = [], rc_phys_dst = [], rc_phys_end_offset = [],
     rc_lengths = [], rc_indices = [], rc_persist_src = [], rc_persist_dst = [], rc_compose = []\<rparr>"

record rc_cursor =
  cur_phys_start :: int
  cur_phys_prev_slot :: int
  tok_cursor :: int

definition add_row :: "int \<Rightarrow> rc_plan \<Rightarrow> nat option \<times> rc_plan" where
  "add_row n pl = (if 0 < n
     then (Some (length (rc_lengths pl)), pl\<lparr>rc_lengths := rc_lengths pl @ [n], rc_indices := rc_indices pl @ [length (rc_lengths pl)]\<rparr>)
     else (None, pl))"

definition persist_row :: "nat option \<Rightarrow> int option \<Rightarrow> rc_plan \<Rightarrow> rc_plan" where
  "persist_row row slot pl = (case (row, slot) of
     (Some r, Some x) \<Rightarrow> pl\<lparr>rc_persist_src := rc_persist_src pl @ [r], rc_persist_dst := rc_persist_dst pl @ [x]\<rparr>
   | _ \<Rightarrow> pl)"

text \<open>The compute rows of one segment: the first segment of a request has one row over its tokens in the batch, the last one a row over
  all its tokens, one in between a row for its sink tokens and one for the rest of its tokens in the batch.\<close>

definition mini_segs ::
  "bool \<Rightarrow> bool \<Rightarrow> bool \<Rightarrow> int option \<Rightarrow> int \<Rightarrow> int \<Rightarrow> int \<Rightarrow> int \<Rightarrow> rc_plan \<Rightarrow> entry_kind \<times> nat option \<times> nat option \<times> rc_plan" where
  "mini_segs is_first is_last hit slot n_tokens x_sink_eff in_batch_len in_batch_interior_len pl =
     (if is_first
      then let (row, pl1) = add_row in_batch_len pl
           in (Sys, None, row, persist_row row (if \<not> hit \<and> \<not> is_last then slot else None) pl1)
      else if is_last then let (row, pl1) = add_row n_tokens pl in (Query, None, row, pl1)
      else let (sink_row, pl1) = add_row x_sink_eff pl;
               (row, pl2) = add_row in_batch_interior_len pl1
           in (if hit then Mid_hit else Mid_miss, sink_row, row, persist_row row (if \<not> hit then slot else None) pl2))"

text \<open>The convolution segment that ends with the segment, unless it is empty.\<close>

definition close_phys :: "bool \<Rightarrow> int option \<Rightarrow> int \<Rightarrow> int \<Rightarrow> rc_cursor \<Rightarrow> rc_plan \<Rightarrow> rc_cursor \<times> rc_plan" where
  "close_phys is_last persist_slot seg_mamba_slot close_at cur pl =
     (let n = close_at - cur_phys_start cur
      in if 0 < n
         then let pl1 = pl\<lparr>rc_phys_lengths := rc_phys_lengths pl @ [n], rc_phys_conv := rc_phys_conv pl @ [seg_mamba_slot],
                    rc_phys_prev := rc_phys_prev pl @ [cur_phys_prev_slot cur]\<rparr>;
                  pl2 = (if is_last then pl1 else case persist_slot of None \<Rightarrow> pl1
                         | Some x \<Rightarrow> pl1\<lparr>rc_phys_src := rc_phys_src pl1 @ [length (rc_phys_lengths pl)], rc_phys_dst := rc_phys_dst pl1 @ [x],
                             rc_phys_end_offset := rc_phys_end_offset pl1 @ [0]\<rparr>)
              in (cur\<lparr>cur_phys_prev_slot := seg_mamba_slot, cur_phys_start := close_at\<rparr>, pl2)
         else (cur\<lparr>cur_phys_prev_slot := seg_mamba_slot\<rparr>, pl))"

definition seg_mamba_slot :: "(bytes, int) dict \<Rightarrow> (segment, int) dict \<Rightarrow> int \<Rightarrow> bool \<Rightarrow> merged_segment \<Rightarrow> int result" where
  "seg_mamba_slot hit_slots miss_slots req_dst_slot is_last sg = (case sg of (s, e, hkey) \<Rightarrow>
     (case hkey of Some h \<Rightarrow> (case map_of hit_slots h of None \<Rightarrow> Inl KeyError | Some x \<Rightarrow> Inr x)
      | None \<Rightarrow> Inr (if is_last then req_dst_slot else case map_of miss_slots (s, e) of None \<Rightarrow> req_dst_slot | Some x \<Rightarrow> x)))"

definition sink_len :: "bool \<Rightarrow> bool \<Rightarrow> seam \<Rightarrow> merged_segment \<Rightarrow> int" where
  "sink_len is_first is_last hit_seam sg = (case sg of (s, e, hkey) \<Rightarrow>
     (if is_first \<or> is_last then 0
      else case hkey of None \<Rightarrow> 0 | Some h \<Rightarrow> (case map_of hit_seam (s, e) of None \<Rightarrow> 0 | Some sink_pos \<Rightarrow> int (length sink_pos))))"

definition plan_segment ::
  "(bytes, int) dict \<Rightarrow> (segment, int) dict \<Rightarrow> int \<Rightarrow> seam \<Rightarrow> bool \<Rightarrow> bool \<Rightarrow> merged_segment \<Rightarrow> rc_cursor \<times> rc_plan \<Rightarrow>
   (compose_entry \<times> rc_cursor \<times> rc_plan) result" where
  "plan_segment hit_slots miss_slots req_dst_slot hit_seam is_first is_last sg st =
     (case sg of (s, e, hkey) \<Rightarrow> case st of (cur, pl) \<Rightarrow>
      let n_tokens = int e - int s; hit = (hkey \<noteq> None); x_sink_eff = sink_len is_first is_last hit_seam sg; interior_len = n_tokens - x_sink_eff
      in (case seg_mamba_slot hit_slots miss_slots req_dst_slot is_last sg of Inl er \<Rightarrow> Inl er | Inr mslot \<Rightarrow>
         let in_batch_interior_len = (if hit then 0 else interior_len);
             in_batch_len = (if hit then x_sink_eff else n_tokens);
             seg_end_b = tok_cursor cur + x_sink_eff + in_batch_interior_len;
             persist_slot = (if hit then None else map_of miss_slots (s, e));
             (kind, sink_row, row, pl1) = mini_segs is_first is_last hit (map_of miss_slots (s, e)) n_tokens x_sink_eff in_batch_len in_batch_interior_len pl;
             (cur2, pl2) = close_phys is_last persist_slot mslot seg_end_b (cur\<lparr>tok_cursor := seg_end_b\<rparr>) pl1
         in Inr (\<lparr>ce_kind = kind, ce_mamba_slot = mslot, ce_sink_row = sink_row, ce_interior_row = row, ce_use_pool = (hit \<and> 0 < interior_len)\<rparr>, cur2, pl2)))"

fun plan_segments ::
  "(bytes, int) dict \<Rightarrow> (segment, int) dict \<Rightarrow> int \<Rightarrow> seam \<Rightarrow> bool \<Rightarrow> merged_segment list \<Rightarrow> rc_cursor \<times> rc_plan \<Rightarrow>
   (compose_entry list \<times> rc_cursor \<times> rc_plan) result" where
  "plan_segments hit_slots miss_slots dst hit_seam is_first [] st = Inr ([], st)"
| "plan_segments hit_slots miss_slots dst hit_seam is_first (sg # rest) st =
     (case plan_segment hit_slots miss_slots dst hit_seam is_first (rest = []) sg st of Inl e \<Rightarrow> Inl e | Inr (entry, st1) \<Rightarrow>
     (case plan_segments hit_slots miss_slots dst hit_seam False rest st1 of Inl e \<Rightarrow> Inl e | Inr (entries, st2) \<Rightarrow> Inr (entry # entries, st2)))"

definition plan_recompute_req :: "pic_batch \<Rightarrow> seam list \<Rightarrow> nat \<Rightarrow> merged_segment list \<Rightarrow> nat \<Rightarrow> rc_plan \<Rightarrow> rc_plan result" where
  "plan_recompute_req fb seams i segs offset pl =
     (case per_req [] (pb_hit_mamba_slots fb) i of Inl e \<Rightarrow> Inl e | Inr hit_slots \<Rightarrow>
     (case per_req [] (pb_miss_mamba_slots fb) i of Inl e \<Rightarrow> Inl e | Inr miss_slots \<Rightarrow>
     (case select_row (pb_cache_indices fb) (int i) of Inl e \<Rightarrow> Inl e | Inr req_dst_slot \<Rightarrow>
     (case per_req [] seams i of Inl e \<Rightarrow> Inl e | Inr hit_seam \<Rightarrow>
     (case plan_segments hit_slots miss_slots req_dst_slot hit_seam True segs
             (\<lparr>cur_phys_start = int offset, cur_phys_prev_slot = -1, tok_cursor = int offset\<rparr>, pl) of
        Inl e \<Rightarrow> Inl e
      | Inr (entries, cur, pl') \<Rightarrow> Inr (pl'\<lparr>rc_compose := rc_compose pl' @ [entries]\<rparr>))))))"

fun plan_recompute_reqs :: "pic_batch \<Rightarrow> seam list \<Rightarrow> nat \<Rightarrow> (merged_segment list \<times> nat list \<times> nat) list \<Rightarrow> rc_plan \<Rightarrow> rc_plan result" where
  "plan_recompute_reqs fb seams i [] pl = Inr pl"
| "plan_recompute_reqs fb seams i ((segs, abs_pos, offset) # rest) pl =
     (case plan_recompute_req fb seams i segs offset pl of Inl e \<Rightarrow> Inl e | Inr pl' \<Rightarrow> plan_recompute_reqs fb seams (i + 1) rest pl')"

record rc_meta =
  rm_plan :: rc_plan
  rm_abs_pos_flat :: "nat list"
  rm_phys_cu_seqlens :: "int list"
  rm_phys_has_initial_states :: "bool list"
  rm_compute_cu_seqlens :: "int list"

definition build_pic_recompute_metadata :: "pic_batch \<Rightarrow> seam list \<Rightarrow> rc_meta result" where
  "build_pic_recompute_metadata fb seams =
     (case layout_reqs fb seams [0..<pb_batch_size fb] 0 of Inl e \<Rightarrow> Inl e | Inr layout \<Rightarrow>
     (case plan_recompute_reqs fb seams 0 layout rc_empty of Inl e \<Rightarrow> Inl e | Inr pl \<Rightarrow>
        Inr \<lparr>rm_plan = pl, rm_abs_pos_flat = concat (map (\<lambda>(segs, abs_pos, offset). abs_pos) layout),
             rm_phys_cu_seqlens = cu_seqlens 0 (rc_phys_lengths pl), rm_phys_has_initial_states = map (\<lambda>s. s \<ge> 0) (rc_phys_prev pl),
             rm_compute_cu_seqlens = cu_seqlens 0 (rc_lengths pl)\<rparr>))"

section \<open>Composition\<close>

text \<open>\<open>_advance_batch\<close> notes the state with which the row is entered and advances it over the row; \<open>_advance_pool\<close> advances it over a
  cached segment.\<close>

definition advance_batch ::
  "('x, 'h::plus, 't, 'o) gdn_kernels \<Rightarrow> 'h list \<Rightarrow> 't list \<Rightarrow> nat \<Rightarrow> 'h list \<times> 'h \<Rightarrow> ('h list \<times> 'h) result" where
  "advance_batch K temp_states temp_transitions row st = (case st of (h0s, h) \<Rightarrow>
     (if length h0s \<le> row then Inl IndexError
      else case pool_row temp_transitions (int row) of Inl e \<Rightarrow> Inl e | Inr T \<Rightarrow>
          (case pool_row temp_states (int row) of Inl e \<Rightarrow> Inl e | Inr S \<Rightarrow> Inr (h0s[row := h], k_bmm K h T + S))))"

definition advance_pool :: "('x, 'h::plus, 't, 'o) gdn_kernels \<Rightarrow> ('h, 't) state_pool \<Rightarrow> int \<Rightarrow> 'h list \<times> 'h \<Rightarrow> ('h list \<times> 'h) result" where
  "advance_pool K p slot st = (case st of (h0s, h) \<Rightarrow>
     (case pool_row (transition_pool p) slot of Inl e \<Rightarrow> Inl e | Inr T \<Rightarrow>
     (case pool_row (ssm_states p) slot of Inl e \<Rightarrow> Inl e | Inr S \<Rightarrow> Inr (h0s, k_bmm K h T + S))))"

definition compose_entry_step ::
  "('x, 'h::plus, 't, 'o) gdn_kernels \<Rightarrow> ('h, 't) state_pool \<Rightarrow> 'h list \<Rightarrow> 't list \<Rightarrow> compose_entry \<Rightarrow> 'h list \<times> 'h \<Rightarrow> ('h list \<times> 'h) result" where
  "compose_entry_step K p S T en st =
     (let batch = (\<lambda>row st. case row of None \<Rightarrow> Inr st | Some r \<Rightarrow> advance_batch K S T r st);
          interior = (\<lambda>st. if ce_use_pool en then advance_pool K p (ce_mamba_slot en) st else batch (ce_interior_row en) st)
      in (case ce_kind en of
            Sys \<Rightarrow> interior st
          | Query \<Rightarrow> batch (ce_interior_row en) st
          | _ \<Rightarrow> (case batch (ce_sink_row en) st of Inl e \<Rightarrow> Inl e | Inr st1 \<Rightarrow> interior st1)))"

fun compose_entries ::
  "('x, 'h::plus, 't, 'o) gdn_kernels \<Rightarrow> ('h, 't) state_pool \<Rightarrow> 'h list \<Rightarrow> 't list \<Rightarrow> compose_entry list \<Rightarrow> 'h list \<times> 'h \<Rightarrow> ('h list \<times> 'h) result" where
  "compose_entries K p S T [] st = Inr st"
| "compose_entries K p S T (en # ens) st =
     (case compose_entry_step K p S T en st of Inl e \<Rightarrow> Inl e | Inr st1 \<Rightarrow> compose_entries K p S T ens st1)"

fun compose_plan ::
  "('x, 'h::{zero, plus}, 't, 'o) gdn_kernels \<Rightarrow> ('h, 't) state_pool \<Rightarrow> 'h list \<Rightarrow> 't list \<Rightarrow> compose_entry list list \<Rightarrow> 'h list \<Rightarrow> ('h list \<times> 'h list) result" where
  "compose_plan K p S T [] h0s = Inr (h0s, [])"
| "compose_plan K p S T (ens # rest) h0s =
     (case compose_entries K p S T ens (h0s, 0) of Inl e \<Rightarrow> Inl e | Inr (h0s1, h) \<Rightarrow>
     (case compose_plan K p S T rest h0s1 of Inl e \<Rightarrow> Inl e | Inr (h0s2, hs) \<Rightarrow> Inr (h0s2, h # hs)))"

definition forward_extend_pic_transition_recompute ::
  "('x, 'h::{zero, plus}, 't, 'o) gdn_kernels \<Rightarrow> 'x list \<Rightarrow> int list \<Rightarrow> rc_meta \<Rightarrow> (('h, 't) state_pool, 'h list \<times> 'o list) pym" where
  "forward_extend_pic_transition_recompute K xs req_dst m =
     (let seg = row_slice (rm_compute_cu_seqlens m) xs; pl = rm_plan m; rows = rc_indices pl;
          S = map (\<lambda>r. k_fwd_h K (seg r) 0) rows; T = map (\<lambda>r. k_fwd_t K (seg r) (k_eye K)) rows
      in bindM (persist_ssm (rc_persist_src pl) (rc_persist_dst pl) S) (\<lambda>_.
         bindM (persist_transitions (rc_persist_src pl) (rc_persist_dst pl) T) (\<lambda>_.
         bindM (getsM (\<lambda>p. compose_plan K p S T (rc_compose pl) (replicate (max (length rows) 1) 0))) (\<lambda>composed.
         bindM (liftM composed) (\<lambda>(kernel_h0, h_accum).
         bindM (write_finals req_dst h_accum) (\<lambda>_.
         retM (kernel_h0, map (\<lambda>r. k_fwd_o K (seg r) (kernel_h0 ! r)) rows)))))))"

section \<open>The plan covers the batch\<close>

text \<open>Compute rows and convolution segments are not empty and cover a number of tokens.\<close>

definition rows_cover :: "int \<Rightarrow> rc_plan \<Rightarrow> bool" where
  "rows_cover n pl \<longleftrightarrow> sum_list (rc_lengths pl) = n \<and> (\<forall>x\<in>set (rc_lengths pl). 0 < x) \<and> rc_indices pl = [0..<length (rc_lengths pl)]"

definition phys_cover :: "int \<Rightarrow> rc_plan \<Rightarrow> bool" where
  "phys_cover n pl \<longleftrightarrow> sum_list (rc_phys_lengths pl) = n \<and> (\<forall>x\<in>set (rc_phys_lengths pl). 0 < x)"

definition batch_tokens :: "bool \<Rightarrow> bool \<Rightarrow> seam \<Rightarrow> merged_segment \<Rightarrow> int" where
  "batch_tokens is_first is_last hit_seam sg =
     (if snd (snd sg) = None then int (fst (snd sg)) - int (fst sg) else sink_len is_first is_last hit_seam sg)"

lemma sink_len_nonneg: "0 \<le> sink_len is_first is_last hit_seam sg"
  by (auto simp: sink_len_def split: prod.split option.split)

lemma add_row_cover:
  assumes "rows_cover n pl" "0 \<le> k"
  shows "rows_cover (n + k) (snd (add_row k pl))" "rc_phys_lengths (snd (add_row k pl)) = rc_phys_lengths pl" "rc_compose (snd (add_row k pl)) = rc_compose pl"
  using assms by (auto simp: add_row_def rows_cover_def)

lemma persist_row_same [simp]:
  "rc_lengths (persist_row r x pl) = rc_lengths pl" "rc_indices (persist_row r x pl) = rc_indices pl"
  "rc_phys_lengths (persist_row r x pl) = rc_phys_lengths pl" "rc_compose (persist_row r x pl) = rc_compose pl"
  by (simp_all add: persist_row_def split: option.split)

lemma mini_segs_cover:
  assumes "mini_segs is_first is_last hit slot len x_sink in_batch in_interior pl = (kind, sr, ir, pl')" "rows_cover n pl"
    "0 \<le> len" "0 \<le> x_sink" "0 \<le> in_batch" "0 \<le> in_interior"
  shows "rows_cover (n + (if is_first then in_batch else if is_last then len else x_sink + in_interior)) pl'"
    "rc_phys_lengths pl' = rc_phys_lengths pl" "rc_compose pl' = rc_compose pl"
proof -
  note a = add_row_cover [OF assms(2)]
  note b = add_row_cover [OF a(1) [OF assms(4)] assms(6)]
  have "rows_cover k (persist_row r x q) = rows_cover k q" for k r x q
    by (simp add: rows_cover_def)
  then show "rows_cover (n + (if is_first then in_batch else if is_last then len else x_sink + in_interior)) pl'"
      "rc_phys_lengths pl' = rc_phys_lengths pl" "rc_compose pl' = rc_compose pl"
    using assms(1) a [OF assms(3)] a [OF assms(4)] a [OF assms(5)] b
    by (auto simp: mini_segs_def case_prod_unfold Let_def add.assoc split: if_splits)
qed

lemma close_phys_cover:
  assumes "close_phys is_last ps slot close_at cur pl = (cur', pl')" "cur_phys_start cur \<le> close_at" "phys_cover n pl"
  shows "phys_cover (n + (close_at - cur_phys_start cur)) pl'" "cur_phys_start cur' = close_at" "tok_cursor cur' = tok_cursor cur"
    "rc_lengths pl' = rc_lengths pl" "rc_indices pl' = rc_indices pl" "rc_compose pl' = rc_compose pl"
  using assms by (auto simp: close_phys_def Let_def phys_cover_def split: if_splits option.splits)

lemma seg_mamba_slot_ok:
  assumes "\<forall>h. snd (snd sg) = Some h \<longrightarrow> h \<in> fst ` set hit_slots"
  shows "\<exists>x. seg_mamba_slot hit_slots miss_slots dst is_last sg = Inr x"
  using assms by (cases sg) (fastforce simp: seg_mamba_slot_def map_of_eq_None_iff split: option.splits)

lemma plan_segment_cover:
  assumes "fst sg \<le> fst (snd sg)" "is_last \<longrightarrow> snd (snd sg) = None" "\<forall>h. snd (snd sg) = Some h \<longrightarrow> h \<in> fst ` set hit_slots"
    "cur_phys_start cur = tok_cursor cur" "rows_cover n pl" "phys_cover n pl"
  shows "\<exists>en cur' pl'. plan_segment hit_slots miss_slots dst hit_seam is_first is_last sg (cur, pl) = Inr (en, cur', pl') \<and>
    cur_phys_start cur' = tok_cursor cur' \<and> rows_cover (n + batch_tokens is_first is_last hit_seam sg) pl' \<and>
    phys_cover (n + batch_tokens is_first is_last hit_seam sg) pl' \<and> rc_compose pl' = rc_compose pl"
proof -
  let ?hit = "snd (snd sg) \<noteq> None" and ?len = "int (fst (snd sg)) - int (fst sg)" and ?x = "sink_len is_first is_last hit_seam sg"
  let ?slot = "map_of miss_slots (fst sg, fst (snd sg))" and ?int = "if ?hit then 0 else ?len - ?x" and ?in = "if ?hit then ?x else ?len"
  obtain m where m: "seg_mamba_slot hit_slots miss_slots dst is_last sg = Inr m"
    using seg_mamba_slot_ok [OF assms(3)] by blast
  obtain kind sr ir pl1 where ms: "mini_segs is_first is_last ?hit ?slot ?len ?x ?in ?int pl = (kind, sr, ir, pl1)"
    by (metis prod_cases4)
  let ?stop = "tok_cursor cur + ?x + ?int"
  obtain cur2 pl2 where cp: "close_phys is_last (if ?hit then None else ?slot) m ?stop (cur\<lparr>tok_cursor := ?stop\<rparr>) pl1 = (cur2, pl2)"
    by fastforce
  have run: "plan_segment hit_slots miss_slots dst hit_seam is_first is_last sg (cur, pl) =
      Inr (\<lparr>ce_kind = kind, ce_mamba_slot = m, ce_sink_row = sr, ce_interior_row = ir, ce_use_pool = (?hit \<and> 0 < ?len - ?x)\<rparr>, cur2, pl2)"
    using m ms cp by (cases sg) (simp only: plan_segment_def Let_def prod.case sum.case fst_conv snd_conv)
  have x: "?x = 0" if "\<not> ?hit \<or> is_first \<or> is_last"
    using that by (cases sg) (auto simp: sink_len_def)
  have nn: "0 \<le> ?len" "0 \<le> ?x" "0 \<le> ?in" "0 \<le> ?int"
    using assms(1) x sink_len_nonneg by auto
  note r = mini_segs_cover [OF ms assms(5) nn]
  have p1: "phys_cover n pl1"
    using assms(6) r(2) by (simp add: phys_cover_def)
  have adv: "batch_tokens is_first is_last hit_seam sg = ?x + ?int"
    using x by (auto simp: batch_tokens_def)
  have rows: "batch_tokens is_first is_last hit_seam sg = (if is_first then ?in else if is_last then ?len else ?x + ?int)"
    using x assms(2) by (auto simp: batch_tokens_def)
  note c = close_phys_cover [OF cp _ p1]
  show ?thesis
    using run c nn assms(4) r adv rows by (auto simp: rows_cover_def)
qed

fun segs_tokens :: "seam \<Rightarrow> bool \<Rightarrow> merged_segment list \<Rightarrow> int" where
  "segs_tokens hit_seam is_first [] = 0"
| "segs_tokens hit_seam is_first (sg # rest) = batch_tokens is_first (rest = []) hit_seam sg + segs_tokens hit_seam False rest"

lemma plan_segments_cover:
  assumes "\<forall>sg\<in>set segs. fst sg \<le> fst (snd sg) \<and> (\<forall>h. snd (snd sg) = Some h \<longrightarrow> h \<in> fst ` set hit_slots)" "segs \<noteq> [] \<longrightarrow> snd (snd (last segs)) = None"
    "cur_phys_start cur = tok_cursor cur" "rows_cover n pl" "phys_cover n pl"
  shows "\<exists>ens cur' pl'. plan_segments hit_slots miss_slots dst hit_seam is_first segs (cur, pl) = Inr (ens, cur', pl') \<and> length ens = length segs \<and>
    rows_cover (n + segs_tokens hit_seam is_first segs) pl' \<and> phys_cover (n + segs_tokens hit_seam is_first segs) pl' \<and> rc_compose pl' = rc_compose pl"
  using assms
proof (induction segs arbitrary: is_first cur n pl)
  case (Cons sg segs)
  obtain en cur1 pl1 where 1: "plan_segment hit_slots miss_slots dst hit_seam is_first (segs = []) sg (cur, pl) = Inr (en, cur1, pl1)"
      "cur_phys_start cur1 = tok_cursor cur1" "rows_cover (n + batch_tokens is_first (segs = []) hit_seam sg) pl1"
      "phys_cover (n + batch_tokens is_first (segs = []) hit_seam sg) pl1" "rc_compose pl1 = rc_compose pl"
    using plan_segment_cover [of sg "segs = []" hit_slots cur n pl miss_slots dst hit_seam is_first] Cons.prems by (auto split: if_splits)
  have "segs \<noteq> [] \<longrightarrow> snd (snd (last segs)) = None"
    using Cons.prems(2) by auto
  then obtain ens cur2 pl2 where "plan_segments hit_slots miss_slots dst hit_seam False segs (cur1, pl1) = Inr (ens, cur2, pl2)" "length ens = length segs"
      "rows_cover (n + batch_tokens is_first (segs = []) hit_seam sg + segs_tokens hit_seam False segs) pl2"
      "phys_cover (n + batch_tokens is_first (segs = []) hit_seam sg + segs_tokens hit_seam False segs) pl2" "rc_compose pl2 = rc_compose pl1"
    using Cons.IH [OF _ _ 1(2-4), of False] Cons.prems(1) by auto
  then show ?case
    using 1 by (simp add: add.assoc)
qed simp

subsection \<open>Tokens of a request\<close>

definition seam_tokens :: "seam \<Rightarrow> segment \<Rightarrow> int" where
  "seam_tokens hit_seam sg = (case map_of hit_seam sg of None \<Rightarrow> 0 | Some ps \<Rightarrow> int (length ps))"

lemma sum_over_seam:
  assumes "distinct ks" "distinct (map fst hit_seam)" "set (map fst hit_seam) \<subseteq> set ks"
  shows "sum_list (map (seam_tokens hit_seam) ks) = int (length (concat (map snd hit_seam)))"
proof -
  have "sum_list (map (seam_tokens hit_seam) ks) = sum (seam_tokens hit_seam) (set ks)"
    using assms(1) by (simp add: sum_list_distinct_conv_sum_set)
  also have "\<dots> = sum (seam_tokens hit_seam) (set (map fst hit_seam))"
    using assms(3) by (intro sum.mono_neutral_right) (auto simp: seam_tokens_def map_of_eq_None_iff split: option.split intro: rev_image_eqI dest!: map_of_SomeD)
  also have "\<dots> = sum_list (map (seam_tokens hit_seam) (map fst hit_seam))"
    using assms(2) by (simp only: sum_list_distinct_conv_sum_set)
  also have "\<dots> = sum_list (map (\<lambda>x. int (length (snd x))) hit_seam)"
    using assms(2) by (auto intro!: arg_cong [of _ _ sum_list] simp: seam_tokens_def)
  also have "\<dots> = int (length (concat (map snd hit_seam)))"
    by (induction hit_seam) simp_all
  finally show ?thesis .
qed

definition seam_ok :: "(nat \<times> nat \<times> bytes) list \<Rightarrow> segment list \<Rightarrow> seam \<Rightarrow> bool" where
  "seam_ok hits misses hit_seam \<longleftrightarrow> (let segs = merged_segments hits misses in
     segs \<noteq> [] \<and> snd (snd (last segs)) = None \<and> distinct (map fst hit_seam) \<and> (\<forall>(s, e, h)\<in>set hits. s \<le> e) \<and>
     (\<forall>k\<in>fst ` set hit_seam. k \<in> (\<lambda>(s, e, h). (s, e)) ` set hits \<and> fst k \<noteq> fst (hd segs)))"

lemma segs_tokens_eq:
  assumes "segs \<noteq> [] \<longrightarrow> snd (snd (last segs)) = None" "is_first \<and> segs \<noteq> [] \<longrightarrow> map_of hit_seam (fst (hd segs), fst (snd (hd segs))) = None"
  shows "segs_tokens hit_seam is_first segs =
    sum_list (map (\<lambda>sg. if snd (snd sg) = None then int (fst (snd sg)) - int (fst sg) else seam_tokens hit_seam (fst sg, fst (snd sg))) segs)"
  using assms
proof (induction segs arbitrary: is_first)
  case (Cons sg segs)
  have "segs_tokens hit_seam False segs =
    sum_list (map (\<lambda>sg. if snd (snd sg) = None then int (fst (snd sg)) - int (fst sg) else seam_tokens hit_seam (fst sg, fst (snd sg))) segs)"
    using Cons.prems by (intro Cons.IH) auto
  then show ?case
    using Cons.prems by (cases sg) (auto simp: batch_tokens_def sink_len_def seam_tokens_def split: option.split)
qed simp

lemma merged_tokens:
  assumes "seam_ok hits misses hit_seam" "\<forall>sg\<in>set misses. fst sg \<le> snd sg" "distinct (map fst hits @ map fst misses)"
  shows "segs_tokens hit_seam True (merged_segments hits misses) = int (length (abs_positions misses hit_seam))"
proof -
  let ?f = "\<lambda>sg :: merged_segment. if snd (snd sg) = None then int (fst (snd sg)) - int (fst sg) else seam_tokens hit_seam (fst sg, fst (snd sg))"
  let ?u = "map (\<lambda>(s, e, h). (s, e, Some h)) hits @ map (\<lambda>(s, e). (s, e, None)) misses"
  let ?r = "map (\<lambda>(s, e, h). (s, e)) hits"
  note ok = assms(1) [unfolded seam_ok_def Let_def]
  have "map_of hit_seam (fst (hd (merged_segments hits misses)), fst (snd (hd (merged_segments hits misses)))) = None"
    using ok by (force simp: map_of_eq_None_iff)
  then have "segs_tokens hit_seam True (merged_segments hits misses) = sum_list (map ?f (merged_segments hits misses))"
    using ok by (intro segs_tokens_eq) auto
  also have "\<dots> = sum_list (map ?f ?u)"
    unfolding merged_segments_def by (simp only: mset_map mset_sort flip: sum_mset_sum_list)
  also have "\<dots> = sum_list (map (seam_tokens hit_seam) ?r) + sum_list (map (\<lambda>(s, e). int e - int s) misses)"
    by (simp add: comp_def case_prod_unfold)
  also have "sum_list (map (seam_tokens hit_seam) ?r) = int (length (concat (map snd hit_seam)))"
  proof (rule sum_over_seam)
    have "distinct (map fst ?r)"
      using assms(3) by (simp add: comp_def case_prod_unfold)
    then show "distinct ?r"
      by (simp only: distinct_map)
  qed (use ok in simp, use ok in force)
  also have "sum_list (map (\<lambda>(s, e). int e - int s) misses) = int (length (concat (map (\<lambda>(s, e). [s..<e]) misses)))"
    using assms(2) by (induction misses) (auto simp: of_nat_diff)
  finally show ?thesis
    by (simp add: abs_positions_def)
qed

subsection \<open>Tokens of a batch\<close>

definition seams_ok :: "pic_batch \<Rightarrow> seam list \<Rightarrow> bool" where
  "seams_ok fb seams \<longleftrightarrow> length seams = pb_batch_size fb \<and> (\<forall>i<pb_batch_size fb. seam_ok (pb_hit_segments fb ! i) (pb_miss_segments fb ! i) (seams ! i))"

abbreviation req_positions :: "pic_batch \<Rightarrow> seam list \<Rightarrow> nat \<Rightarrow> nat list" where
  "req_positions fb seams i \<equiv> abs_positions (pb_miss_segments fb ! i) (seams ! i)"

lemma per_req_nth: "i < length xs \<Longrightarrow> per_req d xs i = Inr (xs ! i)"
  by (auto simp: per_req_def)

lemma layout_reqs_run:
  assumes "batch_ok fb" "length seams = pb_batch_size fb" "k \<le> pb_batch_size fb"
  shows "\<exists>offs. length offs = pb_batch_size fb - k \<and> layout_reqs fb seams [k..<pb_batch_size fb] off =
    Inr (map2 (\<lambda>i o'. (merged_segments (pb_hit_segments fb ! i) (pb_miss_segments fb ! i), req_positions fb seams i, o')) [k..<pb_batch_size fb] offs)"
  using assms(3)
proof (induction k arbitrary: off rule: inc_induct)
  case base
  then show ?case
    by simp
next
  case (step k)
  note len = batch_okD(2,3) [OF assms(1)]
  obtain offs where "length offs = pb_batch_size fb - Suc k" "layout_reqs fb seams [Suc k..<pb_batch_size fb] (off + length (req_positions fb seams k)) =
      Inr (map2 (\<lambda>i o'. (merged_segments (pb_hit_segments fb ! i) (pb_miss_segments fb ! i), req_positions fb seams i, o')) [Suc k..<pb_batch_size fb] offs)"
    using step.IH by blast
  then show ?case
    using step(1,2) len assms(2) by (intro exI [of _ "off # offs"]) (simp add: upt_conv_Cons per_req_nth)
qed

lemma plan_req_cover:
  assumes "batch_ok fb" "seams_ok fb seams" "i < pb_batch_size fb" "rows_cover n pl" "phys_cover n pl"
  shows "\<exists>pl' ens. plan_recompute_req fb seams i (merged_segments (pb_hit_segments fb ! i) (pb_miss_segments fb ! i)) off pl = Inr pl' \<and>
    rows_cover (n + int (length (req_positions fb seams i))) pl' \<and> phys_cover (n + int (length (req_positions fb seams i))) pl' \<and>
    rc_compose pl' = rc_compose pl @ [ens] \<and> length ens = length (pb_hit_segments fb ! i) + length (pb_miss_segments fb ! i)"
proof -
  let ?h = "pb_hit_segments fb ! i" and ?m = "pb_miss_segments fb ! i"
  note len = batch_okD(2-6) [OF assms(1)]
  have ok: "seam_ok ?h ?m (seams ! i)" and ls: "length seams = pb_batch_size fb"
    using assms(2,3) by (simp_all add: seams_ok_def)
  have "\<forall>sg\<in>set (merged_segments ?h ?m). fst sg \<le> fst (snd sg) \<and> (\<forall>h. snd (snd sg) = Some h \<longrightarrow> h \<in> fst ` set (pb_hit_mamba_slots fb ! i))"
    using ok batch_okD(8,9) [OF assms(1,3)] by (fastforce simp: merged_segments_def seam_ok_def Let_def)
  moreover have "merged_segments ?h ?m \<noteq> [] \<longrightarrow> snd (snd (last (merged_segments ?h ?m))) = None"
    using ok by (simp add: seam_ok_def Let_def)
  moreover have "segs_tokens (seams ! i) True (merged_segments ?h ?m) = int (length (req_positions fb seams i))"
    using merged_tokens [OF ok] batch_okD(8,10) [OF assms(1,3)] by simp
  moreover have "length (merged_segments ?h ?m) = length ?h + length ?m"
    by (simp add: merged_segments_def)
  ultimately obtain ens cur' pl' where "plan_segments (pb_hit_mamba_slots fb ! i) (pb_miss_mamba_slots fb ! i) (pb_cache_indices fb ! i) (seams ! i) True (merged_segments ?h ?m)
        (\<lparr>cur_phys_start = int off, cur_phys_prev_slot = -1, tok_cursor = int off\<rparr>, pl) = Inr (ens, cur', pl')" "length ens = length ?h + length ?m"
      "rows_cover (n + int (length (req_positions fb seams i))) pl'" "phys_cover (n + int (length (req_positions fb seams i))) pl'" "rc_compose pl' = rc_compose pl"
    using plan_segments_cover [OF _ _ _ assms(4,5), of "merged_segments ?h ?m" "pb_hit_mamba_slots fb ! i"
        "\<lparr>cur_phys_start = int off, cur_phys_prev_slot = -1, tok_cursor = int off\<rparr>" "pb_miss_mamba_slots fb ! i" "pb_cache_indices fb ! i" "seams ! i" True] by auto
  then show ?thesis
    using len ls assms(3) by (auto simp: plan_recompute_req_def per_req_nth select_row_def rows_cover_def phys_cover_def)
qed

lemma plan_reqs_cover:
  assumes "batch_ok fb" "seams_ok fb seams" "k \<le> pb_batch_size fb" "length offs = pb_batch_size fb - k" "rows_cover n pl" "phys_cover n pl"
  defines "P \<equiv> \<lambda>k. concat (map (req_positions fb seams) [k..<pb_batch_size fb])"
  shows "\<exists>pl' enss. plan_recompute_reqs fb seams k
      (map2 (\<lambda>i o'. (merged_segments (pb_hit_segments fb ! i) (pb_miss_segments fb ! i), req_positions fb seams i, o')) [k..<pb_batch_size fb] offs) pl = Inr pl' \<and>
    rows_cover (n + int (length (P k))) pl' \<and> phys_cover (n + int (length (P k))) pl' \<and> rc_compose pl' = rc_compose pl @ enss \<and>
    map length enss = map (\<lambda>i. length (pb_hit_segments fb ! i) + length (pb_miss_segments fb ! i)) [k..<pb_batch_size fb]"
  using assms(3-6)
proof (induction k arbitrary: offs n pl rule: inc_induct)
  case base
  then show ?case
    by (simp add: P_def)
next
  case (step k)
  obtain off offs' where o: "offs = off # offs'" "length offs' = pb_batch_size fb - Suc k"
    using step.prems(1) step.hyps by (cases offs) auto
  obtain pl1 ens where 1: "plan_recompute_req fb seams k (merged_segments (pb_hit_segments fb ! k) (pb_miss_segments fb ! k)) off pl = Inr pl1"
      "rows_cover (n + int (length (req_positions fb seams k))) pl1" "phys_cover (n + int (length (req_positions fb seams k))) pl1"
      "rc_compose pl1 = rc_compose pl @ [ens]" "length ens = length (pb_hit_segments fb ! k) + length (pb_miss_segments fb ! k)"
    using plan_req_cover [OF assms(1,2) step.hyps(2) step.prems(2,3)] by blast
  have P: "length (P k) = length (req_positions fb seams k) + length (P (Suc k))"
    using step.hyps by (simp add: P_def upt_conv_Cons)
  obtain pl2 enss where "plan_recompute_reqs fb seams (Suc k)
      (map2 (\<lambda>i o'. (merged_segments (pb_hit_segments fb ! i) (pb_miss_segments fb ! i), req_positions fb seams i, o')) [Suc k..<pb_batch_size fb] offs') pl1 = Inr pl2"
      "rows_cover (n + int (length (P k))) pl2" "phys_cover (n + int (length (P k))) pl2" "rc_compose pl2 = rc_compose pl1 @ enss"
      "map length enss = map (\<lambda>i. length (pb_hit_segments fb ! i) + length (pb_miss_segments fb ! i)) [Suc k..<pb_batch_size fb]"
    using step.IH [OF o(2) 1(2,3)] by (auto simp: P add.assoc)
  then show ?case
    using 1 step.hyps o(1) by (intro exI [of _ pl2] exI [of _ "ens # enss"]) (simp add: upt_conv_Cons)
qed

text \<open>C35. The recompute plan covers the batch: the compute rows and the convolution segments are not empty and the tokens of each add up to the token
  positions of the batch, that is the missed segments and the sink tokens of cached ones; the rows are numbered consecutively; and the composition of every
  request has one entry per segment, cached or missed.\<close>

theorem recompute_plan_covers:
  assumes "batch_ok fb" "seams_ok fb seams"
  shows "\<exists>m. build_pic_recompute_metadata fb seams = Inr m \<and>
    rm_abs_pos_flat m = concat (map (\<lambda>i. abs_positions (pb_miss_segments fb ! i) (seams ! i)) [0..<pb_batch_size fb]) \<and>
    sum_list (rc_lengths (rm_plan m)) = int (length (rm_abs_pos_flat m)) \<and> sum_list (rc_phys_lengths (rm_plan m)) = int (length (rm_abs_pos_flat m)) \<and>
    (\<forall>x\<in>set (rc_lengths (rm_plan m) @ rc_phys_lengths (rm_plan m)). 0 < x) \<and> rc_indices (rm_plan m) = [0..<length (rc_lengths (rm_plan m))] \<and>
    map length (rc_compose (rm_plan m)) = map (\<lambda>i. length (pb_hit_segments fb ! i) + length (pb_miss_segments fb ! i)) [0..<pb_batch_size fb]"
proof -
  obtain offs where offs: "length offs = pb_batch_size fb" "layout_reqs fb seams [0..<pb_batch_size fb] 0 =
      Inr (map2 (\<lambda>i o'. (merged_segments (pb_hit_segments fb ! i) (pb_miss_segments fb ! i), req_positions fb seams i, o')) [0..<pb_batch_size fb] offs)"
    using layout_reqs_run [OF assms(1), of seams 0 0] assms(2) by (auto simp: seams_ok_def)
  have "rows_cover 0 rc_empty" "phys_cover 0 rc_empty" "rc_compose rc_empty = []"
    by (simp_all add: rows_cover_def phys_cover_def rc_empty_def)
  then obtain pl enss where pl: "plan_recompute_reqs fb seams 0
      (map2 (\<lambda>i o'. (merged_segments (pb_hit_segments fb ! i) (pb_miss_segments fb ! i), req_positions fb seams i, o')) [0..<pb_batch_size fb] offs) rc_empty = Inr pl"
      "rows_cover (int (length (concat (map (req_positions fb seams) [0..<pb_batch_size fb])))) pl"
      "phys_cover (int (length (concat (map (req_positions fb seams) [0..<pb_batch_size fb])))) pl" "rc_compose pl = enss"
      "map length enss = map (\<lambda>i. length (pb_hit_segments fb ! i) + length (pb_miss_segments fb ! i)) [0..<pb_batch_size fb]"
    using plan_reqs_cover [OF assms, of 0 offs 0 rc_empty] offs(1) by auto
  have "map (\<lambda>(segs, abs_pos, offset). abs_pos)
      (map2 (\<lambda>i o'. (merged_segments (pb_hit_segments fb ! i) (pb_miss_segments fb ! i), req_positions fb seams i, o')) [0..<pb_batch_size fb] offs) =
      map (req_positions fb seams) [0..<pb_batch_size fb]"
    using offs(1) by (intro nth_equalityI) simp_all
  then show ?thesis
    using offs(2) pl unfolding build_pic_recompute_metadata_def by (auto simp: rows_cover_def phys_cover_def simp del: map_map)
qed

section \<open>Replaying a cached segment\<close>

lemma advance_batch_run:
  assumes "kernels_ok K gate upd" "r < length h0s" "r < length F"
  shows "advance_batch K (map (\<lambda>G. k_fwd_h K G 0) F) (map (\<lambda>G. k_fwd_t K G (k_eye K)) F) r (h0s, h) = Inr (h0s[r := h], recur K gate upd (F ! r) h)"
  using assms by (simp add: advance_batch_def pool_row_in segment_affine [OF assms(1)])

lemma advance_pool_run:
  assumes "kernels_ok K gate upd" "holds_segment K p slot G"
  shows "advance_pool K p slot (h0s, h) = Inr (h0s, recur K gate upd G h)"
  using assms(2) by (simp add: advance_pool_def holds_segment_def segment_affine [OF assms(1)])

text \<open>A prompt of three segments \<open>[0, a)\<close>, \<open>[a, b)\<close>, \<open>[b, c)\<close>: computed in full, and with the first two segments cached and \<open>k\<close> sink
  tokens of the second one in the batch.\<close>

definition cold_batch :: "nat \<Rightarrow> nat \<Rightarrow> nat \<Rightarrow> int \<Rightarrow> int \<Rightarrow> int \<Rightarrow> int \<Rightarrow> pic_batch" where
  "cold_batch a b c y x z d = \<lparr>pb_batch_size = 1, pb_hit_segments = [[]], pb_miss_segments = [[(0, a), (a, b), (b, c)]],
     pb_hit_mamba_slots = [[]], pb_miss_mamba_slots = [[((0, a), y), ((a, b), x), ((b, c), z)]], pb_cache_indices = [d]\<rparr>"

definition warm_batch :: "nat \<Rightarrow> nat \<Rightarrow> nat \<Rightarrow> bytes \<Rightarrow> bytes \<Rightarrow> int \<Rightarrow> int \<Rightarrow> int \<Rightarrow> int \<Rightarrow> pic_batch" where
  "warm_batch a b c hy hx y x z d = \<lparr>pb_batch_size = 1, pb_hit_segments = [[(0, a, hy), (a, b, hx)]], pb_miss_segments = [[(b, c)]],
     pb_hit_mamba_slots = [[(hy, y), (hx, x)]], pb_miss_mamba_slots = [[((b, c), z)]], pb_cache_indices = [d]\<rparr>"

lemmas recompute_plan_defs = build_pic_recompute_metadata_def merged_segments_def per_req_def plan_recompute_req_def select_row_def
  plan_segment_def seg_mamba_slot_def sink_len_def mini_segs_def add_row_def persist_row_def close_phys_def rc_empty_def

lemma cold_meta:
  assumes "0 < a" "a < b" "b < c"
  shows "\<exists>m. build_pic_recompute_metadata (cold_batch a b c y x z d) [[]] = Inr m \<and> rm_compute_cu_seqlens m = [0, int a, int b, int c] \<and>
    rc_indices (rm_plan m) = [0, 1, 2] \<and> rc_persist_src (rm_plan m) = [0, 1] \<and> rc_persist_dst (rm_plan m) = [y, x] \<and>
    rc_compose (rm_plan m) = [[\<lparr>ce_kind = Sys, ce_mamba_slot = y, ce_sink_row = None, ce_interior_row = Some 0, ce_use_pool = False\<rparr>,
       \<lparr>ce_kind = Mid_miss, ce_mamba_slot = x, ce_sink_row = None, ce_interior_row = Some 1, ce_use_pool = False\<rparr>,
       \<lparr>ce_kind = Query, ce_mamba_slot = d, ce_sink_row = None, ce_interior_row = Some 2, ce_use_pool = False\<rparr>]]"
  using assms by (simp add: cold_batch_def recompute_plan_defs Let_def)

lemma warm_meta:
  assumes "0 < a" "a < b" "b < c" "0 < k" "k < b - a" "hy \<noteq> hx"
  shows "\<exists>m. build_pic_recompute_metadata (warm_batch a b c hy hx y x z d) [[((a, b), [a..<a + k])]] = Inr m \<and>
    rm_compute_cu_seqlens m = [0, int k, int k + (int c - int b)] \<and>
    rc_indices (rm_plan m) = [0, 1] \<and> rc_persist_src (rm_plan m) = [] \<and> rc_persist_dst (rm_plan m) = [] \<and>
    rc_compose (rm_plan m) = [[\<lparr>ce_kind = Sys, ce_mamba_slot = y, ce_sink_row = None, ce_interior_row = None, ce_use_pool = True\<rparr>,
       \<lparr>ce_kind = Mid_hit, ce_mamba_slot = x, ce_sink_row = Some 0, ce_interior_row = None, ce_use_pool = True\<rparr>,
       \<lparr>ce_kind = Query, ce_mamba_slot = d, ce_sink_row = None, ce_interior_row = Some 1, ce_use_pool = False\<rparr>]]"
  using assms by (simp add: warm_batch_def recompute_plan_defs Let_def)

lemma put_two:
  assumes "0 \<le> y" "y < int (length zs)" "0 \<le> x" "x < int (length zs)"
  shows "put_rows [y, x] [u, v] zs = Inr (zs[nat y := u, nat x := v])"
  using assms by (subst put_rows_ok) auto

lemma rest_parts: "a \<le> b \<Longrightarrow> take (b - a) (drop a xs) @ drop b xs = drop a xs"
  by (metis append_take_drop_id drop_drop le_add_diff_inverse2)

lemma cold_run:
  fixes K :: "('x, 'h::comm_monoid_add, 't::monoid_mult, 'o) gdn_kernels"
  assumes "kernels_ok K gate upd" "0 < a" "a < b" "b < c" "length xs = c" "length (ssm_states p) = n" "length (transition_pool p) = n"
    "distinct [y, x, d]" "\<forall>s\<in>{y, x, d}. 0 \<le> s \<and> s < int n"
  shows "\<exists>m h0 outs p'. build_pic_recompute_metadata (cold_batch a b c y x z d) [[]] = Inr m \<and>
    forward_extend_pic_transition_recompute K xs [d] m p = (Inr (h0, outs), p') \<and> ssm_states p' ! nat d = recur K gate upd xs 0 \<and>
    length (ssm_states p') = n \<and> length (transition_pool p') = n \<and>
    holds_segment K p' y (take a xs) \<and> holds_segment K p' x (take (b - a) (drop a xs))"
proof -
  obtain m where m: "build_pic_recompute_metadata (cold_batch a b c y x z d) [[]] = Inr m" "rm_compute_cu_seqlens m = [0, int a, int b, int c]"
      "rc_indices (rm_plan m) = [0, 1, 2]" "rc_persist_src (rm_plan m) = [0, 1]" "rc_persist_dst (rm_plan m) = [y, x]"
      "rc_compose (rm_plan m) = [[\<lparr>ce_kind = Sys, ce_mamba_slot = y, ce_sink_row = None, ce_interior_row = Some 0, ce_use_pool = False\<rparr>,
       \<lparr>ce_kind = Mid_miss, ce_mamba_slot = x, ce_sink_row = None, ce_interior_row = Some 1, ce_use_pool = False\<rparr>,
       \<lparr>ce_kind = Query, ce_mamba_slot = d, ce_sink_row = None, ce_interior_row = Some 2, ce_use_pool = False\<rparr>]]"
    using cold_meta [OF assms(2-4)] by blast
  let ?F = "[take a xs, take (b - a) (drop a xs), drop b xs]"
  have F: "row_slice (rm_compute_cu_seqlens m) xs r = ?F ! r" if "r \<in> {0, 1, 2}" for r
    using that assms(2-5) by (auto simp: m(2) slice_rows_def nat_diff_distrib)
  let ?S = "map (\<lambda>G. k_fwd_h K G 0) ?F" and ?T = "map (\<lambda>G. k_fwd_t K G (k_eye K)) ?F"
  have rows: "map (\<lambda>r. k_fwd_h K (row_slice (rm_compute_cu_seqlens m) xs r) 0) [0, 1, 2] = ?S"
      "map (\<lambda>r. k_fwd_t K (row_slice (rm_compute_cu_seqlens m) xs r) (k_eye K)) [0, 1, 2] = ?T"
    by (simp_all only: list.map F insert_iff simp_thms) (simp_all add: numeral_2_eq_2)
  define q where "q = p\<lparr>ssm_states := (ssm_states p)[nat y := ?S ! 0, nat x := ?S ! 1], transition_pool := (transition_pool p)[nat y := ?T ! 0, nat x := ?T ! 1]\<rparr>"
  have per: "persist_ssm [0, Suc 0] [y, x] ?S p = (Inr (), p\<lparr>ssm_states := ssm_states q\<rparr>)" "persist_transitions [0, Suc 0] [y, x] ?T (p\<lparr>ssm_states := ssm_states q\<rparr>) = (Inr (), q)"
    using assms(6-9) by (simp_all add: persist_ssm_def persist_transitions_def bindM_app pool_row_in put_two q_def)
  have "recur K gate upd (drop b xs) (recur K gate upd (take (b - a) (drop a xs)) (recur K gate upd (take a xs) 0)) = recur K gate upd (concat ?F) 0"
    by (simp add: recur_append)
  also have "concat ?F = xs"
    using rest_parts [of a b xs] assms(3) by simp
  finally have fin: "recur K gate upd (drop b xs) (recur K gate upd (take (b - a) (drop a xs)) (recur K gate upd (take a xs) 0)) = recur K gate upd xs 0" .
  have adv: "advance_batch K ?S ?T r (h0s, h) = Inr (h0s[r := h], recur K gate upd (?F ! r) h)" if "r < 3" "length h0s = 3" for r h0s h
    using that by (intro advance_batch_run [OF assms(1)]) simp_all
  obtain h0 where comp: "compose_plan K q ?S ?T (rc_compose (rm_plan m)) [0, 0, 0] = Inr (h0, [recur K gate upd xs 0])"
    unfolding m(6) by (simp add: compose_entry_step_def Let_def adv fin del: list.map)
  define p' where "p' = q\<lparr>ssm_states := (ssm_states q)[nat d := recur K gate upd xs 0]\<rparr>"
  have wf: "write_finals [d] [recur K gate upd xs 0] q = (Inr (), p')"
    using assms(6,9) by (subst write_finals_run) (simp_all add: q_def p'_def)
  have "\<exists>outs. forward_extend_pic_transition_recompute K xs [d] m p = (Inr (h0, outs), p')"
    unfolding forward_extend_pic_transition_recompute_def Let_def m(3-5) rows
    by (simp add: bindM_app per comp wf del: list.map)
  moreover have "ssm_states p' ! nat d = recur K gate upd xs 0" "length (ssm_states p') = n" "length (transition_pool p') = n"
    using assms(6,7,9) by (simp_all add: p'_def q_def nat_less_iff)
  moreover have "holds_segment K p' y (take a xs)" "holds_segment K p' x (take (b - a) (drop a xs))"
    using assms(6-9) by (simp_all add: holds_segment_def p'_def q_def pool_row_in eq_nat_nat_iff nat_less_iff)
  ultimately show ?thesis
    using m(1) by blast
qed

lemma warm_run:
  fixes K :: "('x, 'h::comm_monoid_add, 't::monoid_mult, 'o) gdn_kernels"
  assumes "kernels_ok K gate upd" "0 < a" "a < b" "b < c" "0 < k" "k < b - a" "hy \<noteq> hx" "length sink = k" "length query = c - b"
    "holds_segment K p y G" "holds_segment K p x H" "0 \<le> d" "d < int (length (ssm_states p))"
  shows "\<exists>m h0 outs p'. build_pic_recompute_metadata (warm_batch a b c hy hx y x z d) [[((a, b), [a..<a + k])]] = Inr m \<and>
    forward_extend_pic_transition_recompute K (sink @ query) [d] m p = (Inr (h0, outs), p') \<and>
    ssm_states p' ! nat d = recur K gate upd (G @ sink @ H @ query) 0"
proof -
  obtain m where m: "build_pic_recompute_metadata (warm_batch a b c hy hx y x z d) [[((a, b), [a..<a + k])]] = Inr m"
      "rm_compute_cu_seqlens m = [0, int k, int k + (int c - int b)]"
      "rc_indices (rm_plan m) = [0, 1]" "rc_persist_src (rm_plan m) = []" "rc_persist_dst (rm_plan m) = []"
      "rc_compose (rm_plan m) = [[\<lparr>ce_kind = Sys, ce_mamba_slot = y, ce_sink_row = None, ce_interior_row = None, ce_use_pool = True\<rparr>,
       \<lparr>ce_kind = Mid_hit, ce_mamba_slot = x, ce_sink_row = Some 0, ce_interior_row = None, ce_use_pool = True\<rparr>,
       \<lparr>ce_kind = Query, ce_mamba_slot = d, ce_sink_row = None, ce_interior_row = Some 1, ce_use_pool = False\<rparr>]]"
    using warm_meta [OF assms(2-7)] by blast
  let ?F = "[sink, query]" and ?h = "recur K gate upd (G @ sink @ H @ query) 0"
  have F: "row_slice (rm_compute_cu_seqlens m) (sink @ query) r = ?F ! r" if "r \<in> {0, 1}" for r
    using that assms(4,8,9) by (auto simp: m(2) slice_rows_def nat_diff_distrib)
  let ?S = "map (\<lambda>G. k_fwd_h K G 0) ?F" and ?T = "map (\<lambda>G. k_fwd_t K G (k_eye K)) ?F"
  have rows: "map (\<lambda>r. k_fwd_h K (row_slice (rm_compute_cu_seqlens m) (sink @ query) r) 0) [0, 1] = ?S"
      "map (\<lambda>r. k_fwd_t K (row_slice (rm_compute_cu_seqlens m) (sink @ query) r) (k_eye K)) [0, 1] = ?T"
    by (simp_all only: list.map F insert_iff simp_thms) simp_all
  have adv: "advance_batch K ?S ?T r (h0s, h) = Inr (h0s[r := h], recur K gate upd (?F ! r) h)" if "r < 2" "length h0s = 2" for r h0s h
    using that by (intro advance_batch_run [OF assms(1)]) simp_all
  obtain h0 where comp: "compose_plan K p ?S ?T (rc_compose (rm_plan m)) [0, 0] = Inr (h0, [?h])"
    unfolding m(6) by (simp add: compose_entry_step_def Let_def adv advance_pool_run [OF assms(1,10)] advance_pool_run [OF assms(1,11)] recur_append del: list.map)
  have "write_finals [d] [?h] p = (Inr (), p\<lparr>ssm_states := (ssm_states p)[nat d := ?h]\<rparr>)"
    using assms(12,13) by (subst write_finals_run) simp_all
  then have "\<exists>outs. forward_extend_pic_transition_recompute K (sink @ query) [d] m p = (Inr (h0, outs), p\<lparr>ssm_states := (ssm_states p)[nat d := ?h]\<rparr>)"
    unfolding forward_extend_pic_transition_recompute_def Let_def m(3-5) rows
    by (simp add: bindM_app persist_ssm_def persist_transitions_def comp del: list.map)
  then show ?thesis
    using m(1) assms(12,13) by (fastforce simp: nat_less_iff)
qed

text \<open>C36. In the recompute mode the sink tokens of a cached segment enter the state twice. A prompt computed in full leaves the state of the
  recurrence over its rows. The same prompt with its first two segments cached, and the sink tokens of the second one recomputed, leaves the state of the recurrence over the
  rows with the sink rows repeated: the plan composes the row of the sink tokens and then the cached state of the whole segment.\<close>

theorem recompute_repeats_sink:
  assumes "kernels_ok K gate upd" "0 < a" "a < b" "b < c" "length xs = c" "0 < k" "k < b - a" "hy \<noteq> hx"
    "length (ssm_states p) = n" "length (transition_pool p) = n" "distinct [y, x, d]" "\<forall>s\<in>{y, x, d, d'}. 0 \<le> s \<and> s < int n"
  shows "\<exists>m h0 outs p' m' h0' outs' p''. build_pic_recompute_metadata (cold_batch a b c y x z d) [[]] = Inr m \<and>
    forward_extend_pic_transition_recompute K xs [d] m p = (Inr (h0, outs), p') \<and> ssm_states p' ! nat d = recur K gate upd xs 0 \<and>
    build_pic_recompute_metadata (warm_batch a b c hy hx y x z' d') [[((a, b), [a..<a + k])]] = Inr m' \<and>
    forward_extend_pic_transition_recompute K (take k (drop a xs) @ drop b xs) [d'] m' p' = (Inr (h0', outs'), p'') \<and>
    ssm_states p'' ! nat d' = recur K gate upd (take (a + k) xs @ drop a xs) 0"
proof -
  obtain m h0 outs p' where cold: "build_pic_recompute_metadata (cold_batch a b c y x z d) [[]] = Inr m"
      "forward_extend_pic_transition_recompute K xs [d] m p = (Inr (h0, outs), p')" "ssm_states p' ! nat d = recur K gate upd xs 0"
      "length (ssm_states p') = n" "holds_segment K p' y (take a xs)" "holds_segment K p' x (take (b - a) (drop a xs))"
    using cold_run [OF assms(1-5,9-11), of z] assms(12) by auto
  have "length (take k (drop a xs)) = k" "length (drop b xs) = c - b" "0 \<le> d'" "d' < int (length (ssm_states p'))"
    using assms(2-7,12) cold(4) by simp_all
  then obtain m' h0' outs' p'' where warm: "build_pic_recompute_metadata (warm_batch a b c hy hx y x z' d') [[((a, b), [a..<a + k])]] = Inr m'"
      "forward_extend_pic_transition_recompute K (take k (drop a xs) @ drop b xs) [d'] m' p' = (Inr (h0', outs'), p'')"
      "ssm_states p'' ! nat d' = recur K gate upd (take a xs @ take k (drop a xs) @ take (b - a) (drop a xs) @ drop b xs) 0"
    using warm_run [OF assms(1-4,6-8) _ _ cold(5,6), of "take k (drop a xs)" "drop b xs" d' z'] by blast
  have "take a xs @ take k (drop a xs) @ take (b - a) (drop a xs) @ drop b xs = take (a + k) xs @ drop a xs"
    using rest_parts [of a b xs] assms(3) by (simp add: take_add)
  then show ?thesis
    using cold(1-3) warm by metis
qed

theorem recompute_repeats_sink_witness:
  "\<exists>p' m h0 outs p''. ssm_states p' ! 2 = recur ex_kernels (\<lambda>_. 2) (\<lambda>x. x) [1, 2, 3, 4] 0 \<and>
     forward_extend_pic_transition_recompute ex_kernels [2, 4] [3] m p' = (Inr (h0, outs), p'') \<and>
     ssm_states p'' ! 3 = recur ex_kernels (\<lambda>_. 2) (\<lambda>x. x) [1, 2, 2, 3, 4] 0 \<and>
     recur ex_kernels (\<lambda>_. 2) (\<lambda>x. x) [1, 2, 2, 3, 4] 0 \<noteq> recur ex_kernels (\<lambda>_. 2) (\<lambda>x. x) [1, 2, 3, 4] 0"
proof -
  have "length (ssm_states ex_states) = 5" "length (transition_pool ex_states) = 5"
    by (simp_all add: ex_states_def)
  note ex = recompute_repeats_sink [OF ex_kernels_ok _ _ _ _ _ _ _ this, of 1 3 4 "[1, 2, 3, 4]" 1 "[1]" "[2]" 0 1 2 3 4 4, simplified]
  have "recur ex_kernels (\<lambda>_. 2) (\<lambda>x. x) [1, 2, 2, 3, 4] 0 \<noteq> recur ex_kernels (\<lambda>_. 2) (\<lambda>x. x) [1, 2, 3, 4] 0"
    by (simp add: recur_def ex_kernels_def)
  then show ?thesis
    using ex by blast
qed

theorem recompute_plan_covers_witness:
  "\<exists>m. build_pic_recompute_metadata (warm_batch 1 3 4 [1] [2] 0 1 4 3) [[((1, 3), [1])]] = Inr m \<and> rm_abs_pos_flat m = [1, 3] \<and>
     sum_list (rc_lengths (rm_plan m)) = 2 \<and> sum_list (rc_phys_lengths (rm_plan m)) = 2 \<and> map length (rc_compose (rm_plan m)) = [3]"
proof -
  let ?fb = "warm_batch 1 3 4 [1] [2] 0 1 4 3" and ?s = "[[((1, 3), [1])]]"
  have "batch_ok ?fb" "seams_ok ?fb ?s"
    by (simp add: batch_ok_def warm_batch_def, simp add: seams_ok_def seam_ok_def warm_batch_def merged_segments_def)
  moreover have "concat (map (\<lambda>i. abs_positions (pb_miss_segments ?fb ! i) (?s ! i)) [0..<pb_batch_size ?fb]) = [1, 3]"
    by code_simp
  moreover have "map (\<lambda>i. length (pb_hit_segments ?fb ! i) + length (pb_miss_segments ?fb ! i)) [0..<pb_batch_size ?fb] = [3]"
    by code_simp
  ultimately show ?thesis
    using recompute_plan_covers [of ?fb ?s] by auto
qed

end
