(* ===== verification/Spec2Isabelle.thy ===== *)
theory Spec2Isabelle
  imports Prelude Allocator Evict_Policy Pic_Policy Req_Pool Pic_Cache Pic_Match Pic_Lifecycle Cache_Alloc Pic_Alloc Paged_Allocator
    Pic_Release Sched_Queue Pic_Scatter Pic_Scatter_Props Pic_Scatter_Locks Pic_Scatter_Gate
    Radix_Key Radix_Cache Radix_Tree Radix_Refine Radix_Insert Radix_Lock
    Conv_Tails Gdn_Metadata Gdn_Compose Gdn_Recompute
begin

text \<open>
  Verification of the position-independent cache (PIC) of a serving engine for language models with hybrid attention, and of the memory
  bookkeeping below and around it. Paths are relative to \<^verbatim>\<open>src/python/sglang/srt\<close>.

  \<^bold>\<open>The program.\<close> A prompt is cut into segments at a separator. A segment that was computed before, anywhere in any prompt, is not
  computed again: the engine keeps its KV slots (full-attention layers) and its mamba slot (the recurrent and the convolution state of the
  linear-attention layers) in a segment cache keyed by a hash of its tokens. A request passes through these parts: its prompt is
  tokenised and cut (\<^verbatim>\<open>pic/segmenter.py\<close>); the scheduler admits it to a queue (\<^verbatim>\<open>managers/scheduler.py\<close>); its segments are looked up
  (\<open>match_prefix\<close>, \<^verbatim>\<open>pic/picache.py\<close>) and the hits locked; rows, KV slots and mamba slots are allocated for the missed ones
  (\<^verbatim>\<open>pic/pic_alloc.py\<close> over \<^verbatim>\<open>mem_cache/common.py\<close>, \<^verbatim>\<open>mem_cache/memory_pool.py\<close> and \<^verbatim>\<open>mem_cache/allocator\<close>), evicting unlocked
  segments if there are too few; the forward pass computes the missed segments and composes their states with the cached ones
  (\<^verbatim>\<open>pic/conv_tails.py\<close>, \<^verbatim>\<open>layers/attention/linear/gdn_backend.py\<close>); the missed segments are filed in the cache
  (\<open>cache_unfinished_req\<close>); tokens are decoded; and the request is released (\<open>cache_finished_req\<close>, \<open>release_kv_cache\<close>). In the
  disaggregated mode, segments are computed by several workers and written into the memory of the engine that combines them
  (\<^verbatim>\<open>pic/scatter_xfer.py\<close>). Without PIC the same pools are used by a radix tree over token prefixes
  (\<^verbatim>\<open>mem_cache/radix_cache.py\<close>).

  \<^bold>\<open>Conventions.\<close> \<open>Prelude\<close>: code that mutates objects and may raise is written in a state-and-exception monad
  \<open>('s, 'a) pym\<close> whose state survives a raise; every exception, assertion and early return of the source is a branch. Dictionaries are
  association lists in insertion order. Objects that several parts share (segment entries, tree nodes) live in an explicit heap.
  Python integers are \<open>int\<close> or \<open>nat\<close>; tensors of slots are lists. What is read from outside (clocks, hash functions, the tokenizer, the
  iteration order of sets, what the transport answers) is an argument of the definitions that use it.

  \<^bold>\<open>Memory.\<close>
  \<^item> \<open>Allocator\<close> (\<^verbatim>\<open>mem_cache/allocator/base.py\<close>, \<^verbatim>\<open>token.py\<close>, \<^verbatim>\<open>mamba.py\<close>): free lists, free groups and allocation groups. The locale
    \<open>slot_pool\<close> is the contract of a pool; both allocators interpret it, and in every state a client can reach each slot is free or held,
    once.
  \<^item> \<open>Paged_Allocator\<close> (\<^verbatim>\<open>mem_cache/allocator/paged.py\<close>, \<^verbatim>\<open>mem_cache/triton_ops/allocator.py\<close>): pages of KV slots. The two kernels are the
    stores of their programs, in any order; the extend kernel computes what the sequential routine computes.
  \<^item> \<open>Req_Pool\<close> (\<^verbatim>\<open>mem_cache/memory_pool.py\<close>): request rows and their mamba slots; admission and release conserve both.
  \<^item> \<open>Cache_Alloc\<close> (\<^verbatim>\<open>mem_cache/common.py\<close>): allocation with eviction on demand over any cache (locale \<open>alloc_cache\<close>,
    interpreted by the segment cache in \<open>Pic_Alloc\<close>), and reservation sizes of speculative decoding.
  \<^item> \<open>Evict_Policy\<close> (\<^verbatim>\<open>mem_cache/evict_policy.py\<close>, \<^verbatim>\<open>mem_cache/utils.py\<close>): the eviction priorities.

  \<^bold>\<open>The segment cache.\<close>
  \<^item> \<open>Pic_Policy\<close> (\<^verbatim>\<open>pic/policy.py\<close>, \<^verbatim>\<open>pic/__init__.py\<close>, \<^verbatim>\<open>pic/segmenter.py\<close>, hashes): modes, seam widths, segmentation (the segments
    tile the tokens of the unique leftmost cut of the text), and the injectivity of the hashed bytes.
  \<^item> \<open>Pic_Cache\<close>, \<open>Pic_Match\<close>, \<open>Pic_Lifecycle\<close> (\<^verbatim>\<open>pic/picache.py\<close>, the PIC part of \<open>Req.init_next_round_input\<close>): the state is a
    heap of \<open>SegmentEntry\<close> objects with their index, the two pools and the running counters. Shown: which segments hit; that hits, extend
    positions and misses cover the prompt; eviction takes unlocked entries until both demands are met; locks protect; registration
    accounts for every slot, and so does release except for the segments named by \<open>unreturned\<close>, which the code neither files nor frees:
    too short ones in the rope modes or as the whole prompt, and, without \<open>is_insert\<close>, those long enough for the cache.
  \<^item> \<open>Pic_Alloc\<close> (\<^verbatim>\<open>pic/pic_alloc.py\<close>): allocation for an extend batch in all modes, and the round trip with the release of the request, with
    the same exceptions.
  \<^item> \<open>Pic_Release\<close> (\<^verbatim>\<open>mem_cache/common.py\<close>, \<^verbatim>\<open>managers/schedule_batch.py\<close>, \<open>check_pic_constraints\<close> of \<^verbatim>\<open>server_args.py\<close>): decode
    allocation, release, and the start-up check, which leaves the page size and the mamba strategy open.

  \<^bold>\<open>The forward pass.\<close>
  \<^item> \<open>Conv_Tails\<close>, \<open>Gdn_Metadata\<close> (\<^verbatim>\<open>pic/conv_tails.py\<close>, \<open>init_pic_metadata\<close>): capture and load of convolution histories and the plan of a
    batch; every missed segment starts from the last inputs of the segment directly before it.
  \<^item> \<open>Gdn_Compose\<close> (\<open>forward_extend_pic_addition\<close>, \<open>forward_extend_pic_transition\<close>): how stored and computed states are composed. The
    kernels and the matrix product are the record \<open>gdn_kernels\<close>; \<open>kernels_ok\<close> states what their comments say: a segment is a
    sequence of affine steps, the second pass multiplies the gates. Under it the transition mode is exact for every batch.
  \<^item> \<open>Gdn_Recompute\<close> (\<open>_build_pic_recompute_metadata\<close>, \<open>forward_extend_pic_transition_recompute\<close>): the plan of the recompute mode covers
    the tokens of the batch; its composition applies the sink tokens of cached segments twice.

  \<^bold>\<open>Scheduling and transfer.\<close>
  \<^item> \<open>Sched_Queue\<close> (\<^verbatim>\<open>managers/scheduler.py\<close> and the abort hooks it calls): admission, queue limit, timeouts, aborts.
  \<^item> \<open>Pic_Scatter\<close>, \<open>Pic_Scatter_Props\<close>, \<open>Pic_Scatter_Locks\<close>, \<open>Pic_Scatter_Gate\<close> (\<^verbatim>\<open>pic/scatter_xfer.py\<close> and its hooks in the scheduler): the
    handlers of both sides; a step relation over them with slot conservation in every reachable state; the pins that keep a segment from
    eviction while it is written; the notification strings; the gate, timeout and billing of a combine.

  \<^bold>\<open>The radix cache.\<close>
  \<^item> \<open>Radix_Key\<close>, \<open>Radix_Cache\<close> (\<^verbatim>\<open>mem_cache/radix_cache.py\<close>): keys with their galloping comparison, nodes, and all operations of the
    cache, over the token allocator (the free path of page size 1 and larger is the same call).
  \<^item> \<open>Radix_Tree\<close>, \<open>Radix_Refine\<close>, \<open>Radix_Insert\<close>: the object graph as a map from prefixes to slots, per namespace. Lookup and insertion refine
    the two operations of this map; splitting a node is invisible in it.
  \<^item> \<open>Radix_Lock\<close>: a lock protects the path to the root and is undone exactly; eviction removes unlocked leaves until enough tokens are
    freed, frees exactly their slots and keeps every path to a kept node; the size walk counts every node once.

  \<^bold>\<open>Bounds.\<close> A loop that follows references between nodes takes a bound and raises \<open>OutOfFuel\<close> when it is used up. Lookup and
  insertion walk down with the length of the key plus one: each step consumes at least one page, and the refinement theorems show that they
  return. Walks towards the root, eviction and the size walk take the number of nodes ever created, plus one where the loop
  tests its condition once more; \<open>Radix_Lock\<close> shows that they return. The blocking wait of a write is a \<open>partial_function\<close> that returns once the clock passes the deadline. All other recursion is structural or has
  a termination proof.

  \<^bold>\<open>Not modelled.\<close> Tensor contents, dtypes and rounding, and the kernels of attention, convolution and recurrence; model layers, sampling and
  CUDA graphs; the event loops, batch construction and result processing of the scheduler; HTTP and gRPC entry points, tokenizer and detokenizer
  processes; the transport (NIXL) below the scatter protocol and the other disaggregation backends; the host-memory, sliding-window,
  mamba and unified variants of the radix cache; speculative decoding beyond its reservation sizes; the KDA and lightning backends; metrics,
  logs and diagnostic dumps, which do not change the modelled state.
\<close>

end
